(* ===== verification/Prelude.thy ===== *)
theory Prelude
  imports Main "HOL-Library.Word"
begin

text \<open>
  Shared vocabulary of the development: the outcomes a piece of kernel code can have, the
  names of the kernel's locks and sleep channels, the sequencing operator that threads
  outcomes, and the generic lemmas on searching and updating tables that the components use.
\<close>

unbundle bit_operations_syntax

named_theorems kres_simps \<open>evaluation of sequenced kernel code\<close>
named_theorems base_simps \<open>what an operation leaves unchanged of the CPU and lock state\<close>

section \<open>Machine types\<close>

type_synonym u8 = "8 word"
type_synonym u16 = "16 word"
type_synonym u32 = "32 word"

lemma unat32_bound: "unat (a :: u32) < 2 ^ 32"
  using unsigned_less[where 'a = nat, of a] by simp

lemma unat32_of_nat: "n < 2 ^ 32 \<Longrightarrow> unat (of_nat n :: u32) = n"
  by (simp add: unsigned_of_nat take_bit_nat_eq_self)

section \<open>Kernel objects that code refers to by address\<close>

text \<open>
  Spin locks and sleep channels are global objects or fields of table entries; the code
  only ever compares their addresses, so they are named by constructors.
\<close>

datatype slid = BufSl nat | InodeSl nat

datatype lockid = PtableLock | TicksLock | KmemLock | ConsLock | BcacheLock | LogLock
  | IcacheLock | FtableLock | IdeLock | NsysLock | ShmemLock | PrioLock
  | SleepLk slid | PipeLock nat

datatype chan = NoChan | ProcChan nat | TicksChan | InputChan | LogChan | BufChan nat
  | SleepChan slid | PipeReadChan nat | PipeWriteChan nat

section \<open>Outcomes\<close>

text \<open>
  Code returns a value, calls \<^verbatim>\<open>panic\<close>, spins for ever on a lock that another holder keeps,
  goes to sleep on a channel, or does something C leaves undefined (a null dereference or
  an access outside an array).
\<close>

datatype kerr = Panic string | Spin lockid | Sleeps chan | Fault string

type_synonym 'a kres = "kerr + 'a"

definition kbind :: "'a kres \<Rightarrow> ('a \<Rightarrow> 'b kres) \<Rightarrow> 'b kres" where
  "kbind r f = (case r of Inl e \<Rightarrow> Inl e | Inr x \<Rightarrow> f x)"

lemma kbind_Inl [simp, kres_simps]: "kbind (Inl e) f = Inl e"
  by (simp add: kbind_def)

lemma kbind_Inr [simp, kres_simps]: "kbind (Inr x) f = f x"
  by (simp add: kbind_def)

lemma kbind_eq_Inr: "kbind r f = Inr y \<longleftrightarrow> (\<exists>x. r = Inr x \<and> f x = Inr y)"
  by (cases r) simp_all

lemma kbind_InrE:
  assumes "kbind r f = Inr y"
  obtains x where "r = Inr x" and "f x = Inr y"
  using assms by (auto simp: kbind_eq_Inr)

lemma kbind_cong [fundef_cong]:
  "r = r' \<Longrightarrow> (\<And>x. r' = Inr x \<Longrightarrow> f x = g x) \<Longrightarrow> kbind r f = kbind r' g"
  by (cases r') (simp_all add: kbind_def)

lemma kbind_assoc: "kbind (kbind r f) g = kbind r (\<lambda>x. kbind (f x) g)"
  by (cases r) simp_all

section \<open>Table search\<close>

text \<open>The loop that scans a table and stops at the first entry that satisfies a test.\<close>

fun find_idx :: "('a \<Rightarrow> bool) \<Rightarrow> 'a list \<Rightarrow> nat option" where
  "find_idx P [] = None"
| "find_idx P (x # xs) = (if P x then Some 0 else map_option Suc (find_idx P xs))"

lemma find_idx_None_iff: "find_idx P xs = None \<longleftrightarrow> (\<forall>x \<in> set xs. \<not> P x)"
  by (induction xs) auto

lemma find_idx_Some_iff:
  "find_idx P xs = Some i \<longleftrightarrow> i < length xs \<and> P (xs ! i) \<and> (\<forall>j < i. \<not> P (xs ! j))"
proof (induction xs arbitrary: i)
  case (Cons x xs)
  show ?case
    by (cases i) (auto simp: Cons.IH less_Suc_eq_0_disj)
qed simp

lemma find_idx_SomeD:
  assumes "find_idx P xs = Some i"
  shows "i < length xs" and "P (xs ! i)" and "\<And>j. j < i \<Longrightarrow> \<not> P (xs ! j)"
  using assms by (simp_all add: find_idx_Some_iff)

lemma find_idx_NoneD: "find_idx P xs = None \<Longrightarrow> i < length xs \<Longrightarrow> \<not> P (xs ! i)"
  by (simp add: find_idx_None_iff)

lemma find_idx_SomeI:
  "i < length xs \<Longrightarrow> P (xs ! i) \<Longrightarrow> (\<And>j. j < i \<Longrightarrow> \<not> P (xs ! j)) \<Longrightarrow> find_idx P xs = Some i"
  by (simp add: find_idx_Some_iff)

lemma find_idx_ex: "x \<in> set xs \<Longrightarrow> P x \<Longrightarrow> \<exists>i. find_idx P xs = Some i"
  by (metis find_idx_None_iff not_Some_eq)

lemma find_idx_map: "find_idx P (map f xs) = find_idx (P \<circ> f) xs"
  by (induction xs) simp_all

text \<open>An index kept by a test that looks only at data an update leaves alone.\<close>

lemma find_idx_cong_nth:
  assumes "length xs = length ys" and "\<And>i. i < length xs \<Longrightarrow> P (xs ! i) = Q (ys ! i)"
  shows "find_idx P xs = find_idx Q ys"
  using assms
proof (induction xs arbitrary: ys)
  case (Cons x xs)
  then obtain y ys' where ys: "ys = y # ys'" by (cases ys) auto
  have "P x = Q y" using Cons.prems(2) [of 0] ys by simp
  moreover have "find_idx P xs = find_idx Q ys'"
  proof (rule Cons.IH)
    show "length xs = length ys'" using Cons.prems(1) ys by simp
    show "P (xs ! i) = Q (ys' ! i)" if "i < length xs" for i
      using Cons.prems(2) [of "Suc i"] ys that by simp
  qed
  ultimately show ?case by (simp add: ys)
qed simp

lemma map_list_update_same:
  "i < length xs \<Longrightarrow> f y = f (xs ! i) \<Longrightarrow> map f (xs[i := y]) = map f xs"
  by (metis list_update_id map_update)

section \<open>Invariants of step relations\<close>

text \<open>
  A step relation with its initial states and an invariant that the steps keep. The
  reachable states, and the fact that the invariant holds in all of them, are shared by the
  protocols of the development.
\<close>

inductive reach :: "('s \<Rightarrow> bool) \<Rightarrow> ('s \<Rightarrow> 's \<Rightarrow> bool) \<Rightarrow> 's \<Rightarrow> bool"
  for init :: "'s \<Rightarrow> bool" and step :: "'s \<Rightarrow> 's \<Rightarrow> bool" where
  reach_init: "init s \<Longrightarrow> reach init step s"
| reach_step: "reach init step s \<Longrightarrow> step s t \<Longrightarrow> reach init step t"

locale step_invariant =
  fixes init :: "'s \<Rightarrow> bool" and step :: "'s \<Rightarrow> 's \<Rightarrow> bool" and inv :: "'s \<Rightarrow> bool"
  assumes init_inv: "init s \<Longrightarrow> inv s"
    and step_inv: "inv s \<Longrightarrow> step s t \<Longrightarrow> inv t"
begin

lemma reach_inv: "reach init step s \<Longrightarrow> inv s"
  by (induction rule: reach.induct) (auto intro: init_inv step_inv)

end

text \<open>Offsets into a ring buffer of \<open>n\<close> entries.\<close>

lemma mod_shift_inj:
  assumes "(a + j) mod n = (a + k) mod (n :: nat)" "j < n" "k < n"
  shows "j = k"
  using assms
proof (induction j k rule: linorder_wlog)
  case (le j k)
  then have "n dvd (a + k) - (a + j)" by (metis mod_eq_dvd_iff_nat nat_add_left_cancel_le)
  then have "n dvd k - j" by simp
  then show ?case using le by (auto dest: dvd_imp_le)
qed auto

end
