(* ===== verification/Memory.thy ===== *)
theory Memory
  imports Prelude
begin

text \<open>
  Byte-addressed memory and the routines of \<^verbatim>\<open>string.c\<close> (with the string instructions of
  \<^verbatim>\<open>x86.h\<close> they use). Addresses are the kernel's 32-bit virtual addresses; words are
  little-endian. The loops are translated as they are written and then shown equal to what
  they mean: \<open>fill\<close> and \<open>copied\<close>.
\<close>

named_theorems mem_simps \<open>reading memory after writing it\<close>

type_synonym bytes = "u32 \<Rightarrow> u8"

section \<open>Words in memory\<close>

definition read32 :: "bytes \<Rightarrow> u32 \<Rightarrow> u32" where
  "read32 m a = ucast (m a) OR push_bit 8 (ucast (m (a + 1))) OR push_bit 16 (ucast (m (a + 2)))
                OR push_bit 24 (ucast (m (a + 3)))"

definition write32 :: "bytes \<Rightarrow> u32 \<Rightarrow> u32 \<Rightarrow> bytes" where
  "write32 m a v = m(a := ucast v, a + 1 := ucast (drop_bit 8 v),
                     a + 2 := ucast (drop_bit 16 v), a + 3 := ucast (drop_bit 24 v))"

section \<open>String instructions and string.c\<close>

primrec stosb :: "bytes \<Rightarrow> u32 \<Rightarrow> u8 \<Rightarrow> nat \<Rightarrow> bytes" where
  "stosb m addr data 0 = m"
| "stosb m addr data (Suc cnt) = stosb (m(addr := data)) (addr + 1) data cnt"

primrec stosl :: "bytes \<Rightarrow> u32 \<Rightarrow> u32 \<Rightarrow> nat \<Rightarrow> bytes" where
  "stosl m addr data 0 = m"
| "stosl m addr data (Suc cnt) = stosl (write32 m addr data) (addr + 4) data cnt"

definition memset :: "bytes \<Rightarrow> u32 \<Rightarrow> u32 \<Rightarrow> u32 \<Rightarrow> bytes" where
  "memset m dst c n =
     (if dst mod 4 = 0 \<and> n mod 4 = 0 then
        let c = c AND 0xFF in
        stosl m dst (push_bit 24 c OR push_bit 16 c OR push_bit 8 c OR c) (unat n div 4)
      else stosb m dst (ucast c) (unat n))"

primrec memcmp_loop :: "bytes \<Rightarrow> u32 \<Rightarrow> u32 \<Rightarrow> nat \<Rightarrow> int" where
  "memcmp_loop m s1 s2 0 = 0"
| "memcmp_loop m s1 s2 (Suc n) =
     (if m s1 \<noteq> m s2 then uint (m s1) - uint (m s2) else memcmp_loop m (s1 + 1) (s2 + 1) n)"

definition memcmp :: "bytes \<Rightarrow> u32 \<Rightarrow> u32 \<Rightarrow> u32 \<Rightarrow> int" where
  "memcmp m v1 v2 n = memcmp_loop m v1 v2 (unat n)"

primrec copy_up :: "bytes \<Rightarrow> u32 \<Rightarrow> u32 \<Rightarrow> nat \<Rightarrow> bytes" where
  "copy_up m d s 0 = m"
| "copy_up m d s (Suc n) = copy_up (m(d := m s)) (d + 1) (s + 1) n"

primrec copy_down :: "bytes \<Rightarrow> u32 \<Rightarrow> u32 \<Rightarrow> nat \<Rightarrow> bytes" where
  "copy_down m d s 0 = m"
| "copy_down m d s (Suc n) = copy_down (m(d - 1 := m (s - 1))) (d - 1) (s - 1) n"

definition memmove :: "bytes \<Rightarrow> u32 \<Rightarrow> u32 \<Rightarrow> u32 \<Rightarrow> bytes" where
  "memmove m dst src n =
     (if src < dst \<and> src + n > dst then copy_down m (dst + n) (src + n) (unat n)
      else copy_up m dst src (unat n))"

definition memcpy :: "bytes \<Rightarrow> u32 \<Rightarrow> u32 \<Rightarrow> u32 \<Rightarrow> bytes" where
  "memcpy m dst src n = memmove m dst src n"

primrec strncmp_loop :: "bytes \<Rightarrow> u32 \<Rightarrow> u32 \<Rightarrow> nat \<Rightarrow> int" where
  "strncmp_loop m p q 0 = 0"
| "strncmp_loop m p q (Suc n) =
     (if m p \<noteq> 0 \<and> m p = m q then strncmp_loop m (p + 1) (q + 1) n
      else uint (m p) - uint (m q))"

definition strncmp :: "bytes \<Rightarrow> u32 \<Rightarrow> u32 \<Rightarrow> u32 \<Rightarrow> int" where
  "strncmp m p q n = strncmp_loop m p q (unat n)"

text \<open>
  \<^verbatim>\<open>strncpy\<close> and \<^verbatim>\<open>safestrcpy\<close> copy up to and including a NUL while the count lasts; the first
  then fills the rest with NULs, the second stops one short of the count and terminates.
\<close>

primrec strncpy_loop :: "bytes \<Rightarrow> u32 \<Rightarrow> u32 \<Rightarrow> nat \<Rightarrow> bytes" where
  "strncpy_loop m s t 0 = m"
| "strncpy_loop m s t (Suc n) =
     (if m t \<noteq> 0 then strncpy_loop (m(s := m t)) (s + 1) (t + 1) n
      else stosb (m(s := m t)) (s + 1) 0 n)"

definition strncpy :: "bytes \<Rightarrow> u32 \<Rightarrow> u32 \<Rightarrow> int \<Rightarrow> bytes" where
  "strncpy m s t n = strncpy_loop m s t (nat n)"

primrec safestrcpy_loop :: "bytes \<Rightarrow> u32 \<Rightarrow> u32 \<Rightarrow> nat \<Rightarrow> bytes" where
  "safestrcpy_loop m s t 0 = m(s := 0)"
| "safestrcpy_loop m s t (Suc n) =
     (if m t \<noteq> 0 then safestrcpy_loop (m(s := m t)) (s + 1) (t + 1) n
      else (m(s := m t))(s + 1 := 0))"

definition safestrcpy :: "bytes \<Rightarrow> u32 \<Rightarrow> u32 \<Rightarrow> int \<Rightarrow> bytes" where
  "safestrcpy m s t n = (if n \<le> 0 then m else safestrcpy_loop m s t (nat n - 1))"

text \<open>\<^verbatim>\<open>strlen\<close> does not end in a memory without a NUL: not returning is \<open>None\<close>.\<close>

partial_function (option) strlen_from :: "bytes \<Rightarrow> u32 \<Rightarrow> u32 \<Rightarrow> u32 option" where
  "strlen_from m s n = (if m (s + n) = 0 then Some n else strlen_from m s (n + 1))"

definition strlen :: "bytes \<Rightarrow> u32 \<Rightarrow> u32 option" where
  "strlen m s = strlen_from m s 0"

section \<open>Words\<close>

lemma read32_write32_same [mem_simps, simp]: "read32 (write32 m a v) a = v"
proof (rule bit_word_eqI)
  fix n assume "n < LENGTH(32)"
  then show "bit (read32 (write32 m a v) a) n = bit v n"
    by (cases "24 \<le> n"; cases "16 \<le> n"; cases "8 \<le> n")
       (auto simp: read32_def write32_def bit_or_iff bit_push_bit_iff bit_ucast_iff bit_drop_bit_eq)
qed

lemma read32_cong:
  assumes "\<And>i. unat i < 4 \<Longrightarrow> m (a + i) = m' (a + i)"
  shows "read32 m a = read32 m' a"
  using assms[of 0] assms[of 1] assms[of 2] assms[of 3] by (simp add: read32_def)

lemma unat_less_4: "unat (i :: u32) < 4 \<longleftrightarrow> i = 0 \<or> i = 1 \<or> i = 2 \<or> i = 3"
proof -
  have "unat i < 4 \<longleftrightarrow> unat i = 0 \<or> unat i = unat (1 :: u32) \<or> unat i = unat (2 :: u32) \<or> unat i = unat (3 :: u32)"
    by simp linarith
  then show ?thesis by (simp only: word_unat_eq_iff[symmetric] unat_eq_0)
qed

lemma write32_other:
  "(\<And>i. unat i < 4 \<Longrightarrow> x \<noteq> a + i) \<Longrightarrow> write32 m a v x = m x"
  unfolding write32_def unat_less_4 by (metis add_0_right fun_upd_apply)

text \<open>Distinct aligned words do not overlap.\<close>

lemma unat_aligned_add:
  fixes a i :: u32
  assumes "4 dvd unat a" "unat i < 4"
  shows "unat (a + i) = unat a + unat i"
proof -
  have "unat a < 2 ^ 32" using unat32_bound[of a] by simp
  then have "unat a + unat i < 2 ^ 32" using assms by (auto elim!: dvdE)
  then show ?thesis by (simp add: unat_word_ariths)
qed

lemma aligned_disjoint:
  fixes a b i j :: u32
  assumes "4 dvd unat a" "4 dvd unat b" "a \<noteq> b" "unat i < 4" "unat j < 4"
  shows "a + i \<noteq> b + j"
proof
  assume "a + i = b + j"
  then have "unat a + unat i = unat b + unat j"
    using assms unat_aligned_add by metis
  moreover obtain k l where "unat a = 4 * k" "unat b = 4 * l" using assms(1,2) by (auto elim!: dvdE)
  ultimately have "unat a = unat b" using assms(4,5) by presburger
  then show False using assms(3) by (simp add: word_unat_eq_iff)
qed

lemma read32_write32_other [mem_simps]:
  assumes "4 dvd unat a" "4 dvd unat b" "a \<noteq> b"
  shows "read32 (write32 m a v) b = read32 m b"
  using assms by (intro read32_cong write32_other) (metis aligned_disjoint)

section \<open>memset\<close>

definition fill :: "bytes \<Rightarrow> u32 \<Rightarrow> u8 \<Rightarrow> nat \<Rightarrow> bytes" where
  "fill m a d n = (\<lambda>x. if unat (x - a) < n then d else m x)"

lemma offset_step:
  fixes x a :: u32
  assumes "n < 2 ^ 32"
  shows "unat (x - (a + 1)) < n \<longleftrightarrow> x \<noteq> a \<and> unat (x - a) < Suc n"
proof (cases "x = a")
  case True
  have "x - (a + 1) = (- 1 :: u32)" using True by simp
  moreover have "unat (- 1 :: u32) = 2 ^ 32 - 1"
    by (simp add: unsigned_minus_1_eq_mask mask_eq_exp_minus_1)
  ultimately show ?thesis using True assms by (simp only:) auto
next
  case False
  then have "unat (x - a - 1) = unat (x - a) - 1" and "0 < unat (x - a)"
    by (auto simp: unat_minus_one unat_gt_0)
  then show ?thesis using False by (auto simp: diff_diff_eq)
qed

lemma stosb_fill: "n \<le> 2 ^ 32 \<Longrightarrow> stosb m a d n = fill m a d n"
proof (induction n arbitrary: m a)
  case (Suc n)
  then have "stosb m a d (Suc n) = fill (m(a := d)) (a + 1) d n" by simp
  also have "\<dots> = fill m a d (Suc n)"
    using Suc.prems by (auto simp: fill_def fun_eq_iff offset_step)
  finally show ?case .
qed (simp add: fill_def)

lemma write32_repeat: "write32 m a v = fill m a d 4"
  if "ucast v = d" "ucast (drop_bit 8 v) = d" "ucast (drop_bit 16 v) = d" "ucast (drop_bit 24 v) = d"
proof
  fix x
  have "unat (x - a) < 4 \<longleftrightarrow> x \<in> {a, a + 1, a + 2, a + 3}"
    unfolding unat_less_4 by (auto simp: algebra_simps)
  then show "write32 m a v x = fill m a d 4 x"
    using that by (auto simp: write32_def fill_def)
qed

lemma fill_fill:
  assumes "k + n \<le> 2 ^ 32" "unat c = k"
  shows "fill (fill m a d k) (a + c) d n = fill m a d (k + n)"
proof
  fix x
  define y where "y = x - a"
  have "x - (a + c) = y - c" by (simp add: y_def algebra_simps)
  moreover have "unat (y - c) = (if k \<le> unat y then unat y - k else unat y + 2 ^ 32 - k)"
    using assms(2) by (simp add: unat_sub_if')
  ultimately have "unat (x - (a + c)) = (if k \<le> unat (x - a) then unat (x - a) - k else unat (x - a) + 2 ^ 32 - k)"
    by (simp only: y_def)
  then show "fill (fill m a d k) (a + c) d n x = fill m a d (k + n) x"
    using assms(1) by (auto simp: fill_def)
qed

lemma stosl_fill:
  assumes "ucast v = d" "ucast (drop_bit 8 v) = d" "ucast (drop_bit 16 v) = d" "ucast (drop_bit 24 v) = d"
    and "4 * n \<le> 2 ^ 32"
  shows "stosl m a v n = fill m a d (4 * n)"
  using assms(5)
proof (induction n arbitrary: m a)
  case (Suc n)
  then have "stosl m a v (Suc n) = fill (fill m a d 4) (a + 4) d (4 * n)"
    by (simp add: write32_repeat[OF assms(1-4)])
  also have "\<dots> = fill m a d (4 + 4 * n)" using Suc.prems by (intro fill_fill) auto
  finally show ?case by simp
qed (simp add: fill_def)

lemma memset_word_bytes:
  fixes c :: u32
  defines "v \<equiv> push_bit 24 (c AND 0xFF) OR push_bit 16 (c AND 0xFF) OR push_bit 8 (c AND 0xFF) OR (c AND 0xFF)"
  shows "ucast v = (ucast c :: u8)" "ucast (drop_bit 8 v) = (ucast c :: u8)"
    "ucast (drop_bit 16 v) = (ucast c :: u8)" "ucast (drop_bit 24 v) = (ucast c :: u8)"
proof -
  have ff: "(0xFF :: u32) = mask 8" by (simp add: mask_eq_exp_minus_1)
  show "ucast v = (ucast c :: u8)" "ucast (drop_bit 8 v) = (ucast c :: u8)"
    "ucast (drop_bit 16 v) = (ucast c :: u8)" "ucast (drop_bit 24 v) = (ucast c :: u8)"
    unfolding v_def ff
    by (rule bit_word_eqI;
        auto simp: bit_or_iff bit_and_iff bit_push_bit_iff bit_ucast_iff bit_drop_bit_eq bit_mask_iff)+
qed

lemma memset_fill: "memset m dst c n = fill m dst (ucast c) (unat n)"
proof (cases "dst mod 4 = 0 \<and> n mod 4 = 0")
  case True
  have "unat (n mod 4) = unat n mod unat (4 :: u32)" by (rule unat_mod)
  with True have "unat n mod 4 = 0" by simp
  then have n: "4 * (unat n div 4) = unat n" by auto
  have "stosl m dst (push_bit 24 (c AND 0xFF) OR push_bit 16 (c AND 0xFF) OR push_bit 8 (c AND 0xFF)
          OR (c AND 0xFF)) (unat n div 4) = fill m dst (ucast c) (4 * (unat n div 4))"
    using unat32_bound[of n] n by (intro stosl_fill memset_word_bytes) simp
  with True n show ?thesis by (simp only: memset_def Let_def simp_thms if_True)
next
  case False
  then show ?thesis using unat32_bound[of n] by (auto simp: memset_def stosb_fill)
qed

section \<open>memmove\<close>

definition copied :: "bytes \<Rightarrow> u32 \<Rightarrow> u32 \<Rightarrow> nat \<Rightarrow> bytes" where
  "copied m d s n = (\<lambda>x. if unat (x - d) < n then m (s + (x - d)) else m x)"

lemma copy_up_copied:
  assumes "n \<le> 2 ^ 32" "unat (d - s) = 0 \<or> n \<le> unat (d - s)"
  shows "copy_up m d s n = copied m d s n"
  using assms
proof (induction n arbitrary: m d s)
  case (Suc n)
  have diff: "d + 1 - (s + 1) = d - s" by simp
  then have IH: "copy_up m d s (Suc n) = copied (m(d := m s)) (d + 1) (s + 1) n"
    using Suc.prems by (simp only: copy_up.simps) (rule Suc.IH; auto)
  show ?case
  proof
    fix x
    show "copy_up m d s (Suc n) x = copied m d s (Suc n) x"
    proof (cases "x \<noteq> d \<and> unat (x - d) < Suc n")
      case True
      have "s + (x - d) \<noteq> d \<or> s = d"
      proof (rule ccontr)
        assume "\<not> (s + (x - d) \<noteq> d \<or> s = d)"
        then have "x - d = d - s" "s \<noteq> d" by (auto simp: algebra_simps)
        then show False using True Suc.prems(2) by (auto simp: unat_eq_0)
      qed
      moreover have "s + 1 + (x - (d + 1)) = s + (x - d)" by simp
      ultimately show ?thesis using True Suc.prems(1) unfolding IH
        by (auto simp: copied_def offset_step)
    next
      case False
      then show ?thesis using Suc.prems(1) unfolding IH by (auto simp: copied_def offset_step)
    qed
  qed
qed (simp add: copied_def)

lemma offset_last:
  fixes x d :: u32
  assumes "n < 2 ^ 32"
  shows "unat (x - d) < Suc n \<longleftrightarrow> unat (x - d) < n \<or> x = d + of_nat n"
proof -
  have "unat (x - d) = n \<longleftrightarrow> x - d = of_nat n"
    using assms by (auto simp: unat32_of_nat)
  then show ?thesis by (auto simp: less_Suc_eq algebra_simps)
qed

lemma copy_down_copied:
  assumes "n \<le> 2 ^ 32" "unat (s - d) = 0 \<or> n \<le> unat (s - d)"
  shows "copy_down m (d + of_nat n) (s + of_nat n) n = copied m d s n"
  using assms
proof (induction n arbitrary: m)
  case (Suc n)
  let ?m = "m(d + of_nat n := m (s + of_nat n))"
  have IH: "copy_down m (d + of_nat (Suc n)) (s + of_nat (Suc n)) (Suc n) = copied ?m d s n"
  proof -
    have e: "d + of_nat (Suc n) - 1 = d + of_nat n" "s + of_nat (Suc n) - 1 = s + of_nat n" by simp_all
    show ?thesis unfolding copy_down.simps e by (rule Suc.IH) (use Suc.prems in auto)
  qed
  show ?case
  proof
    fix x
    show "copy_down m (d + of_nat (Suc n)) (s + of_nat (Suc n)) (Suc n) x = copied m d s (Suc n) x"
    proof (cases "unat (x - d) < n")
      case True
      have "s + (x - d) \<noteq> d + of_nat n \<or> s = d"
      proof (rule ccontr)
        assume "\<not> (s + (x - d) \<noteq> d + of_nat n \<or> s = d)"
        then have eq: "s - d = of_nat n - (x - d)" and "s \<noteq> d" by (auto simp: algebra_simps)
        have "unat (of_nat n - (x - d)) \<le> n"
          using True Suc.prems(1) by (simp add: unat_sub word_le_nat_alt unat32_of_nat)
        then have "unat (s - d) \<le> n" by (simp only: eq)
        with \<open>s \<noteq> d\<close> Suc.prems(2) show False by (auto simp: unat_eq_0)
      qed
      then show ?thesis using True unfolding IH by (auto simp: copied_def)
    next
      case False
      then show ?thesis using Suc.prems(1) unfolding IH
        by (auto simp: copied_def offset_last unat32_of_nat)
    qed
  qed
qed (simp add: copied_def)

lemma memmove_copied:
  assumes "unat dst + unat n < 2 ^ 32" and "unat src + unat n < 2 ^ 32"
  shows "memmove m dst src n = copied m dst src (unat n)"
proof (cases "src < dst \<and> src + n > dst")
  case True
  have sn: "unat (src + n) = unat src + unat n" using assms(2) by (simp add: unat_word_ariths)
  have "unat (src - dst) = 2 ^ 32 + unat src - unat dst"
    using True by (simp add: unat_sub_if' word_less_nat_alt)
  then have "unat n \<le> unat (src - dst)" using assms True sn by (simp add: word_less_nat_alt)
  then show ?thesis
    using True copy_down_copied[of "unat n" src dst m] unat32_bound[of n]
    by (simp add: memmove_def copied_def)
next
  case False
  have sn: "unat (src + n) = unat src + unat n" using assms(2) by (simp add: unat_word_ariths)
  have "unat (dst - src) = 0 \<or> unat n \<le> unat (dst - src)"
    using assms False sn by (cases "src = dst") (auto simp: unat_sub_if' word_less_nat_alt word_unat_eq_iff)
  then show ?thesis
    using False copy_up_copied[of "unat n" dst src m] unat32_bound[of n]
    by (auto simp: memmove_def copied_def)
qed

text \<open>
  C40. \<^verbatim>\<open>memmove\<close> copies correctly between overlapping regions: when neither region wraps around
  the address space, afterwards every destination byte is the source byte of before the call,
  and every byte outside the destination is unchanged.
\<close>

theorem memmove_correct:
  assumes "unat dst + unat n < 2 ^ 32" and "unat src + unat n < 2 ^ 32"
  shows "memmove m dst src n = (\<lambda>x. if unat (x - dst) < unat n then m (src + (x - dst)) else m x)"
  using memmove_copied[OF assms] by (simp add: copied_def)

theorem memmove_correct_witness:
  "memmove (\<lambda>x. ucast x) 101 100 3 102 = 101 \<and> memmove (\<lambda>x. ucast x) 101 100 3 104 = 104"
  using memmove_correct[of 101 3 100 "\<lambda>x. ucast x"] by simp

section \<open>String routines\<close>

lemma strlen_from_steps:
  assumes "m (s + n + of_nat k) = 0" and "\<And>i. i < k \<Longrightarrow> m (s + n + of_nat i) \<noteq> 0"
  shows "strlen_from m s n = Some (n + of_nat k)"
  using assms
proof (induction k arbitrary: n)
  case 0
  then show ?case by (subst strlen_from.simps) simp
next
  case (Suc k)
  have "strlen_from m s (n + 1) = Some (n + 1 + of_nat k)"
  proof (rule Suc.IH)
    show "m (s + (n + 1) + of_nat k) = 0" using Suc.prems(1) by (simp add: algebra_simps)
    show "m (s + (n + 1) + of_nat i) \<noteq> 0" if "i < k" for i
      using Suc.prems(2)[of "Suc i"] that by (simp add: algebra_simps)
  qed
  then show ?case using Suc.prems(2)[of 0] by (subst strlen_from.simps) (simp add: algebra_simps)
qed

text \<open>
  \<^verbatim>\<open>strlen\<close> returns whenever there is a NUL, and returns the distance to the first one.
\<close>

theorem strlen_first_nul:
  assumes "m (s + of_nat k) = 0" and "\<And>i. i < k \<Longrightarrow> m (s + of_nat i) \<noteq> 0"
  shows "strlen m s = Some (of_nat k)"
  using strlen_from_steps[of m s 0 k] assms by (simp add: strlen_def)

theorem strlen_first_nul_witness:
  "strlen (\<lambda>x. if x = 12 then 0 else 65) 10 = Some 2"
proof -
  have ne: "(10 :: u32) + of_nat i \<noteq> 12" if "i < 2" for i
    using that by (cases i rule: nat.exhaust) (auto simp: less_Suc_eq)
  show ?thesis using strlen_first_nul[of "\<lambda>x. if x = 12 then 0 else 65" 10 2] ne by simp
qed

end
