(* ===== verification/Spinlock.thy ===== *)
theory Spinlock
  imports Memory
begin

text \<open>
  Spin locks (\<^verbatim>\<open>spinlock.c\<close>) and the per-CPU state they use (\<^verbatim>\<open>struct cpu\<close> of \<^verbatim>\<open>proc.h\<close>, and
  \<^verbatim>\<open>mycpu\<close>, \<^verbatim>\<open>cpuid\<close>, \<^verbatim>\<open>myproc\<close> of \<^verbatim>\<open>proc.c\<close>). The state record \<open>kbase\<close> is extended by every
  component above, so that \<open>acquire\<close> and \<open>release\<close> are the same functions in all of them.
  The executing CPU is the one whose local APIC id is in \<open>lapicid\<close>.
\<close>

section \<open>State\<close>

record cpu =
  apicid :: nat
  ncli :: int
  intena :: bool
  cproc :: "nat option"
  nsyscall :: int

record spinlock =
  locked :: bool
  lkname :: string
  lkcpu :: "nat option"
  pcs :: "u32 list"

text \<open>
  \<open>eflags_if\<close> is the interrupt flag of each CPU (indexed by APIC id), \<open>mem\<close> the memory and
  \<open>frame\<close> the address of the current argument slot on the kernel stack, which only the
  debugging record of call sites reads.
\<close>

record kbase =
  cpus :: "cpu list"
  lapicid :: nat
  eflags_if :: "nat \<Rightarrow> bool"
  locks :: "lockid \<Rightarrow> spinlock"
  mem :: bytes
  frame :: u32

definition KERNBASE :: u32 where
  "KERNBASE = 0x80000000"

section \<open>Operations\<close>

definition readeflags :: "'a kbase_scheme \<Rightarrow> bool" where
  "readeflags s = eflags_if s (lapicid s)"

definition cli :: "'a kbase_scheme \<Rightarrow> 'a kbase_scheme" where
  "cli s = s\<lparr>eflags_if := (eflags_if s)(lapicid s := False)\<rparr>"

definition sti :: "'a kbase_scheme \<Rightarrow> 'a kbase_scheme" where
  "sti s = s\<lparr>eflags_if := (eflags_if s)(lapicid s := True)\<rparr>"

definition mycpu :: "'a kbase_scheme \<Rightarrow> nat kres" where
  "mycpu s =
     (if readeflags s then Inl (Panic ''mycpu called with interrupts enabled'')
      else case find_idx (\<lambda>c. apicid c = lapicid s) (cpus s) of
             Some i \<Rightarrow> Inr i
           | None \<Rightarrow> Inl (Panic ''unknown apicid''))"

definition cpuid :: "'a kbase_scheme \<Rightarrow> nat kres" where
  "cpuid s = mycpu s"

definition pushcli :: "'a kbase_scheme \<Rightarrow> ('a kbase_scheme) kres" where
  "pushcli s =
     (let eflags = readeflags s; s1 = cli s in
      kbind (mycpu s1) (\<lambda>c.
        let k = cpus s1 ! c;
            k1 = (if ncli k = 0 then k\<lparr>intena := eflags\<rparr> else k);
            k2 = k1\<lparr>ncli := ncli k1 + 1\<rparr>
        in Inr (s1\<lparr>cpus := (cpus s1)[c := k2]\<rparr>)))"

definition popcli :: "'a kbase_scheme \<Rightarrow> ('a kbase_scheme) kres" where
  "popcli s =
     (if readeflags s then Inl (Panic ''popcli - interruptible'')
      else kbind (mycpu s) (\<lambda>c.
        let k = (cpus s ! c)\<lparr>ncli := ncli (cpus s ! c) - 1\<rparr>;
            s1 = s\<lparr>cpus := (cpus s)[c := k]\<rparr>
        in if ncli k < 0 then Inl (Panic ''popcli'')
           else if ncli k = 0 \<and> intena k then Inr (sti s1)
           else Inr s1))"

definition myproc :: "'a kbase_scheme \<Rightarrow> (nat option \<times> 'a kbase_scheme) kres" where
  "myproc s =
     kbind (pushcli s) (\<lambda>s1.
     kbind (mycpu s1) (\<lambda>c.
     let p = cproc (cpus s1 ! c) in
     kbind (popcli s1) (\<lambda>s2. Inr (p, s2))))"

definition initlock :: "lockid \<Rightarrow> string \<Rightarrow> 'a kbase_scheme \<Rightarrow> 'a kbase_scheme" where
  "initlock l nm s =
     s\<lparr>locks := (locks s)(l := (locks s l)\<lparr>lkname := nm, locked := False, lkcpu := None\<rparr>)\<rparr>"

definition holding :: "lockid \<Rightarrow> 'a kbase_scheme \<Rightarrow> (bool \<times> 'a kbase_scheme) kres" where
  "holding l s =
     kbind (pushcli s) (\<lambda>s1.
     kbind (mycpu s1) (\<lambda>c.
     let r = (locked (locks s1 l) \<and> lkcpu (locks s1 l) = Some c) in
     kbind (popcli s1) (\<lambda>s2. Inr (r, s2))))"

text \<open>\<^verbatim>\<open>getcallerpcs\<close> follows at most ten saved frame pointers and zero-fills the rest.\<close>

fun callerpcs_walk :: "bytes \<Rightarrow> nat \<Rightarrow> u32 \<Rightarrow> u32 list" where
  "callerpcs_walk m 0 ebp = []"
| "callerpcs_walk m (Suc n) ebp =
     (if ebp = 0 \<or> ebp < KERNBASE \<or> ebp = 0xffffffff then replicate (Suc n) 0
      else read32 m (ebp + 4) # callerpcs_walk m n (read32 m ebp))"

definition getcallerpcs :: "bytes \<Rightarrow> u32 \<Rightarrow> u32 list" where
  "getcallerpcs m v = callerpcs_walk m 10 (v - 8)"

text \<open>
  \<^verbatim>\<open>acquire\<close> exchanges 1 into \<^verbatim>\<open>lk->locked\<close> until it read 0. When another CPU holds the lock
  the loop does not end by anything this CPU does: the outcome is \<open>Spin\<close>.
\<close>

definition xchg_locked :: "lockid \<Rightarrow> 'a kbase_scheme \<Rightarrow> bool \<times> 'a kbase_scheme" where
  "xchg_locked l s =
     (locked (locks s l), s\<lparr>locks := (locks s)(l := (locks s l)\<lparr>locked := True\<rparr>)\<rparr>)"

definition acquire :: "lockid \<Rightarrow> 'a kbase_scheme \<Rightarrow> ('a kbase_scheme) kres" where
  "acquire l s =
     kbind (pushcli s) (\<lambda>s1.
     kbind (holding l s1) (\<lambda>(h, s2).
     if h then Inl (Panic ''acquire'')
     else let (old, s3) = xchg_locked l s2 in
       if old then Inl (Spin l)
       else kbind (mycpu s3) (\<lambda>c.
         Inr (s3\<lparr>locks := (locks s3)(l := (locks s3 l)
           \<lparr>lkcpu := Some c, pcs := getcallerpcs (mem s3) (frame s3)\<rparr>)\<rparr>))))"

definition release :: "lockid \<Rightarrow> 'a kbase_scheme \<Rightarrow> ('a kbase_scheme) kres" where
  "release l s =
     kbind (holding l s) (\<lambda>(h, s1).
     if \<not> h then Inl (Panic ''release'')
     else popcli (s1\<lparr>locks := (locks s1)(l := (locks s1 l)
            \<lparr>pcs := (pcs (locks s1 l))[0 := 0], lkcpu := None, locked := False\<rparr>)\<rparr>))"

section \<open>The lock state clients see\<close>

text \<open>
  \<open>core\<close> is the part of the CPU and lock state that matters to code using locks: it forgets
  the saved interrupt flag of a CPU that is in no critical section and the debugging fields
  of a lock, and the memory. Two states with the same core are interchangeable for every later acquire and
  release. \<open>take_lock\<close> and \<open>drop_lock\<close> are what acquire and release do to it.
\<close>

definition cpu_norm :: "cpu \<Rightarrow> cpu" where
  "cpu_norm k = k\<lparr>intena := (intena k \<and> ncli k \<noteq> 0)\<rparr>"

definition lock_norm :: "spinlock \<Rightarrow> spinlock" where
  "lock_norm l = l\<lparr>pcs := [], lkcpu := (if locked l then lkcpu l else None)\<rparr>"

definition core :: "'a kbase_scheme \<Rightarrow> kbase" where
  "core s = \<lparr>cpus = map cpu_norm (cpus s), lapicid = lapicid s, eflags_if = eflags_if s,
             locks = (\<lambda>l. lock_norm (locks s l)), mem = (\<lambda>_. 0), frame = 0\<rparr>"

definition cpu_ok :: "nat \<Rightarrow> kbase \<Rightarrow> bool" where
  "cpu_ok c k \<longleftrightarrow> find_idx (\<lambda>x. apicid x = lapicid k) (cpus k) = Some c
     \<and> 0 \<le> ncli (cpus k ! c) \<and> (0 < ncli (cpus k ! c) \<longrightarrow> \<not> eflags_if k (lapicid k))"

definition lock_free :: "lockid \<Rightarrow> kbase \<Rightarrow> bool" where
  "lock_free l k \<longleftrightarrow> \<not> locked (locks k l)"

definition lock_held :: "lockid \<Rightarrow> nat \<Rightarrow> kbase \<Rightarrow> bool" where
  "lock_held l c k \<longleftrightarrow> locked (locks k l) \<and> lkcpu (locks k l) = Some c \<and> 0 < ncli (cpus k ! c)"

definition take_lock :: "lockid \<Rightarrow> nat \<Rightarrow> kbase \<Rightarrow> kbase" where
  "take_lock l c k =
     k\<lparr>cpus := (cpus k)[c := (cpus k ! c)
          \<lparr>ncli := ncli (cpus k ! c) + 1,
           intena := (if ncli (cpus k ! c) = 0 then eflags_if k (lapicid k) else intena (cpus k ! c))\<rparr>],
       eflags_if := (eflags_if k)(lapicid k := False),
       locks := (locks k)(l := (locks k l)\<lparr>locked := True, lkcpu := Some c\<rparr>)\<rparr>"

definition drop_lock :: "lockid \<Rightarrow> nat \<Rightarrow> kbase \<Rightarrow> kbase" where
  "drop_lock l c k =
     k\<lparr>cpus := (cpus k)[c := (cpus k ! c)
          \<lparr>ncli := ncli (cpus k ! c) - 1, intena := (intena (cpus k ! c) \<and> ncli (cpus k ! c) \<noteq> 1)\<rparr>],
       eflags_if := (if ncli (cpus k ! c) = 1 \<and> intena (cpus k ! c)
                     then (eflags_if k)(lapicid k := True) else eflags_if k),
       locks := (locks k)(l := (locks k l)\<lparr>locked := False, lkcpu := None\<rparr>)\<rparr>"

definition normal :: "kbase \<Rightarrow> bool" where
  "normal k \<longleftrightarrow> map cpu_norm (cpus k) = cpus k \<and> (\<forall>l. lock_norm (locks k l) = locks k l)"

text \<open>The full states after a successful acquire, release, and a look at the CPU record.\<close>

definition acquired :: "lockid \<Rightarrow> nat \<Rightarrow> 'a kbase_scheme \<Rightarrow> 'a kbase_scheme" where
  "acquired l c s =
     s\<lparr>cpus := (cpus s)[c := (cpus s ! c)
          \<lparr>ncli := ncli (cpus s ! c) + 1,
           intena := (if ncli (cpus s ! c) = 0 then readeflags s else intena (cpus s ! c))\<rparr>],
       eflags_if := (eflags_if s)(lapicid s := False),
       locks := (locks s)(l := (locks s l)\<lparr>locked := True, lkcpu := Some c,
          pcs := getcallerpcs (mem s) (frame s)\<rparr>)\<rparr>"

definition released :: "lockid \<Rightarrow> nat \<Rightarrow> 'a kbase_scheme \<Rightarrow> 'a kbase_scheme" where
  "released l c s =
     s\<lparr>cpus := (cpus s)[c := (cpus s ! c)\<lparr>ncli := ncli (cpus s ! c) - 1\<rparr>],
       eflags_if := (if ncli (cpus s ! c) = 1 \<and> intena (cpus s ! c)
                     then (eflags_if s)(lapicid s := True) else eflags_if s),
       locks := (locks s)(l := (locks s l)
         \<lparr>pcs := (pcs (locks s l))[0 := 0], lkcpu := None, locked := False\<rparr>)\<rparr>"

definition touched :: "nat \<Rightarrow> 'a kbase_scheme \<Rightarrow> 'a kbase_scheme" where
  "touched c s =
     s\<lparr>cpus := (cpus s)[c := (cpus s ! c)
          \<lparr>intena := (if ncli (cpus s ! c) = 0 then readeflags s else intena (cpus s ! c))\<rparr>]\<rparr>"

subsection \<open>Facts about the normal form\<close>

lemma cpu_norm_simps [simp]:
  "apicid (cpu_norm k) = apicid k" "ncli (cpu_norm k) = ncli k"
  "cproc (cpu_norm k) = cproc k" "nsyscall (cpu_norm k) = nsyscall k"
  "intena (cpu_norm k) = (intena k \<and> ncli k \<noteq> 0)" "cpu_norm (cpu_norm k) = cpu_norm k"
  by (simp_all add: cpu_norm_def)

lemma lock_norm_simps [simp]:
  "locked (lock_norm l) = locked l" "lkname (lock_norm l) = lkname l"
  "lkcpu (lock_norm l) = (if locked l then lkcpu l else None)" "pcs (lock_norm l) = []"
  "lock_norm (lock_norm l) = lock_norm l"
  by (simp_all add: lock_norm_def)

lemma core_simps [simp]:
  "cpus (core s) = map cpu_norm (cpus s)" "lapicid (core s) = lapicid s"
  "eflags_if (core s) = eflags_if s" "locks (core s) l = lock_norm (locks s l)"
  "mem (core s) = (\<lambda>_. 0)" "frame (core s) = 0" "core (mem_update f s) = core s"
  by (simp_all add: core_def)

lemma normal_core [simp]: "normal (core s)"
  by (simp add: normal_def comp_def)

lemma find_core_cpu:
  "find_idx (\<lambda>x. apicid x = a) (map cpu_norm ks) = find_idx (\<lambda>x. apicid x = a) ks"
  by (simp add: find_idx_map comp_def)

lemma cpu_okD:
  assumes "cpu_ok c (core s)"
  shows "find_idx (\<lambda>x. apicid x = lapicid s) (cpus s) = Some c" and "c < length (cpus s)"
    and "0 \<le> ncli (cpus s ! c)" and "0 < ncli (cpus s ! c) \<Longrightarrow> \<not> eflags_if s (lapicid s)"
proof -
  show find: "find_idx (\<lambda>x. apicid x = lapicid s) (cpus s) = Some c"
    using assms by (simp add: cpu_ok_def find_core_cpu)
  show c: "c < length (cpus s)" using find by (rule find_idx_SomeD)
  show "0 \<le> ncli (cpus s ! c)" "0 < ncli (cpus s ! c) \<Longrightarrow> \<not> eflags_if s (lapicid s)"
    using assms c by (simp_all add: cpu_ok_def)
qed

lemma find_apicid_update:
  assumes "c < length ks" and "apicid k = apicid (ks ! c)"
  shows "find_idx (\<lambda>x. apicid x = a) (ks[c := k]) = find_idx (\<lambda>x. apicid x = a) ks"
  using assms by (intro find_idx_cong_nth) (auto simp: nth_list_update)

lemma cpu_ok_length: "cpu_ok c k \<Longrightarrow> c < length (cpus k)"
  by (auto simp: cpu_ok_def dest: find_idx_SomeD)

lemma cpu_ok_take [simp]: "cpu_ok c k \<Longrightarrow> cpu_ok c (take_lock l c k)"
  by (frule cpu_ok_length) (auto simp: cpu_ok_def take_lock_def find_apicid_update)

lemma normal_intena: "normal k \<Longrightarrow> c < length (cpus k) \<Longrightarrow> ncli (cpus k ! c) = 0 \<Longrightarrow> \<not> intena (cpus k ! c)"
  unfolding normal_def by (metis cpu_norm_simps(5) nth_map)

lemma normal_free: "normal k \<Longrightarrow> \<not> locked (locks k l) \<Longrightarrow> lkcpu (locks k l) = None"
  unfolding normal_def by (metis lock_norm_simps(3))

lemma normal_take [simp]:
  assumes "normal k" and "cpu_ok c k"
  shows "normal (take_lock l c k)"
proof -
  have c: "c < length (cpus k)" and n: "0 \<le> ncli (cpus k ! c)"
    using assms(2) by (auto simp: cpu_ok_def dest: find_idx_SomeD)
  have "\<And>i. i < length (cpus k) \<Longrightarrow> cpu_norm (cpus k ! i) = cpus k ! i"
    using assms(1) by (metis nth_map normal_def)
  then have "map cpu_norm (cpus (take_lock l c k)) = cpus (take_lock l c k)"
    using c n by (intro nth_equalityI) (auto simp: take_lock_def nth_list_update cpu_norm_def)
  moreover have norm: "lock_norm (locks k l') = locks k l'" for l'
    using assms(1) by (simp add: normal_def)
  have pcs_norm: "pcs (locks k l) = []"
    by (subst norm [of l, symmetric]) simp
  from norm have "lock_norm (locks (take_lock l c k) l') = locks (take_lock l c k) l'" for l'
    using pcs_norm by (cases "l' = l") (auto simp: take_lock_def lock_norm_def intro!: spinlock.equality)
  ultimately show ?thesis by (simp add: normal_def)
qed

lemma lock_free_take [simp]: "lock_free l' (take_lock l c k) \<longleftrightarrow> l' \<noteq> l \<and> lock_free l' k"
  by (simp add: lock_free_def take_lock_def)

lemma lock_held_take [simp]:
  assumes "cpu_ok c k"
  shows "lock_held l c (take_lock l c k)" and "lock_held l' c k \<Longrightarrow> lock_held l' c (take_lock l c k)"
  using assms cpu_ok_length [OF assms]
  by (auto simp: lock_held_def take_lock_def cpu_ok_def)

text \<open>Taking a free lock and dropping it again gives back the same core.\<close>

lemma drop_take [simp]:
  assumes "normal k" and "cpu_ok c k" and "lock_free l k"
  shows "drop_lock l c (take_lock l c k) = k"
proof -
  have c: "c < length (cpus k)" using assms(2) by (rule cpu_ok_length)
  have intena: "ncli (cpus k ! c) = 0 \<Longrightarrow> \<not> intena (cpus k ! c)"
    using normal_intena [OF assms(1) c] by blast
  have lk: "lkcpu (locks k l) = None" and nl: "\<not> locked (locks k l)"
    using assms(1,3) by (auto simp: lock_free_def dest: normal_free)
  have "(cpus k)[c := (cpus k ! c)\<lparr>ncli := 0, intena := False\<rparr>] = cpus k"
    if "ncli (cpus k ! c) = 0"
  proof -
    have "(cpus k ! c)\<lparr>ncli := 0, intena := False\<rparr> = cpus k ! c"
      using intena that by (intro cpu.equality) auto
    then show ?thesis by (metis list_update_id)
  qed
  moreover have "(locks k l)\<lparr>locked := False, lkcpu := None\<rparr> = locks k l"
    using lk nl by (auto intro!: spinlock.equality)
  ultimately show ?thesis
    using assms(2) c intena
    by (cases "ncli (cpus k ! c) = 0")
       (auto simp: drop_lock_def take_lock_def cpu_ok_def fun_upd_idem intro!: kbase.equality)
qed

section \<open>What the operations do\<close>

lemma mycpu_ok: "cpu_ok c (core s) \<Longrightarrow> \<not> eflags_if s (lapicid s) \<Longrightarrow> mycpu s = Inr c"
  by (simp add: mycpu_def readeflags_def cpu_okD)

lemma pushcli_ok:
  assumes "cpu_ok c (core s)"
  shows "pushcli s = Inr (s\<lparr>cpus := (cpus s)[c := (cpus s ! c)
            \<lparr>ncli := ncli (cpus s ! c) + 1,
             intena := (if ncli (cpus s ! c) = 0 then readeflags s else intena (cpus s ! c))\<rparr>],
          eflags_if := (eflags_if s)(lapicid s := False)\<rparr>)"
  using cpu_okD [OF assms]
  by (auto simp: pushcli_def Let_def mycpu_def cli_def readeflags_def
      intro!: kbase.equality arg_cong [of _ _ "list_update (cpus s) c"] cpu.equality)

lemma popcli_ok:
  assumes "cpu_ok c (core s)" and "0 < ncli (cpus s ! c)"
  shows "popcli s = Inr (s\<lparr>cpus := (cpus s)[c := (cpus s ! c)\<lparr>ncli := ncli (cpus s ! c) - 1\<rparr>],
           eflags_if := (if ncli (cpus s ! c) = 1 \<and> intena (cpus s ! c)
                         then (eflags_if s)(lapicid s := True) else eflags_if s)\<rparr>)"
  using cpu_okD [OF assms(1)] assms(2)
  by (auto simp: popcli_def Let_def mycpu_def sti_def readeflags_def)

text \<open>Entering and leaving with nothing between leaves only the saved flag touched.\<close>

lemma push_pop:
  assumes "cpu_ok c (core s)"
  shows "kbind (pushcli s) (\<lambda>s1. kbind (mycpu s1) (\<lambda>c. kbind (popcli s1) (\<lambda>s2. Inr (f c s1, s2))))
         = Inr (f c (the (case pushcli s of Inr t \<Rightarrow> Some t | _ \<Rightarrow> None)), touched c s)"
proof -
  let ?k = "cpus s ! c"
  define s1 where "s1 = s\<lparr>cpus := (cpus s)[c := ?k\<lparr>ncli := ncli ?k + 1,
      intena := (if ncli ?k = 0 then readeflags s else intena ?k)\<rparr>],
      eflags_if := (eflags_if s)(lapicid s := False)\<rparr>"
  have p: "pushcli s = Inr s1" unfolding s1_def using assms by (rule pushcli_ok)
  note ok = cpu_okD [OF assms]
  have ok1: "cpu_ok c (core s1)"
    using ok by (auto simp: s1_def cpu_ok_def find_core_cpu find_apicid_update)
  have "popcli s1 = Inr (touched c s)"
    using ok by (subst popcli_ok [OF ok1])
      (auto simp: s1_def touched_def readeflags_def fun_upd_idem intro!: kbase.equality
        arg_cong [of _ _ "list_update (cpus s) c"] cpu.equality)
  moreover have "mycpu s1 = Inr c" using ok1 by (rule mycpu_ok) (simp add: s1_def)
  ultimately show ?thesis by (simp add: p)
qed

lemma core_touched [simp]: "cpu_ok c (core s) \<Longrightarrow> core (touched c s) = core s"
  by (frule cpu_okD(2))
     (auto simp: core_def touched_def cpu_norm_def intro!: nth_equalityI simp: nth_list_update)

lemma myproc_ok:
  assumes "cpu_ok c (core s)"
  shows "myproc s = Inr (cproc (cpus (core s) ! c), touched c s)"
  using push_pop [OF assms, of "\<lambda>c s1. cproc (cpus s1 ! c)"] cpu_okD [OF assms]
  by (simp add: myproc_def pushcli_ok [OF assms] Let_def)

lemma holding_ok:
  assumes "cpu_ok c (core s)"
  shows "holding l s = Inr (locked (locks s l) \<and> lkcpu (locks s l) = Some c, touched c s)"
  using push_pop [OF assms, of "\<lambda>c s1. locked (locks s1 l) \<and> lkcpu (locks s1 l) = Some c"]
  by (simp add: holding_def pushcli_ok [OF assms] Let_def)

lemma touched_critical: "cpu_ok c (core s) \<Longrightarrow> 0 < ncli (cpus s ! c) \<Longrightarrow> touched c s = s"
  by (frule cpu_okD(2)) (auto simp: touched_def intro!: kbase.equality)

text \<open>
  The state after \<^verbatim>\<open>pushcli\<close> has a CPU in a critical section, so \<^verbatim>\<open>holding\<close> changes nothing
  there and the three outcomes of \<open>acquire\<close> depend on the lock alone.
\<close>

lemma acquire_cases:
  assumes "cpu_ok c (core s)"
  shows "acquire l s =
     (if \<not> locked (locks s l) then Inr (acquired l c s)
      else if lkcpu (locks s l) = Some c then Inl (Panic ''acquire'') else Inl (Spin l))"
proof -
  let ?k = "cpus s ! c"
  define s1 where "s1 = s\<lparr>cpus := (cpus s)[c := ?k\<lparr>ncli := ncli ?k + 1,
      intena := (if ncli ?k = 0 then readeflags s else intena ?k)\<rparr>],
      eflags_if := (eflags_if s)(lapicid s := False)\<rparr>"
  have p: "pushcli s = Inr s1" unfolding s1_def using assms by (rule pushcli_ok)
  note ok = cpu_okD [OF assms]
  have ok1: "cpu_ok c (core s1)"
    using ok by (auto simp: s1_def cpu_ok_def find_core_cpu find_apicid_update)
  have crit: "touched c s1 = s1"
    using ok1 by (rule touched_critical) (use ok in \<open>simp add: s1_def\<close>)
  have my: "mycpu (s1\<lparr>locks := ls\<rparr>) = Inr c" for ls
    using ok by (simp add: s1_def mycpu_def readeflags_def find_apicid_update)
  have "locks s1 = locks s" "mem s1 = mem s" "frame s1 = frame s"
    and "acquired l c s = s1\<lparr>locks := (locks s)(l := (locks s l)\<lparr>locked := True, lkcpu := Some c,
          pcs := getcallerpcs (mem s) (frame s)\<rparr>)\<rparr>"
    by (simp_all add: s1_def acquired_def)
  then show ?thesis
    by (simp add: acquire_def p holding_ok [OF ok1] crit xchg_locked_def my)
qed

lemma acquire_ok: "cpu_ok c (core s) \<Longrightarrow> lock_free l (core s) \<Longrightarrow> acquire l s = Inr (acquired l c s)"
  by (simp add: acquire_cases lock_free_def)

lemma acquire_own:
  "cpu_ok c (core s) \<Longrightarrow> lock_held l c (core s) \<Longrightarrow> acquire l s = Inl (Panic ''acquire'')"
  by (simp add: acquire_cases lock_held_def split: if_splits)

lemma release_ok:
  assumes "cpu_ok c (core s)" and "lock_held l c (core s)"
  shows "release l s = Inr (released l c s)"
proof -
  note ok = cpu_okD [OF assms(1)]
  have held: "locked (locks s l)" "lkcpu (locks s l) = Some c" "0 < ncli (cpus s ! c)"
    using assms(2) ok(2) by (auto simp: lock_held_def split: if_splits)
  have crit: "touched c s = s" using assms(1) held(3) by (rule touched_critical)
  let ?s = "s\<lparr>locks := (locks s)(l := (locks s l)
            \<lparr>pcs := (pcs (locks s l))[0 := 0], lkcpu := None, locked := False\<rparr>)\<rparr>"
  have "cpu_ok c (core ?s)" using assms(1) by (simp add: cpu_ok_def)
  from popcli_ok [OF this] held show ?thesis
    by (simp add: release_def holding_ok [OF assms(1)] crit released_def)
qed

lemma release_not_held:
  "cpu_ok c (core s) \<Longrightarrow> \<not> (locked (locks s l) \<and> lkcpu (locks s l) = Some c)
   \<Longrightarrow> release l s = Inl (Panic ''release'')"
  by (simp add: release_def holding_ok)

lemma core_acquired [simp]:
  assumes "cpu_ok c (core s)"
  shows "core (acquired l c s) = take_lock l c (core s)"
proof -
  note ok = cpu_okD [OF assms]
  have "map cpu_norm (cpus (acquired l c s)) = cpus (take_lock l c (core s))"
    using ok by (intro nth_equalityI)
      (auto simp: acquired_def take_lock_def nth_list_update cpu_norm_def readeflags_def intro!: cpu.equality)
  moreover have "lock_norm (locks (acquired l c s) l') = locks (take_lock l c (core s)) l'" for l'
    by (auto simp: acquired_def take_lock_def lock_norm_def)
  ultimately show ?thesis
    by (intro kbase.equality) (auto simp: acquired_def take_lock_def)
qed

lemma core_released [simp]:
  assumes "cpu_ok c (core s)" and "lock_held l c (core s)"
  shows "core (released l c s) = drop_lock l c (core s)"
proof -
  note ok = cpu_okD [OF assms(1)]
  have n: "0 < ncli (cpus s ! c)" using assms(2) ok(2) by (simp add: lock_held_def)
  have "map cpu_norm (cpus (released l c s)) = cpus (drop_lock l c (core s))"
    using ok n by (intro nth_equalityI)
      (auto simp: released_def drop_lock_def nth_list_update cpu_norm_def intro!: cpu.equality)
  moreover have "lock_norm (locks (released l c s) l') = locks (drop_lock l c (core s)) l'" for l'
    by (auto simp: released_def drop_lock_def lock_norm_def)
  ultimately show ?thesis
    using ok n by (intro kbase.equality) (auto simp: released_def drop_lock_def)
qed

text \<open>Memory and the current process are not affected by locking.\<close>

definition cur :: "nat \<Rightarrow> kbase \<Rightarrow> nat option" where
  "cur c k = cproc (cpus k ! c)"

lemma cur_take [simp]: "cpu_ok c k \<Longrightarrow> cur c (take_lock l c k) = cur c k"
  by (frule cpu_ok_length) (simp add: cur_def take_lock_def)

lemma myproc_cur: "cpu_ok c (core s) \<Longrightarrow> myproc s = Inr (cur c (core s), touched c s)"
  by (simp only: myproc_ok cur_def)

lemma base_frame [simp]:
  "mem (acquired l c s) = mem s" "mem (released l c s) = mem s" "mem (touched c s) = mem s"
  "lapicid (acquired l c s) = lapicid s" "lapicid (released l c s) = lapicid s" "lapicid (touched c s) = lapicid s"
  by (simp_all add: acquired_def released_def touched_def)

section \<open>The locking discipline as an interface\<close>

text \<open>
  Code that uses several locks relies on four laws only. In their presence, taking any
  distinct free locks and dropping them in the reverse order restores the lock state, and
  a lock that is held cannot be taken again.
\<close>

locale lock_discipline =
  fixes taken dropped :: "lockid \<Rightarrow> 'k \<Rightarrow> 'k"
    and free :: "lockid \<Rightarrow> 'k \<Rightarrow> bool" and ok :: "'k \<Rightarrow> bool"
  assumes dropped_taken: "ok k \<Longrightarrow> free l k \<Longrightarrow> dropped l (taken l k) = k"
    and ok_taken: "ok k \<Longrightarrow> ok (taken l k)"
    and free_taken: "free l' (taken l k) \<longleftrightarrow> l' \<noteq> l \<and> free l' k"
begin

lemma self_exclusion: "\<not> free l (taken l k)"
  by (simp add: free_taken)

lemma nested_balance:
  assumes "ok k" and "distinct ls" and "\<And>l. l \<in> set ls \<Longrightarrow> free l k"
  shows "foldr dropped ls (fold taken ls k) = k"
  using assms
proof (induction ls arbitrary: k)
  case (Cons l ls)
  have "foldr dropped ls (fold taken ls (taken l k)) = taken l k"
    using Cons.prems by (intro Cons.IH) (auto simp: ok_taken free_taken)
  then show ?case using Cons.prems by (simp add: dropped_taken)
qed simp

end

interpretation cpu_locks: lock_discipline "\<lambda>l. take_lock l c" "\<lambda>l. drop_lock l c" lock_free
    "\<lambda>k. normal k \<and> cpu_ok c k" for c
  by unfold_locales simp_all

section \<open>Mutual exclusion between CPUs\<close>

text \<open>
  Several CPUs run \<open>acquire\<close> and \<open>release\<close> on the shared lock table; each exchange of the
  lock word is atomic, so a step is one complete successful call by one CPU (a CPU that
  spins takes no step). The set of pairs (APIC id, lock) records the calls: an acquire that
  returned and no later release. The interrupt flags may change at any time.
\<close>

type_synonym lock_run = "kbase \<times> (nat \<times> lockid) set"

inductive lock_step :: "lock_run \<Rightarrow> lock_run \<Rightarrow> bool" where
  acq: "acquire l (s\<lparr>lapicid := a\<rparr>) = Inr t \<Longrightarrow> lock_step (s, H) (t, insert (a, l) H)"
| rel: "release l (s\<lparr>lapicid := a\<rparr>) = Inr t \<Longrightarrow> lock_step (s, H) (t, H - {(a, l)})"
| intr: "lock_step (s, H) (s\<lparr>eflags_if := f\<rparr>, H)"

definition lock_start :: "lock_run \<Rightarrow> bool" where
  "lock_start r \<longleftrightarrow> distinct (map apicid (cpus (fst r))) \<and> (\<forall>l. \<not> locked (locks (fst r) l)) \<and> snd r = {}"

definition owner_apic :: "kbase \<Rightarrow> lockid \<Rightarrow> nat option" where
  "owner_apic s l =
     (if locked (locks s l) then
        (case lkcpu (locks s l) of
           Some c \<Rightarrow> if c < length (cpus s) then Some (apicid (cpus s ! c)) else None
         | None \<Rightarrow> None)
      else None)"

definition lock_inv :: "lock_run \<Rightarrow> bool" where
  "lock_inv r \<longleftrightarrow> distinct (map apicid (cpus (fst r))) \<and>
     (\<forall>a l. (a, l) \<in> snd r \<longleftrightarrow> owner_apic (fst r) l = Some a)"

lemma same_apicids:
  assumes "map apicid xs = map apicid ys"
  shows "length xs = length ys" and "c < length ys \<Longrightarrow> apicid (xs ! c) = apicid (ys ! c)"
proof -
  show len: "length xs = length ys" using arg_cong [OF assms, of length] by simp
  then show "c < length ys \<Longrightarrow> apicid (xs ! c) = apicid (ys ! c)" using assms by (metis nth_map)
qed

lemma pushcli_InrD:
  assumes "pushcli s = Inr t"
  shows "locks t = locks s" "map apicid (cpus t) = map apicid (cpus s)" "lapicid t = lapicid s"
  using assms
  by (auto simp: pushcli_def Let_def cli_def mycpu_def readeflags_def
      split: option.splits if_splits dest!: find_idx_SomeD(1) intro!: map_list_update_same)

lemma popcli_InrD:
  assumes "popcli s = Inr t"
  shows "locks t = locks s" "map apicid (cpus t) = map apicid (cpus s)" "lapicid t = lapicid s"
  using assms
  by (auto simp: popcli_def Let_def sti_def mycpu_def readeflags_def
      split: option.splits if_splits dest!: find_idx_SomeD(1) intro!: map_list_update_same)

lemma mycpu_InrD:
  assumes "mycpu s = Inr c"
  shows "c < length (cpus s)" "apicid (cpus s ! c) = lapicid s"
  using assms by (auto simp: mycpu_def split: if_splits option.splits dest: find_idx_SomeD)

lemma holding_InrD:
  assumes "holding l s = Inr (h, t)"
  obtains c where "locks t = locks s" "map apicid (cpus t) = map apicid (cpus s)"
    "lapicid t = lapicid s" "c < length (cpus t)" "apicid (cpus t ! c) = lapicid t"
    "h \<longleftrightarrow> locked (locks s l) \<and> lkcpu (locks s l) = Some c"
proof -
  from assms obtain s1 c where p: "pushcli s = Inr s1" and m: "mycpu s1 = Inr c"
    and q: "popcli s1 = Inr t" and h: "h \<longleftrightarrow> locked (locks s1 l) \<and> lkcpu (locks s1 l) = Some c"
    by (auto simp: holding_def Let_def kbind_eq_Inr)
  note P = pushcli_InrD [OF p] and Q = popcli_InrD [OF q] and M = mycpu_InrD [OF m]
  from M same_apicids [OF Q(2)] have "c < length (cpus t)" "apicid (cpus t ! c) = lapicid s1"
    by simp_all
  then show ?thesis using P Q h by (intro that [of c]) auto
qed

lemma acquire_InrD:
  assumes "acquire l s = Inr t"
  obtains c where "\<not> locked (locks s l)" "map apicid (cpus t) = map apicid (cpus s)"
    "c < length (cpus t)" "apicid (cpus t ! c) = lapicid s"
    "locked (locks t l)" "lkcpu (locks t l) = Some c" "\<And>l'. l' \<noteq> l \<Longrightarrow> locks t l' = locks s l'"
proof -
  from assms obtain s1 h s2 c where p: "pushcli s = Inr s1" and q: "holding l s1 = Inr (h, s2)"
    and nl: "\<not> locked (locks s2 l)"
    and m: "mycpu (s2\<lparr>locks := (locks s2)(l := (locks s2 l)\<lparr>locked := True\<rparr>)\<rparr>) = Inr c"
    and t: "t = s2\<lparr>locks := (locks s2)(l := (locks s2 l)
         \<lparr>locked := True, lkcpu := Some c, pcs := getcallerpcs (mem s2) (frame s2)\<rparr>)\<rparr>"
    by (auto simp: acquire_def xchg_locked_def kbind_eq_Inr split: if_splits)
  note P = pushcli_InrD [OF p] and M = mycpu_InrD [OF m]
  from q obtain c' where Q: "locks s2 = locks s1" "map apicid (cpus s2) = map apicid (cpus s1)"
      "lapicid s2 = lapicid s1"
    by (rule holding_InrD)
  from nl P Q M t show ?thesis by (intro that [of c]) auto
qed

lemma release_InrD:
  assumes "release l s = Inr t"
  obtains c where "locked (locks s l)" "lkcpu (locks s l) = Some c"
    "map apicid (cpus t) = map apicid (cpus s)" "c < length (cpus t)"
    "apicid (cpus t ! c) = lapicid s" "\<not> locked (locks t l)"
    "\<And>l'. l' \<noteq> l \<Longrightarrow> locks t l' = locks s l'"
proof -
  from assms obtain s1 where h: "holding l s = Inr (True, s1)"
    and q: "popcli (s1\<lparr>locks := (locks s1)(l := (locks s1 l)
            \<lparr>pcs := (pcs (locks s1 l))[0 := 0], lkcpu := None, locked := False\<rparr>)\<rparr>) = Inr t"
    by (auto simp: release_def kbind_eq_Inr split: if_splits)
  from h obtain c where H: "locks s1 = locks s" "map apicid (cpus s1) = map apicid (cpus s)"
    "lapicid s1 = lapicid s" "c < length (cpus s1)" "apicid (cpus s1 ! c) = lapicid s1"
    "locked (locks s l)" "lkcpu (locks s l) = Some c"
    by (auto elim: holding_InrD)
  note Q = popcli_InrD [OF q]
  from H(3-5) same_apicids [OF Q(2)] have "c < length (cpus t)" "apicid (cpus t ! c) = lapicid s"
    by simp_all
  then show ?thesis using H Q by (intro that [of c]) auto
qed

lemma owner_apic_cong:
  assumes "map apicid (cpus t) = map apicid (cpus s)" and "locks t l = locks s l"
  shows "owner_apic t l = owner_apic s l"
  using same_apicids [OF assms(1)] by (auto simp: owner_apic_def assms(2) split: option.splits)

lemma lock_step_inv:
  assumes "lock_inv r" and "lock_step r r'"
  shows "lock_inv r'"
  using assms(2,1)
proof (cases rule: lock_step.cases)
  case (acq l a s t H)
  from acq(3) obtain c where A: "\<not> locked (locks s l)" "map apicid (cpus t) = map apicid (cpus s)"
    "c < length (cpus t)" "apicid (cpus t ! c) = a" "locked (locks t l)" "lkcpu (locks t l) = Some c"
    "\<And>l'. l' \<noteq> l \<Longrightarrow> locks t l' = locks s l'"
    by (auto elim: acquire_InrD)
  have "owner_apic t l = Some a" "owner_apic s l = None" using A by (simp_all add: owner_apic_def)
  moreover have "owner_apic t l' = owner_apic s l'" if "l' \<noteq> l" for l'
    using that A by (intro owner_apic_cong) auto
  ultimately show ?thesis
    using assms(1) A(2) by (auto simp: acq(1,2) lock_inv_def) (metis option.inject option.distinct(1))+
next
  case (rel l a s t H)
  from rel(3) obtain c where R: "locked (locks s l)" "lkcpu (locks s l) = Some c"
    "map apicid (cpus t) = map apicid (cpus s)" "c < length (cpus t)" "apicid (cpus t ! c) = a"
    "\<not> locked (locks t l)" "\<And>l'. l' \<noteq> l \<Longrightarrow> locks t l' = locks s l'"
    by (auto elim: release_InrD)
  have "owner_apic t l = None" using R by (simp add: owner_apic_def)
  moreover have "owner_apic s l = Some a" using R same_apicids [OF R(3)] by (simp add: owner_apic_def)
  moreover have "owner_apic t l' = owner_apic s l'" if "l' \<noteq> l" for l'
    using that R by (intro owner_apic_cong) auto
  ultimately show ?thesis
    using assms(1) R(3) by (auto simp: rel(1,2) lock_inv_def) (metis option.inject option.distinct(1))+
next
  case (intr s H f)
  have "owner_apic (s\<lparr>eflags_if := f\<rparr>) l = owner_apic s l" for l
    by (rule owner_apic_cong) simp_all
  with intr assms(1) show ?thesis by (simp add: lock_inv_def)
qed

interpretation cpu_mutex: step_invariant lock_start lock_step lock_inv
proof unfold_locales
  fix r show "lock_start r \<Longrightarrow> lock_inv r"
    by (auto simp: lock_start_def lock_inv_def owner_apic_def)
qed (rule lock_step_inv)

section \<open>Properties\<close>

text \<open>
  C25. \<^verbatim>\<open>acquire\<close> followed by \<^verbatim>\<open>release\<close>: on a CPU whose records are consistent, a free lock is
  taken without panic or spinning, is then held by that CPU, releasing it succeeds, and the
  CPU and lock state is what it was (interrupt flag and nesting depth included).
\<close>

theorem acquire_release_balanced:
  assumes "cpu_ok c (core s)" and "lock_free l (core s)"
  shows "\<exists>s1 s2. acquire l s = Inr s1 \<and> lock_held l c (core s1) \<and> release l s1 = Inr s2 \<and> core s2 = core s"
proof (intro exI conjI)
  show "acquire l s = Inr (acquired l c s)" using assms by (rule acquire_ok)
  have ok: "cpu_ok c (core (acquired l c s))" and held: "lock_held l c (core (acquired l c s))"
    using assms(1) by simp_all
  show "lock_held l c (core (acquired l c s))" by (rule held)
  show "release l (acquired l c s) = Inr (released l c (acquired l c s))"
    using ok held by (rule release_ok)
  show "core (released l c (acquired l c s)) = core s"
    using assms ok held by simp
qed

text \<open>A one-CPU machine with interrupts on and every lock free.\<close>

definition boot_cpu :: cpu where
  "boot_cpu = \<lparr>apicid = 0, ncli = 0, intena = False, cproc = None, nsyscall = 0\<rparr>"

definition boot_lock :: spinlock where
  "boot_lock = \<lparr>locked = False, lkname = [], lkcpu = None, pcs = []\<rparr>"

definition boot_kbase :: kbase where
  "boot_kbase = \<lparr>cpus = [boot_cpu, boot_cpu\<lparr>apicid := 1\<rparr>], lapicid = 0, eflags_if = (\<lambda>_. True),
     locks = (\<lambda>_. boot_lock), mem = (\<lambda>_. 0), frame = 0\<rparr>"

lemma boot_ok: "cpu_ok 0 (core boot_kbase)" "lock_free l (core boot_kbase)"
  by (simp_all add: cpu_ok_def lock_free_def boot_kbase_def boot_cpu_def boot_lock_def)

theorem acquire_release_balanced_witness:
  "\<exists>s1 s2. acquire PtableLock boot_kbase = Inr s1 \<and> lock_held PtableLock 0 (core s1)
      \<and> release PtableLock s1 = Inr s2 \<and> core s2 = core boot_kbase"
  by (rule acquire_release_balanced [OF boot_ok])

text \<open>
  C24. Mutual exclusion: in every state that CPUs with distinct APIC ids can reach from free
  locks by successful calls of \<^verbatim>\<open>acquire\<close> and \<^verbatim>\<open>release\<close> in any order, no two CPUs are
  between an acquire and a release of the same lock.
\<close>

theorem spinlock_mutual_exclusion:
  assumes "reach lock_start lock_step (s, H)" and "(a, l) \<in> H" and "(b, l) \<in> H"
  shows "a = b"
proof -
  have "lock_inv (s, H)" using assms(1) by (rule cpu_mutex.reach_inv)
  then show ?thesis using assms(2,3) by (auto simp: lock_inv_def)
qed

theorem spinlock_mutual_exclusion_witness:
  "reach lock_start lock_step (acquired PtableLock 0 boot_kbase, {(0, PtableLock)}) \<and>
   {a. (a, PtableLock) \<in> {(0::nat, PtableLock)}} = {0}"
proof -
  have "reach lock_start lock_step (boot_kbase, {})"
    by (rule reach_init) (simp add: lock_start_def boot_kbase_def boot_cpu_def boot_lock_def)
  moreover have "boot_kbase\<lparr>lapicid := 0\<rparr> = boot_kbase" by (simp add: boot_kbase_def)
  then have "acquire PtableLock (boot_kbase\<lparr>lapicid := 0\<rparr>) = Inr (acquired PtableLock 0 boot_kbase)"
    using acquire_ok [OF boot_ok] by simp
  then have "lock_step (boot_kbase, {}) (acquired PtableLock 0 boot_kbase, insert (0, PtableLock) {})"
    by (rule lock_step.acq)
  ultimately have r: "reach lock_start lock_step (acquired PtableLock 0 boot_kbase, {(0, PtableLock)})"
    by (rule reach_step)
  show ?thesis using r spinlock_mutual_exclusion [OF r, of _ PtableLock 0] by blast
qed

end
