(* ===== verification/Cprintf.thy ===== *)
theory Cprintf
  imports Spinlock "HOL-Library.Char_ord"
begin

text \<open>
  Formatted output: \<^verbatim>\<open>printint\<close> and \<^verbatim>\<open>cprintf\<close> of the kernel (\<^verbatim>\<open>console.c\<close>), \<^verbatim>\<open>printint\<close> and
  \<^verbatim>\<open>printf\<close> of the user library (\<^verbatim>\<open>printf.c\<close>) and \<^verbatim>\<open>atoi\<close> (\<^verbatim>\<open>ulib.c\<close>). What is written to the
  console is the string of characters handed to \<^verbatim>\<open>consputc\<close>, kept in \<open>cons_out\<close>; what
  \<^verbatim>\<open>consputc\<close> does with a character is the subject of the console theory.
\<close>

section \<open>State\<close>

record kcons = kbase +
  cons_locking :: bool
  cons_out :: string

section \<open>Numbers\<close>

definition lower_digits :: string where
  "lower_digits = ''0123456789abcdef''"

definition upper_digits :: string where
  "upper_digits = ''0123456789ABCDEF''"

text \<open>
  The do-while loop that fills the buffer with the digits of \<^verbatim>\<open>x\<close>, least significant first.
  It is called with bases 10 and 16 only; a base below 2 would divide by zero or not end.
\<close>

function int_digits :: "string \<Rightarrow> nat \<Rightarrow> nat \<Rightarrow> string" where
  "int_digits tab base x =
     (if base < 2 then []
      else tab ! (x mod base) # (if x div base = 0 then [] else int_digits tab base (x div base)))"
  by pat_completeness auto
termination
  by (relation "measure (\<lambda>(tab, base, x). x)") (auto simp: div_eq_0_iff intro: div_less_dividend)

declare int_digits.simps [simp del]

definition printint :: "u32 \<Rightarrow> nat \<Rightarrow> bool \<Rightarrow> string" where
  "printint xx base sign =
     (let neg = (sign \<and> sint xx < 0);
          x = (if neg then - xx else xx);
          buf = int_digits lower_digits base (unat x)
      in rev (if neg then buf @ ''-'' else buf))"

definition uprintint :: "u32 \<Rightarrow> nat \<Rightarrow> bool \<Rightarrow> string" where
  "uprintint xx base sg =
     (let neg = (sg \<and> sint xx < 0);
          x = (if neg then - xx else xx);
          buf = int_digits upper_digits base (unat x)
      in rev (if neg then buf @ ''-'' else buf))"

section \<open>Format strings\<close>

text \<open>
  Arguments are machine words or pointers to strings (\<open>None\<close> is the null pointer). Taking
  an argument that was not passed, or using a word as a string, is undefined in C.
\<close>

datatype carg = AInt u32 | AStr "string option"

definition str_or_null :: "string option \<Rightarrow> string" where
  "str_or_null p = (case p of None \<Rightarrow> ''(null)'' | Some s \<Rightarrow> s)"

fun cformat :: "string \<Rightarrow> carg list \<Rightarrow> string kres" where
  "cformat [] args = Inr []"
| "cformat (c # fmt) args =
     (if c \<noteq> CHR ''%'' then kbind (cformat fmt args) (\<lambda>r. Inr (c # r))
      else case fmt of
        [] \<Rightarrow> Inr []
      | d # fmt' \<Rightarrow>
          if d = CHR ''d'' then
            (case args of AInt x # as \<Rightarrow> kbind (cformat fmt' as) (\<lambda>r. Inr (printint x 10 True @ r))
             | _ \<Rightarrow> Inl (Fault ''cprintf argument''))
          else if d = CHR ''x'' \<or> d = CHR ''p'' then
            (case args of AInt x # as \<Rightarrow> kbind (cformat fmt' as) (\<lambda>r. Inr (printint x 16 False @ r))
             | _ \<Rightarrow> Inl (Fault ''cprintf argument''))
          else if d = CHR ''s'' then
            (case args of AStr p # as \<Rightarrow> kbind (cformat fmt' as) (\<lambda>r. Inr (str_or_null p @ r))
             | _ \<Rightarrow> Inl (Fault ''cprintf argument''))
          else if d = CHR ''%'' then kbind (cformat fmt' args) (\<lambda>r. Inr (CHR ''%'' # r))
          else kbind (cformat fmt' args) (\<lambda>r. Inr (CHR ''%'' # d # r)))"

definition cprintf :: "string \<Rightarrow> carg list \<Rightarrow> 'a kcons_scheme \<Rightarrow> ('a kcons_scheme) kres" where
  "cprintf fmt args s =
     (let locking = cons_locking s in
      kbind (if locking then acquire ConsLock s else Inr s) (\<lambda>s1.
      kbind (cformat fmt args) (\<lambda>out.
      let s2 = s1\<lparr>cons_out := cons_out s1 @ out\<rparr> in
      if locking then release ConsLock s2 else Inr s2)))"

text \<open>The user-level \<^verbatim>\<open>printf\<close>, written as a scanner with a state, also knows \<^verbatim>\<open>%c\<close>.\<close>

fun uformat :: "bool \<Rightarrow> string \<Rightarrow> carg list \<Rightarrow> string kres" where
  "uformat pct [] ap = Inr []"
| "uformat False (c # fmt) ap =
     (if c = CHR ''%'' then uformat True fmt ap
      else kbind (uformat False fmt ap) (\<lambda>r. Inr (c # r)))"
| "uformat True (c # fmt) ap =
     (if c = CHR ''d'' then
        (case ap of AInt x # as \<Rightarrow> kbind (uformat False fmt as) (\<lambda>r. Inr (uprintint x 10 True @ r))
         | _ \<Rightarrow> Inl (Fault ''printf argument''))
      else if c = CHR ''x'' \<or> c = CHR ''p'' then
        (case ap of AInt x # as \<Rightarrow> kbind (uformat False fmt as) (\<lambda>r. Inr (uprintint x 16 False @ r))
         | _ \<Rightarrow> Inl (Fault ''printf argument''))
      else if c = CHR ''s'' then
        (case ap of AStr p # as \<Rightarrow> kbind (uformat False fmt as) (\<lambda>r. Inr (str_or_null p @ r))
         | _ \<Rightarrow> Inl (Fault ''printf argument''))
      else if c = CHR ''c'' then
        (case ap of AInt x # as \<Rightarrow>
            kbind (uformat False fmt as) (\<lambda>r. Inr (char_of (unat x mod 256) # r))
         | _ \<Rightarrow> Inl (Fault ''printf argument''))
      else if c = CHR ''%'' then kbind (uformat False fmt ap) (\<lambda>r. Inr (c # r))
      else kbind (uformat False fmt ap) (\<lambda>r. Inr (CHR ''%'' # c # r)))"

section \<open>Reading a number back\<close>

text \<open>\<^verbatim>\<open>atoi\<close> accumulates in an \<^verbatim>\<open>int\<close>, which wraps around at 32 bits.\<close>

fun atoi_from :: "u32 \<Rightarrow> string \<Rightarrow> u32" where
  "atoi_from n [] = n"
| "atoi_from n (c # s) =
     (if CHR ''0'' \<le> c \<and> c \<le> CHR ''9''
      then atoi_from (n * 10 + of_nat (of_char c) - of_nat (of_char CHR ''0'')) s
      else n)"

definition atoi :: "string \<Rightarrow> u32" where
  "atoi s = atoi_from 0 s"

section \<open>Decimal output read back\<close>

lemma less_10_cases:
  fixes n :: nat
  assumes "n < 10"
  shows "n \<in> {0, 1, 2, 3, 4, 5, 6, 7, 8, 9}"
  using assms by auto

lemma lower_digit_decimal: "n < 10 \<Longrightarrow> lower_digits ! n = char_of (48 + n)"
  by (drule less_10_cases) (auto simp: lower_digits_def char_of_def bit_0)

lemma upper_digit_decimal: "n < 10 \<Longrightarrow> upper_digits ! n = lower_digits ! n"
  by (drule less_10_cases) (auto simp: lower_digits_def upper_digits_def)

lemma int_digits_decimal: "int_digits upper_digits 10 x = int_digits lower_digits 10 x"
proof (induction x rule: less_induct)
  case (less x)
  show ?case
    using less[of "x div 10"]
    by (subst (1 2) int_digits.simps) (auto simp: upper_digit_decimal)
qed

lemma uprintint_decimal: "uprintint x 10 sg = printint x 10 sg"
  by (simp add: uprintint_def printint_def int_digits_decimal)

definition is_dec_digit :: "char \<Rightarrow> bool" where
  "is_dec_digit c \<longleftrightarrow> CHR ''0'' \<le> c \<and> c \<le> CHR ''9''"

lemma is_dec_digit_char_of:
  fixes n :: nat
  assumes "n < 10"
  shows "is_dec_digit (char_of (48 + n))"
  using assms by (simp add: is_dec_digit_def less_eq_char_def of_char_of)

lemma int_digits_are_digits: "\<forall>c \<in> set (int_digits lower_digits 10 x). is_dec_digit c"
proof (induction x rule: less_induct)
  case (less x)
  show ?case
    using less[of "x div 10"]
    by (subst int_digits.simps) (auto simp: lower_digit_decimal is_dec_digit_char_of)
qed

lemma atoi_from_append:
  "\<forall>c \<in> set ds. is_dec_digit c \<Longrightarrow> atoi_from a (ds @ t) = atoi_from (atoi_from a ds) t"
  by (induction ds arbitrary: a) (auto simp: is_dec_digit_def)

lemma atoi_from_int_digits:
  "atoi_from 0 (rev (int_digits lower_digits 10 x)) = of_nat x"
proof (induction x rule: less_induct)
  case (less x)
  have step: "atoi_from a [lower_digits ! (x mod 10)] = a * 10 + of_nat (x mod 10)" for a
    using is_dec_digit_char_of[of "x mod 10"]
    by (simp add: lower_digit_decimal is_dec_digit_def)
  have split: "(of_nat x :: u32) = of_nat (x div 10) * 10 + of_nat (x mod 10)"
  proof -
    have "(of_nat (x div 10 * 10 + x mod 10) :: u32) = of_nat (x div 10) * 10 + of_nat (x mod 10)"
      by (simp only: of_nat_add of_nat_mult of_nat_numeral)
    then show ?thesis by (simp only: div_mult_mod_eq)
  qed
  show ?case
  proof (cases "x div 10 = 0")
    case True
    then show ?thesis using step[of 0] by (subst int_digits.simps) (simp del: atoi_from.simps)
  next
    case False
    then have "x div 10 < x" by auto
    with False show ?thesis
      by (subst int_digits.simps)
         (simp add: atoi_from_append int_digits_are_digits less step split[symmetric] del: atoi_from.simps)
  qed
qed

text \<open>
  Round trip of decimal numbers: \<^verbatim>\<open>atoi\<close> reads back every non-negative \<^verbatim>\<open>int\<close> that the kernel's
  \<^verbatim>\<open>printint\<close> prints in base 10, and the user library's \<^verbatim>\<open>printint\<close> prints the same text.
\<close>

theorem atoi_printint:
  assumes "0 \<le> sint (x :: u32)"
  shows "atoi (printint x 10 True) = x \<and> uprintint x 10 True = printint x 10 True"
  using assms by (simp add: atoi_def printint_def uprintint_decimal atoi_from_int_digits)

theorem atoi_printint_witness:
  "printint 2024 10 True = ''2024'' \<and> atoi ''2024'' = 2024"
proof -
  have d: "int_digits lower_digits 10 2024 = ''4202''"
    by (simp add: int_digits.simps lower_digits_def)
  have p: "printint 2024 10 True = ''2024''"
    by (simp add: printint_def d)
  then show ?thesis using atoi_printint[of 2024] by simp
qed

section \<open>The two printf implementations\<close>

text \<open>Formats whose directives are \<^verbatim>\<open>%d\<close>, \<^verbatim>\<open>%s\<close> and \<^verbatim>\<open>%%\<close> (and unknown ones), without hexadecimal or \<^verbatim>\<open>%c\<close>.\<close>

fun portable_fmt :: "string \<Rightarrow> bool" where
  "portable_fmt [] = True"
| "portable_fmt [c] = True"
| "portable_fmt (c # d # fmt) =
     (if c \<noteq> CHR ''%'' then portable_fmt (d # fmt)
      else d \<notin> {CHR ''x'', CHR ''p'', CHR ''c''} \<and> portable_fmt fmt)"

text \<open>
  On formats without \<^verbatim>\<open>%x\<close>, \<^verbatim>\<open>%p\<close> and \<^verbatim>\<open>%c\<close> the user library's \<^verbatim>\<open>printf\<close> writes exactly the text
  the kernel's \<^verbatim>\<open>cprintf\<close> writes.
\<close>

theorem printf_agrees_cprintf:
  assumes "portable_fmt fmt" and "cformat fmt args = Inr out"
  shows "uformat False fmt args = Inr out"
  using assms
proof (induction fmt arbitrary: args out rule: portable_fmt.induct)
  case 1
  then show ?case by simp
next
  case (2 c)
  then show ?case by (auto split: if_splits)
next
  case (3 c d fmt)
  show ?case
  proof (cases "c = CHR ''%''")
    case False
    then obtain r where "cformat (d # fmt) args = Inr r" "out = c # r"
      using "3.prems"(2) by (subst (asm) cformat.simps) (auto simp: kbind_eq_Inr simp del: cformat.simps)
    with "3.IH"(1)[OF False] "3.prems"(1) False show ?thesis by simp
  next
    case pct: True
    have IH: "cformat fmt as = Inr r \<Longrightarrow> uformat False fmt as = Inr r" for as r
      using "3.IH"(2) pct "3.prems"(1) by simp
    consider "d = CHR ''d''" | "d = CHR ''s''" | "d = CHR ''%''"
      | "d \<notin> {CHR ''d'', CHR ''s'', CHR ''%'', CHR ''x'', CHR ''p'', CHR ''c''}"
      using "3.prems"(1) pct by fastforce
    then show ?thesis
      using "3.prems"(2) pct
      by cases (auto simp: uprintint_decimal kbind_eq_Inr dest: IH split: list.splits carg.splits)
  qed
qed

theorem printf_agrees_cprintf_witness:
  "uformat False ''pid %d: %s%%'' [AInt 7, AStr (Some ''sh'')] = Inr ''pid 7: sh%''"
proof -
  have d: "int_digits lower_digits 10 7 = ''7''"
    by (simp add: int_digits.simps lower_digits_def)
  have "cformat ''pid %d: %s%%'' [AInt 7, AStr (Some ''sh'')] = Inr ''pid 7: sh%''"
    by (simp add: printint_def d str_or_null_def)
  moreover have "portable_fmt ''pid %d: %s%%''" by simp
  ultimately show ?thesis using printf_agrees_cprintf by blast
qed

section \<open>cprintf keeps the locks\<close>

lemma kcons_core [simp]:
  "core (cons_out_update f s) = core s" "core (cons_locking_update g s) = core s"
  by (simp_all add: core_def)

lemma kcons_frame [simp]:
  "cons_out (acquired l c s) = cons_out s" "cons_out (released l c s) = cons_out s"
  "cons_out (touched c s) = cons_out s" "cons_locking (acquired l c s) = cons_locking s"
  "cons_locking (released l c s) = cons_locking s" "cons_locking (touched c s) = cons_locking s"
  by (simp_all add: acquired_def released_def touched_def)

definition printed :: "nat \<Rightarrow> string \<Rightarrow> 'a kcons_scheme \<Rightarrow> 'a kcons_scheme" where
  "printed c out s =
     (if cons_locking s
      then released ConsLock c ((acquired ConsLock c s)\<lparr>cons_out := cons_out s @ out\<rparr>)
      else s\<lparr>cons_out := cons_out s @ out\<rparr>)"

lemma cprintf_ok:
  assumes "cpu_ok c (core s)" "lock_free ConsLock (core s)" "cformat fmt args = Inr out"
  shows "cprintf fmt args s = Inr (printed c out s)"
proof (cases "cons_locking s")
  case True
  let ?s = "(acquired ConsLock c s)\<lparr>cons_out := cons_out s @ out\<rparr>"
  have "release ConsLock ?s = Inr (released ConsLock c ?s)"
    using assms by (intro release_ok) simp_all
  then show ?thesis using True assms by (simp add: cprintf_def acquire_ok printed_def)
qed (use assms in \<open>simp add: cprintf_def printed_def\<close>)

lemma core_printed [simp]:
  assumes "cpu_ok c (core s)" "lock_free ConsLock (core s)"
  shows "core (printed c out s) = core s"
  using assms by (simp add: printed_def)

lemma printed_frame [simp]:
  "cons_out (printed c out s) = cons_out s @ out" "cons_locking (printed c out s) = cons_locking s"
  "mem (printed c out s) = mem s"
  by (simp_all add: printed_def)

end
