(* ===== verification/Kalloc.thy ===== *)
theory Kalloc
  imports Cprintf
begin

text \<open>
  The physical page allocator (\<^verbatim>\<open>kalloc.c\<close>). Free pages form a linked list through their own
  first words, so the list lives in \<open>mem\<close>; \<open>run_list\<close> relates it to the list of its pages.
  The allocator is shown to hand out each free page once, as an interface its users share.
\<close>

section \<open>State and constants\<close>

record kphys = kcons +
  use_lock :: bool
  freelist :: u32
  kend :: u32

definition PGSIZE :: u32 where "PGSIZE = 4096"

definition PHYSTOP :: u32 where "PHYSTOP = 0xE000000"

definition V2P :: "u32 \<Rightarrow> u32" where "V2P a = a - KERNBASE"

definition P2V :: "u32 \<Rightarrow> u32" where "P2V a = a + KERNBASE"

definition PGROUNDUP :: "u32 \<Rightarrow> u32" where "PGROUNDUP a = (a + PGSIZE - 1) AND NOT (PGSIZE - 1)"

definition PGROUNDDOWN :: "u32 \<Rightarrow> u32" where "PGROUNDDOWN a = a AND NOT (PGSIZE - 1)"

lemmas page_defs = PGSIZE_def PHYSTOP_def V2P_def P2V_def KERNBASE_def

section \<open>Operations\<close>

definition kmem_acquire :: "'a kphys_scheme \<Rightarrow> ('a kphys_scheme) kres" where
  "kmem_acquire s = (if use_lock s then acquire KmemLock s else Inr s)"

definition kmem_release :: "'a kphys_scheme \<Rightarrow> ('a kphys_scheme) kres" where
  "kmem_release s = (if use_lock s then release KmemLock s else Inr s)"

definition kfree :: "u32 \<Rightarrow> 'a kphys_scheme \<Rightarrow> ('a kphys_scheme) kres" where
  "kfree v s =
     (if v mod PGSIZE \<noteq> 0 \<or> v < kend s \<or> V2P v \<ge> PHYSTOP then Inl (Panic ''kfree'')
      else let s1 = s\<lparr>mem := memset (mem s) v 1 PGSIZE\<rparr> in
        kbind (kmem_acquire s1) (\<lambda>s2.
        kmem_release (s2\<lparr>mem := write32 (mem s2) v (freelist s2), freelist := v\<rparr>)))"

definition kalloc :: "'a kphys_scheme \<Rightarrow> (u32 \<times> 'a kphys_scheme) kres" where
  "kalloc s =
     kbind (kmem_acquire s) (\<lambda>s1.
     let r = freelist s1;
         s2 = (if r \<noteq> 0 then s1\<lparr>freelist := read32 (mem s1) r\<rparr> else s1)
     in kbind (kmem_release s2) (\<lambda>s3. Inr (r, s3)))"

text \<open>
  The loop of \<^verbatim>\<open>freerange\<close> ends for every bound: a page that \<^verbatim>\<open>kfree\<close> accepts lies below
  \<^verbatim>\<open>KERNBASE + PHYSTOP\<close>, so adding \<^verbatim>\<open>PGSIZE\<close> to it does not wrap around.
\<close>

lemma kfree_InrD:
  assumes "kfree v s = Inr t"
  shows "v mod PGSIZE = 0" "kend s \<le> v" "V2P v < PHYSTOP" "unat (v + PGSIZE) = unat v + 4096"
    "unat v < 2 ^ 32 - 4096"
proof -
  have *: "v mod PGSIZE = 0" "kend s \<le> v" "V2P v < PHYSTOP"
    using assms by (auto simp: kfree_def split: if_splits)
  then have "unat v < unat (0x8E000000 :: u32)"
    by (auto simp: page_defs word_less_nat_alt unat_sub_if' split: if_splits)
  then show "unat (v + PGSIZE) = unat v + 4096" "unat v < 2 ^ 32 - 4096"
    by (simp_all add: page_defs unat_word_ariths)
  show "v mod PGSIZE = 0" "kend s \<le> v" "V2P v < PHYSTOP" by (rule *)+
qed

function freerange_loop :: "u32 \<Rightarrow> u32 \<Rightarrow> 'a kphys_scheme \<Rightarrow> ('a kphys_scheme) kres" where
  "freerange_loop vend p s =
     (if p + PGSIZE \<le> vend then kbind (kfree p s) (\<lambda>s1. freerange_loop vend (p + PGSIZE) s1)
      else Inr s)"
  by pat_completeness auto
termination
  by (relation "measure (\<lambda>(vend, p, s). 2 ^ 32 - unat p)") (auto, frule kfree_InrD(4), drule kfree_InrD(5), simp)

declare freerange_loop.simps [simp del]

definition freerange :: "u32 \<Rightarrow> u32 \<Rightarrow> 'a kphys_scheme \<Rightarrow> ('a kphys_scheme) kres" where
  "freerange vstart vend s = freerange_loop vend (PGROUNDUP vstart) s"

definition kinit1 :: "u32 \<Rightarrow> u32 \<Rightarrow> 'a kphys_scheme \<Rightarrow> ('a kphys_scheme) kres" where
  "kinit1 vstart vend s = freerange vstart vend ((initlock KmemLock ''kmem'' s)\<lparr>use_lock := False\<rparr>)"

definition kinit2 :: "u32 \<Rightarrow> u32 \<Rightarrow> 'a kphys_scheme \<Rightarrow> ('a kphys_scheme) kres" where
  "kinit2 vstart vend s = kbind (freerange vstart vend s) (\<lambda>s1. Inr (s1\<lparr>use_lock := True\<rparr>))"

section \<open>The free list\<close>

fun run_list :: "bytes \<Rightarrow> u32 \<Rightarrow> u32 list \<Rightarrow> bool" where
  "run_list m h [] \<longleftrightarrow> h = 0"
| "run_list m h (p # ps) \<longleftrightarrow> h = p \<and> p \<noteq> 0 \<and> run_list m (read32 m p) ps"

definition page_ok :: "u32 \<Rightarrow> u32 \<Rightarrow> bool" where
  "page_ok e v \<longleftrightarrow> v mod PGSIZE = 0 \<and> e \<le> v \<and> V2P v < PHYSTOP"

definition kmem_inv :: "'a kphys_scheme \<Rightarrow> u32 list \<Rightarrow> bool" where
  "kmem_inv s ps \<longleftrightarrow> run_list (mem s) (freelist s) ps \<and> distinct ps \<and> (\<forall>p \<in> set ps. page_ok (kend s) p)"

definition kmem_ready :: "nat \<Rightarrow> 'a kphys_scheme \<Rightarrow> bool" where
  "kmem_ready c s \<longleftrightarrow> cpu_ok c (core s) \<and> lock_free KmemLock (core s)"

lemma kphys_core [simp]:
  "core (use_lock_update f s) = core s" "core (freelist_update g s) = core s" "core (kend_update g s) = core s"
  by (simp_all add: core_def)

lemma kphys_frame [simp]:
  "use_lock (acquired l c s) = use_lock s" "use_lock (released l c s) = use_lock s" "use_lock (touched c s) = use_lock s"
  "freelist (acquired l c s) = freelist s" "freelist (released l c s) = freelist s" "freelist (touched c s) = freelist s"
  "kend (acquired l c s) = kend s" "kend (released l c s) = kend s" "kend (touched c s) = kend s"
  "use_lock (printed c out s) = use_lock s" "freelist (printed c out s) = freelist s" "kend (printed c out s) = kend s"
  by (simp_all add: acquired_def released_def touched_def printed_def)

lemma page_nonzero: "page_ok e v \<Longrightarrow> v \<noteq> 0"
  by (auto simp: page_ok_def page_defs)

lemma page_aligned: "page_ok e v \<Longrightarrow> 4096 dvd unat v"
proof -
  assume "page_ok e v"
  then have "unat (v mod 4096) = 0" by (simp add: page_ok_def PGSIZE_def)
  then show ?thesis by (simp add: unat_mod dvd_eq_mod_eq_0)
qed

lemma page_aligned4: "page_ok e v \<Longrightarrow> 4 dvd unat v"
  using page_aligned dvd_trans[of 4 4096 "unat v"] by simp

section \<open>What the operations do\<close>

definition kmem_step :: "nat \<Rightarrow> bytes \<Rightarrow> u32 \<Rightarrow> 'a kphys_scheme \<Rightarrow> 'a kphys_scheme" where
  "kmem_step c m h s =
     (if use_lock s then released KmemLock c ((acquired KmemLock c s)\<lparr>mem := m, freelist := h\<rparr>)
      else s\<lparr>mem := m, freelist := h\<rparr>)"

lemma kmem_step_simps [simp]:
  "mem (kmem_step c m h s) = m" "freelist (kmem_step c m h s) = h"
  "kend (kmem_step c m h s) = kend s" "use_lock (kmem_step c m h s) = use_lock s"
  "cons_out (kmem_step c m h s) = cons_out s" "cons_locking (kmem_step c m h s) = cons_locking s"
  by (simp_all add: kmem_step_def)

lemma core_kmem_step [simp]: "kmem_ready c s \<Longrightarrow> core (kmem_step c m h s) = core s"
  by (simp add: kmem_step_def kmem_ready_def)

lemma kmem_ready_core: "core t = core s \<Longrightarrow> kmem_ready c t = kmem_ready c s"
  by (simp add: kmem_ready_def)

lemma kmem_section:
  assumes "kmem_ready c s"
  shows "kbind (kmem_acquire s) (\<lambda>s1. kmem_release (s1\<lparr>mem := m, freelist := h\<rparr>)) = Inr (kmem_step c m h s)"
proof (cases "use_lock s")
  case True
  let ?s = "(acquired KmemLock c s)\<lparr>mem := m, freelist := h\<rparr>"
  have "release KmemLock ?s = Inr (released KmemLock c ?s)"
    using assms by (intro release_ok) (simp_all add: kmem_ready_def)
  then show ?thesis
    using True assms by (simp add: kmem_acquire_def kmem_release_def acquire_ok[of c] kmem_ready_def kmem_step_def)
qed (use assms in \<open>simp add: kmem_acquire_def kmem_release_def kmem_step_def\<close>)

lemma kmem_acquire_frame:
  assumes "kmem_ready c s" "kmem_acquire s = Inr s1"
  shows "mem s1 = mem s" "freelist s1 = freelist s"
  using assms by (auto simp: kmem_acquire_def kmem_ready_def acquire_ok[of c] split: if_splits)

lemma kmem_acquire_ok: "kmem_ready c s \<Longrightarrow> \<exists>s1. kmem_acquire s = Inr s1"
  by (simp add: kmem_acquire_def kmem_ready_def acquire_ok[of c])

lemma kalloc_ok:
  assumes "kmem_ready c s"
  shows "kalloc s = Inr (freelist s, kmem_step c (mem s)
           (if freelist s = 0 then 0 else read32 (mem s) (freelist s)) s)"
proof -
  obtain s1 where a: "kmem_acquire s = Inr s1" using kmem_acquire_ok[OF assms] by blast
  note f = kmem_acquire_frame[OF assms a]
  have id: "s1\<lparr>mem := mem s\<rparr> = s1" "s1\<lparr>freelist := freelist s\<rparr> = s1" by (simp_all flip: f)
  have z: "kmem_release s1 = Inr (kmem_step c (mem s) (freelist s) s)"
    using kmem_section[OF assms, where m = "mem s" and h = "freelist s"] by (simp add: a id)
  show ?thesis
    using z kmem_section[OF assms, where m = "mem s" and h = "read32 (mem s) (freelist s)"]
    by (cases "freelist s = 0") (simp_all add: kalloc_def a Let_def f id)
qed

lemma kfree_ok:
  assumes "kmem_ready c s" "page_ok (kend s) v"
  shows "kfree v s = Inr (kmem_step c (write32 (fill (mem s) v 1 4096) v (freelist s)) v
           (s\<lparr>mem := fill (mem s) v 1 4096\<rparr>))"
proof -
  let ?s = "s\<lparr>mem := fill (mem s) v 1 4096\<rparr>"
  have r: "kmem_ready c ?s" using assms(1) by (simp add: kmem_ready_def)
  obtain s1 where a: "kmem_acquire ?s = Inr s1" using kmem_acquire_ok[OF r] by blast
  note f = kmem_acquire_frame[OF r a]
  have set: "memset (mem s) v 1 PGSIZE = fill (mem s) v 1 4096"
    by (simp add: memset_fill PGSIZE_def)
  have "kmem_release (s1\<lparr>mem := write32 (mem s1) v (freelist s1), freelist := v\<rparr>)
      = Inr (kmem_step c (write32 (mem s1) v (freelist s1)) v ?s)"
    using kmem_section[OF r, where m = "write32 (mem s1) v (freelist s1)" and h = v] by (simp only: a kbind_Inr)
  moreover have "\<not> (v mod PGSIZE \<noteq> 0 \<or> v < kend s \<or> V2P v \<ge> PHYSTOP)"
    using assms(2) by (auto simp: page_ok_def not_le)
  ultimately show ?thesis
    using f by (simp only: kfree_def set Let_def a kbind_Inr if_False) simp
qed

lemma kfree_bad: "\<not> page_ok (kend s) v \<Longrightarrow> kfree v s = Inl (Panic ''kfree'')"
  unfolding kfree_def page_ok_def by (metis not_less)

lemma run_list_cong:
  "(\<And>p. p \<in> set ps \<Longrightarrow> read32 m' p = read32 m p) \<Longrightarrow> run_list m' h ps = run_list m h ps"
  by (induction ps arbitrary: h) auto

lemma page_disjoint:
  fixes v p i :: u32
  assumes "4096 dvd unat v" "4096 dvd unat p" "p \<noteq> v" "unat i < 4096"
  shows "\<not> unat (p + i - v) < 4096"
proof
  define j where "j = p + i - v"
  assume "unat (p + i - v) < 4096"
  then have j: "unat j < 4096" "p + i = v + j" by (simp_all add: j_def)
  have "unat (a + k) div 4096 = unat a div 4096" if "4096 dvd unat a" "unat k < 4096" for a k :: u32
  proof -
    have "unat a + unat k < 2 ^ 32" using that unat32_bound[of a] by (auto elim!: dvdE)
    then show ?thesis using that by (auto simp: unat_word_ariths elim!: dvdE)
  qed
  from this[OF assms(2,4)] this[OF assms(1) j(1)] j(2) have "unat p div 4096 = unat v div 4096" by simp
  then have "unat p = unat v" using assms(1,2) by (metis dvd_div_mult_self)
  then show False using assms(3) by (simp add: word_unat_eq_iff)
qed

lemma read32_other_page:
  assumes "4096 dvd unat v" "4096 dvd unat p" "p \<noteq> v"
  shows "read32 (write32 (fill m v d 4096) v w) p = read32 m p"
proof -
  have "4 dvd unat p" "4 dvd unat v" using assms dvd_trans[of 4 4096] by auto
  then have "read32 (write32 (fill m v d 4096) v w) p = read32 (fill m v d 4096) p"
    using assms(3) by (intro read32_write32_other) auto
  also have "\<dots> = read32 m p"
    using page_disjoint[OF assms] by (intro read32_cong) (simp add: fill_def)
  finally show ?thesis .
qed

lemma kalloc_inv:
  assumes "kmem_ready c s" "kmem_inv s (p # ps)"
  shows "\<exists>t. kalloc s = Inr (p, t) \<and> kmem_inv t ps \<and> core t = core s \<and> mem t = mem s"
  using assms page_nonzero
  by (auto simp: kalloc_ok kmem_inv_def)

lemma kalloc_empty:
  assumes "kmem_ready c s" "kmem_inv s []"
  shows "\<exists>t. kalloc s = Inr (0, t) \<and> kmem_inv t [] \<and> core t = core s \<and> mem t = mem s"
  using assms by (auto simp: kalloc_ok kmem_inv_def)

lemma kfree_inv:
  assumes "kmem_ready c s" "kmem_inv s ps" "page_ok (kend s) v" "v \<notin> set ps"
  shows "\<exists>t. kfree v s = Inr t \<and> kmem_inv t (v # ps) \<and> core t = core s \<and> kend t = kend s"
proof -
  let ?m = "write32 (fill (mem s) v 1 4096) v (freelist s)"
  have "run_list ?m (freelist s) ps = run_list (mem s) (freelist s) ps"
    using assms(2-4) page_aligned by (intro run_list_cong read32_other_page) (auto simp: kmem_inv_def)
  moreover have "kmem_ready c (s\<lparr>mem := fill (mem s) v 1 4096\<rparr>)"
    using assms(1) by (simp add: kmem_ready_def)
  ultimately show ?thesis using assms by (auto simp: kfree_ok kmem_inv_def page_nonzero)
qed

section \<open>Rounding to pages\<close>

lemma and_not_4095: "(a :: u32) AND NOT 4095 = push_bit 12 (drop_bit 12 a)"
proof -
  have "(4095 :: u32) = mask 12" by (simp add: mask_eq_exp_minus_1)
  moreover have "a AND NOT (mask 12) = push_bit 12 (drop_bit 12 a)"
    by (rule bit_word_eqI)
       (auto simp: bit_and_iff bit_not_iff bit_push_bit_iff bit_drop_bit_eq bit_mask_iff)
  ultimately show ?thesis by (simp only:)
qed

lemma PGROUNDDOWN_shift: "PGROUNDDOWN a = push_bit 12 (drop_bit 12 a)"
proof -
  have "PGSIZE - 1 = 4095" by (simp add: PGSIZE_def)
  then show ?thesis by (simp only: PGROUNDDOWN_def and_not_4095)
qed

lemma unat_PGROUNDDOWN: "unat (PGROUNDDOWN a) = unat a div 4096 * 4096"
proof -
  have "unat (push_bit 12 (drop_bit 12 a)) = take_bit 32 (unat a div 4096 * 4096)"
    by (simp only: unsigned_push_bit_eq unsigned_drop_bit_eq) 
       (simp add: push_bit_eq_mult drop_bit_eq_div take_bit_nat_eq_self[OF unat32_bound[of a]])
  also have "\<dots> = unat a div 4096 * 4096"
    using unat32_bound[of a] div_times_less_eq_dividend[of "unat a" 4096]
    by (intro take_bit_nat_eq_self) linarith
  finally show ?thesis by (simp only: PGROUNDDOWN_shift)
qed

lemma PGROUNDUP_alt: "PGROUNDUP a = PGROUNDDOWN (a + 4095)"
  by (simp add: PGROUNDUP_def PGROUNDDOWN_def PGSIZE_def add.commute)

lemma unat_PGROUNDUP:
  assumes "unat a < 2 ^ 32 - 4096"
  shows "unat (PGROUNDUP a) = (unat a + 4095) div 4096 * 4096"
proof -
  have "unat (a + 4095) = unat a + 4095" using assms by (simp add: unat_word_ariths)
  then show ?thesis by (simp add: PGROUNDUP_alt unat_PGROUNDDOWN)
qed

section \<open>The allocator as an interface\<close>

primrec allocs :: "('s \<Rightarrow> ('p \<times> 's) kres) \<Rightarrow> nat \<Rightarrow> 's \<Rightarrow> ('p list \<times> 's) kres" where
  "allocs al 0 s = Inr ([], s)"
| "allocs al (Suc n) s = kbind (al s) (\<lambda>(p, t). kbind (allocs al n t) (\<lambda>(ps, u). Inr (p # ps, u)))"

primrec frees :: "('p \<Rightarrow> 's \<Rightarrow> 's kres) \<Rightarrow> 'p list \<Rightarrow> 's \<Rightarrow> 's kres" where
  "frees fr [] s = Inr s"
| "frees fr (v # vs) s = kbind (fr v s) (frees fr vs)"

text \<open>
  What code that uses the allocator relies on: while the lock can be taken, the pages on the
  list are handed out in turn, and a page that is not on the list can be put on it.
\<close>

locale page_allocator =
  fixes ready :: "'s \<Rightarrow> bool" and inv :: "'s \<Rightarrow> 'p list \<Rightarrow> bool" and ok :: "'s \<Rightarrow> 'p \<Rightarrow> bool"
    and alloc :: "'s \<Rightarrow> ('p \<times> 's) kres" and free :: "'p \<Rightarrow> 's \<Rightarrow> 's kres"
  assumes alloc_law: "ready s \<Longrightarrow> inv s (p # ps) \<Longrightarrow> \<exists>t. alloc s = Inr (p, t) \<and> inv t ps \<and> ready t"
    and free_law: "ready s \<Longrightarrow> inv s ps \<Longrightarrow> ok s v \<Longrightarrow> v \<notin> set ps \<Longrightarrow>
        \<exists>t. free v s = Inr t \<and> inv t (v # ps) \<and> ready t \<and> ok t = ok s"
    and inv_distinct: "inv s ps \<Longrightarrow> distinct ps"
begin

lemma allocs_take:
  assumes "ready s" "inv s ps" "n \<le> length ps"
  shows "\<exists>t. allocs alloc n s = Inr (take n ps, t) \<and> inv t (drop n ps) \<and> ready t"
  using assms
proof (induction n arbitrary: s ps)
  case (Suc n)
  then obtain p qs where ps: "ps = p # qs" by (cases ps) auto
  from alloc_law[of s p qs] Suc.prems ps obtain t where
    t: "alloc s = Inr (p, t)" "inv t qs" "ready t" by auto
  with Suc.IH[of t qs] Suc.prems ps show ?case by auto
qed simp

lemma allocs_distinct:
  assumes "ready s" "inv s ps" "n \<le> length ps"
  shows "\<exists>qs t. allocs alloc n s = Inr (qs, t) \<and> length qs = n \<and> distinct qs \<and> inv t (drop n ps)"
  using allocs_take[OF assms] inv_distinct[OF assms(2)] assms(3) by (auto simp: distinct_take)

lemma frees_inv:
  assumes "ready s" "inv s ps" "distinct (rev vs @ ps)" "\<forall>v \<in> set vs. ok s v"
  shows "\<exists>t. frees free vs s = Inr t \<and> inv t (rev vs @ ps) \<and> ready t"
  using assms
proof (induction vs arbitrary: s ps)
  case (Cons v vs)
  from free_law[of s ps v] Cons.prems obtain t where
    "free v s = Inr t" "inv t (v # ps)" "ready t" "ok t = ok s" by auto
  with Cons.IH[of t "v # ps"] Cons.prems show ?case by auto
qed simp

text \<open>Pages that were allocated and freed again are handed out again, last freed first.\<close>

lemma free_alloc:
  assumes "ready s" "inv s ps" "ok s v" "v \<notin> set ps"
  shows "\<exists>t u. free v s = Inr t \<and> alloc t = Inr (v, u) \<and> inv u ps"
  using free_law[OF assms] alloc_law by blast

end

interpretation kpages: page_allocator "kmem_ready c" kmem_inv "\<lambda>s. page_ok (kend s)" kalloc kfree for c
proof unfold_locales
  fix s :: "'a kphys_scheme" and p ps
  show "kmem_ready c s \<Longrightarrow> kmem_inv s (p # ps) \<Longrightarrow> \<exists>t. kalloc s = Inr (p, t) \<and> kmem_inv t ps \<and> kmem_ready c t"
    using kalloc_inv[of c s p ps] kmem_ready_core by blast
next
  fix s :: "'a kphys_scheme" and v ps
  assume "kmem_ready c s" "kmem_inv s ps" "page_ok (kend s) v" "v \<notin> set ps"
  then show "\<exists>t. kfree v s = Inr t \<and> kmem_inv t (v # ps) \<and> kmem_ready c t \<and> page_ok (kend t) = page_ok (kend s)"
    using kfree_inv[of c s ps v] by (metis kmem_ready_core)
qed (simp add: kmem_inv_def)

section \<open>Properties\<close>

definition pages :: "u32 \<Rightarrow> nat \<Rightarrow> u32 list" where
  "pages p n = map (\<lambda>i. p + of_nat i * PGSIZE) [0..<n]"

lemma pages_Suc: "pages p (Suc n) = p # pages (p + PGSIZE) n"
  by (simp add: pages_def upt_conv_Cons map_Suc_upt[symmetric] algebra_simps del: upt_Suc)

lemma freerange_loop_frees:
  assumes "unat p + n * 4096 \<le> unat vend" "unat vend < unat p + Suc n * 4096" "unat vend < 2 ^ 32 - 4096"
  shows "freerange_loop vend p s = frees kfree (pages p n) s"
  using assms
proof (induction n arbitrary: p s)
  case 0
  then have "unat (p + PGSIZE) = unat p + 4096" by (simp add: PGSIZE_def unat_word_ariths)
  with 0 show ?case by (subst freerange_loop.simps) (simp add: pages_def word_le_nat_alt)
next
  case (Suc n)
  then have p: "unat (p + PGSIZE) = unat p + 4096" by (simp add: PGSIZE_def unat_word_ariths)
  then have "freerange_loop vend (p + PGSIZE) t = frees kfree (pages (p + PGSIZE) n) t" for t :: "'a kphys_scheme"
    using Suc.prems by (intro Suc.IH) auto
  then have "freerange_loop vend (p + PGSIZE) = (frees kfree (pages (p + PGSIZE) n) :: 'a kphys_scheme \<Rightarrow> _)"
    by (rule ext)
  then show ?case
    using Suc.prems p by (subst freerange_loop.simps) (simp add: pages_Suc word_le_nat_alt)
qed

lemma unat_page_nth:
  assumes "unat p + n * 4096 < 2 ^ 32" "i < n"
  shows "unat (p + of_nat i * PGSIZE) = unat p + i * 4096"
proof -
  have "i * 4096 \<le> n * 4096" using assms(2) by simp
  then have "i * 4096 < 2 ^ 32" using assms(1) by linarith
  then have "unat (of_nat i * PGSIZE) = i * 4096"
    by (simp add: PGSIZE_def unat_word_ariths unat32_of_nat)
  then show ?thesis
    using assms(1) \<open>i * 4096 \<le> n * 4096\<close> by (simp add: unat_word_ariths)
qed

lemma distinct_pages: "unat p + n * 4096 < 2 ^ 32 \<Longrightarrow> distinct (pages p n)"
  unfolding pages_def distinct_map
  by (auto intro!: inj_onI dest!: arg_cong[where f = unat] simp: unat_page_nth)

lemma pages_ok:
  assumes "4096 dvd unat p" "unat p + n * 4096 \<le> 0x8E000000" "KERNBASE \<le> p" "e \<le> p" "v \<in> set (pages p n)"
  shows "page_ok e v"
proof -
  from assms(5) obtain i where i: "i < n" "v = p + of_nat i * PGSIZE" by (auto simp: pages_def)
  then have u: "unat v = unat p + i * 4096" using assms(2) by (simp add: unat_page_nth[of p n])
  moreover have "i * 4096 + 4096 \<le> n * 4096" using i(1) by simp
  ultimately have "unat v < 0x8E000000" "unat p \<le> unat v" using assms(2) by linarith+
  moreover have "unat (v mod PGSIZE) = 0"
    using assms(1) u by (simp add: PGSIZE_def unat_mod flip: dvd_eq_mod_eq_0)
  ultimately show ?thesis using assms(3,4)
    by (auto simp: page_ok_def page_defs word_le_nat_alt word_less_nat_alt unat_sub_if' unat_eq_0)
qed

lemma frees_core:
  "kmem_ready c s \<Longrightarrow> frees kfree vs s = Inr t \<Longrightarrow> core t = core s"
proof (induction vs arbitrary: s)
  case (Cons v vs)
  from Cons.prems(2) obtain u where u: "kfree v s = Inr u" "frees kfree vs u = Inr t" by (auto simp: kbind_eq_Inr)
  then have "page_ok (kend s) v" using kfree_bad[of s v] by (metis Inl_Inr_False)
  moreover have "kmem_ready c (s\<lparr>mem := fill (mem s) v 1 4096\<rparr>)" using Cons.prems(1) by (simp add: kmem_ready_def)
  ultimately have "core u = core s" using kfree_ok[OF Cons.prems(1)] u(1) by auto
  with Cons.IH[of u] u(2) Cons.prems(1) kmem_ready_core[of u s c] show ?case by simp
qed simp

lemma freerange_pages:
  assumes "kmem_ready c s" "kmem_inv s ps" "KERNBASE \<le> a" "kend s \<le> a" "a \<le> b" "unat b \<le> 0x8E000000"
    and "set ps \<inter> set (pages (PGROUNDUP a) n) = {}"
    and "unat (PGROUNDUP a) + n * 4096 \<le> unat b" "unat b < unat (PGROUNDUP a) + Suc n * 4096"
  shows "\<exists>t. freerange a b s = Inr t \<and> kmem_inv t (rev (pages (PGROUNDUP a) n) @ ps) \<and> kmem_ready c t \<and> core t = core s"
proof -
  let ?p = "PGROUNDUP a"
  have a: "unat a \<le> 0x8E000000" using assms(5,6) by (simp add: word_le_nat_alt)
  then have u: "unat ?p = (unat a + 4095) div 4096 * 4096" by (intro unat_PGROUNDUP) simp
  then have al: "4096 dvd unat ?p" and "unat a \<le> unat ?p" by simp_all
  then have "a \<le> ?p" by (simp add: word_le_nat_alt)
  then have ok: "\<forall>v \<in> set (pages ?p n). page_ok (kend s) v"
    using assms(3-6,8) al by (auto intro!: pages_ok[of ?p n] elim: order_trans)
  have "distinct (rev (pages ?p n) @ ps)"
    using assms(2,6-8) by (auto simp: kmem_inv_def distinct_pages)
  from kpages.frees_inv[OF assms(1,2) this ok] show ?thesis
    using assms(6,8,9) frees_core[OF assms(1)] by (auto simp: freerange_def freerange_loop_frees[of ?p n])
qed

text \<open>
  Initialisation of the allocator: \<^verbatim>\<open>freerange(a, b)\<close> over a range of kernel memory above
  \<^verbatim>\<open>end\<close> and below \<^verbatim>\<open>PHYSTOP\<close>, none of whose pages is free yet, returns, puts exactly the whole
  pages of the range on the free list (last one first), and keeps the list well formed.
\<close>

theorem freerange_adds_pages:
  assumes "kmem_ready c s" "kmem_inv s ps" "KERNBASE \<le> a" "kend s \<le> a" "a \<le> b" "unat b \<le> 0x8E000000"
    and "set ps \<inter> set (pages (PGROUNDUP a) n) = {}"
    and "unat (PGROUNDUP a) + n * 4096 \<le> unat b" "unat b < unat (PGROUNDUP a) + Suc n * 4096"
  shows "\<exists>t. freerange a b s = Inr t \<and> kmem_inv t (rev (pages (PGROUNDUP a) n) @ ps)"
  using freerange_pages[OF assms] by blast


text \<open>
  \<^verbatim>\<open>kfree\<close> accepts exactly the pages of the managed range (anything else panics); freeing one
  that is not free makes it the next page \<^verbatim>\<open>kalloc\<close> returns.
\<close>

theorem kfree_kalloc:
  assumes "kmem_ready c s" "kmem_inv s ps" "v \<notin> set ps"
  shows "if page_ok (kend s) v
         then \<exists>t u. kfree v s = Inr t \<and> kalloc t = Inr (v, u) \<and> kmem_inv u ps
         else kfree v s = Inl (Panic ''kfree'')"
  using kpages.free_alloc[OF assms(1,2) _ assms(3)] by (simp add: kfree_bad)

text \<open>A machine whose allocator is empty, with the kernel ending at 0x80200000.\<close>

definition boot_kphys :: kphys where
  "boot_kphys = \<lparr>cpus = [boot_cpu], lapicid = 0, eflags_if = (\<lambda>_. False), locks = (\<lambda>_. boot_lock),
     mem = (\<lambda>_. 0), frame = 0, cons_locking = True, cons_out = [],
     use_lock = True, freelist = 0, kend = 0x80200000\<rparr>"

lemma boot_kphys_ok: "kmem_ready 0 boot_kphys" "kmem_inv boot_kphys []" "kend boot_kphys = 0x80200000"
  by (simp_all add: kmem_ready_def kmem_inv_def boot_kphys_def cpu_ok_def lock_free_def boot_cpu_def boot_lock_def)

theorem freerange_adds_pages_witness:
  "\<exists>t. freerange 0x80200001 0x80203fff boot_kphys = Inr t \<and> kmem_inv t [0x80202000, 0x80201000]"
proof -
  have p: "PGROUNDUP 0x80200001 = 0x80201000"
    by (simp add: PGROUNDUP_def PGSIZE_def)
  show ?thesis
    using freerange_adds_pages[OF boot_kphys_ok(1,2), where a = "0x80200001" and b = "0x80203fff" and n = 2]
    by (simp add: p boot_kphys_ok(3) KERNBASE_def pages_def PGSIZE_def upt_rec)
qed

text \<open>The same machine with two free pages, the first linking to the second.\<close>

definition boot_kphys2 :: kphys where
  "boot_kphys2 = boot_kphys\<lparr>freelist := 0x80202000, mem := write32 (\<lambda>_. 0) 0x80202000 0x80201000\<rparr>"

lemma boot_kphys2_ok: "kmem_ready 0 boot_kphys2" "kmem_inv boot_kphys2 [0x80202000, 0x80201000]"
proof -
  show "kmem_ready 0 boot_kphys2"
    using boot_kphys_ok(1) by (simp add: boot_kphys2_def kmem_ready_def)
  have "read32 (write32 (\<lambda>_. 0) 0x80202000 0x80201000) 0x80201000 = read32 (\<lambda>_. 0) 0x80201000"
    by (rule read32_write32_other) simp_all
  also have "\<dots> = 0" by (simp add: read32_def)
  finally show "kmem_inv boot_kphys2 [0x80202000, 0x80201000]"
    by (simp add: kmem_inv_def boot_kphys2_def boot_kphys_ok(3) page_ok_def page_defs)
qed


theorem kfree_kalloc_witness:
  "\<exists>t u. kfree 0x80201000 boot_kphys = Inr t \<and> kalloc t = Inr (0x80201000, u) \<and> kmem_inv u []"
  using kfree_kalloc[OF boot_kphys_ok(1,2), of "0x80201000"]
  by (simp add: page_ok_def boot_kphys_ok(3) page_defs)

end
