(* ===== verification/Proc.thy ===== *)
theory Proc
  imports Kalloc
begin

text \<open>
  Processes (\<^verbatim>\<open>proc.h\<close>, \<^verbatim>\<open>proc.c\<close>): the process table, its scheduling parameters, the operations
  on the table, the three-level scheduler, and sleeping and waking. Processes are referred to
  by their index in the table. A C \<^verbatim>\<open>int\<close> is an \<^verbatim>\<open>int\<close> in the 32-bit signed range, a C \<^verbatim>\<open>uint\<close> a
  32-bit word. The context switch is a parameter: what the rest of the system does between
  leaving a process and coming back to it.
\<close>

section \<open>Floating point\<close>

text \<open>
  A \<^verbatim>\<open>float\<close> is its 32-bit pattern. How products and sums are rounded depends on the unit the
  compiler uses (single precision, or the 80-bit registers of the x87), so arithmetic is a
  parameter over the type of intermediate values. Comparison is exact: two numbers compare
  by sign and magnitude, and a NaN is not less than anything.
\<close>

type_synonym float32 = u32

record 'x fpu =
  fld :: "float32 \<Rightarrow> 'x"
  fild :: "int \<Rightarrow> 'x"
  fmul :: "'x \<Rightarrow> 'x \<Rightarrow> 'x"
  fadd :: "'x \<Rightarrow> 'x \<Rightarrow> 'x"
  fst32 :: "'x \<Rightarrow> float32"
  fist :: "'x \<Rightarrow> int"

definition fmag :: "float32 \<Rightarrow> u32" where
  "fmag x = take_bit 31 x"

definition fnan :: "float32 \<Rightarrow> bool" where
  "fnan x \<longleftrightarrow> fmag x > 0x7f800000"

definition fkey :: "float32 \<Rightarrow> int" where
  "fkey x = (if bit x 31 then - uint (fmag x) else uint (fmag x))"

definition fless :: "float32 \<Rightarrow> float32 \<Rightarrow> bool" where
  "fless x y \<longleftrightarrow> \<not> fnan x \<and> \<not> fnan y \<and> fkey x < fkey y"

definition float_one :: float32 where "float_one = 0x3f800000"

definition float_tenth :: float32 where "float_tenth = 0x3dcccccd"

section \<open>Integers\<close>

definition wrap32 :: "int \<Rightarrow> int" where
  "wrap32 x = signed_take_bit 31 x"

section \<open>State\<close>

datatype procstate = UNUSED | EMBRYO | SLEEPING | RUNNABLE | RUNNING | ZOMBIE

definition NPROC :: nat where "NPROC = 64"

definition NOFILE :: nat where "NOFILE = 16"

definition MAX_AGE :: int where "MAX_AGE = 8000"

definition UNSET :: int where "UNSET = 0"

definition ROUND_ROBIN :: int where "ROUND_ROBIN = 1"

definition LCFS :: int where "LCFS = 2"

definition BJF :: int where "BJF = 3"

lemmas queue_defs = UNSET_def ROUND_ROBIN_def LCFS_def BJF_def

definition NORMAL :: int where "NORMAL = 3"

record bjfparams =
  priority :: int
  executed_cycle :: float32
  arrival_time :: int
  process_size :: int
  priority_ratio :: float32
  executed_cycle_ratio :: float32
  arrival_time_ratio :: float32
  process_size_ratio :: float32

record schedparams =
  queue :: int
  bjf :: bjfparams
  last_exec :: int

record proc =
  sz :: u32
  pgdir :: u32
  kstack :: u32
  pstate :: procstate
  pid :: int
  parent :: "nat option"
  tf :: u32
  pcontext :: u32
  pchan :: chan
  killed :: bool
  ofile :: "nat option list"
  cwd :: "nat option"
  pname :: string
  ctime :: u32
  psched :: schedparams
  shmemaddr :: u32

record prioritylock =
  plocked :: bool
  inqueue :: int
  lockreq :: "int list"
  plname :: string
  plpid :: int

record pbase = kphys +
  ptable :: "proc list"
  plock :: prioritylock
  initproc :: "nat option"
  nextpid :: int
  ticks :: u32
  trapret_addr :: u32
  forkret_addr :: u32
  cr3 :: "nat \<Rightarrow> u32"
  ts_esp0 :: "nat \<Rightarrow> u32"
  kpgdir :: u32

text \<open>\<open>cr3\<close> and \<open>ts_esp0\<close> are the page-table register and the ring-0 stack of each CPU, by APIC id.\<close>

definition pupd :: "nat \<Rightarrow> (proc \<Rightarrow> proc) \<Rightarrow> 'a pbase_scheme \<Rightarrow> 'a pbase_scheme" where
  "pupd i f s = s\<lparr>ptable := (ptable s)[i := f (ptable s ! i)]\<rparr>"

definition sched_upd :: "(schedparams \<Rightarrow> schedparams) \<Rightarrow> proc \<Rightarrow> proc" where
  "sched_upd f p = p\<lparr>psched := f (psched p)\<rparr>"

definition with_ptable :: "('a pbase_scheme \<Rightarrow> ('a pbase_scheme) kres) \<Rightarrow> 'a pbase_scheme \<Rightarrow> ('a pbase_scheme) kres" where
  "with_ptable f s = kbind (acquire PtableLock s) (\<lambda>s1. kbind (f s1) (release PtableLock))"

section \<open>Creating processes\<close>

definition KSTACKSIZE :: u32 where "KSTACKSIZE = 4096"

definition sizeof_trapframe :: u32 where "sizeof_trapframe = 76"

definition sizeof_context :: u32 where "sizeof_context = 20"

definition default_sched :: schedparams where
  "default_sched =
     \<lparr>queue = UNSET,
      bjf = \<lparr>priority = NORMAL, executed_cycle = 0, arrival_time = 0, process_size = 0,
             priority_ratio = float_one, executed_cycle_ratio = float_one,
             arrival_time_ratio = float_one, process_size_ratio = float_one\<rparr>,
      last_exec = 0\<rparr>"

definition allocproc :: "'a pbase_scheme \<Rightarrow> (nat option \<times> 'a pbase_scheme) kres" where
  "allocproc s =
     kbind (acquire PtableLock s) (\<lambda>s1.
     case find_idx (\<lambda>p. pstate p = UNUSED) (ptable s1) of
       None \<Rightarrow> kbind (release PtableLock s1) (\<lambda>s2. Inr (None, s2))
     | Some i \<Rightarrow>
         let s2 = (pupd i (\<lambda>p. p\<lparr>pstate := EMBRYO, pid := nextpid s1\<rparr>) s1)\<lparr>nextpid := wrap32 (nextpid s1 + 1)\<rparr> in
         kbind (release PtableLock s2) (\<lambda>s3.
         kbind (kalloc s3) (\<lambda>(v, s4).
         let s5 = pupd i (\<lambda>p. p\<lparr>kstack := v\<rparr>) s4 in
         if v = 0 then Inr (None, pupd i (\<lambda>p. p\<lparr>pstate := UNUSED\<rparr>) s5)
         else
           let sp1 = v + KSTACKSIZE - sizeof_trapframe;
               sp2 = sp1 - 4;
               sp3 = sp2 - sizeof_context;
               m1 = write32 (mem s5) sp2 (trapret_addr s5);
               m2 = memset m1 sp3 0 sizeof_context;
               m3 = write32 m2 (sp3 + 16) (forkret_addr s5)
           in Inr (Some i, pupd i (\<lambda>p. p\<lparr>tf := sp1, pcontext := sp3, psched := default_sched\<rparr>) (s5\<lparr>mem := m3\<rparr>)))))"

section \<open>Queues and ranks\<close>

definition init_queue :: "int \<Rightarrow> 'a pbase_scheme \<Rightarrow> (int \<times> 'a pbase_scheme) kres" where
  "init_queue x s =
     (if x = 1 \<or> x = 2 \<or> x > 2 then
        kbind (with_ptable (\<lambda>s1.
          case find_idx (\<lambda>p. pid p = x) (ptable s1) of
            Some i \<Rightarrow> Inr (pupd i (sched_upd (\<lambda>q. q\<lparr>queue := ROUND_ROBIN\<rparr>)) s1)
          | None \<Rightarrow> Inr s1) s) (\<lambda>s2. Inr (0, s2))
      else Inr (-1, s))"

definition change_queue :: "int \<Rightarrow> int \<Rightarrow> 'a pbase_scheme \<Rightarrow> (int \<times> 'a pbase_scheme) kres" where
  "change_queue x new_queue s =
     (if new_queue = UNSET then Inr (-1, s)
      else
        kbind (acquire PtableLock s) (\<lambda>s1.
        kbind (case find_idx (\<lambda>p. pid p = x) (ptable s1) of
            None \<Rightarrow> Inr (False, s1)
          | Some i \<Rightarrow>
              let s2 = pupd i (sched_upd (\<lambda>q. q\<lparr>queue := new_queue\<rparr>)) s1 in
              kbind (acquire TicksLock s2) (\<lambda>s3.
              kbind (release TicksLock (pupd i (sched_upd (\<lambda>q. q\<lparr>last_exec := sint (ticks s3)\<rparr>)) s3)) (\<lambda>s4.
              Inr (True, s4)))) (\<lambda>(is_process_exist, s5).
        kbind (release PtableLock s5) (\<lambda>s6.
        Inr (if is_process_exist then 0 else -1, s6)))))"

text \<open>\<^verbatim>\<open>aging\<close> walks the table with the lock held and calls \<^verbatim>\<open>change_queue\<close> for each old process.\<close>

definition too_old :: "int \<Rightarrow> proc \<Rightarrow> bool" where
  "too_old curr_time p \<longleftrightarrow> pstate p = RUNNABLE \<and> queue (psched p) \<noteq> ROUND_ROBIN
     \<and> wrap32 (curr_time - last_exec (psched p)) > MAX_AGE"

fun aging_loop :: "int \<Rightarrow> nat list \<Rightarrow> 'a pbase_scheme \<Rightarrow> ('a pbase_scheme) kres" where
  "aging_loop curr_time [] s = Inr s"
| "aging_loop curr_time (i # is) s =
     (if too_old curr_time (ptable s ! i)
      then kbind (change_queue (pid (ptable s ! i)) ROUND_ROBIN s) (\<lambda>(_, s1). aging_loop curr_time is s1)
      else aging_loop curr_time is s)"

definition aging :: "int \<Rightarrow> 'a pbase_scheme \<Rightarrow> ('a pbase_scheme) kres" where
  "aging curr_time s =
     with_ptable (\<lambda>s1. aging_loop curr_time [0..<length (ptable s1)] s1) s"

definition set_ratios :: "float32 \<Rightarrow> float32 \<Rightarrow> float32 \<Rightarrow> float32 \<Rightarrow> proc \<Rightarrow> proc" where
  "set_ratios pr ar er sr =
     sched_upd (\<lambda>q. q\<lparr>bjf := (bjf q)\<lparr>priority_ratio := pr, arrival_time_ratio := ar,
                                 executed_cycle_ratio := er, process_size_ratio := sr\<rparr>\<rparr>)"

definition set_bjs_proc ::
  "int \<Rightarrow> float32 \<Rightarrow> float32 \<Rightarrow> float32 \<Rightarrow> float32 \<Rightarrow> 'a pbase_scheme \<Rightarrow> (int \<times> 'a pbase_scheme) kres" where
  "set_bjs_proc x pr ar er sr s =
     kbind (acquire PtableLock s) (\<lambda>s1.
     let (is_pid_exist, s2) =
       (case find_idx (\<lambda>p. pid p = x) (ptable s1) of
          None \<Rightarrow> (False, s1)
        | Some i \<Rightarrow> (True, pupd i (set_ratios pr ar er sr) s1)) in
     kbind (release PtableLock s2) (\<lambda>s3. Inr (if is_pid_exist then 0 else -1, s3)))"

definition set_bjs_sys ::
  "float32 \<Rightarrow> float32 \<Rightarrow> float32 \<Rightarrow> float32 \<Rightarrow> 'a pbase_scheme \<Rightarrow> (int \<times> 'a pbase_scheme) kres" where
  "set_bjs_sys pr ar er sr s =
     kbind (with_ptable (\<lambda>s1. Inr (s1\<lparr>ptable := map (set_ratios pr ar er sr) (ptable s1)\<rparr>)) s)
       (\<lambda>s2. Inr (0, s2))"

definition procrank :: "('x, 'b) fpu_scheme \<Rightarrow> bjfparams \<Rightarrow> float32" where
  "procrank F b =
     fst32 F
       (fadd F (fadd F (fadd F
          (fmul F (fild F (priority b)) (fld F (priority_ratio b)))
          (fmul F (fild F (arrival_time b)) (fld F (arrival_time_ratio b))))
          (fmul F (fld F (executed_cycle b)) (fld F (executed_cycle_ratio b))))
          (fmul F (fild F (process_size b)) (fld F (process_size_ratio b))))"

section \<open>Choosing a process\<close>

definition rr_eligible :: "proc \<Rightarrow> bool" where
  "rr_eligible p \<longleftrightarrow> pstate p = RUNNABLE \<and> queue (psched p) = ROUND_ROBIN"

partial_function (option) rr_loop :: "proc list \<Rightarrow> nat \<Rightarrow> nat \<Rightarrow> nat option option" where
  "rr_loop tab lst p0 =
     (let p = (if p0 \<ge> length tab then 0 else p0) in
      if rr_eligible (tab ! p) then Some (Some p)
      else if p = lst then Some None
      else rr_loop tab lst (p + 1))"

definition round_robin :: "proc list \<Rightarrow> nat \<Rightarrow> nat option option" where
  "round_robin tab last_scheduled = rr_loop tab last_scheduled (last_scheduled + 1)"

text \<open>
  The other two levels scan the whole table and keep the best candidate so far, with the
  value it was chosen by.
\<close>

fun lcfs_loop :: "(nat \<times> proc) list \<Rightarrow> nat option \<Rightarrow> int \<Rightarrow> nat option" where
  "lcfs_loop [] next_p latest_time = next_p"
| "lcfs_loop ((i, p) # ps) next_p latest_time =
     (if pstate p \<noteq> RUNNABLE \<or> queue (psched p) \<noteq> LCFS then lcfs_loop ps next_p latest_time
      else let time = sint (ctime p) in
        if next_p = None \<or> time > latest_time then lcfs_loop ps (Some i) time
        else lcfs_loop ps next_p latest_time)"

definition last_come_first_serve :: "proc list \<Rightarrow> nat option" where
  "last_come_first_serve tab = lcfs_loop (List.enumerate 0 tab) None (- 1)"

fun bjf_loop :: "('x, 'b) fpu_scheme \<Rightarrow> (nat \<times> proc) list \<Rightarrow> nat option \<Rightarrow> float32 \<Rightarrow> nat option" where
  "bjf_loop F [] next_p best_rank = next_p"
| "bjf_loop F ((i, p) # ps) next_p best_rank =
     (if pstate p \<noteq> RUNNABLE \<or> queue (psched p) \<noteq> BJF then bjf_loop F ps next_p best_rank
      else let rank = procrank F (bjf (psched p)) in
        if next_p = None \<or> fless rank best_rank then bjf_loop F ps (Some i) rank
        else bjf_loop F ps next_p best_rank)"

text \<open>\<^verbatim>\<open>best_rank\<close> is not initialised; its first value is never looked at.\<close>

definition best_job_first :: "('x, 'b) fpu_scheme \<Rightarrow> proc list \<Rightarrow> nat option" where
  "best_job_first F tab = bjf_loop F (List.enumerate 0 tab) None 0"

section \<open>Switching\<close>

definition switchkvm :: "'a pbase_scheme \<Rightarrow> 'a pbase_scheme" where
  "switchkvm s = s\<lparr>cr3 := (cr3 s)(lapicid s := V2P (kpgdir s))\<rparr>"

definition switchuvm :: "proc \<Rightarrow> 'a pbase_scheme \<Rightarrow> ('a pbase_scheme) kres" where
  "switchuvm p s =
     (if kstack p = 0 then Inl (Panic ''switchuvm: no kstack'')
      else if pgdir p = 0 then Inl (Panic ''switchuvm: no pgdir'')
      else kbind (pushcli s) (\<lambda>s1.
           kbind (mycpu s1) (\<lambda>c.
           popcli (s1\<lparr>ts_esp0 := (ts_esp0 s1)(lapicid s1 := kstack p + KSTACKSIZE),
                     cr3 := (cr3 s1)(lapicid s1 := V2P (pgdir p))\<rparr>))))"

text \<open>
  One turn of the scheduler's loop on CPU \<open>c\<close>; \<open>run i\<close> is what happens from the switch to
  process \<open>i\<close> until the switch back. The result is the new \<^verbatim>\<open>last_scheduled\<close>, the process that
  ran if any, and the state.
\<close>

definition set_cproc :: "nat \<Rightarrow> nat option \<Rightarrow> 'a pbase_scheme \<Rightarrow> 'a pbase_scheme" where
  "set_cproc c i s = s\<lparr>cpus := (cpus s)[c := (cpus s ! c)\<lparr>cproc := i\<rparr>]\<rparr>"

definition choose_proc :: "('x, 'b) fpu_scheme \<Rightarrow> proc list \<Rightarrow> nat \<Rightarrow> (nat option \<times> nat) option" where
  "choose_proc F tab last_scheduled =
     (case round_robin tab last_scheduled of
        None \<Rightarrow> None
      | Some (Some p) \<Rightarrow> Some (Some p, p)
      | Some None \<Rightarrow>
          (case last_come_first_serve tab of
             Some p \<Rightarrow> Some (Some p, last_scheduled)
           | None \<Rightarrow> Some (best_job_first F tab, last_scheduled)))"

definition bump_cycle :: "('x, 'b) fpu_scheme \<Rightarrow> schedparams \<Rightarrow> schedparams" where
  "bump_cycle F q =
     q\<lparr>bjf := (bjf q)\<lparr>executed_cycle :=
        fst32 F (fadd F (fld F (executed_cycle (bjf q))) (fld F float_tenth))\<rparr>\<rparr>"

definition scheduler_turn ::
  "('x, 'b) fpu_scheme \<Rightarrow> (nat \<Rightarrow> 'a pbase_scheme \<Rightarrow> ('a pbase_scheme) kres) \<Rightarrow> nat \<Rightarrow> nat \<Rightarrow>
   'a pbase_scheme \<Rightarrow> (nat option \<times> nat \<times> 'a pbase_scheme) kres" where
  "scheduler_turn F run c last_scheduled s =
     kbind (acquire PtableLock (sti s)) (\<lambda>s1.
     case choose_proc F (ptable s1) last_scheduled of
       None \<Rightarrow> Inl (Fault ''round_robin does not return'')
     | Some (None, lst) \<Rightarrow> kbind (release PtableLock s1) (\<lambda>s2. Inr (None, lst, s2))
     | Some (Some i, lst) \<Rightarrow>
         kbind (switchuvm (ptable s1 ! i) (set_cproc c (Some i) s1)) (\<lambda>s2.
         let s3 = pupd i (\<lambda>p. p\<lparr>pstate := RUNNING,
                    psched := bump_cycle F ((psched p)\<lparr>last_exec := sint (ticks s2)\<rparr>)\<rparr>) s2 in
         kbind (run i s3) (\<lambda>s4.
         kbind (release PtableLock (set_cproc c None (switchkvm s4))) (\<lambda>s5.
         Inr (Some i, lst, s5)))))"

text \<open>\<^verbatim>\<open>scheduler\<close> never returns; \<open>scheduler_run\<close> is the state after \<open>n\<close> turns and the list of what ran.\<close>

primrec scheduler_turns ::
  "('x, 'b) fpu_scheme \<Rightarrow> (nat \<Rightarrow> 'a pbase_scheme \<Rightarrow> ('a pbase_scheme) kres) \<Rightarrow> nat \<Rightarrow> nat \<Rightarrow> nat \<Rightarrow>
   'a pbase_scheme \<Rightarrow> (nat option list \<times> nat \<times> 'a pbase_scheme) kres" where
  "scheduler_turns F run c 0 lst s = Inr ([], lst, s)"
| "scheduler_turns F run c (Suc n) lst s =
     kbind (scheduler_turn F run c lst s) (\<lambda>(r, lst1, s1).
     kbind (scheduler_turns F run c n lst1 s1) (\<lambda>(rs, lst2, s2). Inr (r # rs, lst2, s2)))"

definition scheduler_run ::
  "('x, 'b) fpu_scheme \<Rightarrow> (nat \<Rightarrow> 'a pbase_scheme \<Rightarrow> ('a pbase_scheme) kres) \<Rightarrow> nat \<Rightarrow>
   'a pbase_scheme \<Rightarrow> (nat option list \<times> nat \<times> 'a pbase_scheme) kres" where
  "scheduler_run F run n s =
     kbind (mycpu s) (\<lambda>c. scheduler_turns F run c n (NPROC - 1) (set_cproc c None s))"

section \<open>Leaving the CPU\<close>

text \<open>
  \<open>sw\<close> is the switch to the scheduler and back: it maps the state in which the process leaves
  the CPU to the state in which it continues.
\<close>

definition sched :: "('a pbase_scheme \<Rightarrow> ('a pbase_scheme) kres) \<Rightarrow> 'a pbase_scheme \<Rightarrow> ('a pbase_scheme) kres" where
  "sched sw s =
     kbind (myproc s) (\<lambda>(p, s1).
     kbind (holding PtableLock s1) (\<lambda>(h, s2).
     if \<not> h then Inl (Panic ''sched ptable.lock'')
     else kbind (mycpu s2) (\<lambda>c.
     if ncli (cpus s2 ! c) \<noteq> 1 then Inl (Panic ''sched locks'')
     else case p of None \<Rightarrow> Inl (Fault ''null process'')
     | Some i \<Rightarrow>
        if pstate (ptable s2 ! i) = RUNNING then Inl (Panic ''sched running'')
        else if readeflags s2 then Inl (Panic ''sched interruptible'')
        else let ie = intena (cpus s2 ! c) in
          kbind (sw s2) (\<lambda>s3.
          kbind (mycpu s3) (\<lambda>c3.
          Inr (s3\<lparr>cpus := (cpus s3)[c3 := (cpus s3 ! c3)\<lparr>intena := ie\<rparr>]\<rparr>))))))"

definition yield :: "('a pbase_scheme \<Rightarrow> ('a pbase_scheme) kres) \<Rightarrow> 'a pbase_scheme \<Rightarrow> ('a pbase_scheme) kres" where
  "yield sw s =
     kbind (acquire PtableLock s) (\<lambda>s1.
     kbind (myproc s1) (\<lambda>(p, s2).
     case p of None \<Rightarrow> Inl (Fault ''null process'')
     | Some i \<Rightarrow>
        kbind (sched sw (pupd i (\<lambda>p. p\<lparr>pstate := RUNNABLE\<rparr>) s2)) (release PtableLock)))"

definition sleep ::
  "('a pbase_scheme \<Rightarrow> ('a pbase_scheme) kres) \<Rightarrow> chan \<Rightarrow> lockid option \<Rightarrow> 'a pbase_scheme \<Rightarrow>
   ('a pbase_scheme) kres" where
  "sleep sw ch lk s =
     kbind (myproc s) (\<lambda>(p, s1).
     case p of None \<Rightarrow> Inl (Panic ''sleep'')
     | Some i \<Rightarrow>
       (case lk of None \<Rightarrow> Inl (Panic ''sleep without lk'')
        | Some l \<Rightarrow>
          kbind (if l \<noteq> PtableLock then kbind (acquire PtableLock s1) (release l) else Inr s1) (\<lambda>s2.
          kbind (sched sw (pupd i (\<lambda>p. p\<lparr>pchan := ch, pstate := SLEEPING\<rparr>) s2)) (\<lambda>s3.
          let s4 = pupd i (\<lambda>p. p\<lparr>pchan := NoChan\<rparr>) s3 in
          if l \<noteq> PtableLock then kbind (release PtableLock s4) (acquire l) else Inr s4))))"

definition wakeup1 :: "chan \<Rightarrow> 'a pbase_scheme \<Rightarrow> 'a pbase_scheme" where
  "wakeup1 ch s =
     s\<lparr>ptable := map (\<lambda>p. if pstate p = SLEEPING \<and> pchan p = ch then p\<lparr>pstate := RUNNABLE\<rparr> else p) (ptable s)\<rparr>"

definition wakeup :: "chan \<Rightarrow> 'a pbase_scheme \<Rightarrow> ('a pbase_scheme) kres" where
  "wakeup ch s = with_ptable (\<lambda>s1. Inr (wakeup1 ch s1)) s"

definition kill :: "int \<Rightarrow> 'a pbase_scheme \<Rightarrow> (int \<times> 'a pbase_scheme) kres" where
  "kill x s =
     kbind (acquire PtableLock s) (\<lambda>s1.
     case find_idx (\<lambda>p. pid p = x) (ptable s1) of
       Some i \<Rightarrow>
         kbind (release PtableLock (pupd i (\<lambda>p. p\<lparr>killed := True,
            pstate := (if pstate p = SLEEPING then RUNNABLE else pstate p)\<rparr>) s1)) (\<lambda>s2. Inr (0, s2))
     | None \<Rightarrow> kbind (release PtableLock s1) (\<lambda>s2. Inr (-1, s2)))"

section \<open>The questions a process can ask\<close>

definition nuncle :: "'a pbase_scheme \<Rightarrow> (int \<times> 'a pbase_scheme) kres" where
  "nuncle s =
     kbind (myproc s) (\<lambda>(p, s1).
     case p of None \<Rightarrow> Inl (Fault ''null process'')
     | Some i \<Rightarrow>
       (case parent (ptable s1 ! i) of None \<Rightarrow> Inl (Fault ''null parent'')
        | Some j \<Rightarrow>
          let grandparent = parent (ptable s1 ! j) in
          Inr (int (length (filter (\<lambda>p. parent p = grandparent) (ptable s1))) - 1, s1)))"

definition ptime :: "'a pbase_scheme \<Rightarrow> (int \<times> 'a pbase_scheme) kres" where
  "ptime s =
     kbind (myproc s) (\<lambda>(p, s1).
     case p of None \<Rightarrow> Inl (Fault ''null process'')
     | Some i \<Rightarrow> Inr (sint (ticks s1 - ctime (ptable s1 ! i)), s1))"

text \<open>The digit sum of \<^verbatim>\<open>temp\<close>, and the loop that repeats it; both counters only shrink.\<close>

function sum_digits :: "int \<Rightarrow> int" where
  "sum_digits temp = (if temp > 0 then temp mod 10 + sum_digits (temp div 10) else 0)"
  by pat_completeness auto
termination by (relation "measure nat") auto

declare sum_digits.simps [simp del]

lemma sum_digits_nonneg: "0 \<le> sum_digits n"
  by (induction n rule: sum_digits.induct) (subst sum_digits.simps, simp)

lemma sum_digits_le: "0 \<le> n \<Longrightarrow> sum_digits n \<le> n"
proof (induction n rule: sum_digits.induct)
  case (1 n)
  have "sum_digits (n div 10) \<le> n div 10" if "n > 0" using 1 that by simp
  moreover have "n mod 10 + n div 10 \<le> n" if "n > 0" using that by presburger
  ultimately show ?case using 1(2) by (subst sum_digits.simps) force
qed

lemma sum_digits_less:
  assumes "9 < n"
  shows "sum_digits n < n"
proof -
  have "sum_digits n = n mod 10 + sum_digits (n div 10)" using assms by (subst sum_digits.simps) simp
  also have "\<dots> \<le> n mod 10 + n div 10" using assms by (simp add: sum_digits_le)
  also have "\<dots> < n" using assms by presburger
  finally show ?thesis .
qed

function droot :: "int \<Rightarrow> int" where
  "droot n = (if n > 9 then droot (sum_digits n) else n)"
  by pat_completeness auto
termination by (relation "measure nat") (auto simp: sum_digits_less sum_digits_nonneg)

declare droot.simps [simp del]

section \<open>What the layers below leave alone\<close>

lemma pbase_core [simp]:
  "core (ptable_update f1 s) = core s" "core (plock_update f2 s) = core s" "core (initproc_update f3 s) = core s"
  "core (nextpid_update f4 s) = core s" "core (ticks_update f5 s) = core s" "core (trapret_addr_update f6 s) = core s"
  "core (forkret_addr_update f7 s) = core s" "core (cr3_update f8 s) = core s" "core (ts_esp0_update f9 s) = core s"
  "core (kpgdir_update f10 s) = core s"
  by (simp_all add: core_def)

lemma pbase_frame [simp]:
  "ptable (acquired l c s) = ptable s" "ptable (released l c s) = ptable s" "ptable (touched c s) = ptable s"
  "ptable (printed c out s) = ptable s" "ptable (kmem_step c m h s) = ptable s" "plock (acquired l c s) = plock s"
  "plock (released l c s) = plock s" "plock (touched c s) = plock s" "plock (printed c out s) = plock s"
  "plock (kmem_step c m h s) = plock s" "initproc (acquired l c s) = initproc s" "initproc (released l c s) = initproc s"
  "initproc (touched c s) = initproc s" "initproc (printed c out s) = initproc s" "initproc (kmem_step c m h s) = initproc s"
  "nextpid (acquired l c s) = nextpid s" "nextpid (released l c s) = nextpid s" "nextpid (touched c s) = nextpid s"
  "nextpid (printed c out s) = nextpid s" "nextpid (kmem_step c m h s) = nextpid s" "ticks (acquired l c s) = ticks s"
  "ticks (released l c s) = ticks s" "ticks (touched c s) = ticks s" "ticks (printed c out s) = ticks s"
  "ticks (kmem_step c m h s) = ticks s" "trapret_addr (acquired l c s) = trapret_addr s" "trapret_addr (released l c s) = trapret_addr s"
  "trapret_addr (touched c s) = trapret_addr s" "trapret_addr (printed c out s) = trapret_addr s" "trapret_addr (kmem_step c m h s) = trapret_addr s"
  "forkret_addr (acquired l c s) = forkret_addr s" "forkret_addr (released l c s) = forkret_addr s" "forkret_addr (touched c s) = forkret_addr s"
  "forkret_addr (printed c out s) = forkret_addr s" "forkret_addr (kmem_step c m h s) = forkret_addr s" "cr3 (acquired l c s) = cr3 s"
  "cr3 (released l c s) = cr3 s" "cr3 (touched c s) = cr3 s" "cr3 (printed c out s) = cr3 s"
  "cr3 (kmem_step c m h s) = cr3 s" "ts_esp0 (acquired l c s) = ts_esp0 s" "ts_esp0 (released l c s) = ts_esp0 s"
  "ts_esp0 (touched c s) = ts_esp0 s" "ts_esp0 (printed c out s) = ts_esp0 s" "ts_esp0 (kmem_step c m h s) = ts_esp0 s"
  "kpgdir (acquired l c s) = kpgdir s" "kpgdir (released l c s) = kpgdir s" "kpgdir (touched c s) = kpgdir s"
  "kpgdir (printed c out s) = kpgdir s" "kpgdir (kmem_step c m h s) = kpgdir s"
  by (simp_all add: acquired_def released_def touched_def printed_def kmem_step_def)

lemma pupd_simps [simp]:
  "ptable (pupd i f s) = (ptable s)[i := f (ptable s ! i)]" "core (pupd i f s) = core s"
  "plock (pupd i g s) = plock s" "initproc (pupd i g s) = initproc s" "nextpid (pupd i g s) = nextpid s"
  "ticks (pupd i g s) = ticks s" "trapret_addr (pupd i g s) = trapret_addr s" "forkret_addr (pupd i g s) = forkret_addr s"
  "cr3 (pupd i g s) = cr3 s" "ts_esp0 (pupd i g s) = ts_esp0 s" "kpgdir (pupd i g s) = kpgdir s"
  "mem (pupd i g s) = mem s" "cons_out (pupd i g s) = cons_out s" "cons_locking (pupd i g s) = cons_locking s"
  "use_lock (pupd i g s) = use_lock s" "freelist (pupd i g s) = freelist s" "kend (pupd i g s) = kend s"
  "cpus (pupd i g s) = cpus s" "lapicid (pupd i g s) = lapicid s"
  by (simp_all add: pupd_def)

lemma sched_upd_simps [simp]:
  "pstate (sched_upd f p) = pstate p" "pid (sched_upd f p) = pid p" "parent (sched_upd f p) = parent p"
  "pchan (sched_upd f p) = pchan p" "killed (sched_upd f p) = killed p" "psched (sched_upd f p) = f (psched p)"
  by (simp_all add: sched_upd_def)

text \<open>
  \<open>proc_ready c s\<close>: the code runs on CPU \<open>c\<close> and \<^verbatim>\<open>ptable.lock\<close> can be taken. A section of code
  between acquire and release of that lock then runs to the end of its body.
\<close>

definition proc_ready :: "nat \<Rightarrow> 'a pbase_scheme \<Rightarrow> bool" where
  "proc_ready c s \<longleftrightarrow> cpu_ok c (core s) \<and> lock_free PtableLock (core s)"

lemma proc_ready_core: "core t = core s \<Longrightarrow> proc_ready c t = proc_ready c s"
  by (simp add: proc_ready_def)

lemma proc_acquire: "proc_ready c s \<Longrightarrow> acquire PtableLock s = Inr (acquired PtableLock c s)"
  by (simp add: proc_ready_def acquire_ok[of c])

lemma proc_acquired_core: "proc_ready c s \<Longrightarrow> core (acquired PtableLock c s) = take_lock PtableLock c (core s)"
  by (simp add: proc_ready_def)

lemma proc_release:
  assumes "proc_ready c s" "core t = take_lock PtableLock c (core s)"
  shows "release PtableLock t = Inr (released PtableLock c t)" "core (released PtableLock c t) = core s"
  using assms by (auto simp: proc_ready_def intro!: release_ok)

lemma with_ptable_ok:
  assumes "proc_ready c s" "f (acquired PtableLock c s) = Inr t" "core t = take_lock PtableLock c (core s)"
  shows "with_ptable f s = Inr (released PtableLock c t)" "core (released PtableLock c t) = core s"
  using assms proc_release[OF assms(1,3)] by (simp_all add: with_ptable_def proc_acquire)

section \<open>Operations on one process\<close>

lemma kill_ok:
  assumes "proc_ready c s"
  shows "\<exists>t. kill x s = Inr (case find_idx (\<lambda>p. pid p = x) (ptable s) of Some i \<Rightarrow> 0 | None \<Rightarrow> - 1, t) \<and> core t = core s \<and>
     ptable t = (case find_idx (\<lambda>p. pid p = x) (ptable s) of
        Some i \<Rightarrow> (ptable s)[i := (ptable s ! i)\<lparr>killed := True,
            pstate := (if pstate (ptable s ! i) = SLEEPING then RUNNABLE else pstate (ptable s ! i))\<rparr>]
      | None \<Rightarrow> ptable s)"
  using assms
  by (cases "find_idx (\<lambda>p. pid p = x) (ptable s)")
     (auto simp: kill_def proc_acquire proc_release proc_acquired_core)

lemma wakeup_ok:
  assumes "proc_ready c s"
  shows "\<exists>t. wakeup ch s = Inr t \<and> core t = core s \<and>
     ptable t = map (\<lambda>p. if pstate p = SLEEPING \<and> pchan p = ch then p\<lparr>pstate := RUNNABLE\<rparr> else p) (ptable s)"
  using with_ptable_ok[OF assms, of "\<lambda>s1. Inr (wakeup1 ch s1)"] assms
  by (simp add: wakeup_def wakeup1_def proc_acquired_core)

lemma set_bjs_sys_ok:
  assumes "proc_ready c s"
  shows "\<exists>t. set_bjs_sys pr ar er sr s = Inr (0, t) \<and> core t = core s \<and>
     ptable t = map (set_ratios pr ar er sr) (ptable s)"
  using with_ptable_ok[OF assms, of "\<lambda>s1. Inr (s1\<lparr>ptable := map (set_ratios pr ar er sr) (ptable s1)\<rparr>)"] assms
  by (simp add: set_bjs_sys_def proc_acquired_core)

lemma set_bjs_proc_ok:
  assumes "proc_ready c s"
  shows "\<exists>t. set_bjs_proc x pr ar er sr s =
       Inr (case find_idx (\<lambda>p. pid p = x) (ptable s) of Some i \<Rightarrow> 0 | None \<Rightarrow> - 1, t) \<and> core t = core s \<and>
     ptable t = (case find_idx (\<lambda>p. pid p = x) (ptable s) of
        Some i \<Rightarrow> (ptable s)[i := set_ratios pr ar er sr (ptable s ! i)] | None \<Rightarrow> ptable s)"
  using assms
  by (cases "find_idx (\<lambda>p. pid p = x) (ptable s)")
     (auto simp: set_bjs_proc_def proc_acquire proc_release proc_acquired_core)

definition requeued :: "int \<Rightarrow> int \<Rightarrow> proc \<Rightarrow> proc" where
  "requeued new_queue now p = p\<lparr>psched := (psched p)\<lparr>queue := new_queue, last_exec := now\<rparr>\<rparr>"

lemma ticks_section:
  assumes "cpu_ok c k" "normal k" "lock_free TicksLock k" "core t = k"
  shows "acquire TicksLock t = Inr (acquired TicksLock c t)"
    "core u = take_lock TicksLock c k \<Longrightarrow> release TicksLock u = Inr (released TicksLock c u)"
    "core u = take_lock TicksLock c k \<Longrightarrow> core (released TicksLock c u) = k"
    "core (acquired TicksLock c t) = take_lock TicksLock c k"
  using assms by (auto intro!: acquire_ok release_ok)

lemma change_queue_ok:
  assumes "proc_ready c s" "lock_free TicksLock (core s)" "new_queue \<noteq> UNSET"
  shows "\<exists>t. change_queue x new_queue s =
       Inr (case find_idx (\<lambda>p. pid p = x) (ptable s) of Some i \<Rightarrow> 0 | None \<Rightarrow> - 1, t) \<and> core t = core s \<and>
     ptable t = (case find_idx (\<lambda>p. pid p = x) (ptable s) of
        Some i \<Rightarrow> (ptable s)[i := requeued new_queue (sint (ticks s)) (ptable s ! i)] | None \<Rightarrow> ptable s)"
proof (cases "find_idx (\<lambda>p. pid p = x) (ptable s)")
  case None
  then show ?thesis
    using assms by (auto simp: change_queue_def proc_acquire proc_release proc_acquired_core)
next
  case (Some i)
  let ?k = "take_lock PtableLock c (core s)"
  have k: "cpu_ok c ?k" "normal ?k" "lock_free TicksLock ?k"
    using assms(1,2) by (auto simp: proc_ready_def)
  let ?s2 = "pupd i (sched_upd (\<lambda>q. q\<lparr>queue := new_queue\<rparr>)) (acquired PtableLock c s)"
  have c2: "core ?s2 = ?k" using assms(1) by (simp add: proc_acquired_core)
  note T = ticks_section[OF k c2]
  let ?s4 = "pupd i (sched_upd (\<lambda>q. q\<lparr>last_exec := sint (ticks s)\<rparr>)) (acquired TicksLock c ?s2)"
  have c4: "core ?s4 = take_lock TicksLock c ?k" using T(4) by simp
  note R = proc_release[OF assms(1) T(3)[OF c4]]
  have i: "i < length (ptable s)" using Some by (rule find_idx_SomeD)
  have "change_queue x new_queue s = Inr (0, released PtableLock c (released TicksLock c ?s4))"
    using assms(3) T(1) T(2)[OF c4] R(1) by (simp add: change_queue_def Some proc_acquire[OF assms(1)])
  then show ?thesis using i R(2) by (simp add: Some requeued_def sched_upd_def)
qed

text \<open>
  Every branch of \<^verbatim>\<open>change_queue\<close>: queue 0 is refused with no effect; otherwise the first
  process with the given pid, and no other, gets the new queue and has its \<^verbatim>\<open>last_exec\<close> set to
  the current ticks (result 0), or no process has that pid and the table is unchanged
  (result -1). Both locks end as they were.
\<close>

theorem change_queue_spec:
  assumes "proc_ready c s" "lock_free TicksLock (core s)"
  shows "\<exists>t. core t = core s \<and>
     (if new_queue = UNSET then change_queue x new_queue s = Inr (- 1, t) \<and> ptable t = ptable s
      else case find_idx (\<lambda>p. pid p = x) (ptable s) of
        None \<Rightarrow> change_queue x new_queue s = Inr (- 1, t) \<and> ptable t = ptable s
      | Some i \<Rightarrow> change_queue x new_queue s = Inr (0, t) \<and>
          ptable t = (ptable s)[i := requeued new_queue (sint (ticks s)) (ptable s ! i)])"
proof (cases "new_queue = UNSET")
  case False
  from change_queue_ok[OF assms this, of x] show ?thesis
    using False by (auto split: option.splits)
qed (simp add: change_queue_def exI[of _ s])

section \<open>Aging\<close>

lemma aging_loop_none:
  "\<forall>i \<in> set is. \<not> too_old curr_time (ptable s ! i) \<Longrightarrow> aging_loop curr_time is s = Inr s"
  by (induction "is") auto

lemma aging_loop_old:
  assumes "cpu_ok c (core s)" "lock_held PtableLock c (core s)" "\<exists>i \<in> set is. too_old curr_time (ptable s ! i)"
  shows "aging_loop curr_time is s = Inl (Panic ''acquire'')"
  using assms(3)
proof (induction "is")
  case (Cons i "is")
  then show ?case
    using acquire_own[OF assms(1,2)] by (auto simp: change_queue_def queue_defs)
qed simp

text \<open>
  C10. Aging never moves a process. \<^verbatim>\<open>aging\<close> holds \<^verbatim>\<open>ptable.lock\<close> while it calls \<^verbatim>\<open>change_queue\<close>, which
  acquires the same lock: if some runnable process outside the round-robin queue has waited more
  than \<^verbatim>\<open>MAX_AGE\<close> ticks, the kernel panics in \<^verbatim>\<open>acquire\<close>; if none has, nothing changes.
\<close>

theorem aging_panics:
  assumes "proc_ready c s"
  shows "if \<exists>p \<in> set (ptable s). too_old curr_time p
         then aging curr_time s = Inl (Panic ''acquire'')
         else \<exists>t. aging curr_time s = Inr t \<and> core t = core s \<and> ptable t = ptable s"
proof -
  let ?s = "acquired PtableLock c s" and ?is = "[0..<length (ptable s)]"
  have ok: "cpu_ok c (core ?s)" "lock_held PtableLock c (core ?s)"
    using assms by (auto simp: proc_ready_def)
  have ex: "(\<exists>p \<in> set (ptable s). too_old curr_time p) \<longleftrightarrow> (\<exists>i \<in> set ?is. too_old curr_time (ptable ?s ! i))"
    by (auto simp: Bex_def in_set_conv_nth)
  show ?thesis
  proof (cases "\<exists>p \<in> set (ptable s). too_old curr_time p")
    case True
    then have "aging_loop curr_time ?is ?s = Inl (Panic ''acquire'')"
      using aging_loop_old[OF ok] ex by blast
    with True show ?thesis using assms by (simp add: aging_def with_ptable_def proc_acquire)
  next
    case False
    then have "aging_loop curr_time ?is ?s = Inr ?s" using ex by (intro aging_loop_none) blast
    with False show ?thesis
      using with_ptable_ok[OF assms, of "\<lambda>s1. aging_loop curr_time [0..<length (ptable s1)] s1" ?s] assms
      by (simp add: aging_def proc_acquired_core)
  qed
qed

section \<open>A concrete machine\<close>

text \<open>Three processes in a table of \<^verbatim>\<open>NPROC\<close>: init, a shell, and a process of the second queue.\<close>

definition unused_proc :: proc where
  "unused_proc = \<lparr>sz = 0, pgdir = 0, kstack = 0, pstate = UNUSED, pid = 0, parent = None, tf = 0,
     pcontext = 0, pchan = NoChan, killed = False, ofile = replicate NOFILE None, cwd = None,
     pname = [], ctime = 0, psched = default_sched, shmemaddr = 0\<rparr>"

definition demo_table :: "proc list" where
  "demo_table =
     [unused_proc\<lparr>pstate := SLEEPING, pid := 1, pchan := ProcChan 0, pname := ''init'',
        psched := default_sched\<lparr>queue := ROUND_ROBIN\<rparr>, kstack := 0x80300000, pgdir := 0x80301000\<rparr>,
      unused_proc\<lparr>pstate := RUNNABLE, pid := 2, parent := Some 0, pname := ''sh'', ctime := 5,
        psched := default_sched\<lparr>queue := ROUND_ROBIN\<rparr>, kstack := 0x80302000, pgdir := 0x80303000\<rparr>,
      unused_proc\<lparr>pstate := RUNNABLE, pid := 3, parent := Some 1, pname := ''job'', ctime := 9,
        psched := default_sched\<lparr>queue := LCFS\<rparr>, kstack := 0x80304000, pgdir := 0x80305000\<rparr>]
     @ replicate 61 unused_proc"

definition demo_pbase :: pbase where
  "demo_pbase = \<lparr>cpus = [boot_cpu\<lparr>cproc := Some 1\<rparr>], lapicid = 0, eflags_if = (\<lambda>_. True), locks = (\<lambda>_. boot_lock),
     mem = (\<lambda>_. 0), frame = 0, cons_locking = True, cons_out = [],
     use_lock = True, freelist = 0, kend = 0x80200000, ptable = demo_table,
     plock = \<lparr>plocked = False, inqueue = 0, lockreq = replicate NPROC 0, plname = ''plock'', plpid = 0\<rparr>,
     initproc = Some 0, nextpid = 4, ticks = 9000, trapret_addr = 0, forkret_addr = 0,
     cr3 = (\<lambda>_. 0), ts_esp0 = (\<lambda>_. 0), kpgdir = 0\<rparr>"

lemma demo_ready: "proc_ready 0 demo_pbase" "lock_free l (core demo_pbase)" "ptable demo_pbase = demo_table"
  by (simp_all add: proc_ready_def demo_pbase_def cpu_ok_def lock_free_def boot_cpu_def boot_lock_def)

theorem change_queue_spec_witness:
  "\<exists>t. core t = core demo_pbase \<and> change_queue 3 1 demo_pbase = Inr (0, t) \<and>
     ptable t = demo_table[2 := requeued 1 9000 (demo_table ! 2)]"
proof -
  have "find_idx (\<lambda>p. pid p = 3) demo_table = Some 2" by (simp add: demo_table_def unused_proc_def)
  then show ?thesis
    using change_queue_spec[OF demo_ready(1,2), where new_queue = 1 and x = 3]
    by (simp add: demo_ready(3) UNSET_def) (simp add: demo_pbase_def)
qed

theorem aging_panics_witness: "aging 9000 demo_pbase = Inl (Panic ''acquire'')"
proof -
  have "\<exists>p \<in> set demo_table. too_old 9000 p"
    by (simp add: demo_table_def unused_proc_def too_old_def default_sched_def queue_defs MAX_AGE_def wrap32_def)
  then show ?thesis using aging_panics[OF demo_ready(1), of 9000] by (simp add: demo_ready(3))
qed

section \<open>Waking and killing\<close>

text \<open>
  \<^verbatim>\<open>wakeup(chan)\<close> makes runnable exactly the processes asleep on \<^verbatim>\<open>chan\<close>, changes nothing else of
  the table, and leaves the locks as they were; a second call changes nothing more.
\<close>

theorem wakeup_exact:
  assumes "proc_ready c s"
  shows "\<exists>t. wakeup ch s = Inr t \<and> core t = core s \<and> length (ptable t) = length (ptable s) \<and>
     (\<forall>i. i < length (ptable s) \<longrightarrow> ptable t ! i =
        (if pstate (ptable s ! i) = SLEEPING \<and> pchan (ptable s ! i) = ch
         then (ptable s ! i)\<lparr>pstate := RUNNABLE\<rparr> else ptable s ! i)) \<and>
     (\<exists>u. wakeup ch t = Inr u \<and> ptable u = ptable t)"
proof -
  let ?f = "\<lambda>p. if pstate p = SLEEPING \<and> pchan p = ch then p\<lparr>pstate := RUNNABLE\<rparr> else p"
  obtain t where t: "wakeup ch s = Inr t" "core t = core s" "ptable t = map ?f (ptable s)"
    using wakeup_ok[OF assms] by blast
  have "proc_ready c t" using assms proc_ready_core[OF t(2)] by simp
  then obtain u where u: "wakeup ch t = Inr u" "ptable u = map ?f (ptable t)"
    using wakeup_ok by blast
  have "map ?f (ptable t) = ptable t" using t(3) by (auto simp: comp_def)
  with t u show ?thesis by auto
qed

theorem wakeup_exact_witness:
  "\<exists>t. wakeup (ProcChan 0) demo_pbase = Inr t \<and> pstate (ptable t ! 0) = RUNNABLE \<and> pstate (ptable t ! 2) = RUNNABLE"
proof -
  have "length demo_table = 64" by (simp add: demo_table_def)
  then show ?thesis
    using wakeup_exact[OF demo_ready(1), of "ProcChan 0"]
    by (fastforce simp: demo_ready(3) demo_table_def unused_proc_def)
qed

text \<open>
  \<^verbatim>\<open>kill(pid)\<close> marks exactly the first process with that pid, wakes it if it sleeps, and changes
  no other process; with no such process it fails with -1 and changes nothing.
\<close>

theorem kill_spec:
  assumes "proc_ready c s"
  shows "\<exists>r t. kill x s = Inr (r, t) \<and> core t = core s \<and>
     (case find_idx (\<lambda>p. pid p = x) (ptable s) of
        None \<Rightarrow> r = - 1 \<and> ptable t = ptable s
      | Some i \<Rightarrow> r = 0 \<and> killed (ptable t ! i) \<and> pstate (ptable t ! i) \<noteq> SLEEPING \<and>
          (\<forall>j. j \<noteq> i \<longrightarrow> ptable t ! j = ptable s ! j))"
  using kill_ok[OF assms, of x]
  by (auto split: option.splits dest: find_idx_SomeD(1))

theorem kill_spec_witness:
  "\<exists>t. kill 1 demo_pbase = Inr (0, t) \<and> killed (ptable t ! 0) \<and> pstate (ptable t ! 0) \<noteq> SLEEPING"
proof -
  have "find_idx (\<lambda>p. pid p = 1) demo_table = Some 0" by (simp add: demo_table_def unused_proc_def)
  then show ?thesis using kill_spec[OF demo_ready(1), of 1] by (auto simp: demo_ready(3))
qed

section \<open>The digital root\<close>

lemma sum_digits_mod: "0 \<le> n \<Longrightarrow> sum_digits n mod 9 = n mod 9"
proof (induction n rule: sum_digits.induct)
  case (1 n)
  show ?case
  proof (cases "0 < n")
    case True
    then have "sum_digits n mod 9 = (n mod 10 + sum_digits (n div 10)) mod 9"
      by (subst sum_digits.simps) simp
    also have "\<dots> = (n mod 10 + n div 10) mod 9"
      using 1 True by (intro mod_add_cong) simp_all
    also have "n mod 10 + n div 10 = n + 9 * (- (n div 10))" by presburger
    also have "\<dots> mod 9 = n mod 9" by (rule mod_mult_self2)
    finally show ?thesis .
  qed (use 1(2) in \<open>subst sum_digits.simps, simp\<close>)
qed

lemma sum_digits_pos: "0 < n \<Longrightarrow> 0 < sum_digits n"
proof (induction n rule: sum_digits.induct)
  case (1 n)
  show ?case
  proof (cases "n div 10 = 0")
    case True
    then have "0 < n mod 10" using 1(2) by presburger
    then show ?thesis using 1(2) sum_digits_nonneg[of "n div 10"] by (subst sum_digits.simps) simp
  next
    case False
    then have "0 < n div 10" using 1(2) by presburger
    moreover have "0 \<le> n mod 10" by simp
    ultimately show ?thesis using 1 by (subst sum_digits.simps) force
  qed
qed

text \<open>
  \<^verbatim>\<open>droot\<close> returns for every argument; for a non-negative one it is the digital root, the number
  below 10 congruent to the argument modulo 9, with 9 instead of 0 for positive multiples of 9.
\<close>

theorem droot_digital_root:
  assumes "0 \<le> n"
  shows "droot n = (if n = 0 then 0 else 1 + (n - 1) mod 9)"
proof -
  have "0 \<le> n \<Longrightarrow> droot n mod 9 = n mod 9 \<and> 0 \<le> droot n \<and> droot n \<le> 9 \<and> (0 < n \<longrightarrow> 0 < droot n)"
  proof (induction n rule: droot.induct)
    case (1 n)
    then show ?case
      using sum_digits_nonneg[of n] sum_digits_mod[of n] sum_digits_pos[of n]
      by (subst (1 2 3 4) droot.simps) auto
  qed
  with assms have "droot n mod 9 = n mod 9" "0 \<le> droot n" "droot n \<le> 9" "0 < n \<Longrightarrow> 0 < droot n" by auto
  moreover have "droot 0 = 0" by (subst droot.simps) simp
  moreover have "(droot n - 1) mod 9 = (n - 1) mod 9" using calculation(1) by (intro mod_diff_cong) simp_all
  moreover have "(droot n - 1) mod 9 = droot n - 1" if "0 < n"
    using calculation(3,4) that by (intro mod_pos_pos_trivial) auto
  ultimately show ?thesis using assms by (cases "n = 0") auto
qed

theorem droot_digital_root_witness: "droot 993 = 3"
  using droot_digital_root[of 993] by simp

end
