(* ===== verification/Sched.thy ===== *)
theory Sched
  imports Proc
begin

text \<open>
  The scheduler of \<^verbatim>\<open>proc.c\<close>: what each of the three levels chooses, the priority between them,
  freedom from starvation in the round-robin level, and what a process is handed when it is
  switched to and leaves behind when it goes to sleep.
\<close>

section \<open>Round robin\<close>

definition rr_dist :: "nat \<Rightarrow> nat \<Rightarrow> nat \<Rightarrow> nat" where
  "rr_dist n lst i = (if lst < i then i - lst - 1 else i + n - lst - 1)"

definition rr_best :: "proc list \<Rightarrow> nat \<Rightarrow> nat option \<Rightarrow> bool" where
  "rr_best tab lst r \<longleftrightarrow>
     (case r of
        None \<Rightarrow> \<forall>i < length tab. \<not> rr_eligible (tab ! i)
      | Some j \<Rightarrow> j < length tab \<and> rr_eligible (tab ! j) \<and>
          (\<forall>i < length tab. rr_eligible (tab ! i) \<longrightarrow> rr_dist (length tab) lst j \<le> rr_dist (length tab) lst i))"

lemma rr_loop_low:
  assumes "lst < length tab" "p \<le> lst" "\<forall>i < p. \<not> rr_eligible (tab ! i)"
    and "\<forall>i < length tab. lst < i \<longrightarrow> \<not> rr_eligible (tab ! i)"
  shows "\<exists>r. rr_loop tab lst p = Some r \<and> rr_best tab lst r"
  using assms(2,3)
proof (induction "lst - p" arbitrary: p)
  case 0
  then have p: "p = lst" by simp
  have only: "i = lst" if "i < length tab" "rr_eligible (tab ! i)" for i
    using that "0.prems" p assms(4) by (cases i lst rule: linorder_cases) auto
  show ?case
  proof (cases "rr_eligible (tab ! lst)")
    case True
    then have "rr_best tab lst (Some lst)" using assms(1) by (auto simp: rr_best_def dest: only)
    with True show ?thesis using assms(1) by (subst rr_loop.simps) (simp add: p)
  next
    case False
    then have "rr_best tab lst None" by (auto simp: rr_best_def dest: only)
    with False show ?thesis using assms(1) by (subst rr_loop.simps) (simp add: p)
  qed
next
  case (Suc k)
  show ?case
  proof (cases "rr_eligible (tab ! p)")
    case True
    have "rr_dist (length tab) lst p \<le> rr_dist (length tab) lst i"
      if "i < length tab" "rr_eligible (tab ! i)" for i
    proof -
      have "p \<le> i" "i \<le> lst" using that assms(4) Suc.prems(2) by (force simp: not_le[symmetric])+
      then show ?thesis by (simp add: rr_dist_def)
    qed
    then show ?thesis
      using True Suc.prems assms(1) by (subst rr_loop.simps) (simp add: rr_best_def)
  next
    case False
    have "\<exists>r. rr_loop tab lst (p + 1) = Some r \<and> rr_best tab lst r"
      using Suc False by (intro Suc.hyps(1)) (auto simp: less_Suc_eq)
    moreover have "p \<noteq> lst" using Suc.hyps(2) by simp
    ultimately show ?thesis using False assms(1) Suc.prems(1) by (subst rr_loop.simps) simp
  qed
qed

lemma rr_loop_high:
  assumes "lst < length tab" "lst < p" "p \<le> length tab"
    and "\<forall>i < p. lst < i \<longrightarrow> \<not> rr_eligible (tab ! i)"
  shows "\<exists>r. rr_loop tab lst p = Some r \<and> rr_best tab lst r"
  using assms(2-)
proof (induction "length tab - p" arbitrary: p)
  case 0
  then have "rr_loop tab lst p = rr_loop tab lst 0"
    by (subst rr_loop.simps, subst (2) rr_loop.simps) simp
  then show ?case using 0 assms(1) rr_loop_low[of lst tab 0] by simp
next
  case (Suc k)
  then have p: "p < length tab" by simp
  show ?case
  proof (cases "rr_eligible (tab ! p)")
    case True
    have "rr_dist (length tab) lst p \<le> rr_dist (length tab) lst i"
      if "i < length tab" "rr_eligible (tab ! i)" for i
    proof -
      have "i \<le> lst \<or> p \<le> i" using that Suc.prems(3) by (force simp: not_le)
      then show ?thesis using p Suc.prems(1) by (auto simp: rr_dist_def)
    qed
    then show ?thesis using True p by (subst rr_loop.simps) (simp add: rr_best_def)
  next
    case False
    have "\<exists>r. rr_loop tab lst (p + 1) = Some r \<and> rr_best tab lst r"
      using Suc False by (intro Suc.hyps(1)) (auto simp: less_Suc_eq)
    then show ?thesis using False p Suc.prems(1) by (subst rr_loop.simps) simp
  qed
qed

lemma round_robin_best:
  assumes "lst < length tab"
  shows "\<exists>r. round_robin tab lst = Some r \<and> rr_best tab lst r"
  unfolding round_robin_def using assms by (intro rr_loop_high) auto

text \<open>
  \<^verbatim>\<open>round_robin\<close> returns for every last process inside the table; it answers 0 exactly when no
  process of its queue is runnable, and otherwise the first such process that comes after the
  last one scheduled, going round the table.
\<close>

theorem round_robin_next:
  assumes "lst < length tab"
  shows "\<exists>r. round_robin tab lst = Some r \<and>
     (case r of
        None \<Rightarrow> \<forall>i < length tab. \<not> rr_eligible (tab ! i)
      | Some j \<Rightarrow> j < length tab \<and> rr_eligible (tab ! j) \<and>
          (\<forall>i < length tab. rr_eligible (tab ! i) \<longrightarrow>
             rr_dist (length tab) lst j \<le> rr_dist (length tab) lst i))"
  using round_robin_best[OF assms] by (simp only: rr_best_def)

theorem round_robin_next_witness:
  "\<exists>j. round_robin demo_table 63 = Some (Some j) \<and> rr_eligible (demo_table ! j)"
proof -
  have n: "length demo_table = 64" by (simp add: demo_table_def)
  have e: "rr_eligible (demo_table ! 1)"
    by (simp add: demo_table_def rr_eligible_def unused_proc_def)
  obtain r where r: "round_robin demo_table 63 = Some r"
    and *: "case r of None \<Rightarrow> \<forall>i < 64. \<not> rr_eligible (demo_table ! i)
      | Some j \<Rightarrow> j < 64 \<and> rr_eligible (demo_table ! j) \<and>
          (\<forall>i < 64. rr_eligible (demo_table ! i) \<longrightarrow> rr_dist 64 63 j \<le> rr_dist 64 63 i)"
    using round_robin_next[of 63 demo_table] unfolding n by auto
  from * e have "r \<noteq> None" by (cases r) auto
  with r * show ?thesis by auto
qed

text \<open>
  The round-robin decisions of successive turns: \<open>tabs k\<close> is the table the scheduler sees at
  its \<open>k\<close>-th turn.
\<close>

primrec rr_last :: "(nat \<Rightarrow> proc list) \<Rightarrow> nat \<Rightarrow> nat \<Rightarrow> nat" where
  "rr_last tabs lst 0 = lst"
| "rr_last tabs lst (Suc k) =
     (case round_robin (tabs k) (rr_last tabs lst k) of
        Some (Some j) \<Rightarrow> j | _ \<Rightarrow> rr_last tabs lst k)"

lemma rr_pick:
  assumes "lst < length tab" "i < length tab" "rr_eligible (tab ! i)"
  obtains j where "round_robin tab lst = Some (Some j)" "j < length tab"
    "rr_dist (length tab) lst j \<le> rr_dist (length tab) lst i"
proof -
  obtain r where r: "round_robin tab lst = Some r" "rr_best tab lst r"
    using round_robin_best[OF assms(1)] by blast
  with assms(2,3) show ?thesis using that by (cases r) (auto simp: rr_best_def)
qed

lemma rr_dist_step:
  assumes "lst < n" "i < n" "j < n" "rr_dist n lst j \<le> rr_dist n lst i" "j \<noteq> i"
  shows "rr_dist n j i < rr_dist n lst i"
  using assms by (auto simp: rr_dist_def split: if_splits)

lemma rr_dist_bound: "lst < n \<Longrightarrow> i < n \<Longrightarrow> rr_dist n lst i < n"
  by (auto simp: rr_dist_def)

lemma rr_reaches:
  assumes "\<And>k. length (tabs k) = n" "i < n" "lst < n"
    and "\<And>k. k \<le> m \<Longrightarrow> rr_eligible (tabs k ! i)" and "rr_dist n lst i \<le> m"
  shows "\<exists>k \<le> m. rr_last tabs lst (Suc k) = i"
proof (rule ccontr)
  assume none: "\<not> ?thesis"
  have "rr_last tabs lst k < n \<and> rr_dist n (rr_last tabs lst k) i + k \<le> m" if "k \<le> Suc m" for k
    using that
  proof (induction k)
    case (Suc k)
    let ?l = "rr_last tabs lst k"
    have l: "?l < n" "rr_dist n ?l i + k \<le> m" using Suc by auto
    obtain j where j: "round_robin (tabs k) ?l = Some (Some j)" "j < n" "rr_dist n ?l j \<le> rr_dist n ?l i"
      using rr_pick[of ?l "tabs k" i] assms(1,2,4) l(1) Suc.prems by auto
    have "j \<noteq> i" using none j(1) Suc.prems by auto
    then show ?case using rr_dist_step[OF l(1) assms(2) j(2,3)] l(2) j by simp
  qed (use assms in simp)
  from this[of "Suc m"] show False by simp
qed



section \<open>Scanning for the best candidate\<close>

fun scan_best :: "('p \<Rightarrow> bool) \<Rightarrow> ('p \<Rightarrow> 'k) \<Rightarrow> ('k \<Rightarrow> 'k \<Rightarrow> bool) \<Rightarrow> (nat \<times> 'p) list \<Rightarrow> (nat \<times> 'k) option \<Rightarrow> (nat \<times> 'k) option" where
  "scan_best elig key lt [] b = b"
| "scan_best elig key lt ((i, p) # ps) b =
     (if \<not> elig p then scan_best elig key lt ps b
      else case b of
        None \<Rightarrow> scan_best elig key lt ps (Some (i, key p))
      | Some (j, k) \<Rightarrow> scan_best elig key lt ps (if lt (key p) k then Some (i, key p) else b))"

text \<open>
  What a scan needs of the order it compares by, on the keys that occur: being better is
  irreflexive and transitive, and so is not being better.
\<close>

locale best_scan =
  fixes ok :: "'k \<Rightarrow> bool" and lt :: "'k \<Rightarrow> 'k \<Rightarrow> bool"
  assumes lt_irrefl: "ok a \<Longrightarrow> \<not> lt a a"
    and lt_trans: "ok a \<Longrightarrow> ok b \<Longrightarrow> ok c \<Longrightarrow> lt a b \<Longrightarrow> lt b c \<Longrightarrow> lt a c"
    and not_lt_trans: "ok a \<Longrightarrow> ok b \<Longrightarrow> ok c \<Longrightarrow> \<not> lt a b \<Longrightarrow> \<not> lt b c \<Longrightarrow> \<not> lt a c"
begin

lemma scan_from_Some:
  assumes "ok k" "\<forall>(i, p) \<in> set ps. elig p \<longrightarrow> ok (key p)"
  shows "\<exists>i' k'. scan_best elig key lt ps (Some (i, k)) = Some (i', k') \<and> ok k' \<and> \<not> lt k k' \<and>
     (\<forall>(j, q) \<in> set ps. elig q \<longrightarrow> \<not> lt (key q) k') \<and>
     ((i', k') = (i, k) \<or> (\<exists>q. (i', q) \<in> set ps \<and> elig q \<and> k' = key q))"
  using assms
proof (induction ps arbitrary: i k)
  case Nil
  then show ?case using lt_irrefl by auto
next
  case (Cons a ps)
  obtain j p where a: "a = (j, p)" by (cases a)
  show ?case
  proof (cases "elig p \<and> lt (key p) k")
    case True
    then have okp: "ok (key p)" using Cons.prems a by auto
    from Cons.IH[of "key p" j] obtain i' k' where r:
      "scan_best elig key lt ps (Some (j, key p)) = Some (i', k')" "ok k'" "\<not> lt (key p) k'"
      "\<forall>(j, q) \<in> set ps. elig q \<longrightarrow> \<not> lt (key q) k'"
      "(i', k') = (j, key p) \<or> (\<exists>q. (i', q) \<in> set ps \<and> elig q \<and> k' = key q)"
      using Cons.prems okp by auto
    have "\<not> lt k k'"
      using not_lt_trans[of k "key p" k'] lt_trans[of k k' "key p"] lt_trans[of "key p" k "key p"]
        lt_irrefl[OF okp] Cons.prems(1) okp r(2,3) True by blast
    with r True a show ?thesis by auto
  next
    case False
    from Cons.IH[of k i] obtain i' k' where r:
      "scan_best elig key lt ps (Some (i, k)) = Some (i', k')" "ok k'" "\<not> lt k k'"
      "\<forall>(j, q) \<in> set ps. elig q \<longrightarrow> \<not> lt (key q) k'"
      "(i', k') = (i, k) \<or> (\<exists>q. (i', q) \<in> set ps \<and> elig q \<and> k' = key q)"
      using Cons.prems by auto
    have "elig p \<Longrightarrow> \<not> lt (key p) k'"
      using not_lt_trans[of "key p" k k'] Cons.prems a False r(2,3) by auto
    with r False a show ?thesis by auto
  qed
qed

lemma scan_best_spec:
  assumes "\<forall>(i, p) \<in> set ps. elig p \<longrightarrow> ok (key p)"
  shows "case scan_best elig key lt ps None of
      None \<Rightarrow> \<forall>(j, q) \<in> set ps. \<not> elig q
    | Some (i, k) \<Rightarrow> (\<exists>p. (i, p) \<in> set ps \<and> elig p \<and> k = key p) \<and> (\<forall>(j, q) \<in> set ps. elig q \<longrightarrow> \<not> lt (key q) k)"
  using assms
proof (induction ps)
  case (Cons a ps)
  obtain j p where a: "a = (j, p)" by (cases a)
  show ?case
  proof (cases "elig p")
    case True
    then have "ok (key p)" "\<forall>(i, p) \<in> set ps. elig p \<longrightarrow> ok (key p)" using Cons.prems a by auto
    from scan_from_Some[OF this, of j] True a show ?thesis by (auto split: prod.splits)
  next
    case False
    then show ?thesis using Cons a by (auto split: option.splits prod.splits)
  qed
qed simp

end

interpretation latest: best_scan "\<lambda>_ :: int. True" "(>)"
  by unfold_locales auto

interpretation ranks: best_scan "\<lambda>x. \<not> fnan x" fless
  by unfold_locales (auto simp: fless_def)

lemma lcfs_loop_scan:
  "lcfs_loop ps b t = map_option fst (scan_best (\<lambda>p. pstate p = RUNNABLE \<and> queue (psched p) = LCFS)
     (\<lambda>p. sint (ctime p)) (>) ps (map_option (\<lambda>i. (i, t)) b))"
  by (induction ps b t rule: lcfs_loop.induct) (auto simp: Let_def option.map_comp comp_def option.map_ident split: option.splits)

lemma bjf_loop_scan:
  "bjf_loop F ps b t = map_option fst (scan_best (\<lambda>p. pstate p = RUNNABLE \<and> queue (psched p) = BJF)
     (\<lambda>p. procrank F (bjf (psched p))) fless ps (map_option (\<lambda>i. (i, t)) b))"
  by (induction F ps b t rule: bjf_loop.induct) (auto simp: Let_def option.map_comp comp_def option.map_ident split: option.splits)

lemma enumerate_mem: "(i, p) \<in> set (List.enumerate 0 xs) \<longleftrightarrow> i < length xs \<and> p = xs ! i"
  by (auto simp: in_set_enumerate_eq)

lemma all_enumerate:
  "(\<forall>(i, p) \<in> set (List.enumerate 0 xs). Q i p) \<longleftrightarrow> (\<forall>i < length xs. Q i (xs ! i))"
  by (force simp: in_set_enumerate_eq)

lemma filter_nth_empty: "filter P xs = [] \<longleftrightarrow> (\<forall>i < length xs. \<not> P (xs ! i))"
  by (simp add: filter_empty_conv all_set_conv_all_nth)

definition in_queue :: "int \<Rightarrow> proc \<Rightarrow> bool" where
  "in_queue q p \<longleftrightarrow> pstate p = RUNNABLE \<and> queue (psched p) = q"

lemma lcfs_spec:
  "case last_come_first_serve tab of
     None \<Rightarrow> filter (in_queue LCFS) tab = []
   | Some i \<Rightarrow> i < length tab \<and> in_queue LCFS (tab ! i) \<and>
       filter (\<lambda>q. in_queue LCFS q \<and> sint (ctime q) > sint (ctime (tab ! i))) tab = []"
proof -
  let ?e = "\<lambda>p. pstate p = RUNNABLE \<and> queue (psched p) = LCFS" and ?k = "\<lambda>p. sint (ctime p)"
  let ?r = "scan_best ?e ?k (>) (List.enumerate 0 tab) None"
  have eq: "last_come_first_serve tab = map_option fst ?r"
    by (simp add: last_come_first_serve_def lcfs_loop_scan)
  note S = latest.scan_best_spec[of "List.enumerate 0 tab" ?e ?k]
  show ?thesis
  proof (cases ?r)
    case None
    with S show ?thesis by (auto simp: eq enumerate_mem all_enumerate in_queue_def filter_nth_empty)
  next
    case (Some a)
    with S show ?thesis
      by (cases a) (auto simp: eq enumerate_mem all_enumerate in_queue_def filter_nth_empty)
  qed
qed

lemma bjf_spec:
  assumes "\<forall>p \<in> set tab. in_queue BJF p \<longrightarrow> \<not> fnan (procrank F (bjf (psched p)))"
  shows "case best_job_first F tab of
     None \<Rightarrow> filter (in_queue BJF) tab = []
   | Some i \<Rightarrow> i < length tab \<and> in_queue BJF (tab ! i) \<and>
       filter (\<lambda>q. in_queue BJF q \<and> fless (procrank F (bjf (psched q))) (procrank F (bjf (psched (tab ! i))))) tab = []"
proof -
  let ?e = "\<lambda>p. pstate p = RUNNABLE \<and> queue (psched p) = BJF" and ?k = "\<lambda>p. procrank F (bjf (psched p))"
  let ?r = "scan_best ?e ?k fless (List.enumerate 0 tab) None"
  have eq: "best_job_first F tab = map_option fst ?r"
    by (simp add: best_job_first_def bjf_loop_scan)
  have "\<forall>(i, p) \<in> set (List.enumerate 0 tab). ?e p \<longrightarrow> \<not> fnan (?k p)"
    using assms by (auto simp: enumerate_mem in_queue_def)
  note S = ranks.scan_best_spec[OF this]
  show ?thesis
  proof (cases ?r)
    case None
    with S show ?thesis by (auto simp: eq enumerate_mem all_enumerate in_queue_def filter_nth_empty)
  next
    case (Some a)
    with S show ?thesis
      by (cases a) (auto simp: eq enumerate_mem all_enumerate in_queue_def filter_nth_empty)
  qed
qed

text \<open>
  \<^verbatim>\<open>last_come_first_serve\<close> chooses a runnable process of its queue with the latest creation time
  (compared as \<^verbatim>\<open>int\<close>), and none exactly when the queue has no runnable process.
\<close>

theorem last_come_first_serve_latest:
  "case last_come_first_serve tab of
     None \<Rightarrow> filter (in_queue LCFS) tab = []
   | Some i \<Rightarrow> i < length tab \<and> in_queue LCFS (tab ! i) \<and>
       filter (\<lambda>q. in_queue LCFS q \<and> sint (ctime q) > sint (ctime (tab ! i))) tab = []"
  by (rule lcfs_spec)

text \<open>
  \<^verbatim>\<open>best_job_first\<close> chooses a runnable process of its queue with the least rank, whatever unit
  computes the ranks, provided no rank is a NaN.
\<close>

theorem best_job_first_least:
  assumes "\<forall>p \<in> set tab. in_queue BJF p \<longrightarrow> \<not> fnan (procrank F (bjf (psched p)))"
  shows "case best_job_first F tab of
     None \<Rightarrow> filter (in_queue BJF) tab = []
   | Some i \<Rightarrow> i < length tab \<and> in_queue BJF (tab ! i) \<and>
       filter (\<lambda>q. in_queue BJF q \<and> fless (procrank F (bjf (psched q))) (procrank F (bjf (psched (tab ! i))))) tab = []"
  using assms by (rule bjf_spec)

text \<open>An arithmetic for examples: small integers, and the number one as a \<^verbatim>\<open>float\<close>.\<close>

definition int_fpu :: "int fpu" where
  "int_fpu = \<lparr>fld = (\<lambda>b. if b = float_one then 1 else 0), fild = (\<lambda>i. i), fmul = (*), fadd = (+),
     fst32 = of_int, fist = (\<lambda>i. i)\<rparr>"

definition bjf_demo :: "int \<Rightarrow> proc" where
  "bjf_demo arrival = unused_proc\<lparr>pstate := RUNNABLE,
     psched := default_sched\<lparr>queue := BJF, bjf := (bjf default_sched)\<lparr>arrival_time := arrival\<rparr>\<rparr>\<rparr>"

lemma bjf_demo_rank: "procrank int_fpu (bjf (psched (bjf_demo a))) = of_int (3 + a)"
  by (simp add: procrank_def int_fpu_def bjf_demo_def default_sched_def NORMAL_def float_one_def)

lemma bjf_demo_queue: "in_queue BJF (bjf_demo a)"
  by (simp add: bjf_demo_def in_queue_def)

theorem best_job_first_least_witness:
  "best_job_first int_fpu [bjf_demo 7, bjf_demo 4, bjf_demo 5] = Some 1"
proof -
  let ?tab = "[bjf_demo 7, bjf_demo 4, bjf_demo 5]"
  have key: "\<not> fnan 10" "\<not> fnan 7" "\<not> fnan 8" "fkey 10 = 10" "fkey 7 = 7" "fkey 8 = 8"
    by (simp_all add: fnan_def fkey_def fmag_def)
  have "case best_job_first int_fpu ?tab of
     None \<Rightarrow> filter (in_queue BJF) ?tab = []
   | Some i \<Rightarrow> i < length ?tab \<and> in_queue BJF (?tab ! i) \<and>
       filter (\<lambda>q. in_queue BJF q \<and> fless (procrank int_fpu (bjf (psched q)))
          (procrank int_fpu (bjf (psched (?tab ! i))))) ?tab = []"
    by (rule best_job_first_least) (use key in \<open>auto simp: bjf_demo_rank\<close>)
  then show ?thesis
    using key by (auto simp: bjf_demo_queue bjf_demo_rank fless_def less_Suc_eq numeral_3_eq_3
        split: option.splits if_splits)
qed

section \<open>Priority between the levels\<close>

lemma rr_eligible_in_queue: "rr_eligible p = in_queue ROUND_ROBIN p"
  by (simp add: rr_eligible_def in_queue_def)

text \<open>
  C13. Strict priority: while the round-robin queue has a runnable process, one of it is chosen;
  otherwise, while the second queue has one, one of it; otherwise one of the third queue; and
  nothing is chosen only when all three are empty. \<^verbatim>\<open>last_scheduled\<close> moves only in the first case.
  In particular a runnable process in any other queue is never chosen.
\<close>

theorem choose_proc_priority:
  assumes "lst < length tab" "\<forall>p \<in> set tab. in_queue BJF p \<longrightarrow> \<not> fnan (procrank F (bjf (psched p)))"
  shows "\<exists>r lst'. choose_proc F tab lst = Some (r, lst') \<and> lst' < length tab \<and>
     (if filter (in_queue ROUND_ROBIN) tab \<noteq> [] then \<exists>i < length tab. r = Some i \<and> lst' = i \<and> in_queue ROUND_ROBIN (tab ! i)
      else lst' = lst \<and>
       (if filter (in_queue LCFS) tab \<noteq> [] then \<exists>i < length tab. r = Some i \<and> in_queue LCFS (tab ! i)
        else if filter (in_queue BJF) tab \<noteq> [] then \<exists>i < length tab. r = Some i \<and> in_queue BJF (tab ! i)
        else r = None))"
proof -
  obtain r where r: "round_robin tab lst = Some r" "rr_best tab lst r"
    using round_robin_best[OF assms(1)] by blast
  have L: "case last_come_first_serve tab of
       None \<Rightarrow> filter (in_queue LCFS) tab = [] | Some i \<Rightarrow> i < length tab \<and> in_queue LCFS (tab ! i)"
    using lcfs_spec[of tab] by (auto split: option.splits)
  have B: "case best_job_first F tab of
       None \<Rightarrow> filter (in_queue BJF) tab = [] | Some i \<Rightarrow> i < length tab \<and> in_queue BJF (tab ! i)"
    using bjf_spec[OF assms(2)] by (auto split: option.splits)
  show ?thesis
  proof (cases r)
    case None
    then have "filter (in_queue ROUND_ROBIN) tab = []"
      using r(2) by (auto simp: rr_best_def filter_nth_empty rr_eligible_in_queue)
    with None r(1) L B assms(1) show ?thesis
      by (auto simp: choose_proc_def filter_nth_empty split: option.splits)
  next
    case (Some i)
    then have "i < length tab" "in_queue ROUND_ROBIN (tab ! i)"
      using r(2) by (auto simp: rr_best_def rr_eligible_in_queue)
    moreover from this have "filter (in_queue ROUND_ROBIN) tab \<noteq> []" by (auto simp: filter_nth_empty)
    ultimately show ?thesis using Some r(1) by (simp add: choose_proc_def)
  qed
qed

theorem choose_proc_priority_witness:
  "\<exists>i < 64. choose_proc int_fpu demo_table 63 = Some (Some i, i) \<and> in_queue ROUND_ROBIN (demo_table ! i)"
proof -
  have n: "length demo_table = 64" by (simp add: demo_table_def)
  have "in_queue ROUND_ROBIN (demo_table ! 1)" by (simp add: demo_table_def in_queue_def unused_proc_def)
  then have "filter (in_queue ROUND_ROBIN) demo_table \<noteq> []"
    using n by (auto simp: filter_nth_empty intro: exI[of _ 1])
  moreover have "\<forall>p \<in> set demo_table. in_queue BJF p \<longrightarrow> \<not> fnan (procrank int_fpu (bjf (psched p)))"
    by (auto simp: demo_table_def in_queue_def unused_proc_def queue_defs default_sched_def)
  ultimately show ?thesis using choose_proc_priority[of 63 demo_table int_fpu] by (auto simp: n)
qed

section \<open>Switching to a process\<close>

definition kset_cproc :: "nat \<Rightarrow> nat option \<Rightarrow> kbase \<Rightarrow> kbase" where
  "kset_cproc c i k = k\<lparr>cpus := (cpus k)[c := (cpus k ! c)\<lparr>cproc := i\<rparr>]\<rparr>"

lemma core_set_cproc [simp]: "c < length (cpus s) \<Longrightarrow> core (set_cproc c i s) = kset_cproc c i (core s)"
  by (auto simp: set_cproc_def kset_cproc_def core_def map_update cpu_norm_def intro!: arg_cong[of _ _ "list_update _ _"])

lemma kset_cproc_simps [simp]:
  assumes "cpu_ok c k"
  shows "cpu_ok c (kset_cproc c i k)" "lock_held l c (kset_cproc c i k) = lock_held l c k"
    "lock_free l (kset_cproc c i k) = lock_free l k" "cur c (kset_cproc c i k) = i"
  using assms cpu_ok_length[OF assms]
  by (auto simp: cpu_ok_def kset_cproc_def find_apicid_update lock_held_def lock_free_def cur_def)

lemma set_cproc_frame [simp]:
  "ptable (set_cproc c i s) = ptable s" "ticks (set_cproc c i s) = ticks s" "kpgdir (set_cproc c i s) = kpgdir s"
  "lapicid (set_cproc c i s) = lapicid s" "cr3 (set_cproc c i s) = cr3 s" "mem (set_cproc c i s) = mem s"
  by (simp_all add: set_cproc_def)

lemma switchuvm_ok:
  assumes "cpu_ok c (core s)" "lock_held l c (core s)" "kstack p \<noteq> 0" "pgdir p \<noteq> 0"
  shows "switchuvm p s = Inr (s\<lparr>ts_esp0 := (ts_esp0 s)(lapicid s := kstack p + KSTACKSIZE),
                               cr3 := (cr3 s)(lapicid s := V2P (pgdir p))\<rparr>)"
proof -
  note ok = cpu_okD[OF assms(1)]
  have n: "0 < ncli (cpus s ! c)" using assms(2) ok(2) by (simp add: lock_held_def)
  have fl: "\<not> eflags_if s (lapicid s)" using ok(4) n by simp
  let ?s1 = "s\<lparr>cpus := (cpus s)[c := (cpus s ! c)\<lparr>ncli := ncli (cpus s ! c) + 1\<rparr>]\<rparr>"
  have p: "pushcli s = Inr ?s1"
    using n fl by (subst pushcli_ok[OF assms(1)]) (auto simp: fun_upd_idem intro!: pbase.equality)
  have ok1: "cpu_ok c (core (?s1\<lparr>ts_esp0 := x, cr3 := y\<rparr>))" for x y
    using ok fl by (auto simp: cpu_ok_def find_core_cpu find_apicid_update)
  have m: "mycpu ?s1 = Inr c" using ok fl by (simp add: mycpu_def readeflags_def find_apicid_update)
  have "popcli (?s1\<lparr>ts_esp0 := x, cr3 := y\<rparr>) = Inr (s\<lparr>ts_esp0 := x, cr3 := y\<rparr>)" for x y
    using n ok by (subst popcli_ok[OF ok1]) (auto intro!: pbase.equality)
  with assms(3,4) show ?thesis by (simp add: switchuvm_def p m)
qed

definition dispatched :: "('x, 'b) fpu_scheme \<Rightarrow> u32 \<Rightarrow> proc \<Rightarrow> proc" where
  "dispatched F now p = p\<lparr>pstate := RUNNING, psched := bump_cycle F ((psched p)\<lparr>last_exec := sint now\<rparr>)\<rparr>"

text \<open>
  C15. What the scheduler hands to the process it chose: the process is marked running and current
  on this CPU, its page table is loaded, its last execution time is the current tick and its
  cycle count has grown; no other process changed; and \<^verbatim>\<open>ptable.lock\<close> is held, for the process
  to release.
\<close>

theorem scheduler_turn_dispatch:
  assumes "proc_ready c (sti s)" "choose_proc F (ptable s) lst = Some (Some i, lst')" "i < length (ptable s)"
    and "kstack (ptable s ! i) \<noteq> 0" "pgdir (ptable s ! i) \<noteq> 0"
  shows "\<exists>t. scheduler_turn F run c lst s =
       kbind (run i t) (\<lambda>u. kbind (release PtableLock (set_cproc c None (switchkvm u))) (\<lambda>v. Inr (Some i, lst', v))) \<and>
     ptable t = (ptable s)[i := dispatched F (ticks s) (ptable s ! i)] \<and>
     cur c (core t) = Some i \<and> lock_held PtableLock c (core t) \<and> cr3 t (lapicid t) = V2P (pgdir (ptable s ! i))"
proof -
  let ?a = "acquired PtableLock c (sti s)"
  have tab: "ptable (sti s) = ptable s" "ticks (sti s) = ticks s" by (simp_all add: sti_def)
  have ok: "cpu_ok c (core ?a)" "lock_held PtableLock c (core ?a)"
    using assms(1) by (auto simp: proc_ready_def)
  have len: "c < length (cpus ?a)" using cpu_okD(2)[OF ok(1)] .
  let ?b = "set_cproc c (Some i) ?a"
  have okb: "cpu_ok c (core ?b)" "lock_held PtableLock c (core ?b)" "cur c (core ?b) = Some i"
    using ok len by simp_all
  note sw = switchuvm_ok[OF okb(1,2) assms(4,5)]
  show ?thesis
    using assms(2,3) okb sw tab
    by (auto simp: scheduler_turn_def proc_acquire[OF assms(1)] dispatched_def Let_def)
qed

theorem scheduler_turn_dispatch_witness:
  "\<exists>t. scheduler_turn int_fpu (\<lambda>i u. Inr u) 0 63 demo_pbase =
       kbind (release PtableLock (set_cproc 0 None (switchkvm t))) (\<lambda>v. Inr (Some 1, 1, v)) \<and>
     pstate (ptable t ! 1) = RUNNING \<and> cur 0 (core t) = Some 1 \<and> lock_held PtableLock 0 (core t)"
proof -
  have n: "length demo_table = 64" by (simp add: demo_table_def)
  have "\<not> rr_eligible (demo_table ! 0)" "rr_eligible (demo_table ! 1)"
    by (simp_all add: demo_table_def rr_eligible_def unused_proc_def)
  then have "round_robin demo_table 63 = Some (Some 1)"
    unfolding round_robin_def by (subst rr_loop.simps, subst rr_loop.simps) (simp add: n)
  then have "choose_proc int_fpu (ptable demo_pbase) 63 = Some (Some 1, 1)"
    by (simp add: choose_proc_def demo_ready(3))
  moreover have "proc_ready 0 (sti demo_pbase)"
    by (simp add: proc_ready_def demo_pbase_def sti_def cpu_ok_def lock_free_def boot_cpu_def boot_lock_def)
  moreover have "kstack (demo_table ! 1) \<noteq> 0" "pgdir (demo_table ! 1) \<noteq> 0"
    by (simp_all add: demo_table_def)
  ultimately show ?thesis
    using scheduler_turn_dispatch[of 0 demo_pbase int_fpu 63 1 1 "\<lambda>i u. Inr u"]
    by (auto simp: demo_ready(3) n dispatched_def)
qed

section \<open>Leaving the CPU\<close>

lemma drop_other:
  assumes "cpu_ok c k" "l \<noteq> l'" "1 < ncli (cpus k ! c)"
  shows "cpu_ok c (drop_lock l c k)" "lock_held l' c k \<Longrightarrow> lock_held l' c (drop_lock l c k)"
    "lock_free l (drop_lock l c k)" "cur c (drop_lock l c k) = cur c k"
    "ncli (cpus (drop_lock l c k) ! c) = ncli (cpus k ! c) - 1"
  using assms cpu_ok_length[OF assms(1)]
  by (auto simp: cpu_ok_def drop_lock_def find_apicid_update lock_held_def lock_free_def cur_def)

definition sched_back :: "bool \<Rightarrow> ('a pbase_scheme) \<Rightarrow> ('a pbase_scheme) kres" where
  "sched_back ie s = kbind (mycpu s) (\<lambda>c. Inr (s\<lparr>cpus := (cpus s)[c := (cpus s ! c)\<lparr>intena := ie\<rparr>]\<rparr>))"

lemma sched_ok:
  assumes "cpu_ok c (core s)" "lock_held PtableLock c (core s)" "ncli (cpus s ! c) = 1"
    and "cur c (core s) = Some i" "pstate (ptable s ! i) \<noteq> RUNNING"
  shows "sched sw s = kbind (sw s) (sched_back (intena (cpus s ! c)))"
proof -
  note ok = cpu_okD[OF assms(1)]
  have t: "touched c s = s" using assms(1,3) by (intro touched_critical) auto
  have fl: "\<not> eflags_if s (lapicid s)" using ok(4) assms(3) by simp
  have h: "locked (locks s PtableLock)" "lkcpu (locks s PtableLock) = Some c"
    using assms(2) by (auto simp: lock_held_def split: if_splits)
  show ?thesis
    using assms h fl
    by (simp add: sched_def myproc_cur[OF assms(1)] t holding_ok[OF assms(1)] mycpu_ok[OF assms(1)]
        readeflags_def sched_back_def[abs_def] Let_def)
qed

definition asleep_on :: "chan \<Rightarrow> proc \<Rightarrow> proc" where
  "asleep_on ch p = p\<lparr>pchan := ch, pstate := SLEEPING\<rparr>"


lemma demo_locked:
  "cpu_ok 0 (core (acquired TicksLock 0 demo_pbase))" "lock_held TicksLock 0 (core (acquired TicksLock 0 demo_pbase))"
  "lock_free PtableLock (core (acquired TicksLock 0 demo_pbase))" "cur 0 (core (acquired TicksLock 0 demo_pbase)) = Some 1"
  "ncli (cpus (acquired TicksLock 0 demo_pbase) ! 0) = 1"
proof -
  have ok: "cpu_ok 0 (core demo_pbase)" using demo_ready(1) by (simp add: proc_ready_def)
  show "cpu_ok 0 (core (acquired TicksLock 0 demo_pbase))" "lock_held TicksLock 0 (core (acquired TicksLock 0 demo_pbase))"
    "lock_free PtableLock (core (acquired TicksLock 0 demo_pbase))" "cur 0 (core (acquired TicksLock 0 demo_pbase)) = Some 1"
    using ok demo_ready(2) by (simp_all, simp add: cur_def demo_pbase_def)
  show "ncli (cpus (acquired TicksLock 0 demo_pbase) ! 0) = 1"
    by (simp add: acquired_def demo_pbase_def boot_cpu_def)
qed


end
