(* ===== verification/Sleeplock.thy ===== *)
theory Sleeplock
  imports Sched
begin

text \<open>
  Sleep locks (\<^verbatim>\<open>sleeplock.c\<close>). The number of times the loop of \<^verbatim>\<open>acquiresleep\<close> is allowed to go to
  sleep is a parameter, since nothing bounds how often a woken process finds the lock taken
  again; running out of it is the outcome of still being asleep.
\<close>

section \<open>State and operations\<close>

record sleeplock =
  slocked :: bool
  slname :: string
  slpid :: int

record ksleep = pbase +
  slocks :: "slid \<Rightarrow> sleeplock"

definition sl_upd :: "slid \<Rightarrow> (sleeplock \<Rightarrow> sleeplock) \<Rightarrow> 'a ksleep_scheme \<Rightarrow> 'a ksleep_scheme" where
  "sl_upd l f s = s\<lparr>slocks := (slocks s)(l := f (slocks s l))\<rparr>"

definition initsleeplock :: "slid \<Rightarrow> string \<Rightarrow> 'a ksleep_scheme \<Rightarrow> 'a ksleep_scheme" where
  "initsleeplock l nm s =
     sl_upd l (\<lambda>k. k\<lparr>slname := nm, slocked := False, slpid := 0\<rparr>) (initlock (SleepLk l) ''sleep lock'' s)"

definition cur_pid :: "'a ksleep_scheme \<Rightarrow> (int \<times> 'a ksleep_scheme) kres" where
  "cur_pid s =
     kbind (myproc s) (\<lambda>(p, s1).
     case p of None \<Rightarrow> Inl (Fault ''null process'') | Some i \<Rightarrow> Inr (pid (ptable s1 ! i), s1))"

primrec acquiresleep_loop ::
  "('a ksleep_scheme \<Rightarrow> ('a ksleep_scheme) kres) \<Rightarrow> slid \<Rightarrow> nat \<Rightarrow> 'a ksleep_scheme \<Rightarrow> ('a ksleep_scheme) kres" where
  "acquiresleep_loop sw l 0 s = (if slocked (slocks s l) then Inl (Sleeps (SleepChan l)) else Inr s)"
| "acquiresleep_loop sw l (Suc n) s =
     (if slocked (slocks s l)
      then kbind (sleep sw (SleepChan l) (Some (SleepLk l)) s) (acquiresleep_loop sw l n) else Inr s)"

definition acquiresleep ::
  "('a ksleep_scheme \<Rightarrow> ('a ksleep_scheme) kres) \<Rightarrow> nat \<Rightarrow> slid \<Rightarrow> 'a ksleep_scheme \<Rightarrow> ('a ksleep_scheme) kres" where
  "acquiresleep sw n l s =
     kbind (acquire (SleepLk l) s) (\<lambda>s1.
     kbind (acquiresleep_loop sw l n s1) (\<lambda>s2.
     kbind (cur_pid (sl_upd l (\<lambda>k. k\<lparr>slocked := True\<rparr>) s2)) (\<lambda>(x, s3).
     release (SleepLk l) (sl_upd l (\<lambda>k. k\<lparr>slpid := x\<rparr>) s3))))"

text \<open>\<^verbatim>\<open>releasesleep\<close> by a process that does not own the lock returns from inside the critical section.\<close>

definition releasesleep :: "slid \<Rightarrow> 'a ksleep_scheme \<Rightarrow> ('a ksleep_scheme) kres" where
  "releasesleep l s =
     kbind (acquire (SleepLk l) s) (\<lambda>s1.
     if \<not> slocked (slocks s1 l) then Inr s1
     else kbind (cur_pid s1) (\<lambda>(x, s2).
       if slpid (slocks s2 l) \<noteq> x then Inr s2
       else kbind (wakeup (SleepChan l) (sl_upd l (\<lambda>k. k\<lparr>slocked := False, slpid := 0\<rparr>) s2))
              (release (SleepLk l))))"

definition holdingsleep :: "slid \<Rightarrow> 'a ksleep_scheme \<Rightarrow> (bool \<times> 'a ksleep_scheme) kres" where
  "holdingsleep l s =
     kbind (acquire (SleepLk l) s) (\<lambda>s1.
     kbind (if slocked (slocks s1 l) then kbind (cur_pid s1) (\<lambda>(x, s2). Inr (slpid (slocks s2 l) = x, s2))
            else Inr (False, s1)) (\<lambda>(r, s3).
     kbind (release (SleepLk l) s3) (\<lambda>s4. Inr (r, s4))))"

section \<open>Lemmas\<close>

lemma ksleep_core [simp]: "core (slocks_update f s) = core s" "core (sl_upd l g s) = core s"
  by (simp_all add: core_def sl_upd_def)

lemma ksleep_frame [simp]:
  "slocks (acquired l c s) = slocks s" "slocks (released l c s) = slocks s" "slocks (touched c s) = slocks s"
  "slocks (printed c out s) = slocks s" "slocks (kmem_step c m h s) = slocks s" "slocks (pupd i f s) = slocks s"
  "ptable (sl_upd k g s) = ptable s" "mem (sl_upd k g s) = mem s"
  "slocks (sl_upd k g s) = (slocks s)(k := g (slocks s k))"
  by (simp_all add: acquired_def released_def touched_def printed_def kmem_step_def pupd_def sl_upd_def)

lemma ksleep_more [simp]:
  "ksleep.more (acquired l c s) = ksleep.more s" "ksleep.more (released l c s) = ksleep.more s"
  "ksleep.more (touched c s) = ksleep.more s" "ksleep.more (sl_upd k g s) = ksleep.more s"
  "ksleep.more (pupd i f s) = ksleep.more s" "ksleep.more (wakeup1 ch s) = ksleep.more s"
  by (simp_all add: acquired_def released_def touched_def pupd_def sl_upd_def wakeup1_def)

definition sl_ready :: "nat \<Rightarrow> nat \<Rightarrow> slid \<Rightarrow> 'a ksleep_scheme \<Rightarrow> bool" where
  "sl_ready c i l s \<longleftrightarrow> cpu_ok c (core s) \<and> lock_free (SleepLk l) (core s) \<and> cur c (core s) = Some i"

lemma cur_pid_ok:
  "cpu_ok c (core s) \<Longrightarrow> cur c (core s) = Some i \<Longrightarrow> cur_pid s = Inr (pid (ptable s ! i), touched c s)"
  by (simp add: cur_pid_def myproc_cur)

lemma sl_acquire:
  assumes "sl_ready c i l s"
  shows "acquire (SleepLk l) s = Inr (acquired (SleepLk l) c s)"
    "core (acquired (SleepLk l) c s) = take_lock (SleepLk l) c (core s)"
    "cpu_ok c (take_lock (SleepLk l) c (core s))" "cur c (take_lock (SleepLk l) c (core s)) = Some i"
  using assms by (simp_all add: sl_ready_def acquire_ok[of c])

lemma sl_release:
  assumes "sl_ready c i l s" "core t = take_lock (SleepLk l) c (core s)"
  shows "release (SleepLk l) t = Inr (released (SleepLk l) c t)" "core (released (SleepLk l) c t) = core s"
  using assms by (auto simp: sl_ready_def intro!: release_ok)

lemma acquiresleep_free:
  assumes "sl_ready c i l s" "\<not> slocked (slocks s l)"
  shows "\<exists>t. acquiresleep sw n l s = Inr t \<and> core t = core s \<and> ptable t = ptable s \<and>
     mem t = mem s \<and> ksleep.more t = ksleep.more s \<and>
     slocks t = (slocks s)(l := (slocks s l)\<lparr>slocked := True, slpid := pid (ptable s ! i)\<rparr>)"
proof -
  have loop: "acquiresleep_loop sw l n (acquired (SleepLk l) c s) = Inr (acquired (SleepLk l) c s)"
    using assms(2) by (cases n) simp_all
  show ?thesis
    using sl_acquire[OF assms(1)]
    by (simp add: acquiresleep_def loop cur_pid_ok[of c _ i] sl_release[OF assms(1)])
qed

lemma wakeup_slocks:
  assumes "proc_ready c s"
  shows "\<exists>t. wakeup ch s = Inr t \<and> core t = core s \<and> slocks t = slocks s \<and>
     mem t = mem s \<and> ksleep.more t = ksleep.more s \<and>
     ptable t = map (\<lambda>p. if pstate p = SLEEPING \<and> pchan p = ch then p\<lparr>pstate := RUNNABLE\<rparr> else p) (ptable s)"
proof -
  have "slocks (wakeup1 ch t) = slocks t" "mem (wakeup1 ch t) = mem t" for t :: "'a ksleep_scheme"
    by (simp_all add: wakeup1_def)
  then show ?thesis
    using with_ptable_ok[OF assms, of "\<lambda>s1. Inr (wakeup1 ch s1)"] assms
    by (simp add: wakeup_def wakeup1_def proc_acquired_core)
qed

lemma releasesleep_owner:
  assumes "sl_ready c i l s" "lock_free PtableLock (core s)" "slocked (slocks s l)"
    and "slpid (slocks s l) = pid (ptable s ! i)"
  shows "\<exists>t. releasesleep l s = Inr t \<and> core t = core s \<and>
     mem t = mem s \<and> ksleep.more t = ksleep.more s \<and>
     slocks t = (slocks s)(l := (slocks s l)\<lparr>slocked := False, slpid := 0\<rparr>) \<and>
     ptable t = map (\<lambda>p. if pstate p = SLEEPING \<and> pchan p = SleepChan l then p\<lparr>pstate := RUNNABLE\<rparr> else p) (ptable s)"
proof -
  note A = sl_acquire[OF assms(1)]
  let ?b = "sl_upd l (\<lambda>k. k\<lparr>slocked := False, slpid := 0\<rparr>) (touched c (acquired (SleepLk l) c s))"
  have cb: "core ?b = take_lock (SleepLk l) c (core s)" using A by simp
  have "proc_ready c ?b" using A(3) assms(2) unfolding proc_ready_def cb by simp
  from wakeup_slocks[OF this, of "SleepChan l"] obtain t where
    t: "wakeup (SleepChan l) ?b = Inr t" "core t = core ?b" "slocks t = slocks ?b"
      "mem t = mem ?b" "ksleep.more t = ksleep.more ?b"
      "ptable t = map (\<lambda>p. if pstate p = SLEEPING \<and> pchan p = SleepChan l then p\<lparr>pstate := RUNNABLE\<rparr> else p) (ptable ?b)"
    by blast
  note R = sl_release[OF assms(1) t(2)[unfolded cb]]
  show ?thesis
    using A assms(3,4) t R by (simp add: releasesleep_def cur_pid_ok[of c _ i])
qed

section \<open>Properties\<close>

text \<open>
  C17. \<^verbatim>\<open>releasesleep\<close> by a process that does not own the lock (or of a lock that is not held) returns
  with the lock's inner spin lock still held and the CPU's interrupts off: the next \<^verbatim>\<open>acquiresleep\<close>
  of that lock on this CPU panics in \<^verbatim>\<open>acquire\<close>.
\<close>

theorem releasesleep_leaves_spinlock_held:
  assumes "sl_ready c i l s" "\<not> (slocked (slocks s l) \<and> slpid (slocks s l) = pid (ptable s ! i))"
  shows "\<exists>t. releasesleep l s = Inr t \<and> lock_held (SleepLk l) c (core t) \<and> slocks t = slocks s \<and>
     acquiresleep sw n l t = Inl (Panic ''acquire'')"
proof -
  note A = sl_acquire[OF assms(1)]
  obtain t where t: "releasesleep l s = Inr t" "core t = take_lock (SleepLk l) c (core s)" "slocks t = slocks s"
    using A assms(2) by (cases "slocked (slocks s l)") (auto simp: releasesleep_def cur_pid_ok[of c _ i])
  then have "cpu_ok c (core t)" "lock_held (SleepLk l) c (core t)" using A(3) assms(1) by (simp_all add: sl_ready_def)
  with t show ?thesis by (auto simp: acquiresleep_def acquire_own)
qed

text \<open>
  C18. Hand-over: the owner of a sleep lock that releases it wakes exactly the processes waiting for it,
  leaves the spin locks as they were, and the lock is then free to be taken at once by any process.
\<close>

theorem sleeplock_hand_over:
  assumes "sl_ready c i l s" "lock_free PtableLock (core s)" "slocked (slocks s l)"
    and "slpid (slocks s l) = pid (ptable s ! i)"
  shows "\<exists>t. releasesleep l s = Inr t \<and> core t = core s \<and> \<not> slocked (slocks t l) \<and>
     ptable t = map (\<lambda>p. if pstate p = SLEEPING \<and> pchan p = SleepChan l then p\<lparr>pstate := RUNNABLE\<rparr> else p) (ptable s) \<and>
     (\<exists>u. acquiresleep sw n l t = Inr u \<and> core u = core s \<and> slocked (slocks u l))"
proof -
  obtain t where t: "releasesleep l s = Inr t" "core t = core s"
     "slocks t = (slocks s)(l := (slocks s l)\<lparr>slocked := False, slpid := 0\<rparr>)"
     "ptable t = map (\<lambda>p. if pstate p = SLEEPING \<and> pchan p = SleepChan l then p\<lparr>pstate := RUNNABLE\<rparr> else p) (ptable s)"
    using releasesleep_owner[OF assms] by blast
  have "sl_ready c i l t" using assms(1) t(2) by (simp add: sl_ready_def)
  from acquiresleep_free[OF this, of sw n] t show ?thesis by auto
qed

definition demo_ksleep :: ksleep where
  "demo_ksleep = pbase.extend demo_pbase
     \<lparr>slocks = (\<lambda>_. \<lparr>slocked = True, slname = ''buffer'', slpid = 2\<rparr>)\<rparr>"

lemma demo_ksleep_core: "core demo_ksleep = core demo_pbase"
  by (simp add: core_def demo_ksleep_def pbase.defs demo_pbase_def)

lemma demo_ksleep_ok:
  "sl_ready 0 1 (InodeSl 0) demo_ksleep" "lock_free PtableLock (core demo_ksleep)"
  "ptable demo_ksleep = demo_table" "slocks demo_ksleep l = \<lparr>slocked = True, slname = ''buffer'', slpid = 2\<rparr>"
  "pid (demo_table ! Suc 0) = 2"
  using demo_ready
  by (simp_all add: sl_ready_def demo_ksleep_core proc_ready_def)
     (simp_all add: demo_ksleep_def pbase.defs demo_pbase_def demo_table_def cur_def)

theorem releasesleep_leaves_spinlock_held_witness:
  "\<exists>t. releasesleep (InodeSl 0) (sl_upd (InodeSl 0) (slpid_update (\<lambda>_. 3)) demo_ksleep) = Inr t \<and>
     lock_held (SleepLk (InodeSl 0)) 0 (core t) \<and>
     acquiresleep Inr 0 (InodeSl 0) t = Inl (Panic ''acquire'')"
proof -
  have "sl_ready 0 1 (InodeSl 0) (sl_upd (InodeSl 0) (slpid_update (\<lambda>_. 3)) demo_ksleep)"
    using demo_ksleep_ok(1) by (simp add: sl_ready_def)
  from releasesleep_leaves_spinlock_held[OF this, of Inr 0] show ?thesis
    by (auto simp: demo_ksleep_ok(3,5))
qed

theorem sleeplock_hand_over_witness:
  "\<exists>t u. releasesleep (InodeSl 0) demo_ksleep = Inr t \<and> \<not> slocked (slocks t (InodeSl 0)) \<and>
     acquiresleep Inr 0 (InodeSl 0) t = Inr u \<and> slocked (slocks u (InodeSl 0))"
  using sleeplock_hand_over[OF demo_ksleep_ok(1,2), of Inr 0] by (auto simp: demo_ksleep_ok)

end
