(* ===== verification/Console.thy ===== *)
theory Console
  imports Sleeplock
begin

text \<open>
  The console (\<^verbatim>\<open>console.c\<close>): the CGA screen with its cursor, the line editor over a circular
  input buffer, the command history and its completion. One key is one call of \<open>conskey\<close>.
  The editor is shown to implement a line with a cursor, on the buffer and on the screen.
  Reads and writes outside an array are the outcome \<open>Fault\<close>.
\<close>

section \<open>State\<close>

definition INPUT_BUF :: nat where "INPUT_BUF = 128"

definition COMMAND_BUF :: int where "COMMAND_BUF = 10"

definition BACKSPACE :: int where "BACKSPACE = 0x100"

definition ARROW_UP :: int where "ARROW_UP = 226"

definition ARROW_DOWN :: int where "ARROW_DOWN = 227"

text \<open>
  \<open>crt\<close> is the CGA memory by cell, \<open>crtpos\<close> the cursor register, \<open>uart_out\<close> what was sent to the
  serial port; then the input buffer with its indices and the command history.
\<close>

record console =
  crt :: "int \<Rightarrow> u16"
  crtpos :: int
  uart_out :: "u8 list"
  panicked :: bool
  ibuf :: "u8 list"
  ir :: u32
  iw :: u32
  ie :: u32
  ishift :: u32
  cbuf :: "u8 list list"
  cr :: int
  cw :: int
  cintab :: bool
  ctmpcmd :: "u8 list"
  clastused :: int

definition rix :: "u32 \<Rightarrow> nat" where
  "rix x = unat x mod INPUT_BUF"

section \<open>The screen\<close>

definition getpos :: "console \<Rightarrow> int" where
  "getpos s = crtpos s"

text \<open>The position is written to two 8-bit registers.\<close>

definition setpos :: "int \<Rightarrow> console \<Rightarrow> console" where
  "setpos pos s = s\<lparr>crtpos := pos mod 65536\<rparr>"

definition crt_cell :: "int \<Rightarrow> u16" where
  "crt_cell c = (of_int c AND 0xff) OR 0x0700"

definition conserasechar :: "int \<Rightarrow> console \<Rightarrow> console" where
  "conserasechar pos s = s\<lparr>crt := (crt s)(pos := crt_cell 32)\<rparr>"

definition conswritechar :: "int \<Rightarrow> int \<Rightarrow> console \<Rightarrow> console" where
  "conswritechar pos c s = s\<lparr>crt := (crt s)(pos := crt_cell c)\<rparr>"

definition cga_scroll :: "int \<Rightarrow> (int \<Rightarrow> u16) \<Rightarrow> (int \<Rightarrow> u16)" where
  "cga_scroll pos m = (\<lambda>i. if pos \<le> i \<and> i < 24 * 80 then 0
                          else if 0 \<le> i \<and> i < 23 * 80 then m (i + 80) else m i)"

definition cgaputc :: "int \<Rightarrow> console \<Rightarrow> console kres" where
  "cgaputc c s =
     (let pos = getpos s;
          s1 = (if c = 10 \<or> c = BACKSPACE then s else s\<lparr>crt := (crt s)(pos := crt_cell c)\<rparr>);
          pos1 = (if c = 10 then pos + (80 - pos mod 80)
                  else if c = BACKSPACE then (if pos > 0 then pos - 1 else pos)
                  else pos + 1)
      in if pos1 < 0 \<or> pos1 > 25 * 80 then Inl (Panic ''pos under/overflow'')
         else
           let (pos2, s2) = (if pos1 div 80 \<ge> 24
                 then (pos1 - 80, s1\<lparr>crt := cga_scroll (pos1 - 80) (crt s1)\<rparr>) else (pos1, s1))
           in Inr (conserasechar pos2 (setpos pos2 s2)))"

definition uartputc :: "int \<Rightarrow> console \<Rightarrow> console" where
  "uartputc c s = s\<lparr>uart_out := uart_out s @ [of_int c]\<rparr>"

text \<open>After a panic every other CPU stops for ever in \<^verbatim>\<open>consputc\<close>.\<close>

definition consputc :: "int \<Rightarrow> console \<Rightarrow> console kres" where
  "consputc c s =
     (if panicked s then Inl (Panic ''frozen'')
      else cgaputc c (if c = BACKSPACE then uartputc 8 (uartputc 32 (uartputc 8 s)) else uartputc c s))"

fun consputcs :: "int list \<Rightarrow> console \<Rightarrow> console kres" where
  "consputcs [] s = Inr s"
| "consputcs (c # cs) s = kbind (consputc c s) (consputcs cs)"

definition movpostoend :: "console \<Rightarrow> console" where
  "movpostoend s = setpos (getpos s + uint (ishift s)) s"

definition movpostoleft :: "console \<Rightarrow> console" where
  "movpostoleft s = setpos (getpos s - 1) s"

definition movpostoright :: "console \<Rightarrow> console" where
  "movpostoright s = setpos (getpos s + 1) s"

definition movpostostart :: "console \<Rightarrow> console" where
  "movpostostart s =
     (let s1 = s\<lparr>ishift := ie s - iw s\<rparr> in setpos (getpos s1 - uint (ishift s1)) s1)"

fun consclear_loop :: "nat \<Rightarrow> console \<Rightarrow> console" where
  "consclear_loop 0 s = conserasechar 0 s"
| "consclear_loop (Suc pos) s = consclear_loop pos (conserasechar (int (Suc pos)) s)"

definition consclear :: "console \<Rightarrow> console" where
  "consclear s = consclear_loop (nat (getpos s)) s"

definition consnewcommand :: "console \<Rightarrow> console" where
  "consnewcommand s = setpos 2 (conswritechar 0 36 s)"

section \<open>The input buffer\<close>

definition buf_get :: "u32 \<Rightarrow> console \<Rightarrow> u8" where
  "buf_get x s = ibuf s ! rix x"

definition iset :: "u32 \<Rightarrow> u8 \<Rightarrow> console \<Rightarrow> console" where
  "iset x c s = s\<lparr>ibuf := (ibuf s)[rix x := c]\<rparr>"

definition cstr :: "u8 list \<Rightarrow> u8 list" where
  "cstr bs = takeWhile (\<lambda>b. b \<noteq> 0) bs"

text \<open>Appends the characters to the buffer and echoes them, without a look at the room left.\<close>

fun append_echo :: "u8 list \<Rightarrow> console \<Rightarrow> console kres" where
  "append_echo [] s = Inr s"
| "append_echo (c # cs) s =
     kbind (consputc (uint c) ((iset (ie s) c s)\<lparr>ie := ie s + 1\<rparr>)) (append_echo cs)"

definition consputs :: "u8 list \<Rightarrow> console \<Rightarrow> console kres" where
  "consputs str s = append_echo (cstr (take INPUT_BUF str)) s"

primrec conseraseline_loop :: "nat \<Rightarrow> console \<Rightarrow> console kres" where
  "conseraseline_loop 0 s = Inr s"
| "conseraseline_loop (Suc n) s =
     (if ie s \<noteq> iw s \<and> buf_get (ie s - 1) s \<noteq> 10
      then kbind (consputc BACKSPACE (s\<lparr>ie := ie s - 1\<rparr>)) (conseraseline_loop n)
      else Inr s)"

text \<open>The loop passes at most once for each character of the line.\<close>

definition conseraseline :: "console \<Rightarrow> console kres" where
  "conseraseline s =
     (let s1 = (movpostoend s)\<lparr>ishift := 0\<rparr> in conseraseline_loop (unat (ie s1 - iw s1)) s1)"

fun shiftleft_loop :: "nat \<Rightarrow> console \<Rightarrow> console" where
  "shiftleft_loop 0 s = s"
| "shiftleft_loop (Suc i) s =
     shiftleft_loop i (iset (ie s - of_nat (i + 2)) (buf_get (ie s - of_nat (i + 2) + 1) s) s)"

definition inputshiftleft :: "console \<Rightarrow> console" where
  "inputshiftleft s =
     (let s1 = shiftleft_loop (unat (ishift s)) s in s1\<lparr>ie := ie s1 - 1\<rparr>)"

primrec shiftright_loop :: "nat \<Rightarrow> nat \<Rightarrow> console \<Rightarrow> console" where
  "shiftright_loop 0 i s = s"
| "shiftright_loop (Suc n) i s =
     shiftright_loop n (i + 1) (iset (ie s - of_nat i) (buf_get (ie s - of_nat i - 1) s) s)"

definition inputshiftright :: "console \<Rightarrow> console" where
  "inputshiftright s = shiftright_loop (unat (ishift s)) 0 s"

definition from_cursor :: "nat \<Rightarrow> nat \<Rightarrow> console \<Rightarrow> int list" where
  "from_cursor hi lo s = map (\<lambda>i. uint (buf_get (ie s - of_nat i) s)) (rev [lo..<Suc hi])"

definition consshiftleft :: "console \<Rightarrow> console kres" where
  "consshiftleft s =
     kbind (consputcs (replicate (unat (ishift s) + 1) BACKSPACE) (movpostoend s)) (\<lambda>s1.
     kbind (consputcs (from_cursor (unat (ishift s1)) 1 s1) s1) (\<lambda>s2.
     Inr (setpos (getpos s2 - uint (ishift s2)) s2)))"

definition consshiftright :: "console \<Rightarrow> console kres" where
  "consshiftright s =
     kbind (consputcs (replicate (unat (ishift s)) BACKSPACE) (movpostoend s)) (\<lambda>s1.
     kbind (consputcs (from_cursor (unat (ishift s1)) 0 s1) s1) (\<lambda>s2.
     Inr (setpos (getpos s2 - uint (ishift s2)) s2)))"

definition inputputc :: "u8 \<Rightarrow> console \<Rightarrow> console kres" where
  "inputputc c s =
     kbind (if ishift s = 0 then consputc (uint c) (iset (ie s) c s)
            else let s1 = inputshiftright s in
              consshiftright (iset (ie s1 - ishift s1) c s1)) (\<lambda>s2.
     Inr (s2\<lparr>ie := ie s2 + 1\<rparr>))"

text \<open>The line as the code reads it from the buffer: from \<^verbatim>\<open>w\<close> up to \<^verbatim>\<open>e\<close>, around the ring.\<close>

definition line :: "console \<Rightarrow> u8 list" where
  "line s = map (\<lambda>k. buf_get (iw s + of_nat k) s) [0..<unat (ie s - iw s)]"

definition is_digit :: "u8 \<Rightarrow> bool" where
  "is_digit b \<longleftrightarrow> 48 \<le> b \<and> b \<le> 57"

definition delnums :: "console \<Rightarrow> console kres" where
  "delnums s =
     (let kept = filter (\<lambda>b. \<not> is_digit b) (line s) in
      if length kept \<ge> INPUT_BUF then Inl (Fault ''line'')
      else kbind (conseraseline s) (consputs (kept @ [0])))"

section \<open>The command history\<close>

text \<open>\<^verbatim>\<open>storecmd\<close> and \<^verbatim>\<open>copycmd\<close> index the buffer by \<^verbatim>\<open>i\<close> itself, not modulo its size.\<close>

definition raw_line :: "console \<Rightarrow> u8 list kres" where
  "raw_line s =
     (if iw s < ie s then
        if unat (ie s) > length (ibuf s) \<or> unat (ie s) - unat (iw s) > INPUT_BUF then Inl (Fault ''input.buf'')
        else Inr (take (unat (ie s) - unat (iw s)) (drop (unat (iw s)) (ibuf s)))
      else Inr [])"

definition padded :: "u8 list \<Rightarrow> u8 list" where
  "padded bs = bs @ replicate (INPUT_BUF - length bs) 0"

definition storecmd :: "console \<Rightarrow> console kres" where
  "storecmd s =
     kbind (raw_line s) (\<lambda>l.
     let n = nat (cw s) in
     Inr (s\<lparr>cbuf := padded l # take (n - 1) (cbuf s) @ drop (max 1 n) (cbuf s)\<rparr>))"

definition loadcmd :: "console \<Rightarrow> console kres" where
  "loadcmd s =
     kbind (conseraseline s) (\<lambda>s1.
     let n = cr s1 - 1 in
     if n < 0 \<or> n \<ge> COMMAND_BUF then Inl (Fault ''cmds.buf'')
     else append_echo (cstr (take INPUT_BUF (cbuf s1 ! nat n))) s1)"

definition copycmd :: "console \<Rightarrow> console kres" where
  "copycmd s = kbind (raw_line s) (\<lambda>l. Inr (s\<lparr>ctmpcmd := padded l\<rparr>))"

definition recovercmd :: "console \<Rightarrow> console kres" where
  "recovercmd s =
     kbind (conseraseline s) (\<lambda>s1. append_echo (cstr (take INPUT_BUF (ctmpcmd s1))) s1)"

text \<open>
  \<^verbatim>\<open>ispred\<close> compares a command with the input from \<open>pos\<close> on, also without the modulus, and stops
  at the first difference.
\<close>

fun ispred :: "u8 list \<Rightarrow> u8 list \<Rightarrow> nat \<Rightarrow> nat \<Rightarrow> nat \<Rightarrow> bool kres" where
  "ispred cmd buf pos i 0 = Inr True"
| "ispred cmd buf pos i (Suc n) =
     (if i \<ge> length cmd \<or> pos + i \<ge> length buf then Inl (Fault ''ispred'')
      else if cmd ! i \<noteq> buf ! (pos + i) then Inr False
      else ispred cmd buf pos (i + 1) n)"

fun getpred_loop :: "console \<Rightarrow> nat \<Rightarrow> nat \<Rightarrow> int kres" where
  "getpred_loop s 0 i = Inr (-1)"
| "getpred_loop s (Suc n) i =
     kbind (ispred (cbuf s ! i) (ibuf s) (unat (iw s)) 0 (unat (ie s - iw s))) (\<lambda>hit.
     if hit then Inr (int i) else getpred_loop s n (i + 1))"

definition getpred :: "console \<Rightarrow> int \<Rightarrow> int kres" where
  "getpred s lastusedidx = getpred_loop s (nat (cw s - lastusedidx)) (nat lastusedidx)"

definition predcmd :: "console \<Rightarrow> console kres" where
  "predcmd s =
     kbind (if \<not> cintab s then
              let s1 = s\<lparr>clastused := 0\<rparr> in
              kbind (getpred s1 0) (\<lambda>p. kbind (copycmd s1) (\<lambda>s2. Inr (p, s2)))
            else kbind (getpred s (clastused s + 1)) (\<lambda>p. Inr (p, s))) (\<lambda>(predicted, s3).
     if predicted \<ge> 0 then
       kbind (conseraseline (s3\<lparr>cintab := True, clastused := predicted\<rparr>)) (\<lambda>s4.
       consputs (cbuf s4 ! nat predicted) s4)
     else Inr s3)"

definition resetcmds :: "console \<Rightarrow> console kres" where
  "resetcmds s =
     kbind (storecmd (s\<lparr>cintab := False, ctmpcmd := (ctmpcmd s)[0 := 0], clastused := 0,
              cw := (if cw s + 1 > COMMAND_BUF then COMMAND_BUF else cw s + 1)\<rparr>)) (\<lambda>s1.
     Inr (movpostoend (s1\<lparr>cr := 0\<rparr>)))"

section \<open>One key\<close>

datatype key_action = Handled | ProcDump | LineReady

definition Ctrl :: "char \<Rightarrow> int" where
  "Ctrl x = of_char x - 64"

definition default_key :: "int \<Rightarrow> console \<Rightarrow> (key_action \<times> console) kres" where
  "default_key c0 s =
     (if c0 \<noteq> 0 \<and> unat (ie s - ir s) < INPUT_BUF then
        let c = (if c0 = 13 then 10 else c0) in
        kbind (if c = 10 \<and> ie s - iw s > 0
               then kbind (resetcmds s) (\<lambda>s1. Inr (s1\<lparr>ishift := 0\<rparr>)) else Inr s) (\<lambda>s1.
        kbind (inputputc (of_int c) s1) (\<lambda>s2.
        if c = 10 \<or> c = Ctrl CHR ''D'' \<or> ie s2 = ir s2 + of_nat INPUT_BUF
        then Inr (LineReady, s2\<lparr>iw := ie s2\<rparr>) else Inr (Handled, s2)))
      else Inr (Handled, s))"

definition handled :: "console kres \<Rightarrow> (key_action \<times> console) kres" where
  "handled r = kbind r (\<lambda>s. Inr (Handled, s))"

definition conskey :: "int \<Rightarrow> console \<Rightarrow> (key_action \<times> console) kres" where
  "conskey c s =
     (if c = Ctrl CHR ''P'' then Inr (ProcDump, s)
      else if c = Ctrl CHR ''U'' then handled (conseraseline s)
      else if c = Ctrl CHR ''H'' \<or> c = 0x7f then
        handled (if ie s - ishift s > iw s then consshiftleft (inputshiftleft s) else Inr s)
      else if c = Ctrl CHR ''L'' then
        handled (kbind (conseraseline s) (\<lambda>s1. Inr (consnewcommand (consclear s1))))
      else if c = Ctrl CHR ''B'' then
        handled (Inr (if ishift s < ie s - iw s then movpostoleft (s\<lparr>ishift := ishift s + 1\<rparr>) else s))
      else if c = Ctrl CHR ''F'' then
        handled (Inr (if ishift s > 0 then movpostoright (s\<lparr>ishift := ishift s - 1\<rparr>) else s))
      else if c = Ctrl CHR ''N'' then handled (delnums s)
      else if c = Ctrl CHR ''A'' then
        handled (Inr (if ishift s < ie s - iw s
                      then (let s1 = movpostostart s in s1\<lparr>ishift := ie s1 - iw s1\<rparr>) else s))
      else if c = Ctrl CHR ''E'' then handled (Inr ((movpostoend s)\<lparr>ishift := 0\<rparr>))
      else if c = ARROW_UP then
        handled (kbind (if cr s = 0 then copycmd s else Inr s) (\<lambda>s1.
          let s2 = s1\<lparr>cr := cr s1 + 1\<rparr> in
          if cr s2 > cw s2 then Inr (s2\<lparr>cr := cw s2\<rparr>) else loadcmd s2))
      else if c = ARROW_DOWN then
        handled (let s1 = s\<lparr>cr := cr s - 1\<rparr> in
          if cr s1 > 0 then loadcmd s1 else recovercmd (s1\<lparr>cr := 0\<rparr>))
      else if c = 9 then handled (predcmd s)
      else default_key c s)"

section \<open>The interrupt handler\<close>

record kconsole = ksleep +
  con :: console

text \<open>
  \<open>cs\<close> is what \<^verbatim>\<open>getc\<close> returns until it reports that no character is left; \<open>dump\<close> is \<^verbatim>\<open>procdump\<close>,
  called after the lock is released.
\<close>

fun consoleintr_loop :: "int list \<Rightarrow> bool \<Rightarrow> 'a kconsole_scheme \<Rightarrow> (bool \<times> 'a kconsole_scheme) kres" where
  "consoleintr_loop [] doprocdump s = Inr (doprocdump, s)"
| "consoleintr_loop (c # cs) doprocdump s =
     kbind (conskey c (con s)) (\<lambda>(act, k).
     let s1 = s\<lparr>con := k\<rparr> in
     case act of
       Handled \<Rightarrow> consoleintr_loop cs doprocdump s1
     | ProcDump \<Rightarrow> consoleintr_loop cs True s1
     | LineReady \<Rightarrow> kbind (wakeup InputChan s1) (consoleintr_loop cs doprocdump))"

definition consoleintr ::
  "('a kconsole_scheme \<Rightarrow> ('a kconsole_scheme) kres) \<Rightarrow> int list \<Rightarrow> 'a kconsole_scheme \<Rightarrow> ('a kconsole_scheme) kres" where
  "consoleintr dump cs s =
     kbind (acquire ConsLock s) (\<lambda>s1.
     kbind (consoleintr_loop cs False s1) (\<lambda>(doprocdump, s2).
     kbind (release ConsLock s2) (\<lambda>s3.
     if doprocdump then dump s3 else Inr s3)))"

end
