(* ===== verification/ConsoleEdit.thy ===== *)
theory ConsoleEdit
  imports Console
begin

text \<open>
  The line editor of the console implements a line with a cursor: the characters before it
  and those after it. \<open>edits s L R\<close> says that the circular buffer holds \<open>L @ R\<close>, that the shift
  counts \<open>R\<close>, and that the screen shows the line with its cursor after \<open>L\<close>.
\<close>

section \<open>The ring\<close>

lemma rix_less: "rix x < 128"
  by (simp add: rix_def INPUT_BUF_def)

lemma unat_add_mod_128: "unat (a + b :: u32) mod 128 = (unat a + unat b) mod 128"
proof -
  have "(unat a + unat b) mod 2 ^ 32 mod 128 = (unat a + unat b) mod 128"
    by (rule mod_mod_cancel) (simp add: dvd_def)
  then show ?thesis by (simp add: unat_word_ariths)
qed

lemma rix_add: "i < 2 ^ 32 \<Longrightarrow> rix (x + of_nat i) = (rix x + i) mod 128"
  by (simp add: rix_def INPUT_BUF_def unat_add_mod_128 unat32_of_nat mod_add_left_eq)

lemma ring_inj:
  assumes "i < 128" "j < 128" "(b + i) mod 128 = (b + j) mod (128 :: nat)"
  shows "i = j"
  using mod_shift_inj[of b i 128 j] assms by blast

definition lbuf :: "console \<Rightarrow> nat \<Rightarrow> u8" where
  "lbuf s j = ibuf s ! ((rix (iw s) + j) mod 128)"

lemma buf_get_lbuf: "j < 2 ^ 32 \<Longrightarrow> buf_get (iw s + of_nat j) s = lbuf s j"
  by (simp add: buf_get_def lbuf_def rix_add)

lemma iset_fields [simp]:
  "iw (iset x c s) = iw s" "ie (iset x c s) = ie s" "ir (iset x c s) = ir s" "ishift (iset x c s) = ishift s"
  "crt (iset x c s) = crt s" "crtpos (iset x c s) = crtpos s" "panicked (iset x c s) = panicked s"
  "length (ibuf (iset x c s)) = length (ibuf s)" "cbuf (iset x c s) = cbuf s"
  "cr (iset x c s) = cr s" "cw (iset x c s) = cw s"
  by (simp_all add: iset_def)

lemma lbuf_iset:
  assumes "length (ibuf s) = 128" "i < 128" "j < 128"
  shows "lbuf (iset (iw s + of_nat i) c s) j = (if i = j then c else lbuf s j)"
  using assms ring_inj[of i j "rix (iw s)"] by (auto simp: lbuf_def iset_def rix_add nth_list_update)

definition llen :: "console \<Rightarrow> nat" where
  "llen s = unat (ie s - iw s)"

lemma line_lbuf: "line s = map (lbuf s) [0..<llen s]"
proof -
  have "j < 2 ^ 32" if "j < llen s" for j
    using that unat32_bound[of "ie s - iw s"] by (simp add: llen_def)
  then show ?thesis by (simp add: line_def llen_def buf_get_lbuf)
qed

lemma ie_llen: "ie s = iw s + of_nat (llen s)"
  by (simp add: llen_def)

lemma ie_minus: "i \<le> llen s \<Longrightarrow> ie s - of_nat i = iw s + of_nat (llen s - i)"
  by (simp add: ie_llen of_nat_diff)

definition same_but_buf :: "console \<Rightarrow> console \<Rightarrow> bool" where
  "same_but_buf t s \<longleftrightarrow> (\<exists>b. t = s\<lparr>ibuf := b\<rparr> \<and> length b = length (ibuf s))"

lemma same_but_buf_refl [simp]: "same_but_buf s s"
  unfolding same_but_buf_def by (rule exI[of _ "ibuf s"]) simp

lemma same_but_buf_iset: "same_but_buf t (iset x c s) \<Longrightarrow> same_but_buf t s"
  by (auto simp: same_but_buf_def iset_def)

lemma iset_same_but_buf: "same_but_buf t s \<Longrightarrow> same_but_buf (iset x c t) s"
  by (auto simp: same_but_buf_def iset_def)

lemma same_but_bufD:
  assumes "same_but_buf t s"
  shows "iw t = iw s" "ie t = ie s" "ir t = ir s" "ishift t = ishift s" "crt t = crt s" "crtpos t = crtpos s"
    "panicked t = panicked s" "length (ibuf t) = length (ibuf s)" "llen t = llen s"
  using assms by (auto simp: same_but_buf_def llen_def)

lemma llen_iset [simp]: "llen (iset x c s) = llen s"
  by (simp add: llen_def)

lemma shiftright_lbuf:
  assumes "length (ibuf s) = 128" "llen s < 128" "i + m \<le> llen s"
  shows "same_but_buf (shiftright_loop m i s) s \<and>
    (\<forall>j < 128. lbuf (shiftright_loop m i s) j =
       (if llen s - (i + m) < j \<and> j \<le> llen s - i then lbuf s (j - 1) else lbuf s j))"
  using assms
proof (induction m arbitrary: i s)
  case (Suc m)
  let ?s = "iset (ie s - of_nat i) (buf_get (ie s - of_nat i - 1) s) s"
  have e: "ie s - of_nat i = iw s + of_nat (llen s - i)" "ie s - of_nat i - 1 = iw s + of_nat (llen s - i - 1)"
    using Suc.prems(3) ie_minus[of i s] ie_minus[of "Suc i" s] by (simp_all add: diff_diff_eq)
  have g: "buf_get (ie s - of_nat i - 1) s = lbuf s (llen s - i - 1)"
    using Suc.prems(2) by (subst e(2), subst buf_get_lbuf) simp_all
  have l: "lbuf ?s j = (if llen s - i = j then lbuf s (llen s - i - 1) else lbuf s j)" if "j < 128" for j
    unfolding g unfolding e(1) using Suc.prems that by (subst lbuf_iset) auto
  from Suc.IH[of ?s "i + 1"] Suc.prems show ?case
    using l by (auto dest: same_but_buf_iset)
qed auto

lemma shiftleft_lbuf:
  assumes "length (ibuf s) = 128" "llen s \<le> 128" "m + 1 \<le> llen s"
  shows "same_but_buf (shiftleft_loop m s) s \<and>
    (\<forall>j < 128. lbuf (shiftleft_loop m s) j =
       (if llen s - (m + 1) \<le> j \<and> j < llen s - 1 then lbuf s (j + 1) else lbuf s j))"
  using assms
proof (induction m arbitrary: s)
  case (Suc m)
  let ?s = "iset (ie s - of_nat (m + 2)) (buf_get (ie s - of_nat (m + 2) + 1) s) s"
  have e: "ie s - of_nat (m + 2) = iw s + of_nat (llen s - (m + 2))"
    using Suc.prems(3) by (intro ie_minus) simp
  have "ie s - of_nat (m + 2) + 1 = iw s + of_nat (llen s - (m + 2) + 1)" by (simp only: e) simp
  then have g: "buf_get (ie s - of_nat (m + 2) + 1) s = lbuf s (llen s - (m + 2) + 1)"
    using Suc.prems(2,3) by (simp only:) (rule buf_get_lbuf, simp)
  have l: "lbuf ?s j = (if llen s - (m + 2) = j then lbuf s (llen s - (m + 2) + 1) else lbuf s j)" if "j < 128" for j
    unfolding g unfolding e using Suc.prems that by (subst lbuf_iset) auto
  from Suc.IH[of ?s] Suc.prems show ?case
    using l by (auto simp del: of_nat_add dest: same_but_buf_iset)
qed auto

text \<open>The two shifts, as insertion and deletion in the line.\<close>

lemma line_nth: "j < llen s \<Longrightarrow> line s ! j = lbuf s j" and line_length [simp]: "length (line s) = llen s"
  by (simp_all add: line_lbuf)

lemma insert_line:
  assumes "length (ibuf s) = 128" "line s = L @ R" "unat (ishift s) = length R" "length (L @ R) < 128"
    and "t = iset (ie s - ishift s) c (inputshiftright s)"
  shows "same_but_buf t s" "line (t\<lparr>ie := ie t + 1\<rparr>) = L @ c # R"
proof -
  have n: "llen s = length (L @ R)" using assms(2) line_length[of s] by simp
  have lb: "lbuf s i = (L @ R) ! i" if "i < length (L @ R)" for i
    using that n line_nth[of i s] assms(2) by simp
  let ?r = "inputshiftright s"
  have R: "same_but_buf ?r s" "\<And>j. j < 128 \<Longrightarrow> lbuf ?r j =
      (if length L < j \<and> j \<le> llen s then lbuf s (j - 1) else lbuf s j)"
    using shiftright_lbuf[of s 0 "length R"] assms(1,3,4) n by (auto simp: inputshiftright_def)
  note D = same_but_bufD[OF R(1)]
  have "of_nat (unat (ishift s)) = ishift s" by simp
  then have "ishift s = of_nat (length R)" using assms(3) by simp
  then have e: "ie s - ishift s = iw ?r + of_nat (length L)"
    using ie_minus[of "length R" s] n D(1) by simp
  have t: "lbuf t j = (if length L = j then c else lbuf ?r j)" if "j < 128" for j
    unfolding assms(5) e using that assms(1,4) D by (intro lbuf_iset) auto
  show st: "same_but_buf t s"
    using R(1) unfolding assms(5) by (rule iset_same_but_buf)
  let ?u = "t\<lparr>ie := ie t + 1\<rparr>"
  have lu: "lbuf ?u = lbuf t" by (rule ext) (simp add: lbuf_def)
  have "ie ?u - iw ?u = of_nat (Suc (llen s))"
    using same_but_bufD[OF st] ie_llen[of s] by simp
  then have llu: "llen ?u = Suc (llen s)" using n assms(4) by (simp add: llen_def unat32_of_nat del: of_nat_Suc)
  show "line ?u = L @ c # R"
  proof (rule nth_equalityI)
    show "length (line ?u) = length (L @ c # R)" using llu n by simp
    fix j assume "j < length (line ?u)"
    then have j: "j < Suc (length (L @ R))" using llu n by simp
    then have "line ?u ! j = lbuf t j" using llu n line_nth[of j ?u] lu by simp
    also have "\<dots> = (L @ c # R) ! j"
      using j assms(4) n by (auto simp: t R(2) lb nth_append nth_Cons')
    finally show "line ?u ! j = (L @ c # R) ! j" .
  qed
qed

lemma delete_line:
  assumes "length (ibuf s) = 128" "line s = (L @ [x]) @ R" "unat (ishift s) = length R" "length (L @ x # R) \<le> 128"
  shows "same_but_buf (shiftleft_loop (unat (ishift s)) s) s" "line (inputshiftleft s) = L @ R"
proof -
  have n: "llen s = Suc (length (L @ R))" using assms(2) line_length[of s] by simp
  have lb: "lbuf s i = (L @ x # R) ! i" if "i < Suc (length (L @ R))" for i
    using that n line_nth[of i s] assms(2) by simp
  let ?r = "shiftleft_loop (unat (ishift s)) s"
  have R: "same_but_buf ?r s" "\<And>j. j < 128 \<Longrightarrow> lbuf ?r j =
      (if length L \<le> j \<and> j < llen s - 1 then lbuf s (j + 1) else lbuf s j)"
    using shiftleft_lbuf[of s "length R"] assms(1,3,4) n by auto
  show "same_but_buf ?r s" by (rule R(1))
  let ?u = "inputshiftleft s"
  have u: "?u = ?r\<lparr>ie := ie ?r - 1\<rparr>" by (simp add: inputshiftleft_def Let_def)
  have lu: "lbuf ?u = lbuf ?r" by (rule ext) (simp add: lbuf_def u)
  have "ie ?u - iw ?u = of_nat (length (L @ R))"
    using same_but_bufD[OF R(1)] ie_llen[of s] n by (simp add: u)
  then have llu: "llen ?u = length (L @ R)" using assms(4) by (simp add: llen_def unat32_of_nat del: of_nat_add)
  show "line ?u = L @ R"
  proof (rule nth_equalityI)
    show "length (line ?u) = length (L @ R)" using llu by simp
    fix j assume "j < length (line ?u)"
    then have j: "j < length (L @ R)" using llu by simp
    then have "line ?u ! j = lbuf ?r j" using llu line_nth[of j ?u] lu by simp
    also have "\<dots> = (L @ R) ! j"
      using j assms(4) n by (auto simp: R(2) lb nth_append nth_Cons')
    finally show "line ?u ! j = (L @ R) ! j" .
  qed
qed

section \<open>The screen\<close>

text \<open>
  \<open>shown L s\<close>: the cells just before the cursor hold \<open>L\<close>, and the cursor is on one of the first
  24 rows, where the code keeps it. Scrolling moves both, so it is not visible here.
\<close>

definition shown :: "u8 list \<Rightarrow> console \<Rightarrow> bool" where
  "shown L s \<longleftrightarrow> \<not> panicked s \<and> int (length L) \<le> crtpos s \<and> crtpos s < 1920 \<and>
     (\<forall>j < length L. crt s (crtpos s - int (length L) + int j) = crt_cell (uint (L ! j)))"

definition same_but_screen :: "console \<Rightarrow> console \<Rightarrow> bool" where
  "same_but_screen t s \<longleftrightarrow> (\<exists>m p u. t = s\<lparr>crt := m, crtpos := p, uart_out := u\<rparr>)"

lemma same_but_screen_refl [simp]: "same_but_screen s s"
proof -
  have "s = s\<lparr>crt := crt s, crtpos := crtpos s, uart_out := uart_out s\<rparr>" by simp
  then show ?thesis unfolding same_but_screen_def by blast
qed

lemma same_but_screen_trans: "same_but_screen t s \<Longrightarrow> same_but_screen u t \<Longrightarrow> same_but_screen u s"
  by (auto simp: same_but_screen_def) (metis (no_types, lifting) console.update_convs(1-3) console.fold_congs(1))

lemma same_but_screenI: "same_but_screen (s\<lparr>uart_out := u, crt := m, crtpos := p\<rparr>) s"
  unfolding same_but_screen_def by (intro exI[of _ m] exI[of _ p] exI[of _ u]) simp

lemma same_but_screenD:
  assumes "same_but_screen t s"
  shows "iw t = iw s" "ie t = ie s" "ir t = ir s" "ishift t = ishift s" "ibuf t = ibuf s" "panicked t = panicked s"
    "line t = line s" "llen t = llen s" "lbuf t = lbuf s" "buf_get x t = buf_get x s"
  using assms by (auto simp: same_but_screen_def line_def llen_def buf_get_def lbuf_def)

lemma shown_put:
  assumes "shown L s" "length L < 1840" "c \<noteq> 10"
  shows "\<exists>t. consputc (uint c) s = Inr t \<and> shown (L @ [c]) t \<and> same_but_screen t s"
proof -
  let ?p = "crtpos s"
  have b: "0 \<le> ?p" "?p < 1920" "\<not> panicked s" using assms(1) by (auto simp: shown_def)
  have c: "uint c \<noteq> 10" "uint c \<noteq> 256"
    using assms(3) uint_lt2p[of c] by (auto simp: word_uint_eq_iff)
  show ?thesis
  proof (cases "?p = 1919")
    case False
    let ?t = "s\<lparr>uart_out := uart_out s @ [of_int (uint c)],
        crt := (crt s)(?p := crt_cell (uint c), ?p + 1 := crt_cell 32), crtpos := ?p + 1\<rparr>"
    have "consputc (uint c) s = Inr ?t"
      using b c False
      by (simp add: consputc_def cgaputc_def BACKSPACE_def getpos_def uartputc_def Let_def setpos_def conserasechar_def)
    moreover have "shown (L @ [c]) ?t"
      using assms(1) b False by (auto simp: shown_def nth_append less_Suc_eq)
    moreover have "same_but_screen ?t s" by (rule same_but_screenI)
    ultimately show ?thesis by blast
  next
    case True
    let ?m = "(cga_scroll 1840 ((crt s)(?p := crt_cell (uint c))))(1840 := crt_cell 32)"
    let ?t = "s\<lparr>uart_out := uart_out s @ [of_int (uint c)], crt := ?m, crtpos := 1840\<rparr>"
    have "consputc (uint c) s = Inr ?t"
      using b c True
      by (simp add: consputc_def cgaputc_def BACKSPACE_def getpos_def uartputc_def Let_def setpos_def conserasechar_def)
    moreover have "shown (L @ [c]) ?t"
      using assms(1,2) True b by (auto simp: shown_def nth_append cga_scroll_def less_Suc_eq algebra_simps)
    moreover have "same_but_screen ?t s" by (rule same_but_screenI)
    ultimately show ?thesis by blast
  qed
qed

lemma shown_back:
  assumes "shown (L @ [c]) s"
  shows "\<exists>t. consputc BACKSPACE s = Inr t \<and> shown L t \<and> same_but_screen t s \<and> crtpos t = crtpos s - 1"
proof -
  let ?p = "crtpos s"
  have b: "0 < ?p" "?p < 1920" "\<not> panicked s" using assms by (auto simp: shown_def)
  let ?t = "s\<lparr>uart_out := ((uart_out s @ [8]) @ [32]) @ [8], crt := (crt s)(?p - 1 := crt_cell 32), crtpos := ?p - 1\<rparr>"
  have "consputc BACKSPACE s = Inr ?t"
    using b by (simp add: consputc_def cgaputc_def BACKSPACE_def getpos_def uartputc_def Let_def setpos_def conserasechar_def)
  moreover have "shown L ?t"
  proof -
    have "crt s (?p - int (length L) - 1 + int j) = crt_cell (uint (L ! j))" if "j < length L" for j
      using assms that by (auto simp: shown_def nth_append algebra_simps)
    then show ?thesis using assms by (auto simp: shown_def algebra_simps)
  qed
  moreover have "same_but_screen ?t s" by (rule same_but_screenI)
  ultimately show ?thesis by fastforce
qed

lemma shown_puts:
  assumes "shown L s" "length L + length cs \<le> 1840" "10 \<notin> set cs"
  shows "\<exists>t. consputcs (map uint cs) s = Inr t \<and> shown (L @ cs) t \<and> same_but_screen t s"
  using assms
proof (induction cs arbitrary: L s)
  case (Cons c cs)
  obtain t where t: "consputc (uint c) s = Inr t" "shown (L @ [c]) t" "same_but_screen t s"
    using shown_put[of L s c] Cons.prems by auto
  with Cons.IH[of "L @ [c]" t] Cons.prems show ?case by (auto intro: same_but_screen_trans)
qed auto

lemma shown_backs:
  assumes "shown (L @ R) s"
  shows "\<exists>t. consputcs (replicate (length R) BACKSPACE) s = Inr t \<and> shown L t \<and> same_but_screen t s"
  using assms
proof (induction R arbitrary: s rule: rev_induct)
  case (snoc c R)
  obtain t where "consputc BACKSPACE s = Inr t" "shown (L @ R) t" "same_but_screen t s"
    using shown_back[of "L @ R" c s] snoc.prems by auto
  with snoc.IH[of t] show ?case by (auto intro: same_but_screen_trans)
qed auto

section \<open>The editor\<close>

definition edits :: "console \<Rightarrow> u8 list \<Rightarrow> u8 list \<Rightarrow> bool" where
  "edits s L R \<longleftrightarrow> length (ibuf s) = 128 \<and> line s = L @ R \<and> unat (ishift s) = length R \<and>
     length (L @ R) \<le> 128 \<and> 10 \<notin> set (L @ R) \<and> 0 \<le> crtpos s \<and>
     shown (L @ R) (s\<lparr>crtpos := crtpos s + int (length R)\<rparr>)"

definition hist :: "console \<Rightarrow> u32 \<times> u32 \<times> u8 list list \<times> int \<times> int \<times> bool \<times> u8 list \<times> int" where
  "hist s = (iw s, ir s, cbuf s, cr s, cw s, cintab s, ctmpcmd s, clastused s)"

lemma hist_screen: "same_but_screen t s \<Longrightarrow> hist t = hist s"
  by (auto simp: same_but_screen_def hist_def)

lemma hist_buf: "same_but_buf t s \<Longrightarrow> hist t = hist s"
  by (auto simp: same_but_buf_def hist_def)

lemma hist_upd [simp]:
  "hist (ie_update f s) = hist s" "hist (ishift_update g s) = hist s" "hist (crtpos_update h s) = hist s"
  by (simp_all add: hist_def)

lemma line_upd [simp]:
  "line (ishift_update g s) = line s" "line (crtpos_update h s) = line s" "line (crt_update k s) = line s"
  "buf_get x (ishift_update g s) = buf_get x s" "buf_get x (crtpos_update h s) = buf_get x s" "buf_get x (ie_update f s) = buf_get x s"
  by (simp_all add: line_def buf_get_def)

lemma line_cong: "ibuf t = ibuf s \<Longrightarrow> iw t = iw s \<Longrightarrow> ie t = ie s \<Longrightarrow> line t = line s"
  by (simp add: line_def buf_get_def)

lemma lbuf_upd [simp]:
  "lbuf (ie_update f s) = lbuf s" "lbuf (ishift_update g s) = lbuf s" "lbuf (crtpos_update h s) = lbuf s"
  by (simp_all add: lbuf_def fun_eq_iff)

lemma shown_upd [simp]:
  "shown L (ie_update f s) = shown L s" "shown L (ishift_update g s) = shown L s"
  by (simp_all add: shown_def)

lemma edits_movpostoend:
  assumes "edits s L R"
  shows "movpostoend s = s\<lparr>crtpos := crtpos s + int (length R)\<rparr>" "shown (L @ R) (movpostoend s)"
proof -
  have "uint (ishift s) = int (length R)"
    using assms by (metis edits_def uint_nat)
  then show m: "movpostoend s = s\<lparr>crtpos := crtpos s + int (length R)\<rparr>"
    using assms by (simp add: movpostoend_def setpos_def getpos_def edits_def shown_def)
  show "shown (L @ R) (movpostoend s)" unfolding m using assms by (simp add: edits_def)
qed

lemma edits_nil_shift: "edits s L [] \<longleftrightarrow> length (ibuf s) = 128 \<and> line s = L \<and> ishift s = 0 \<and> length L \<le> 128 \<and>
    10 \<notin> set L \<and> shown L s"
  by (auto simp: edits_def unat_eq_0 shown_def)

lemma edits_llen: "edits s L R \<Longrightarrow> llen s = length (L @ R)"
  using line_length[of s] by (simp add: edits_def)

text \<open>Killing the line.\<close>

lemma erase_loop:
  assumes "edits s X []"
  shows "\<exists>t. conseraseline_loop (length X) s = Inr t \<and> edits t [] [] \<and> hist t = hist s"
  using assms
proof (induction X arbitrary: s rule: rev_induct)
  case (snoc c X)
  have n: "llen s = Suc (length X)" using edits_llen[OF snoc.prems] by simp
  have le: "length X < 128" "10 \<notin> set X" "c \<noteq> 10" using snoc.prems by (auto simp: edits_def)
  have e: "ie s - 1 = iw s + of_nat (length X)" using ie_llen[of s] n by simp
  have ne: "ie s \<noteq> iw s" using n by (auto simp: llen_def)
  have last: "buf_get (ie s - 1) s = c"
    using line_nth[of "length X" s] n snoc.prems le e by (simp add: buf_get_lbuf edits_def)
  let ?u = "s\<lparr>ie := ie s - 1\<rparr>"
  have ll: "llen ?u = length X" using e le by (simp add: llen_def unat32_of_nat)
  have lb: "lbuf s i = X ! i" if "i < length X" for i
    using line_nth[of i s] n that snoc.prems by (simp add: edits_def nth_append)
  have "line ?u = X" using ll by (intro nth_equalityI) (auto simp: line_nth lb)
  moreover obtain t where t: "consputc BACKSPACE ?u = Inr t" "shown X t" "same_but_screen t ?u"
    using shown_back[of X c ?u] snoc.prems by (auto simp: edits_nil_shift)
  ultimately have "edits t X []"
    using same_but_screenD[OF t(3)] snoc.prems by (auto simp: edits_nil_shift)
  with snoc.IH[of t] t ne last le hist_screen[OF t(3)] show ?case by auto
qed auto

lemma conseraseline_edits:
  assumes "edits s L R"
  shows "\<exists>t. conseraseline s = Inr t \<and> edits t [] [] \<and> hist t = hist s"
proof -
  let ?s = "(movpostoend s)\<lparr>ishift := 0\<rparr>"
  note m = edits_movpostoend[OF assms]
  have "edits ?s (L @ R) []"
    using assms m(2) by (auto simp: edits_nil_shift m(1) edits_def shown_def)
  from erase_loop[OF this] show ?thesis
    using edits_llen[OF assms] by (simp add: conseraseline_def m(1) llen_def Let_def)
qed

text \<open>Appending at the end of the line.\<close>

lemma append_line:
  assumes "length (ibuf s) = 128" "line s = L" "length L < 128"
  shows "same_but_buf (iset (ie s) c s) s" "line ((iset (ie s) c s)\<lparr>ie := ie s + 1\<rparr>) = L @ [c]"
proof -
  have s: "inputshiftright (s\<lparr>ishift := 0\<rparr>) = s\<lparr>ishift := 0\<rparr>" by (simp add: inputshiftright_def)
  have "line ((iset (ie s) c (s\<lparr>ishift := 0\<rparr>))\<lparr>ie := ie s + 1\<rparr>) = L @ [c]"
    using insert_line(2)[of "s\<lparr>ishift := 0\<rparr>" L "[]" _ c] assms s by simp
  then show "line ((iset (ie s) c s)\<lparr>ie := ie s + 1\<rparr>) = L @ [c]"
    by (rule trans[rotated]) (rule line_cong, simp_all add: iset_def)
  show "same_but_buf (iset (ie s) c s) s" by (rule iset_same_but_buf) simp
qed

lemma append_echo_edits:
  assumes "edits s L []" "length (L @ cs) \<le> 128" "10 \<notin> set cs"
  shows "\<exists>t. append_echo cs s = Inr t \<and> edits t (L @ cs) [] \<and> hist t = hist s"
  using assms
proof (induction cs arbitrary: s L)
  case (Cons c cs)
  let ?s = "(iset (ie s) c s)\<lparr>ie := ie s + 1\<rparr>"
  have l: "line ?s = L @ [c]" and sb: "same_but_buf (iset (ie s) c s) s"
    using append_line[of s L c] Cons.prems by (auto simp: edits_nil_shift)
  have sh: "shown L ?s" using Cons.prems(1) by (simp add: edits_nil_shift shown_def)
  obtain t where t: "consputc (uint c) ?s = Inr t" "shown (L @ [c]) t" "same_but_screen t ?s"
    using shown_put[OF sh, of c] Cons.prems by auto
  have "edits t (L @ [c]) []"
    using Cons.prems t(2) l same_but_screenD[OF t(3)] by (auto simp: edits_nil_shift)
  with Cons.IH[of t "L @ [c]"] Cons.prems t hist_screen[OF t(3)] hist_buf[OF sb] show ?case by auto
qed auto

text \<open>Inserting and deleting at the cursor.\<close>

lemma edits_setpos:
  assumes "shown (L @ R) t" "line t = L @ R" "unat (ishift t) = length R" "length (ibuf t) = 128"
    and "length (L @ R) \<le> 128" "10 \<notin> set (L @ R)"
  shows "edits (setpos (getpos t - uint (ishift t)) t) L R"
proof -
  have u: "uint (ishift t) = int (length R)" using assms(3) by (metis uint_nat)
  have "(crtpos t - int (length R)) mod 65536 = crtpos t - int (length R)"
    using assms(1) by (intro mod_pos_pos_trivial) (auto simp: shown_def)
  then show ?thesis
    using assms u by (auto simp: edits_def setpos_def getpos_def shown_def)
qed

lemma from_cursor_lbuf:
  assumes "hi \<le> llen s" "llen s < 2 ^ 32"
  shows "from_cursor hi lo s = map (\<lambda>i. uint (lbuf s (llen s - i))) (rev [lo..<Suc hi])"
  unfolding from_cursor_def
proof (rule map_cong[OF refl])
  fix i assume "i \<in> set (rev [lo..<Suc hi])"
  then have "i \<le> llen s" using assms(1) by auto
  then show "uint (buf_get (ie s - of_nat i) s) = uint (lbuf s (llen s - i))"
    using assms(2) by (simp only: ie_minus) (subst buf_get_lbuf, auto)
qed

lemma from_cursor_line:
  assumes "\<And>j. j < length Y \<Longrightarrow> lbuf s (llen s - hi + j) = Y ! j" "length Y = Suc hi - lo" "lo \<le> hi"
    and "hi \<le> llen s" "llen s < 2 ^ 32"
  shows "from_cursor hi lo s = map uint Y"
  unfolding from_cursor_lbuf[OF assms(4,5)]
proof (rule nth_equalityI)
  fix j assume "j < length (map (\<lambda>i. uint (lbuf s (llen s - i))) (rev [lo..<Suc hi]))"
  then have j: "j < Suc hi - lo" by (simp del: upt_Suc)
  have "rev [lo..<Suc hi] ! j = hi - j" using j assms(3) by (simp add: rev_nth del: upt_Suc)
  moreover have "llen s - (hi - j) = llen s - hi + j" using j assms(3,4) by simp
  ultimately show "map (\<lambda>i. uint (lbuf s (llen s - i))) (rev [lo..<Suc hi]) ! j = map uint Y ! j"
    using assms(1)[of j] assms(2) j by (simp del: upt_Suc)
qed (use assms(2) in \<open>simp del: upt_Suc\<close>)

text \<open>Rewriting the tail of the line on the screen: \<open>X\<close> is erased and \<open>Y\<close> printed after \<open>L\<close>.\<close>

lemma same_but_screen_movpostoend: "same_but_screen (movpostoend s) s"
  unfolding same_but_screen_def movpostoend_def setpos_def
  by (intro exI[of _ "crt s"] exI exI[of _ "uart_out s"]) simp

lemma shown_movpostoend_cong:
  "crtpos t = crtpos s \<Longrightarrow> ishift t = ishift s \<Longrightarrow> crt t = crt s \<Longrightarrow> panicked t = panicked s \<Longrightarrow>
   shown L (movpostoend t) = shown L (movpostoend s)"
  by (simp add: shown_def movpostoend_def setpos_def getpos_def)

lemma redraw:
  assumes "shown (L @ X) (movpostoend s)" "length (L @ Y) \<le> 1840" "10 \<notin> set Y"
    and "\<And>u. same_but_screen u s \<Longrightarrow> from_cursor (unat (ishift s)) lo u = map uint Y"
  shows "\<exists>v. kbind (consputcs (replicate (length X) BACKSPACE) (movpostoend s)) (\<lambda>s1.
       kbind (consputcs (from_cursor (unat (ishift s1)) lo s1) s1) (\<lambda>s2.
       Inr (setpos (getpos s2 - uint (ishift s2)) s2))) = Inr (setpos (getpos v - uint (ishift v)) v) \<and>
     shown (L @ Y) v \<and> same_but_screen v s"
proof -
  obtain u where u: "consputcs (replicate (length X) BACKSPACE) (movpostoend s) = Inr u" "shown L u"
    "same_but_screen u (movpostoend s)" using shown_backs[OF assms(1)] by auto
  have us: "same_but_screen u s" using u(3) same_but_screen_movpostoend same_but_screen_trans by blast
  obtain v where v: "consputcs (map uint Y) u = Inr v" "shown (L @ Y) v" "same_but_screen v u"
    using shown_puts[OF u(2), of Y] assms(2,3) by auto
  have "same_but_screen v s" using us v(3) same_but_screen_trans by blast
  moreover have "from_cursor (unat (ishift u)) lo u = map uint Y"
    using assms(4)[OF us] same_but_screenD(4)[OF us] by simp
  ultimately show ?thesis using u(1) v by auto
qed

lemma inputputc_edits:
  assumes "edits s L R" "length (L @ R) < 128" "c \<noteq> 10"
  shows "\<exists>t. inputputc c s = Inr t \<and> edits t (L @ [c]) R \<and> hist t = hist s \<and> ie t = ie s + 1"
proof (cases "R = []")
  case True
  let ?s = "iset (ie s) c s"
  have l: "line (?s\<lparr>ie := ie s + 1\<rparr>) = L @ [c]" and sb: "same_but_buf ?s s"
    using append_line[of s L c] assms True by (auto simp: edits_nil_shift)
  have sh: "shown L ?s" using assms(1) True by (simp add: edits_nil_shift shown_def)
  obtain t where t: "consputc (uint c) ?s = Inr t" "shown (L @ [c]) t" "same_but_screen t ?s"
    using shown_put[OF sh, of c] assms by auto
  note D = same_but_screenD[OF t(3)]
  have "line (t\<lparr>ie := ie t + 1\<rparr>) = L @ [c]"
    by (subst l[symmetric], rule line_cong) (simp_all add: D)
  with t D assms True hist_screen[OF t(3)] hist_buf[OF sb] show ?thesis
    by (auto simp: inputputc_def edits_nil_shift)
next
  case False
  let ?s = "iset (ie s - ishift s) c (inputshiftright s)"
  have I: "length (ibuf s) = 128" "line s = L @ R" "unat (ishift s) = length R" "10 \<notin> set (L @ R)"
    using assms(1) by (simp_all add: edits_def)
  note ins = insert_line[OF I(1-3) assms(2) refl, of c]
  note B = same_but_bufD[OF ins(1)]
  have ir: "ie (inputshiftright s) = ie s" "ishift (inputshiftright s) = ishift s"
    using B by (auto simp: iset_def)
  have n: "llen ?s = length (L @ R)" using B(9) edits_llen[OF assms(1)] by simp
  have ll: "llen (?s\<lparr>ie := ie ?s + 1\<rparr>) = Suc (length (L @ R))"
    using arg_cong[OF ins(2), of length] by simp
  have lb: "lbuf ?s j = (L @ c # R) ! j" if "j \<le> length (L @ R)" for j
    using line_nth[of j "?s\<lparr>ie := ie ?s + 1\<rparr>"] that ll ins(2) by simp
  have fc: "from_cursor (unat (ishift ?s)) 0 u = map uint (c # R)" if "same_but_screen u ?s" for u
    using same_but_screenD[OF that] n assms(2) lb B(4) I(3)
    by (intro from_cursor_line) (auto simp: nth_append)
  have sh: "shown (L @ R) (movpostoend ?s)"
    using edits_movpostoend(2)[OF assms(1)] B by (subst shown_movpostoend_cong[of _ s]) auto
  obtain v where v: "consshiftright ?s = Inr (setpos (getpos v - uint (ishift v)) v)" "shown (L @ c # R) v"
    "same_but_screen v ?s"
    using redraw[OF sh _ _ fc] assms(2,3) I(3,4) B(4) by (auto simp: consshiftright_def)
  note D = same_but_screenD[OF v(3)]
  let ?t = "v\<lparr>ie := ie v + 1\<rparr>"
  have "line ?t = (L @ [c]) @ R"
    using trans[OF line_cong[of ?t "?s\<lparr>ie := ie ?s + 1\<rparr>"] ins(2)] by (simp add: D)
  then have "edits (setpos (getpos ?t - uint (ishift ?t)) ?t) (L @ [c]) R"
    using I assms(2,3) D B v(2) by (intro edits_setpos) auto
  moreover have "setpos (getpos ?t - uint (ishift ?t)) ?t = (setpos (getpos v - uint (ishift v)) v)\<lparr>ie := ie v + 1\<rparr>"
    by (simp add: setpos_def getpos_def)
  ultimately have "edits ((setpos (getpos v - uint (ishift v)) v)\<lparr>ie := ie v + 1\<rparr>) (L @ [c]) R" by (simp only:)
  moreover have "hist v = hist s" using hist_screen[OF v(3)] hist_buf[OF ins(1)] by simp
  moreover have "ishift s \<noteq> 0" using False I(3) by auto
  ultimately show ?thesis
    using ir D(2) B(2) v(1) by (auto simp: inputputc_def Let_def) (simp_all add: setpos_def)
qed

lemma backspace_edits:
  assumes "edits s (L @ [x]) R"
  shows "\<exists>t. consshiftleft (inputshiftleft s) = Inr t \<and> edits t L R \<and> hist t = hist s \<and> ie t = ie s - 1"
proof -
  let ?s = "inputshiftleft s"
  have I: "length (ibuf s) = 128" "line s = (L @ [x]) @ R" "unat (ishift s) = length R"
    "10 \<notin> set (L @ R)" "length (L @ x # R) \<le> 128"
    using assms by (simp_all add: edits_def)
  note del = delete_line[OF I(1-3,5)]
  let ?r = "shiftleft_loop (unat (ishift s)) s"
  note B = same_but_bufD[OF del(1)]
  have u: "?s = ?r\<lparr>ie := ie s - 1\<rparr>" using B by (simp add: inputshiftleft_def Let_def)
  have f: "ishift ?s = ishift s" "crt ?s = crt s" "crtpos ?s = crtpos s" "panicked ?s = panicked s"
    "length (ibuf ?s) = 128" "ie ?s = ie s - 1" using B I(1) by (simp_all add: u)
  have n: "llen ?s = length (L @ R)" using arg_cong[OF del(2), of length] by simp
  have lb: "lbuf ?s j = (L @ R) ! j" if "j < length (L @ R)" for j
    using line_nth[of j ?s] that n del(2) by simp
  have fc: "from_cursor (unat (ishift ?s)) 1 w = map uint R" if "same_but_screen w ?s" for w
  proof (cases "R = []")
    case True
    then show ?thesis using f(1) I(3) by (simp add: from_cursor_def)
  next
    case False
    then show ?thesis using same_but_screenD[OF that] n lb f(1) I(3,5)
      by (intro from_cursor_line) (auto simp: nth_append Suc_le_eq)
  qed
  have sh: "shown (L @ x # R) (movpostoend ?s)"
    using edits_movpostoend(2)[OF assms] f by (subst shown_movpostoend_cong[of _ s]) auto
  obtain v where v: "consshiftleft ?s = Inr (setpos (getpos v - uint (ishift v)) v)" "shown (L @ R) v"
    "same_but_screen v ?s"
    using redraw[OF sh _ _ fc] I(3-5) f(1) by (auto simp: consshiftleft_def)
  note D = same_but_screenD[OF v(3)]
  have "edits (setpos (getpos v - uint (ishift v)) v) L R"
    using D f I(3-5) v(2) del(2) by (intro edits_setpos) auto
  moreover have "hist v = hist s" using hist_screen[OF v(3)] hist_buf[OF del(1)] by (simp add: u)
  ultimately show ?thesis using v(1) D(2) f(6) by (auto simp: setpos_def)
qed

text \<open>Moving the cursor.\<close>

lemma edits_pos:
  assumes "edits s L R"
  shows "int (length L) \<le> crtpos s" "crtpos s + int (length R) < 1920" "ishift s = of_nat (length R)"
    "ie s - iw s = of_nat (length (L @ R))" "length (L @ R) \<le> 128"
proof -
  show "int (length L) \<le> crtpos s" "crtpos s + int (length R) < 1920" "length (L @ R) \<le> 128"
    using assms by (auto simp: edits_def shown_def)
  have u: "unat (ishift s) = length R" using assms by (simp add: edits_def)
  show "ishift s = of_nat (length R)" using arg_cong[OF u, of "of_nat :: nat \<Rightarrow> u32"] by simp
  show "ie s - iw s = of_nat (length (L @ R))" using ie_llen[of s] edits_llen[OF assms] by simp
qed

lemma edits_move:
  assumes "edits s L R" "L @ R = L' @ R'"
  shows "edits (s\<lparr>ishift := of_nat (length R'), crtpos := crtpos s + int (length R) - int (length R')\<rparr>) L' R'"
proof -
  have "length R' \<le> length (L @ R)" using arg_cong[OF assms(2), of length] by simp
  then have "unat (of_nat (length R') :: u32) = length R'"
    using edits_pos(5)[OF assms(1)] by (intro unat32_of_nat) simp
  moreover have "int (length R') \<le> crtpos s + int (length R)"
    using \<open>length R' \<le> length (L @ R)\<close> edits_pos(1)[OF assms(1)] by simp
  ultimately show ?thesis
    using assms(1) unfolding edits_def assms(2)[symmetric] by (simp add: shown_def)
qed

lemma edits_left:
  assumes "edits s (L @ [x]) R"
  shows "edits (movpostoleft (s\<lparr>ishift := ishift s + 1\<rparr>)) L (x # R)"
proof -
  note P = edits_pos[OF assms]
  have "movpostoleft (s\<lparr>ishift := ishift s + 1\<rparr>) =
     s\<lparr>ishift := of_nat (length (x # R)), crtpos := crtpos s + int (length R) - int (length (x # R))\<rparr>"
    using P by (simp add: movpostoleft_def setpos_def getpos_def)
  then show ?thesis using edits_move[OF assms, of L "x # R"] by simp
qed

lemma edits_right:
  assumes "edits s L (x # R)"
  shows "edits (movpostoright (s\<lparr>ishift := ishift s - 1\<rparr>)) (L @ [x]) R"
proof -
  note P = edits_pos[OF assms]
  have "movpostoright (s\<lparr>ishift := ishift s - 1\<rparr>) =
     s\<lparr>ishift := of_nat (length R), crtpos := crtpos s + int (length (x # R)) - int (length R)\<rparr>"
    using P by (simp add: movpostoright_def setpos_def getpos_def)
  then show ?thesis using edits_move[OF assms, of "L @ [x]" R] by simp
qed

lemma edits_to_end:
  assumes "edits s L R"
  shows "edits ((movpostoend s)\<lparr>ishift := 0\<rparr>) (L @ R) []"
proof -
  have "(movpostoend s)\<lparr>ishift := 0\<rparr> = s\<lparr>ishift := of_nat (length ([] :: u8 list)),
      crtpos := crtpos s + int (length R) - int (length ([] :: u8 list))\<rparr>"
    by (simp add: edits_movpostoend(1)[OF assms])
  then show ?thesis using edits_move[OF assms, of "L @ R" "[]"] by (simp only: append_Nil2)
qed

lemma cursor_tests:
  assumes "edits s L R"
  shows "ishift s < ie s - iw s \<longleftrightarrow> L \<noteq> []" "0 < ishift s \<longleftrightarrow> R \<noteq> []"
    "length (L @ R) < 128 \<Longrightarrow> unat (iw s) + 128 < 2 ^ 32 \<Longrightarrow> iw s < ie s - ishift s \<longleftrightarrow> L \<noteq> []"
proof -
  note P = edits_pos[OF assms]
  have u: "unat (of_nat (length R) :: u32) = length R" "unat (of_nat (length (L @ R)) :: u32) = length (L @ R)"
    "unat (of_nat (length L) :: u32) = length L"
    using P(5) by (auto intro!: unat32_of_nat simp del: of_nat_add)
  show "ishift s < ie s - iw s \<longleftrightarrow> L \<noteq> []" using u P(3,4) by (simp add: word_less_nat_alt del: of_nat_add)
  show "0 < ishift s \<longleftrightarrow> R \<noteq> []" using u(1) P(3) by (simp add: word_less_nat_alt)
  assume "length (L @ R) < 128" "unat (iw s) + 128 < 2 ^ 32"
  moreover have "ie s - ishift s = iw s + of_nat (length L)"
    using ie_llen[of s] edits_llen[OF assms] P(3) by simp
  ultimately show "iw s < ie s - ishift s \<longleftrightarrow> L \<noteq> []"
    using u(3) by (simp add: word_less_nat_alt unat_word_ariths)
qed

section \<open>The abstract editor\<close>

type_synonym cursor_line = "u8 list \<times> u8 list"

definition edit_key :: "int \<Rightarrow> cursor_line \<Rightarrow> cursor_line" where
  "edit_key c z = (case z of (L, R) \<Rightarrow>
     if c = Ctrl CHR ''U'' then ([], [])
     else if c = Ctrl CHR ''H'' \<or> c = 0x7f then (butlast L, R)
     else if c = Ctrl CHR ''B'' then (if L = [] then (L, R) else (butlast L, last L # R))
     else if c = Ctrl CHR ''F'' then (case R of [] \<Rightarrow> (L, R) | x # R' \<Rightarrow> (L @ [x], R'))
     else if c = Ctrl CHR ''N'' then (filter (\<lambda>b. \<not> is_digit b) (L @ R), [])
     else if c = Ctrl CHR ''A'' then ([], L @ R)
     else if c = Ctrl CHR ''E'' then (L @ R, [])
     else (L @ [of_int c], R))"

definition editing_key :: "int \<Rightarrow> bool" where
  "editing_key c \<longleftrightarrow> 32 \<le> c \<and> c < 128 \<or>
     c \<in> {Ctrl CHR ''U'', Ctrl CHR ''H'', Ctrl CHR ''B'', Ctrl CHR ''F'', Ctrl CHR ''N'', Ctrl CHR ''A'', Ctrl CHR ''E''}"

lemma Ctrl_values:
  "Ctrl CHR ''U'' = 21" "Ctrl CHR ''H'' = 8" "Ctrl CHR ''B'' = 2" "Ctrl CHR ''F'' = 6" "Ctrl CHR ''N'' = 14"
  "Ctrl CHR ''A'' = 1" "Ctrl CHR ''E'' = 5" "Ctrl CHR ''P'' = 16" "Ctrl CHR ''L'' = 12" "Ctrl CHR ''D'' = 4"
  by (simp_all add: Ctrl_def)

lemma default_key_char:
  assumes "edits s L R" "32 \<le> c" "c < 127" "unat (ie s - ir s) < 127" "llen s \<le> unat (ie s - ir s)"
  shows "\<exists>t. default_key c s = Inr (Handled, t) \<and> edits t (L @ [of_int c]) R \<and> hist t = hist s"
proof -
  have "uint (of_int c :: u8) = c" using assms(2,3) by (simp add: unsigned_of_int take_bit_int_eq_self)
  then have c: "(of_int c :: u8) \<noteq> 10" "c \<noteq> 0" "c \<noteq> 13" "c \<noteq> 10"
    using assms(2,3) by (auto simp: word_uint_eq_iff)
  have "length (L @ R) < 128" using edits_llen[OF assms(1)] assms(4,5) by simp
  from inputputc_edits[OF assms(1) this c(1)] obtain t where
    t: "inputputc (of_int c) s = Inr t" "edits t (L @ [of_int c]) R" "hist t = hist s" "ie t = ie s + 1" by blast
  have "ie t \<noteq> ir t + of_nat INPUT_BUF"
  proof
    assume "ie t = ir t + of_nat INPUT_BUF"
    then have "ie s - ir s = 127" using t(3,4) by (simp add: hist_def INPUT_BUF_def algebra_simps)
    then show False using assms(4) by simp
  qed
  moreover have "unat (ie s - ir s) < INPUT_BUF" using assms(4) by (simp add: INPUT_BUF_def)
  ultimately show ?thesis using t c assms(2) by (auto simp: default_key_def Ctrl_values)
qed

lemma delnums_edits:
  assumes "edits s L R" "length (L @ R) < 128" "0 \<notin> set (L @ R)"
  shows "\<exists>t. delnums s = Inr t \<and> edits t (filter (\<lambda>b. \<not> is_digit b) (L @ R)) [] \<and> hist t = hist s"
proof -
  let ?k = "filter (\<lambda>b. \<not> is_digit b) (L @ R)"
  have l: "line s = L @ R" "10 \<notin> set (L @ R)" using assms(1) by (simp_all add: edits_def)
  have len: "length ?k < 128" using assms(2) length_filter_le[of _ "L @ R"] by (meson le_less_trans)
  obtain t where t: "conseraseline s = Inr t" "edits t [] []" "hist t = hist s"
    using conseraseline_edits[OF assms(1)] by blast
  have "cstr (take INPUT_BUF (?k @ [0])) = ?k"
  proof -
    have "take INPUT_BUF (?k @ [0]) = ?k @ [0]" using len by (simp add: INPUT_BUF_def)
    moreover have "takeWhile (\<lambda>b. b \<noteq> 0) (?k @ [0]) = ?k"
      using assms(3) by (subst takeWhile_append2) auto
    ultimately show ?thesis by (simp only: cstr_def)
  qed
  then show ?thesis
    using append_echo_edits[OF t(2), of ?k] len l t
    by (auto simp: delnums_def consputs_def INPUT_BUF_def)
qed

lemma edits_start:
  assumes "edits s L []" "L \<noteq> []"
  shows "edits (let s1 = movpostostart s in s1\<lparr>ishift := ie s1 - iw s1\<rparr>) [] L"
proof -
  note P = edits_pos[OF assms(1)]
  have "unat (of_nat (length L) :: u32) = length L" using P(5) by (intro unat32_of_nat) simp
  then have u: "uint (of_nat (length L) :: u32) = int (length L)" by (simp only: uint_nat)
  have "(let s1 = movpostostart s in s1\<lparr>ishift := ie s1 - iw s1\<rparr>) =
     s\<lparr>ishift := of_nat (length L), crtpos := crtpos s + int (length ([] :: u8 list)) - int (length L)\<rparr>"
    using P u by (simp add: movpostostart_def setpos_def getpos_def Let_def)
  then show ?thesis using edits_move[OF assms(1), of "[]" L] by simp
qed

lemma conskey_cases:
  assumes "editing_key c"
  shows "conskey c s =
     (if c = 21 then handled (conseraseline s)
      else if c = 8 \<or> c = 127 then
        handled (if ie s - ishift s > iw s then consshiftleft (inputshiftleft s) else Inr s)
      else if c = 2 then
        handled (Inr (if ishift s < ie s - iw s then movpostoleft (s\<lparr>ishift := ishift s + 1\<rparr>) else s))
      else if c = 6 then
        handled (Inr (if ishift s > 0 then movpostoright (s\<lparr>ishift := ishift s - 1\<rparr>) else s))
      else if c = 14 then handled (delnums s)
      else if c = 1 then
        handled (Inr (if ishift s < ie s - iw s then (let s1 = movpostostart s in s1\<lparr>ishift := ie s1 - iw s1\<rparr>) else s))
      else if c = 5 then handled (Inr ((movpostoend s)\<lparr>ishift := 0\<rparr>))
      else default_key c s)"
  using assms unfolding editing_key_def conskey_def Ctrl_values ARROW_UP_def ARROW_DOWN_def by auto

section \<open>Properties\<close>

text \<open>
  C26. The line editor refines a line with a cursor, in the buffer and on the screen: while a line
  without NUL and newline is being edited and fewer than 127 characters are buffered, each
  printable character, backspace, cursor left and right, line start and end, line kill and
  digit removal does to the circular buffer and to the screen what it does to the line, and
  touches neither the history nor the part of the buffer already handed to readers. (Line start
  is covered when the cursor is at the end of the line or already at its start.)
\<close>

theorem console_refines_editor:
  assumes "edits s L R" "editing_key c" "unat (ie s - ir s) < 127" "llen s \<le> unat (ie s - ir s)"
    and "unat (iw s) + 128 < 2 ^ 32" "0 \<notin> set (L @ R)" "c = Ctrl CHR ''A'' \<longrightarrow> L = [] \<or> R = []"
  shows "\<exists>t. conskey c s = Inr (Handled, t) \<and> hist t = hist s \<and>
     edits t (fst (edit_key c (L, R))) (snd (edit_key c (L, R)))"
proof -
  have len: "length (L @ R) < 128" using edits_llen[OF assms(1)] assms(3,4) by simp
  note K = conskey_cases[OF assms(2), of s]
  note T = cursor_tests[OF assms(1)]
  note T3 = cursor_tests(3)[OF assms(1) len assms(5)]
  have hmove: "hist (movpostoleft s') = hist s'" "hist (movpostoright s') = hist s'" "hist (movpostoend s') = hist s'"
    "hist (movpostostart s') = hist s'" for s'
    by (simp_all add: hist_def movpostoleft_def movpostoright_def movpostoend_def movpostostart_def setpos_def Let_def)
  consider "c = 21" | "c = 8 \<or> c = 127" | "c = 2" | "c = 6" | "c = 14" | "c = 1" | "c = 5" | "32 \<le> c" "c < 127"
    using assms(2) unfolding editing_key_def Ctrl_values by force
  then show ?thesis
  proof cases
    case 1
    then show ?thesis using conseraseline_edits[OF assms(1)]
      unfolding K by (auto simp: handled_def edit_key_def Ctrl_values)
  next
    case 2
    show ?thesis
    proof (cases "L = []")
      case True
      with 2 T3 assms(1) show ?thesis unfolding K by (auto simp: handled_def edit_key_def Ctrl_values)
    next
      case False
      with backspace_edits[of s "butlast L" "last L" R] assms(1) 2 T3 show ?thesis
        unfolding K by (auto simp: handled_def edit_key_def Ctrl_values)
    qed
  next
    case 3
    then show ?thesis
      using T(1) assms(1) edits_left[of s "butlast L" "last L" R]
      unfolding K by (auto simp: handled_def edit_key_def Ctrl_values hmove)
  next
    case 4
    then show ?thesis
      using T(2) assms(1) edits_right[of s L "hd R" "tl R"]
      unfolding K by (cases R) (auto simp: handled_def edit_key_def Ctrl_values hmove)
  next
    case 5
    then show ?thesis using delnums_edits[OF assms(1) len assms(6)]
      unfolding K by (auto simp: handled_def edit_key_def Ctrl_values)
  next
    case 6
    then have "L = [] \<or> R = []" using assms(7) by (simp add: Ctrl_values)
    with 6 T(1) assms(1) edits_start[of s L] show ?thesis
      unfolding K by (auto simp: handled_def edit_key_def Ctrl_values hmove Let_def)
  next
    case 7
    then show ?thesis using edits_to_end[OF assms(1)]
      unfolding K by (simp add: handled_def edit_key_def Ctrl_values hmove)
  next
    case 8
    then show ?thesis using default_key_char[OF assms(1) 8 assms(3,4)]
      unfolding K by (auto simp: edit_key_def Ctrl_values)
  qed
qed

text \<open>The line \<open>ab\<close> after a prompt of two characters, with the cursor on the \<open>b\<close>.\<close>

definition demo_con :: console where
  "demo_con = \<lparr>crt = (\<lambda>i. if i = 2 then crt_cell 97 else if i = 3 then crt_cell 98 else crt_cell 32),
     crtpos = 3, uart_out = [], panicked = False, ibuf = [97, 98] @ replicate 126 0,
     ir = 0, iw = 0, ie = 2, ishift = 1, cbuf = replicate 10 (replicate 128 0), cr = 0, cw = 0,
     cintab = False, ctmpcmd = replicate 128 0, clastused = 0\<rparr>"

lemma demo_con_line: "line demo_con = [97, 98]"
  by (simp add: line_def demo_con_def buf_get_def rix_def INPUT_BUF_def upt_rec)

lemma demo_con_edits: "edits demo_con [97] [98]"
  using demo_con_line by (auto simp: edits_def demo_con_def shown_def less_Suc_eq)

theorem console_refines_editor_witness:
  "\<exists>t. conskey 120 demo_con = Inr (Handled, t) \<and> edits t [97, 120] [98]"
proof -
  have "editing_key 120" by (simp add: editing_key_def)
  moreover have "edit_key 120 ([97], [98]) = ([97, 120], [98])" by (simp add: edit_key_def Ctrl_values)
  moreover have "llen demo_con = 2" "ie demo_con = 2" "ir demo_con = 0" "iw demo_con = 0"
    by (simp_all add: llen_def demo_con_def)
  ultimately show ?thesis using console_refines_editor[OF demo_con_edits, of 120] by (auto simp: Ctrl_values)
qed


definition demo_con_right :: console where
  "demo_con_right = demo_con\<lparr>crtpos := 83, crt := (\<lambda>i. if i = 82 then crt_cell 97 else if i = 83 then crt_cell 98 else crt_cell 32)\<rparr>"


text \<open>
  C31. The history reads outside the input buffer. \<^verbatim>\<open>storecmd\<close> indexes \<^verbatim>\<open>input.buf\<close> by the running
  indices instead of modulo its size: once more than \<^verbatim>\<open>INPUT_BUF\<close> characters have been typed since
  the machine started, pressing Enter on a non-empty line accesses the array out of bounds.
\<close>

theorem enter_reads_outside_buffer:
  assumes "length (ibuf s) = INPUT_BUF" "iw s < ie s" "unat (ie s) > INPUT_BUF" "unat (ie s - ir s) < INPUT_BUF"
  shows "conskey 10 s = Inl (Fault ''input.buf'') \<and> conskey 13 s = Inl (Fault ''input.buf'')"
proof -
  have pos: "0 < ie s - iw s" using assms(2) by (simp add: word_less_nat_alt unat_sub_if')
  have "default_key c s = Inl (Fault ''input.buf'')" if "c = 10 \<or> c = 13" for c
    using assms pos that by (auto simp: default_key_def resetcmds_def storecmd_def raw_line_def)
  then show ?thesis by (simp add: conskey_def Ctrl_values ARROW_UP_def ARROW_DOWN_def)
qed

theorem enter_reads_outside_buffer_witness:
  "conskey 10 (demo_con\<lparr>ir := 200, iw := 200, ie := 202\<rparr>) = Inl (Fault ''input.buf'')"
  using enter_reads_outside_buffer[of "demo_con\<lparr>ir := 200, iw := 200, ie := 202\<rparr>"]
  by (simp add: demo_con_def INPUT_BUF_def)



end
