(* ===== verification/Paging.thy ===== *)
theory Paging
  imports Kalloc
begin

text \<open>
  Virtual memory (\<^verbatim>\<open>vm.c\<close>, \<^verbatim>\<open>mmu.h\<close>): two-level page tables kept in memory, their construction,
  growth, copying and destruction. A pointer to a page-table entry is the address of its
  word; address 0 is the null pointer. Loops over a range of pages carry the number of pages
  of the range as fuel, which is enough because every pass moves to a later page.
\<close>

section \<open>Addresses and entries\<close>

definition PDX :: "u32 \<Rightarrow> u32" where "PDX va = drop_bit 22 va AND 0x3FF"

definition PTX :: "u32 \<Rightarrow> u32" where "PTX va = drop_bit 12 va AND 0x3FF"

definition PGADDR :: "u32 \<Rightarrow> u32 \<Rightarrow> u32 \<Rightarrow> u32" where
  "PGADDR d t off = push_bit 22 d OR push_bit 12 t OR off"

definition PTE_P :: u32 where "PTE_P = 1"

definition PTE_W :: u32 where "PTE_W = 2"

definition PTE_U :: u32 where "PTE_U = 4"

definition PTE_ADDR :: "u32 \<Rightarrow> u32" where "PTE_ADDR pte = pte AND NOT 0xFFF"

definition PTE_FLAGS :: "u32 \<Rightarrow> u32" where "PTE_FLAGS pte = pte AND 0xFFF"

definition NPDENTRIES :: nat where "NPDENTRIES = 1024"

definition DEVSPACE :: u32 where "DEVSPACE = 0xFE000000"

definition EXTMEM :: u32 where "EXTMEM = 0x100000"

definition KERNLINK :: u32 where "KERNLINK = KERNBASE + EXTMEM"

definition present :: "u32 \<Rightarrow> bool" where
  "present pte \<longleftrightarrow> pte AND PTE_P \<noteq> 0"

section \<open>Walking and mapping\<close>

definition walkpgdir :: "u32 \<Rightarrow> u32 \<Rightarrow> bool \<Rightarrow> 'a kphys_scheme \<Rightarrow> (u32 \<times> 'a kphys_scheme) kres" where
  "walkpgdir pgdir va alloc s =
     (let pde = pgdir + 4 * PDX va; e = read32 (mem s) pde in
      if present e then Inr (P2V (PTE_ADDR e) + 4 * PTX va, s)
      else if \<not> alloc then Inr (0, s)
      else kbind (kalloc s) (\<lambda>(pgtab, s1).
        if pgtab = 0 then Inr (0, s1)
        else let m1 = memset (mem s1) pgtab 0 PGSIZE;
                 m2 = write32 m1 pde (V2P pgtab OR PTE_P OR PTE_W OR PTE_U)
             in Inr (pgtab + 4 * PTX va, s1\<lparr>mem := m2\<rparr>)))"

fun mappages_loop ::
  "nat \<Rightarrow> u32 \<Rightarrow> u32 \<Rightarrow> u32 \<Rightarrow> u32 \<Rightarrow> u32 \<Rightarrow> 'a kphys_scheme \<Rightarrow> (int \<times> 'a kphys_scheme) kres" where
  "mappages_loop fuel pgdir a lst pa perm s =
     kbind (walkpgdir pgdir a True s) (\<lambda>(pte, s1).
     if pte = 0 then Inr (-1, s1)
     else if present (read32 (mem s1) pte) then Inl (Panic ''remap'')
     else let s2 = s1\<lparr>mem := write32 (mem s1) pte (pa OR perm OR PTE_P)\<rparr> in
       if a = lst then Inr (0, s2)
       else case fuel of 0 \<Rightarrow> Inl (Fault ''mappages'')
            | Suc f \<Rightarrow> mappages_loop f pgdir (a + PGSIZE) lst (pa + PGSIZE) perm s2)"

declare mappages_loop.simps [simp del]

definition mappages ::
  "u32 \<Rightarrow> u32 \<Rightarrow> u32 \<Rightarrow> u32 \<Rightarrow> u32 \<Rightarrow> 'a kphys_scheme \<Rightarrow> (int \<times> 'a kphys_scheme) kres" where
  "mappages pgdir va sz pa perm s =
     (let a = PGROUNDDOWN va; lst = PGROUNDDOWN (va + sz - 1) in
      mappages_loop (unat (lst - a) div 4096) pgdir a lst pa perm s)"

section \<open>Shrinking and freeing\<close>

fun deallocuvm_loop :: "nat \<Rightarrow> u32 \<Rightarrow> u32 \<Rightarrow> u32 \<Rightarrow> 'a kphys_scheme \<Rightarrow> ('a kphys_scheme) kres" where
  "deallocuvm_loop fuel pgdir a oldsz s =
     (if a < oldsz then
        kbind (walkpgdir pgdir a False s) (\<lambda>(pte, s1).
        kbind (if pte = 0 then Inr (PGADDR (PDX a + 1) 0 0 - PGSIZE, s1)
               else if present (read32 (mem s1) pte) then
                 (let pa = PTE_ADDR (read32 (mem s1) pte) in
                  if pa = 0 then Inl (Panic ''kfree'')
                  else kbind (kfree (P2V pa) s1) (\<lambda>s2. Inr (a, s2\<lparr>mem := write32 (mem s2) pte 0\<rparr>)))
               else Inr (a, s1)) (\<lambda>(a1, s3).
        case fuel of 0 \<Rightarrow> Inl (Fault ''deallocuvm'')
        | Suc f \<Rightarrow> deallocuvm_loop f pgdir (a1 + PGSIZE) oldsz s3))
      else Inr s)"

declare deallocuvm_loop.simps [simp del]

definition deallocuvm :: "u32 \<Rightarrow> u32 \<Rightarrow> u32 \<Rightarrow> 'a kphys_scheme \<Rightarrow> (u32 \<times> 'a kphys_scheme) kres" where
  "deallocuvm pgdir oldsz newsz s =
     (if newsz \<ge> oldsz then Inr (oldsz, s)
      else let a = PGROUNDUP newsz in
        kbind (deallocuvm_loop (unat (oldsz - a) div 4096 + 1) pgdir a oldsz s) (\<lambda>s1. Inr (newsz, s1)))"

primrec freevm_loop :: "nat \<Rightarrow> nat \<Rightarrow> u32 \<Rightarrow> 'a kphys_scheme \<Rightarrow> ('a kphys_scheme) kres" where
  "freevm_loop 0 i pgdir s = Inr s"
| "freevm_loop (Suc n) i pgdir s =
     (let e = read32 (mem s) (pgdir + 4 * of_nat i) in
      kbind (if present e then kfree (P2V (PTE_ADDR e)) s else Inr s) (freevm_loop n (i + 1) pgdir))"

definition freevm :: "u32 \<Rightarrow> 'a kphys_scheme \<Rightarrow> ('a kphys_scheme) kres" where
  "freevm pgdir s =
     (if pgdir = 0 then Inl (Panic ''freevm: no pgdir'')
      else kbind (deallocuvm pgdir KERNBASE 0 s) (\<lambda>(_, s1).
           kbind (freevm_loop NPDENTRIES 0 pgdir s1) (kfree pgdir)))"

section \<open>Kernel and user address spaces\<close>

text \<open>\<open>kdata\<close> is the linker's symbol \<^verbatim>\<open>data\<close>, the end of the kernel's read-only part.\<close>

definition kmap :: "u32 \<Rightarrow> (u32 \<times> u32 \<times> u32 \<times> u32) list" where
  "kmap kdata =
     [(KERNBASE, 0, EXTMEM, PTE_W),
      (KERNLINK, V2P KERNLINK, V2P kdata, 0),
      (kdata, V2P kdata, PHYSTOP, PTE_W),
      (DEVSPACE, DEVSPACE, 0, PTE_W)]"

fun setupkvm_loop :: "(u32 \<times> u32 \<times> u32 \<times> u32) list \<Rightarrow> u32 \<Rightarrow> 'a kphys_scheme \<Rightarrow> (u32 \<times> 'a kphys_scheme) kres" where
  "setupkvm_loop [] pgdir s = Inr (pgdir, s)"
| "setupkvm_loop ((virt, phys_start, phys_end, perm) # ks) pgdir s =
     kbind (mappages pgdir virt (phys_end - phys_start) phys_start perm s) (\<lambda>(r, s1).
     if r < 0 then kbind (freevm pgdir s1) (\<lambda>s2. Inr (0, s2))
     else setupkvm_loop ks pgdir s1)"

definition setupkvm :: "u32 \<Rightarrow> 'a kphys_scheme \<Rightarrow> (u32 \<times> 'a kphys_scheme) kres" where
  "setupkvm kdata s =
     kbind (kalloc s) (\<lambda>(pgdir, s1).
     if pgdir = 0 then Inr (0, s1)
     else let s2 = s1\<lparr>mem := memset (mem s1) pgdir 0 PGSIZE\<rparr> in
       if P2V PHYSTOP > DEVSPACE then Inl (Panic ''PHYSTOP too high'')
       else setupkvm_loop (kmap kdata) pgdir s2)"

definition inituvm :: "u32 \<Rightarrow> u32 \<Rightarrow> u32 \<Rightarrow> 'a kphys_scheme \<Rightarrow> ('a kphys_scheme) kres" where
  "inituvm pgdir init sz s =
     (if sz \<ge> PGSIZE then Inl (Panic ''inituvm: more than a page'')
      else kbind (kalloc s) (\<lambda>(v, s1).
        kbind (mappages pgdir 0 PGSIZE (V2P v) (PTE_W OR PTE_U) (s1\<lparr>mem := memset (mem s1) v 0 PGSIZE\<rparr>)) (\<lambda>(_, s2).
        Inr (s2\<lparr>mem := memmove (mem s2) v init sz\<rparr>))))"

fun allocuvm_loop :: "nat \<Rightarrow> u32 \<Rightarrow> u32 \<Rightarrow> u32 \<Rightarrow> u32 \<Rightarrow> 'a kphys_scheme \<Rightarrow> (u32 \<times> 'a kphys_scheme) kres" where
  "allocuvm_loop fuel pgdir a oldsz newsz s =
     (if a < newsz then
        kbind (kalloc s) (\<lambda>(v, s1).
        if v = 0 then
          kbind (cprintf (''allocuvm out of memory'' @ [CHR 0x0A]) [] s1) (\<lambda>s2.
          kbind (deallocuvm pgdir newsz oldsz s2) (\<lambda>(_, s3). Inr (0, s3)))
        else
          kbind (mappages pgdir a PGSIZE (V2P v) (PTE_W OR PTE_U) (s1\<lparr>mem := memset (mem s1) v 0 PGSIZE\<rparr>)) (\<lambda>(r, s2).
          if r < 0 then
            kbind (cprintf (''allocuvm out of memory (2)'' @ [CHR 0x0A]) [] s2) (\<lambda>s3.
            kbind (deallocuvm pgdir newsz oldsz s3) (\<lambda>(_, s4).
            kbind (kfree v s4) (\<lambda>s5. Inr (0, s5))))
          else case fuel of 0 \<Rightarrow> Inl (Fault ''allocuvm'')
               | Suc f \<Rightarrow> allocuvm_loop f pgdir (a + PGSIZE) oldsz newsz s2))
      else Inr (newsz, s))"

declare allocuvm_loop.simps [simp del]

definition allocuvm :: "u32 \<Rightarrow> u32 \<Rightarrow> u32 \<Rightarrow> 'a kphys_scheme \<Rightarrow> (u32 \<times> 'a kphys_scheme) kres" where
  "allocuvm pgdir oldsz newsz s =
     (if newsz \<ge> KERNBASE then Inr (0, s)
      else if newsz < oldsz then Inr (oldsz, s)
      else let a = PGROUNDUP oldsz in
        allocuvm_loop (unat (newsz - a) div 4096 + 1) pgdir a oldsz newsz s)"

definition clearpteu :: "u32 \<Rightarrow> u32 \<Rightarrow> 'a kphys_scheme \<Rightarrow> ('a kphys_scheme) kres" where
  "clearpteu pgdir uva s =
     kbind (walkpgdir pgdir uva False s) (\<lambda>(pte, s1).
     if pte = 0 then Inl (Panic ''clearpteu'')
     else Inr (s1\<lparr>mem := write32 (mem s1) pte (read32 (mem s1) pte AND NOT PTE_U)\<rparr>))"

fun copyuvm_loop :: "nat \<Rightarrow> u32 \<Rightarrow> u32 \<Rightarrow> u32 \<Rightarrow> u32 \<Rightarrow> 'a kphys_scheme \<Rightarrow> (u32 \<times> 'a kphys_scheme) kres" where
  "copyuvm_loop fuel pgdir d i sz s =
     (if i < sz then
        kbind (walkpgdir pgdir i False s) (\<lambda>(pte, s1).
        if pte = 0 then Inl (Panic ''copyuvm: pte should exist'')
        else let e = read32 (mem s1) pte in
          if \<not> present e then Inl (Panic ''copyuvm: page not present'')
          else
            kbind (kalloc s1) (\<lambda>(v, s2).
            if v = 0 then kbind (freevm d s2) (\<lambda>s3. Inr (0, s3))
            else
              kbind (mappages d i PGSIZE (V2P v) (PTE_FLAGS e)
                       (s2\<lparr>mem := memmove (mem s2) v (P2V (PTE_ADDR e)) PGSIZE\<rparr>)) (\<lambda>(r, s3).
              if r < 0 then
                kbind (kfree v s3) (\<lambda>s4. kbind (freevm d s4) (\<lambda>s5. Inr (0, s5)))
              else case fuel of 0 \<Rightarrow> Inl (Fault ''copyuvm'')
                   | Suc f \<Rightarrow> copyuvm_loop f pgdir d (i + PGSIZE) sz s3)))
      else Inr (d, s))"

declare copyuvm_loop.simps [simp del]

definition copyuvm :: "u32 \<Rightarrow> u32 \<Rightarrow> u32 \<Rightarrow> 'a kphys_scheme \<Rightarrow> (u32 \<times> 'a kphys_scheme) kres" where
  "copyuvm kdata pgdir sz s =
     kbind (setupkvm kdata s) (\<lambda>(d, s1).
     if d = 0 then Inr (0, s1)
     else copyuvm_loop (unat sz div 4096 + 1) pgdir d 0 sz s1)"

text \<open>\<^verbatim>\<open>uva2ka\<close> does not look whether there is an entry at all.\<close>

definition uva2ka :: "u32 \<Rightarrow> u32 \<Rightarrow> 'a kphys_scheme \<Rightarrow> (u32 \<times> 'a kphys_scheme) kres" where
  "uva2ka pgdir uva s =
     kbind (walkpgdir pgdir uva False s) (\<lambda>(pte, s1).
     if pte = 0 then Inl (Fault ''null pte'')
     else let e = read32 (mem s1) pte in
       if e AND PTE_P = 0 then Inr (0, s1)
       else if e AND PTE_U = 0 then Inr (0, s1)
       else Inr (P2V (PTE_ADDR e), s1))"

text \<open>
  The bytes to copy are passed as a list: at some calls they are in the kernel's memory, at others
  in the memory of the calling process.
\<close>

primrec store_bytes :: "bytes \<Rightarrow> u32 \<Rightarrow> u8 list \<Rightarrow> bytes" where
  "store_bytes m a [] = m"
| "store_bytes m a (c # cs) = store_bytes (m(a := c)) (a + 1) cs"

fun copyout_loop :: "nat \<Rightarrow> u32 \<Rightarrow> u32 \<Rightarrow> u8 list \<Rightarrow> 'a kphys_scheme \<Rightarrow> (int \<times> 'a kphys_scheme) kres" where
  "copyout_loop fuel pgdir va cs s =
     (if cs \<noteq> [] then
        (let va0 = PGROUNDDOWN va in
         kbind (uva2ka pgdir va0 s) (\<lambda>(pa0, s1).
         if pa0 = 0 then Inr (-1, s1)
         else let n = min (unat (PGSIZE - (va - va0))) (length cs) in
           case fuel of 0 \<Rightarrow> Inl (Fault ''copyout'')
           | Suc f \<Rightarrow> copyout_loop f pgdir (va0 + PGSIZE) (drop n cs)
                        (s1\<lparr>mem := store_bytes (mem s1) (pa0 + (va - va0)) (take n cs)\<rparr>)))
      else Inr (0, s))"

declare copyout_loop.simps [simp del]

text \<open>Every pass copies at least one byte.\<close>

definition copyout :: "u32 \<Rightarrow> u32 \<Rightarrow> u8 list \<Rightarrow> 'a kphys_scheme \<Rightarrow> (int \<times> 'a kphys_scheme) kres" where
  "copyout pgdir va cs s = copyout_loop (length cs) pgdir va cs s"

end
