(* ===== verification/AddressSpace.thy ===== *)
theory AddressSpace
  imports Paging
begin

text \<open>
  What the page tables in memory mean. \<open>lookup\<close> is the translation the hardware performs;
  \<open>space\<close> is the invariant of an address space whose table pages are apart from each other
  and from the free pages. Mapping a page changes the translation of that page only, and
  copying an address space gives the child the same contents in pages of its own.
\<close>

section \<open>Bits of addresses and entries\<close>

lemma present_bit: "present e \<longleftrightarrow> bit e 0"
proof -
  have "e AND PTE_P = (if bit e 0 then 1 else 0)"
    by (rule bit_word_eqI) (auto simp: PTE_P_def bit_and_iff bit_1_iff, metis gr0I)
  then show ?thesis by (simp add: present_def)
qed

lemma present_or [simp]: "present (a OR b OR PTE_P)" "present (a OR PTE_P OR b)"
  by (simp_all add: present_bit PTE_P_def bit_or_iff)

lemma not_present_0 [simp]: "\<not> present 0"
  by (simp add: present_def)

lemma unat_PDX: "unat (PDX va) = unat va div 2 ^ 22"
proof -
  have "(0x3FF :: u32) = mask 10" by (simp add: mask_eq_exp_minus_1)
  then have "PDX va = take_bit 10 (drop_bit 22 va)" by (simp only: PDX_def take_bit_eq_mask)
  then have "unat (PDX va) = unat va div 2 ^ 22 mod 2 ^ 10"
    using unat32_bound[of va]
    by (simp only: unsigned_take_bit_eq unsigned_drop_bit_eq)
       (simp add: take_bit_eq_mod drop_bit_eq_div less_mult_imp_div_less)
  also have "\<dots> = unat va div 2 ^ 22" using unat32_bound[of va] by (intro mod_less) (simp add: less_mult_imp_div_less)
  finally show ?thesis .
qed

lemma unat_PTX: "unat (PTX va) = unat va div 4096 mod 1024"
proof -
  have "(0x3FF :: u32) = mask 10" by (simp add: mask_eq_exp_minus_1)
  then have "PTX va = take_bit 10 (drop_bit 12 va)" by (simp only: PTX_def take_bit_eq_mask)
  then show ?thesis
    using unat32_bound[of va]
    by (simp only: unsigned_take_bit_eq unsigned_drop_bit_eq)
       (simp add: take_bit_eq_mod drop_bit_eq_div)
qed

lemma PDX_bound: "unat (PDX va) < 1024"
  using unat32_bound[of va] by (simp add: unat_PDX less_mult_imp_div_less)

lemma PTX_bound: "unat (PTX va) < 1024"
  by (simp add: unat_PTX)

lemma same_page: "PDX va = PDX vb \<and> PTX va = PTX vb \<longleftrightarrow> PGROUNDDOWN va = PGROUNDDOWN vb"
proof -
  have "x div 2 ^ 22 = y div 2 ^ 22 \<and> x div 4096 mod 1024 = y div 4096 mod 1024 \<longleftrightarrow> x div 4096 = y div 4096"
    for x y :: nat
  proof -
    have d: "z div 2 ^ 22 = z div 4096 div 1024" for z :: nat by (simp add: div_mult2_eq[symmetric])
    show ?thesis unfolding d by (metis div_mult_mod_eq)
  qed
  then show ?thesis
    by (simp add: word_unat_eq_iff unat_PDX unat_PTX unat_PGROUNDDOWN del: power_numeral)
qed

lemma PTE_ADDR_shift: "PTE_ADDR e = push_bit 12 (drop_bit 12 e)"
  by (simp only: PTE_ADDR_def and_not_4095)

lemma aligned_bits: "4096 dvd unat (x :: u32) \<Longrightarrow> n < 12 \<Longrightarrow> \<not> bit x n"
proof -
  assume a: "4096 dvd unat x" "n < 12"
  have "PGROUNDDOWN x = x" using a by (simp add: word_unat_eq_iff unat_PGROUNDDOWN)
  then have "x = push_bit 12 (drop_bit 12 x)" by (simp add: PGROUNDDOWN_shift)
  then have "bit x n = bit (push_bit 12 (drop_bit 12 x)) n" by simp
  then show "\<not> bit x n" using a by (simp add: bit_push_bit_iff)
qed

lemma PTE_ADDR_flags:
  assumes "4096 dvd unat x" "\<And>n. 12 \<le> n \<Longrightarrow> \<not> bit f n"
  shows "PTE_ADDR (x OR f) = x"
proof (rule bit_word_eqI)
  fix n
  assume "n < LENGTH(32)"
  then show "bit (PTE_ADDR (x OR f)) n \<longleftrightarrow> bit x n"
    using assms(2)[of n] aligned_bits[OF assms(1), of n] unfolding PTE_ADDR_shift
    by (cases "n < 12") (auto simp: bit_push_bit_iff bit_drop_bit_eq bit_or_iff)
qed

lemma PTE_ADDR_table:
  assumes "4096 dvd unat x"
  shows "PTE_ADDR (x OR PTE_P OR PTE_W OR PTE_U) = x"
proof -
  have f: "PTE_P OR PTE_W OR PTE_U = 7" by (simp add: PTE_P_def PTE_W_def PTE_U_def)
  have "(7 :: u32) = mask 3" by (simp add: mask_eq_exp_minus_1)
  then have "\<not> bit (7 :: u32) n" if "12 \<le> n" for n using that by (simp only: bit_mask_iff) simp
  then show ?thesis using PTE_ADDR_flags[OF assms, of 7] by (simp add: f)
qed

lemma unat_entry:
  fixes p i :: u32
  assumes "4096 dvd unat p" "unat i < 1024"
  shows "unat (p + 4 * i) = unat p + 4 * unat i"
proof -
  have "unat p + 4 * unat i < 2 ^ 32" using assms unat32_bound[of p] by (auto elim!: dvdE)
  moreover have "unat (4 * i) = 4 * unat i" using assms(2) by (simp add: unat_word_ariths)
  ultimately show ?thesis by (simp add: unat_word_ariths)
qed

lemma entry_page:
  fixes p i :: u32
  assumes "4096 dvd unat p" "unat i < 1024"
  shows "PGROUNDDOWN (p + 4 * i) = p"
  using assms by (auto simp: word_unat_eq_iff unat_PGROUNDDOWN unat_entry elim!: dvdE)

lemma entry_aligned:
  fixes p i :: u32
  assumes "4096 dvd unat p" "unat i < 1024"
  shows "4 dvd unat (p + 4 * i)"
  using assms dvd_trans[of 4 4096 "unat p"] by (simp add: unat_entry)

lemma entry_eq:
  fixes p q i j :: u32
  assumes "4096 dvd unat p" "unat i < 1024" "4096 dvd unat q" "unat j < 1024"
  shows "p + 4 * i = q + 4 * j \<longleftrightarrow> p = q \<and> i = j"
proof
  assume e: "p + 4 * i = q + 4 * j"
  then have "p = q" using entry_page[OF assms(1,2)] entry_page[OF assms(3,4)] by simp
  then show "p = q \<and> i = j"
    using e unat_entry[OF assms(1,2)] unat_entry[OF assms(3,4)] by (simp add: word_unat_eq_iff)
qed simp

section \<open>Memory outside a set of pages\<close>

definition same_outside :: "u32 set \<Rightarrow> bytes \<Rightarrow> bytes \<Rightarrow> bool" where
  "same_outside S m m' \<longleftrightarrow> (\<forall>a. PGROUNDDOWN a \<notin> S \<longrightarrow> m' a = m a)"

lemma same_outside_refl [simp]: "same_outside S m m"
  by (simp add: same_outside_def)

lemma same_outside_trans: "same_outside S m m' \<Longrightarrow> same_outside T m' m'' \<Longrightarrow> same_outside (S \<union> T) m m''"
  by (simp add: same_outside_def)

lemma same_outside_mono: "same_outside S m m' \<Longrightarrow> S \<subseteq> T \<Longrightarrow> same_outside T m m'"
  by (auto simp: same_outside_def)

lemma page_offset:
  fixes p i :: u32
  assumes "4096 dvd unat p" "unat i < 4096"
  shows "unat (p + i) = unat p + unat i" "PGROUNDDOWN (p + i) = p"
proof -
  have "unat p + unat i < 2 ^ 32" using assms unat32_bound[of p] by (auto elim!: dvdE)
  then show u: "unat (p + i) = unat p + unat i" by (simp add: unat_word_ariths)
  show "PGROUNDDOWN (p + i) = p"
    using assms by (auto simp: word_unat_eq_iff unat_PGROUNDDOWN u elim!: dvdE)
qed

lemma in_page:
  assumes "4096 dvd unat p"
  shows "unat (a - p) < 4096 \<longleftrightarrow> PGROUNDDOWN a = p"
proof
  assume "unat (a - p) < 4096"
  then show "PGROUNDDOWN a = p" using page_offset(2)[OF assms, of "a - p"] by simp
next
  assume p: "PGROUNDDOWN a = p"
  then have "unat p = unat a div 4096 * 4096" by (simp add: unat_PGROUNDDOWN flip: p)
  then have "unat p \<le> unat a \<and> unat a - unat p < 4096"
    by (simp add: minus_div_mult_eq_mod)
  then show "unat (a - p) < 4096" by (simp add: unat_sub_if')
qed

lemma word_same_page:
  fixes a i :: u32
  assumes "4 dvd unat a" "unat i < 4"
  shows "PGROUNDDOWN (a + i) = PGROUNDDOWN a"
proof -
  let ?p = "PGROUNDDOWN a"
  have "4096 dvd unat ?p" by (simp add: unat_PGROUNDDOWN)
  have "unat (a - ?p) < 4096" using in_page[OF \<open>4096 dvd unat ?p\<close>] by simp
  moreover have "4 dvd unat (a - ?p)"
  proof -
    have "unat (a - ?p) = unat a mod 4096"
      by (simp add: unat_sub_if' unat_PGROUNDDOWN minus_div_mult_eq_mod)
    then show ?thesis using assms(1) by (simp add: dvd_mod)
  qed
  ultimately have "unat (a - ?p) + 4 \<le> 4096" by (auto elim!: dvdE)
  then have "unat (a - ?p + i) < 4096" using assms(2) by (simp add: unat_word_ariths)
  then show ?thesis using in_page[OF \<open>4096 dvd unat ?p\<close>, of "a + i"] by (simp add: algebra_simps)
qed

lemma read32_same_outside:
  assumes "same_outside S m m'" "4 dvd unat a" "PGROUNDDOWN a \<notin> S"
  shows "read32 m' a = read32 m a"
proof (rule read32_cong)
  fix i :: u32
  assume "unat i < 4"
  then show "m' (a + i) = m (a + i)"
    using assms word_same_page[OF assms(2)] by (simp add: same_outside_def)
qed

lemma write32_same_outside:
  assumes "4 dvd unat a"
  shows "same_outside {PGROUNDDOWN a} m (write32 m a v)"
  unfolding same_outside_def
proof (intro allI impI)
  fix x
  assume x: "PGROUNDDOWN x \<notin> {PGROUNDDOWN a}"
  then show "write32 m a v x = m x" using word_same_page[OF assms] by (intro write32_other) auto
qed

lemma fill_same_outside: "4096 dvd unat p \<Longrightarrow> same_outside {p} m (fill m p v 4096)"
  by (auto simp: same_outside_def fill_def in_page)


section \<open>Translation\<close>

definition tab :: "bytes \<Rightarrow> u32 \<Rightarrow> u32 \<Rightarrow> u32 option" where
  "tab m d i = (let e = read32 m (d + 4 * i) in if present e then Some (P2V (PTE_ADDR e)) else None)"

definition lookup :: "bytes \<Rightarrow> u32 \<Rightarrow> u32 \<Rightarrow> u32 option" where
  "lookup m d va =
     (case tab m d (PDX va) of None \<Rightarrow> None
      | Some t \<Rightarrow> (let e = read32 m (t + 4 * PTX va) in if present e then Some e else None))"

definition tables :: "bytes \<Rightarrow> u32 \<Rightarrow> u32 set" where
  "tables m d = {t. \<exists>i. unat i < 1024 \<and> tab m d i = Some t}"

definition space :: "u32 \<Rightarrow> bytes \<Rightarrow> u32 \<Rightarrow> bool" where
  "space e m d \<longleftrightarrow> page_ok e d \<and> (\<forall>t \<in> tables m d. page_ok e t \<and> t \<noteq> d) \<and>
     (\<forall>i j t. unat i < 1024 \<and> unat j < 1024 \<and> tab m d i = Some t \<and> tab m d j = Some t \<longrightarrow> i = j)"

definition own_pages :: "bytes \<Rightarrow> u32 \<Rightarrow> u32 set" where
  "own_pages m d = insert d (tables m d)"

lemma tab_cong:
  assumes "same_outside S m m'" "4096 dvd unat d" "d \<notin> S" "unat i < 1024"
  shows "tab m' d i = tab m d i"
  using read32_same_outside[OF assms(1) entry_aligned[OF assms(2,4)]] entry_page[OF assms(2,4)] assms(3)
  by (simp add: tab_def)

lemma tables_cong:
  assumes "same_outside S m m'" "4096 dvd unat d" "d \<notin> S"
  shows "tables m' d = tables m d"
  using tab_cong[OF assms] by (auto simp: tables_def)

lemma space_cong:
  assumes "same_outside S m m'" "space e m d" "d \<notin> S"
  shows "space e m' d"
proof -
  have d: "4096 dvd unat d" using assms(2) page_aligned by (auto simp: space_def)
  show ?thesis
    using assms(2) tab_cong[OF assms(1) d assms(3)] tables_cong[OF assms(1) d assms(3)]
    unfolding space_def by (metis (no_types, lifting))
qed

lemma lookup_cong:
  assumes "same_outside S m m'" "space e m d" "own_pages m d \<inter> S = {}"
  shows "lookup m' d va = lookup m d va"
proof -
  have d: "4096 dvd unat d" "d \<notin> S" using assms page_aligned by (auto simp: space_def own_pages_def)
  note t = tab_cong[OF assms(1) d PDX_bound[of va]]
  show ?thesis
  proof (cases "tab m d (PDX va)")
    case (Some u)
    then have u: "u \<in> tables m d" using PDX_bound[of va] by (auto simp: tables_def)
    then have a: "4096 dvd unat u" "u \<notin> S" using assms page_aligned by (auto simp: space_def own_pages_def)
    have "read32 m' (u + 4 * PTX va) = read32 m (u + 4 * PTX va)"
      using a entry_page[OF a(1) PTX_bound]
      by (intro read32_same_outside[OF assms(1)] entry_aligned) (simp_all add: PTX_bound)
    then show ?thesis using Some by (simp add: lookup_def t)
  qed (simp add: lookup_def t)
qed

text \<open>Writing an entry of an existing table changes the translation of its page only.\<close>

lemma set_entry:
  fixes x :: u32
  assumes "space e m d" "tab m d (PDX va) = Some t"
  defines "m' \<equiv> write32 m (t + 4 * PTX va) x"
  shows "same_outside {t} m m'" "space e m' d" "tables m' d = tables m d"
    "lookup m' d vb = (if PGROUNDDOWN vb = PGROUNDDOWN va then if present x then Some x else None else lookup m d vb)"
proof -
  have t: "t \<in> tables m d" using assms(2) PDX_bound[of va] by (auto simp: tables_def)
  have al: "4096 dvd unat t" "4096 dvd unat d" "t \<noteq> d"
    using t assms(1) page_aligned by (auto simp: space_def)
  show so: "same_outside {t} m m'"
    using write32_same_outside[OF entry_aligned[OF al(1) PTX_bound[of va]]] entry_page[OF al(1) PTX_bound]
    by (simp add: m'_def)
  have d: "d \<notin> {t}" using al by simp
  show "space e m' d" using space_cong[OF so assms(1) d] .
  show "tables m' d = tables m d" using tables_cong[OF so al(2) d] .
  note tb = tab_cong[OF so al(2) d PDX_bound[of vb]]
  show "lookup m' d vb = (if PGROUNDDOWN vb = PGROUNDDOWN va then if present x then Some x else None else lookup m d vb)"
  proof (cases "tab m d (PDX vb)")
    case None
    then have "PDX vb \<noteq> PDX va" using assms(2) by auto
    then have "PGROUNDDOWN vb \<noteq> PGROUNDDOWN va" using same_page by blast
    then show ?thesis using None by (simp add: lookup_def tb)
  next
    case (Some u)
    then have u: "4096 dvd unat u"
      using assms(1) PDX_bound[of vb] page_aligned by (auto simp: space_def tables_def)
    have eq: "u = t \<longleftrightarrow> PDX vb = PDX va"
      using assms(1,2) Some PDX_bound unfolding space_def by (metis option.inject)
    note ent = entry_eq[OF u PTX_bound[of vb] al(1) PTX_bound[of va]]
    have "read32 m' (u + 4 * PTX vb) = (if PGROUNDDOWN vb = PGROUNDDOWN va then x else read32 m (u + 4 * PTX vb))"
      using ent eq same_page[of vb va] read32_write32_other
        entry_aligned[OF u PTX_bound[of vb]] entry_aligned[OF al(1) PTX_bound[of va]]
      by (auto simp: m'_def)
    then show ?thesis using Some by (simp add: lookup_def tb)
  qed
qed

text \<open>A new, zeroed table changes no translation.\<close>

lemma new_table:
  assumes "space e m d" "tab m d (PDX va) = None" "page_ok e p" "p \<notin> own_pages m d"
  defines "m' \<equiv> write32 (fill m p 0 4096) (d + 4 * PDX va) (V2P p OR PTE_P OR PTE_W OR PTE_U)"
  shows "same_outside {p, d} m m'" "space e m' d" "tables m' d = insert p (tables m d)"
    "tab m' d (PDX va) = Some p" "lookup m' d vb = lookup m d vb"
proof -
  have al: "4096 dvd unat p" "4096 dvd unat d" "p \<noteq> d"
    using assms(1,3,4) page_aligned by (auto simp: space_def own_pages_def)
  have eal: "4 dvd unat (d + 4 * i)" if "unat i < 1024" for i using entry_aligned[OF al(2) that] .
  have so1: "same_outside {p} m (fill m p 0 4096)" by (rule fill_same_outside[OF al(1)])
  have so2: "same_outside {d} (fill m p 0 4096) m'"
    using write32_same_outside[OF eal[OF PDX_bound[of va]]] entry_page[OF al(2) PDX_bound]
    by (simp add: m'_def)
  from same_outside_trans[OF so1 so2] show so: "same_outside {p, d} m m'" by (simp add: insert_commute)
  have vp: "4096 dvd unat (V2P p)"
    using al(1) by (simp add: V2P_def KERNBASE_def unat_sub_if')
  have tb: "tab m' d i = (if i = PDX va then Some p else tab m d i)" if "unat i < 1024" for i
  proof (cases "i = PDX va")
    case True
    then show ?thesis using vp by (simp add: m'_def tab_def PTE_ADDR_table P2V_def V2P_def Let_def)
  next
    case False
    then have "d + 4 * i \<noteq> d + 4 * PDX va" using entry_eq[OF al(2) that al(2) PDX_bound] by simp
    then have "read32 m' (d + 4 * i) = read32 (fill m p 0 4096) (d + 4 * i)"
      unfolding m'_def using eal that PDX_bound by (intro read32_write32_other) auto
    also have "\<dots> = read32 m (d + 4 * i)"
      using entry_page[OF al(2) that] al(3) that by (intro read32_same_outside[OF so1] eal) auto
    finally show ?thesis using False by (simp add: tab_def)
  qed
  show ts: "tables m' d = insert p (tables m d)"
    using tb assms(2) PDX_bound[of va] unfolding tables_def by (auto split: if_splits) (metis option.distinct(1))
  show "tab m' d (PDX va) = Some p" using tb PDX_bound by simp
  have p: "tab m d i \<noteq> Some p" if "unat i < 1024" for i
    using assms(4) that by (auto simp: own_pages_def tables_def)
  show "space e m' d"
    using assms(1,3) al(3) tb p unfolding space_def ts by (auto split: if_splits)
  show "lookup m' d vb = lookup m d vb"
  proof (cases "PDX vb = PDX va")
    case True
    have "read32 m' (p + 4 * PTX vb) = read32 (fill m p 0 4096) (p + 4 * PTX vb)"
      using entry_page[OF al(1) PTX_bound] al(3)
      by (intro read32_same_outside[OF so2] entry_aligned[OF al(1) PTX_bound]) simp
    also have "\<dots> = read32 (\<lambda>_. 0) (p + 4 * PTX vb)"
      using word_same_page[OF entry_aligned[OF al(1) PTX_bound]] entry_page[OF al(1) PTX_bound]
      by (intro read32_cong) (simp add: fill_def in_page[OF al(1)])
    finally show ?thesis
      using True assms(2) tb[OF PDX_bound[of vb]] by (simp add: lookup_def read32_def)
  next
    case False
    then have t: "tab m' d (PDX vb) = tab m d (PDX vb)" using tb PDX_bound by simp
    have "read32 m' (u + 4 * PTX vb) = read32 m (u + 4 * PTX vb)" if "tab m d (PDX vb) = Some u" for u
    proof -
      have "u \<in> tables m d" using that PDX_bound[of vb] by (auto simp: tables_def)
      then have u: "4096 dvd unat u" "u \<notin> {p, d}"
        using assms(1,4) page_aligned by (auto simp: space_def own_pages_def)
      then show ?thesis
        using entry_page[OF u(1) PTX_bound] by (intro read32_same_outside[OF so] entry_aligned[OF u(1) PTX_bound]) simp
    qed
    then show ?thesis by (cases "tab m d (PDX vb)") (simp_all add: lookup_def t)
  qed
qed

lemma entry_indices: "finite {i :: u32. unat i < 1024}" "card {i :: u32. unat i < 1024} \<le> 1024"
proof -
  have "{i :: u32. unat i < 1024} = of_nat ` {..<1024}"
  proof (intro equalityI subsetI)
    fix i :: u32 assume "i \<in> {i. unat i < 1024}"
    then show "i \<in> of_nat ` {..<1024}" by (intro image_eqI[of _ _ "unat i"]) auto
  qed (auto simp: unat32_of_nat)
  then show "finite {i :: u32. unat i < 1024}" "card {i :: u32. unat i < 1024} \<le> 1024"
    using card_image_le[of "{..<1024 :: nat}" "of_nat :: nat \<Rightarrow> u32"] by simp_all
qed

lemma tables_image: "tables m d \<subseteq> (\<lambda>i. the (tab m d i)) ` {i. unat i < 1024 \<and> tab m d i \<noteq> None}"
  unfolding tables_def by (auto intro: rev_image_eqI)

lemma finite_tables: "finite (tables m d)"
  using finite_subset[OF tables_image] entry_indices(1) by simp

lemma card_tables_less:
  assumes "unat i < 1024" "tab m d i = None"
  shows "card (tables m d) < 1024"
proof -
  let ?I = "{i :: u32. unat i < 1024}" and ?J = "{i. unat i < 1024 \<and> tab m d i \<noteq> None}"
  have "i \<in> ?I" "i \<notin> ?J" using assms by simp_all
  then have "?J \<subset> ?I" by blast
  from psubset_card_mono[OF entry_indices(1) this] have "card ?J < 1024" using entry_indices(2) by simp
  moreover have "finite ?J" using entry_indices(1) by simp
  ultimately show ?thesis
    using card_mono[OF _ tables_image[of m d]] card_image_le[of ?J "\<lambda>i. the (tab m d i)"] by simp
qed

text \<open>An address space next to the free pages \<open>fs\<close>.\<close>

definition vspace :: "'a kphys_scheme \<Rightarrow> u32 list \<Rightarrow> u32 \<Rightarrow> bool" where
  "vspace s fs d \<longleftrightarrow> kmem_inv s fs \<and> space (kend s) (mem s) d \<and> own_pages (mem s) d \<inter> set fs = {}"

lemma kmem_inv_cong:
  assumes "kmem_inv s fs" "same_outside S (mem s) (mem t)" "S \<inter> set fs = {}"
    "freelist t = freelist s" "kend t = kend s"
  shows "kmem_inv t fs"
proof -
  have al: "PGROUNDDOWN p = p" if "p \<in> set fs" for p
    using that assms(1) page_aligned[of "kend s" p]
    by (auto simp: kmem_inv_def word_unat_eq_iff unat_PGROUNDDOWN)
  have "run_list (mem t) h fs = run_list (mem s) h fs" for h
    using assms(1,3) al page_aligned4
    by (intro run_list_cong read32_same_outside[OF assms(2)]) (auto simp: kmem_inv_def)
  then show ?thesis using assms by (simp add: kmem_inv_def)
qed

lemma kmem_ready_step [simp]: "kmem_ready c s \<Longrightarrow> kmem_ready c (kmem_step c m h s)"
  using kmem_ready_core[OF core_kmem_step] by blast

text \<open>The allocator and the page tables leave alone what the components above add to the state.\<close>

definition same_rest :: "'a kphys_scheme \<Rightarrow> 'a kphys_scheme \<Rightarrow> bool" where
  "same_rest s t \<longleftrightarrow> core t = core s \<and> kphys.more t = kphys.more s"

lemma same_rest_step [simp]: "kmem_ready c s \<Longrightarrow> same_rest s (kmem_step c m h s)"
  unfolding same_rest_def using core_kmem_step[of c s m h]
  by (simp add: kmem_step_def acquired_def released_def)

lemma same_rest_simps [simp]:
  "same_rest s s" "same_rest s (t\<lparr>mem := m\<rparr>) = same_rest s t" "same_rest (s\<lparr>mem := m\<rparr>) t = same_rest s t"
  by (simp_all add: same_rest_def)

lemma same_rest_trans: "same_rest s t \<Longrightarrow> same_rest t u \<Longrightarrow> same_rest s u"
  by (simp add: same_rest_def)

lemma kmem_ready_rest: "same_rest s t \<Longrightarrow> kmem_ready c t = kmem_ready c s"
  using kmem_ready_core by (auto simp: same_rest_def)

lemma kalloc_step:
  assumes "kmem_ready c s" "kmem_inv s (p # fs)"
  obtains t where "kalloc s = Inr (p, t)" "kmem_inv t fs" "same_rest s t" "mem t = mem s" "kend t = kend s"
    "kmem_ready c t"
  using assms page_nonzero by (auto simp: kalloc_ok kmem_inv_def)

lemma kalloc_none:
  assumes "kmem_ready c s" "kmem_inv s []"
  obtains t where "kalloc s = Inr (0, t)" "kmem_inv t []" "same_rest s t" "mem t = mem s" "kend t = kend s"
    "kmem_ready c t"
  using assms by (auto simp: kalloc_ok kmem_inv_def)

section \<open>Walking\<close>

lemma walk_present:
  "tab (mem s) d (PDX va) = Some t \<Longrightarrow> walkpgdir d va al s = Inr (t + 4 * PTX va, s)"
  by (auto simp: walkpgdir_def tab_def Let_def split: if_splits)

lemma walk_absent:
  "tab (mem s) d (PDX va) = None \<Longrightarrow> walkpgdir d va False s = Inr (0, s)"
  by (auto simp: walkpgdir_def tab_def Let_def split: if_splits)

lemma walk_nomem:
  assumes "tab (mem s) d (PDX va) = None" "kmem_ready c s" "kmem_inv s []"
  obtains t where "walkpgdir d va True s = Inr (0, t)" "kmem_inv t []" "same_rest s t" "mem t = mem s" "kend t = kend s"
proof -
  from kalloc_none[OF assms(2,3)] obtain t where
    t: "kalloc s = Inr (0, t)" "kmem_inv t []" "same_rest s t" "mem t = mem s" "kend t = kend s" .
  moreover have "walkpgdir d va True s = Inr (0, t)"
    using assms(1) t(1) by (simp add: walkpgdir_def tab_def Let_def split: if_splits)
  ultimately show ?thesis by (intro that[of t])
qed

lemma walk_new:
  assumes "tab (mem s) d (PDX va) = None" "kmem_ready c s" "vspace s (p # fs) d"
  obtains t where "walkpgdir d va True s = Inr (p + 4 * PTX va, t)" "same_rest s t" "kend t = kend s"
    "vspace t fs d" "tab (mem t) d (PDX va) = Some p" "lookup (mem t) d = lookup (mem s) d"
    "tables (mem t) d = insert p (tables (mem s) d)" "same_outside {p, d} (mem s) (mem t)"
proof -
  have v: "kmem_inv s (p # fs)" "space (kend s) (mem s) d" "p \<notin> own_pages (mem s) d" "own_pages (mem s) d \<inter> set fs = {}"
    "page_ok (kend s) p" "p \<notin> set fs"
    using assms(3) by (auto simp: vspace_def kmem_inv_def)
  note nt = new_table[OF v(2) assms(1) v(5,3)]
  from kalloc_step[OF assms(2) v(1)] obtain u where
    u: "kalloc s = Inr (p, u)" "kmem_inv u fs" "same_rest s u" "mem u = mem s" "kend u = kend s" .
  define t where "t = u\<lparr>mem := write32 (fill (mem s) p 0 4096) (d + 4 * PDX va) (V2P p OR PTE_P OR PTE_W OR PTE_U)\<rparr>"
  have "walkpgdir d va True s = Inr (p + 4 * PTX va, t)"
    using assms(1) u(1,4) page_nonzero[OF v(5)]
    by (simp add: walkpgdir_def tab_def t_def Let_def memset_fill PGSIZE_def split: if_splits)
  moreover have "kmem_inv t fs"
    using nt(1) v(4,6) u(4) by (intro kmem_inv_cong[OF u(2), of "{p, d}"]) (auto simp: t_def own_pages_def)
  ultimately show ?thesis
    using nt u(3,5) v(4,6) by (intro that[of t]) (auto simp: t_def vspace_def own_pages_def)
qed

section \<open>Mapping\<close>

text \<open>One pass of the loop of \<^verbatim>\<open>mappages\<close>.\<close>

definition map_one :: "u32 \<Rightarrow> u32 \<Rightarrow> u32 \<Rightarrow> u32 \<Rightarrow> 'a kphys_scheme \<Rightarrow> (int \<times> 'a kphys_scheme) kres" where
  "map_one d a pa perm s =
     kbind (walkpgdir d a True s) (\<lambda>(pte, s1).
     if pte = 0 then Inr (-1, s1)
     else if present (read32 (mem s1) pte) then Inl (Panic ''remap'')
     else Inr (0, s1\<lparr>mem := write32 (mem s1) pte (pa OR perm OR PTE_P)\<rparr>))"

lemma mappages_loop_step:
  "mappages_loop fuel d a lst pa perm s =
     kbind (map_one d a pa perm s) (\<lambda>(r, s1).
     if r < 0 then Inr (r, s1) else if a = lst then Inr (0, s1)
     else case fuel of 0 \<Rightarrow> Inl (Fault ''mappages'')
          | Suc f \<Rightarrow> mappages_loop f d (a + PGSIZE) lst (pa + PGSIZE) perm s1)"
  by (subst mappages_loop.simps) (auto simp: map_one_def kbind_def Let_def split: sum.splits)

text \<open>
  What mapping keeps and uses: every page it takes from the free list becomes a table of the
  address space, and it writes nowhere but in the space's own pages.
\<close>

definition evolves :: "u32 \<Rightarrow> 'a kphys_scheme \<Rightarrow> u32 list \<Rightarrow> 'a kphys_scheme \<Rightarrow> u32 list \<Rightarrow> bool" where
  "evolves d s fs t gs \<longleftrightarrow> same_rest s t \<and> kend t = kend s \<and> vspace t gs d \<and> set gs \<subseteq> set fs \<and>
     length gs + card (tables (mem t) d) = length fs + card (tables (mem s) d) \<and>
     same_outside (own_pages (mem t) d) (mem s) (mem t) \<and>
     own_pages (mem s) d \<subseteq> own_pages (mem t) d \<and>
     own_pages (mem t) d \<subseteq> own_pages (mem s) d \<union> (set fs - set gs)"

lemma evolves_refl: "vspace s fs d \<Longrightarrow> evolves d s fs s fs"
  by (simp add: evolves_def)

lemma evolves_trans:
  assumes "evolves d s fs t gs" "evolves d t gs u hs"
  shows "evolves d s fs u hs"
proof -
  have "same_outside (own_pages (mem u) d) (mem s) (mem u)"
    using assms same_outside_trans[of "own_pages (mem t) d" "mem s" "mem t" "own_pages (mem u) d" "mem u"]
    unfolding evolves_def by (metis sup.absorb2)
  then show ?thesis using assms same_rest_trans unfolding evolves_def by auto
qed

lemma entry_nonzero:
  assumes "page_ok e t" "unat i < 1024"
  shows "t + 4 * i \<noteq> 0"
proof
  assume "t + 4 * i = 0"
  then have "t = 0"
    using entry_page[OF page_aligned[OF assms(1)] assms(2)] by (simp add: PGROUNDDOWN_def)
  then show False using page_nonzero[OF assms(1)] by simp
qed

lemma map_one_present:
  assumes "vspace s fs d" "tab (mem s) d (PDX a) = Some t" "lookup (mem s) d a = None"
  shows "\<exists>u. map_one d a pa perm s = Inr (0, u) \<and> evolves d s fs u fs \<and>
     lookup (mem u) d = (\<lambda>vb. if PGROUNDDOWN vb = PGROUNDDOWN a then Some (pa OR perm OR PTE_P) else lookup (mem s) d vb)"
proof -
  let ?x = "pa OR perm OR PTE_P"
  define u where "u = s\<lparr>mem := write32 (mem s) (t + 4 * PTX a) ?x\<rparr>"
  have v: "kmem_inv s fs" "space (kend s) (mem s) d" "own_pages (mem s) d \<inter> set fs = {}"
    using assms(1) by (auto simp: vspace_def)
  have t: "t \<in> tables (mem s) d" using assms(2) PDX_bound by (auto simp: tables_def)
  then have ok: "page_ok (kend s) t" using v(2) by (auto simp: space_def)
  note se = set_entry[OF v(2) assms(2), of ?x, simplified]
  have inv: "kmem_inv u fs"
    using se(1) v(3) t by (intro kmem_inv_cong[OF v(1), of "{t}"]) (auto simp: u_def own_pages_def)
  have o: "own_pages (mem u) d = own_pages (mem s) d" using se(3) by (simp add: u_def own_pages_def)
  have "same_outside (own_pages (mem s) d) (mem s) (mem u)"
    using same_outside_mono[OF se(1)] t by (simp add: u_def own_pages_def)
  then have "evolves d s fs u fs"
    unfolding evolves_def o using inv v o se(2,3) by (simp add: u_def vspace_def)
  moreover have "map_one d a pa perm s = Inr (0, u)"
    using assms(2,3) entry_nonzero[OF ok PTX_bound]
    by (simp add: map_one_def walk_present u_def lookup_def Let_def split: if_splits)
  ultimately show ?thesis using se(4) by (auto simp: u_def)
qed

lemma map_one_ok:
  assumes "kmem_ready c s" "vspace s fs d" "lookup (mem s) d a = None"
  shows "\<exists>r t gs. map_one d a pa perm s = Inr (r, t) \<and> evolves d s fs t gs \<and>
     (r = 0 \<and> lookup (mem t) d = (\<lambda>vb. if PGROUNDDOWN vb = PGROUNDDOWN a then Some (pa OR perm OR PTE_P) else lookup (mem s) d vb)
      \<or> r = -1 \<and> gs = [] \<and> mem t = mem s \<and> card (tables (mem s) d) < 1024)"
proof (cases "tab (mem s) d (PDX a)")
  case (Some t)
  then show ?thesis using map_one_present[OF assms(2) Some assms(3)] by blast
next
  case None
  show ?thesis
  proof (cases fs)
    case Nil
    with assms(2) have "kmem_inv s []" by (simp add: vspace_def)
    from walk_nomem[OF None assms(1) this] obtain t where
      t: "walkpgdir d a True s = Inr (0, t)" "kmem_inv t []" "same_rest s t" "mem t = mem s" "kend t = kend s" .
    then have "evolves d s fs t []" using Nil assms(2) by (simp add: evolves_def vspace_def)
    moreover have "card (tables (mem s) d) < 1024" using card_tables_less[OF PDX_bound None] .
    ultimately show ?thesis using t(1,4) by (auto simp: map_one_def)
  next
    case (Cons p gs)
    from walk_new[OF None assms(1) assms(2)[unfolded Cons]] obtain t where
      t: "walkpgdir d a True s = Inr (p + 4 * PTX a, t)" "same_rest s t" "kend t = kend s"
      "vspace t gs d" "tab (mem t) d (PDX a) = Some p" "lookup (mem t) d = lookup (mem s) d"
      "tables (mem t) d = insert p (tables (mem s) d)" "same_outside {p, d} (mem s) (mem t)" .
    have p: "p \<notin> tables (mem s) d" using assms(2) Cons by (auto simp: vspace_def own_pages_def)
    have "p \<notin> set gs" using assms(2) Cons by (simp add: vspace_def kmem_inv_def)
    then have ev: "evolves d s fs t gs"
      using t p Cons same_outside_mono[OF t(8)] finite_tables[of "mem s" d]
      by (auto simp: evolves_def own_pages_def)
    have "map_one d a pa perm s = map_one d a pa perm t"
      using t(1) walk_present[OF t(5)] by (simp add: map_one_def)
    with map_one_present[OF t(4,5)] t(6) assms(3) evolves_trans[OF ev] show ?thesis by fastforce
  qed
qed

lemma page_above:
  fixes a vb :: u32
  assumes "4096 dvd unat a" "unat a + 4096 \<le> 2 ^ 32"
  shows "PGROUNDDOWN vb = a \<longleftrightarrow> unat a \<le> unat vb \<and> unat vb < unat a + 4096"
  using assms in_page[OF assms(1), of vb] unat32_bound[of vb]
  by (auto simp: unat_sub_if' split: if_splits)

text \<open>The mapped range, and the entry of each of its pages.\<close>

definition mapped :: "u32 \<Rightarrow> nat \<Rightarrow> u32 \<Rightarrow> u32 \<Rightarrow> (u32 \<Rightarrow> u32 option) \<Rightarrow> u32 \<Rightarrow> u32 option" where
  "mapped a n pa perm f vb =
     (if unat a \<le> unat vb \<and> unat vb < unat a + n * 4096
      then Some ((pa + (PGROUNDDOWN vb - a)) OR perm OR PTE_P) else f vb)"

lemma mapped_Suc:
  assumes "4096 dvd unat a" "unat a + Suc n * 4096 \<le> 2 ^ 32" "0 < n"
  shows "mapped (a + PGSIZE) n (pa + PGSIZE) perm
           (\<lambda>vb. if PGROUNDDOWN vb = PGROUNDDOWN a then Some (pa OR perm OR PTE_P) else f vb)
       = mapped a (Suc n) pa perm f"
proof
  fix vb
  have a: "unat (a + PGSIZE) = unat a + 4096" using assms(2,3) by (simp add: PGSIZE_def unat_word_ariths)
  have p: "PGROUNDDOWN a = a" using assms(1) by (simp add: word_unat_eq_iff unat_PGROUNDDOWN)
  have b: "PGROUNDDOWN vb = a \<longleftrightarrow> unat a \<le> unat vb \<and> unat vb < unat a + 4096"
    using assms by (intro page_above) auto
  have e: "pa + PGSIZE + (PGROUNDDOWN vb - (a + PGSIZE)) = pa + (PGROUNDDOWN vb - a)" by simp
  show "mapped (a + PGSIZE) n (pa + PGSIZE) perm
           (\<lambda>vb. if PGROUNDDOWN vb = PGROUNDDOWN a then Some (pa OR perm OR PTE_P) else f vb) vb
       = mapped a (Suc n) pa perm f vb"
    using b by (cases "PGROUNDDOWN vb = a") (auto simp: mapped_def p a e)
qed

text \<open>
  The outcome of mapping \<open>n\<close> pages: success with every page of the range mapped, or failure
  because a table was missing and there was no free page left.
\<close>

definition map_result ::
  "u32 \<Rightarrow> 'a kphys_scheme \<Rightarrow> u32 list \<Rightarrow> u32 \<Rightarrow> nat \<Rightarrow> u32 \<Rightarrow> u32 \<Rightarrow> int \<Rightarrow> 'a kphys_scheme \<Rightarrow> u32 list \<Rightarrow> bool" where
  "map_result d s fs a n pa perm r t gs \<longleftrightarrow> evolves d s fs t gs \<and>
     (r = 0 \<and> lookup (mem t) d = mapped a n pa perm (lookup (mem s) d)
      \<or> r = -1 \<and> gs = [] \<and> card (tables (mem t) d) < 1024 \<and>
        (\<forall>vb. unat vb < unat a \<or> unat a + n * 4096 \<le> unat vb \<longrightarrow> lookup (mem t) d vb = lookup (mem s) d vb))"

lemma mapped_1:
  assumes "4096 dvd unat a" "unat a + 4096 \<le> 2 ^ 32"
  shows "mapped a (Suc 0) pa perm f =
      (\<lambda>vb. if PGROUNDDOWN vb = PGROUNDDOWN a then Some (pa OR perm OR PTE_P) else f vb)"
proof
  fix vb
  have "PGROUNDDOWN a = a" using assms(1) by (simp add: word_unat_eq_iff unat_PGROUNDDOWN)
  then show "mapped a (Suc 0) pa perm f vb =
      (if PGROUNDDOWN vb = PGROUNDDOWN a then Some (pa OR perm OR PTE_P) else f vb)"
    using page_above[OF assms, of vb] by (cases "PGROUNDDOWN vb = a") (auto simp: mapped_def)
qed

lemma map_one_result:
  assumes "kmem_ready c s" "vspace s fs d" "4096 dvd unat a" "unat a + 4096 \<le> 2 ^ 32" "lookup (mem s) d a = None"
  obtains r t gs where "map_one d a pa perm s = Inr (r, t)" "map_result d s fs a 1 pa perm r t gs"
  using map_one_ok[OF assms(1,2,5), of pa perm] that
  unfolding map_result_def One_nat_def mapped_1[OF assms(3,4)] by auto

lemma map_result_Suc:
  assumes "4096 dvd unat a" "unat a + Suc n * 4096 \<le> 2 ^ 32" "0 < n"
    and st: "map_result d s fs a 1 pa perm 0 t gs"
    and tu: "map_result d t gs (a + PGSIZE) n (pa + PGSIZE) perm r u hs"
  shows "map_result d s fs a (Suc n) pa perm r u hs"
proof -
  have a: "unat (a + PGSIZE) = unat a + 4096" using assms(2,3) by (simp add: PGSIZE_def unat_word_ariths)
  have l: "lookup (mem t) d = mapped a (Suc 0) pa perm (lookup (mem s) d)" using st by (simp add: map_result_def)
  have m: "mapped (a + PGSIZE) n (pa + PGSIZE) perm (lookup (mem t) d) = mapped a (Suc n) pa perm (lookup (mem s) d)"
    unfolding l using mapped_Suc[OF assms(1-3)] mapped_1[of a] assms(1,2) by simp
  have "evolves d s fs u hs" using st tu evolves_trans unfolding map_result_def by blast
  moreover have "lookup (mem t) d vb = lookup (mem s) d vb" if "unat vb < unat a \<or> unat a + Suc n * 4096 \<le> unat vb" for vb
    using that unfolding l by (auto simp: mapped_def)
  ultimately show ?thesis using tu unfolding map_result_def m a by auto
qed

lemma unat_page_add: "unat p + i * 4096 < 2 ^ 32 \<Longrightarrow> unat (p + of_nat i * PGSIZE) = unat p + i * 4096"
  by (simp add: PGSIZE_def unat_word_ariths unat32_of_nat)

lemma mappages_loop_ok:
  assumes "kmem_ready c s" "vspace s fs d" "4096 dvd unat a" "unat a + Suc n * 4096 \<le> 2 ^ 32"
    "\<And>vb. unat a \<le> unat vb \<Longrightarrow> unat vb < unat a + Suc n * 4096 \<Longrightarrow> lookup (mem s) d vb = None"
  shows "\<exists>r t gs. mappages_loop n d a (a + of_nat n * PGSIZE) pa perm s = Inr (r, t) \<and> map_result d s fs a (Suc n) pa perm r t gs"
  using assms
proof (induction n arbitrary: s fs a pa)
  case 0
  have "lookup (mem s) d a = None" by (rule 0(5)) simp_all
  then obtain r t gs where "map_one d a pa perm s = Inr (r, t)" "map_result d s fs a 1 pa perm r t gs"
    using 0(4) by (elim map_one_result[OF 0(1-3), rotated]) auto
  then show ?case by (subst mappages_loop_step) (auto simp: map_result_def)
next
  case (Suc n)
  have a: "unat (a + PGSIZE) = unat a + 4096" using Suc(5) by (simp add: PGSIZE_def unat_word_ariths)
  have lst: "a + of_nat (Suc n) * PGSIZE = (a + PGSIZE) + of_nat n * PGSIZE" by (simp add: algebra_simps)
  have ne: "a \<noteq> a + of_nat (Suc n) * PGSIZE"
    using unat_page_add[of a "Suc n"] Suc(5) by auto
  have "lookup (mem s) d a = None" by (rule Suc(6)) simp_all
  then obtain r t gs where m: "map_one d a pa perm s = Inr (r, t)" "map_result d s fs a 1 pa perm r t gs"
    using Suc(5) by (elim map_one_result[OF Suc(2-4), rotated]) auto
  show ?case
  proof (cases "r = 0")
    case False
    with m have "r = -1" by (auto simp: map_result_def)
    with m have "map_result d s fs a (Suc (Suc n)) pa perm r t gs" by (auto simp: map_result_def)
    then show ?thesis using m(1) \<open>r = -1\<close> by (subst mappages_loop_step) auto
  next
    case True
    have t: "kmem_ready c t" "vspace t gs d"
      using m(2) Suc(2) kmem_ready_rest[of s t c] by (auto simp: map_result_def evolves_def)
    have "lookup (mem t) d = mapped a 1 pa perm (lookup (mem s) d)" using m(2) True by (simp add: map_result_def)
    then have none: "lookup (mem t) d vb = None" if "unat (a + PGSIZE) \<le> unat vb" "unat vb < unat (a + PGSIZE) + Suc n * 4096" for vb
      using that Suc(6)[of vb] a by (simp add: mapped_def)
    have "4096 dvd unat (a + PGSIZE)" "unat (a + PGSIZE) + Suc n * 4096 \<le> 2 ^ 32" using a Suc(4,5) by simp_all
    from Suc.IH[OF t this none, of "pa + PGSIZE"] obtain q u hs where
      u: "mappages_loop n d (a + PGSIZE) (a + PGSIZE + of_nat n * PGSIZE) (pa + PGSIZE) perm t = Inr (q, u)"
      "map_result d t gs (a + PGSIZE) (Suc n) (pa + PGSIZE) perm q u hs" by blast
    from map_result_Suc[OF Suc(4) _ _ _ u(2)] m(2) True Suc(5) have "map_result d s fs a (Suc (Suc n)) pa perm q u hs" by simp
    moreover have "mappages_loop (Suc n) d a (a + of_nat (Suc n) * PGSIZE) pa perm s = Inr (q, u)"
      using m(1) True u(1) ne unfolding lst by (subst mappages_loop_step) simp
    ultimately show ?thesis by blast
  qed
qed

lemma mappages_eq:
  assumes "4096 dvd unat va" "unat sz = Suc n * 4096" "unat va + Suc n * 4096 \<le> 2 ^ 32"
  shows "mappages d va sz pa perm s = mappages_loop n d va (va + of_nat n * PGSIZE) pa perm s"
proof -
  have "sz \<noteq> 0" using assms(2) by auto
  then have "unat (sz - 1) = Suc n * 4096 - 1" using assms(2) by (simp add: unat_sub_if' word_unat_eq_iff)
  then have "unat (va + (sz - 1)) = unat va + Suc n * 4096 - 1"
    using assms(3) by (simp add: unat_word_ariths)
  moreover have n: "unat (va + of_nat n * PGSIZE) = unat va + n * 4096"
    using assms(3) by (intro unat_page_add) simp
  moreover have "(4095 + (4096 * k + n * 4096)) div 4096 = k + n" for k by presburger
  ultimately have lst: "PGROUNDDOWN (va + sz - 1) = va + of_nat n * PGSIZE"
    using assms(1) by (auto simp: word_unat_eq_iff unat_PGROUNDDOWN add_diff_eq elim!: dvdE)
  have va: "PGROUNDDOWN va = va" using assms(1) by (simp add: word_unat_eq_iff unat_PGROUNDDOWN)
  have "unat (va + of_nat n * PGSIZE - va) = n * 4096"
    using unat_page_add[of 0 n] assms(3) by simp
  then show ?thesis by (simp add: mappages_def lst va)
qed

lemma mappages_ok:
  assumes "kmem_ready c s" "vspace s fs d" "4096 dvd unat va" "unat sz = Suc n * 4096"
    "unat va + Suc n * 4096 \<le> 2 ^ 32"
    "\<And>vb. unat va \<le> unat vb \<Longrightarrow> unat vb < unat va + Suc n * 4096 \<Longrightarrow> lookup (mem s) d vb = None"
  obtains r t gs where "mappages d va sz pa perm s = Inr (r, t)" "map_result d s fs va (Suc n) pa perm r t gs"
    "kmem_ready c t"
proof -
  from mappages_loop_ok[OF assms(1-3,5,6)] mappages_eq[OF assms(3-5)]
  obtain r t gs where m: "mappages d va sz pa perm s = Inr (r, t)" "map_result d s fs va (Suc n) pa perm r t gs"
    by metis
  then have "kmem_ready c t" using assms(1) kmem_ready_rest[of s t c] by (simp add: map_result_def evolves_def)
  with m that show ?thesis by blast
qed

text \<open>With a free page for every table an address space can have, mapping succeeds.\<close>

lemma mappages_enough:
  assumes "kmem_ready c s" "vspace s fs d" "4096 dvd unat va" "unat sz = Suc n * 4096"
    "unat va + Suc n * 4096 \<le> 2 ^ 32" "1024 \<le> length fs + card (tables (mem s) d)"
    "\<And>vb. unat va \<le> unat vb \<Longrightarrow> unat vb < unat va + Suc n * 4096 \<Longrightarrow> lookup (mem s) d vb = None"
  obtains t gs where "mappages d va sz pa perm s = Inr (0, t)" "evolves d s fs t gs" "kmem_ready c t"
    "lookup (mem t) d = mapped va (Suc n) pa perm (lookup (mem s) d)"
proof -
  obtain r t gs where m: "mappages d va sz pa perm s = Inr (r, t)" "map_result d s fs va (Suc n) pa perm r t gs"
    "kmem_ready c t" using assms(7) by (rule mappages_ok[OF assms(1-5)])
  moreover have "\<not> (gs = [] \<and> card (tables (mem t) d) < 1024)"
    using m(2) assms(6) by (auto simp: map_result_def evolves_def)
  ultimately show ?thesis using that by (auto simp: map_result_def)
qed

end
