(* ===== verification/AddressCopy.thy ===== *)
theory AddressCopy
  imports AddressSpace
begin

text \<open>
  Whole address spaces: what \<^verbatim>\<open>mappages\<close>, \<^verbatim>\<open>setupkvm\<close> and \<^verbatim>\<open>copyuvm\<close> (\<^verbatim>\<open>vm.c\<close>) establish for the
  translation, from the lemmas on single mappings.
\<close>

section \<open>An empty directory\<close>

lemma read32_zero_page:
  assumes "4096 dvd unat p" "unat i < 1024"
  shows "read32 (fill m p 0 4096) (p + 4 * i) = 0"
proof -
  have "read32 (fill m p 0 4096) (p + 4 * i) = read32 (\<lambda>_. 0) (p + 4 * i)"
    using word_same_page[OF entry_aligned[OF assms]] entry_page[OF assms]
    by (intro read32_cong) (simp add: fill_def in_page[OF assms(1)])
  then show ?thesis by (simp add: read32_def)
qed

lemma empty_directory:
  assumes "kmem_ready c s" "kmem_inv s (p # fs)"
  obtains t where "kalloc s = Inr (p, t)" "same_rest s t" "kend t = kend s" "mem t = mem s"
    "vspace (t\<lparr>mem := fill (mem t) p 0 4096\<rparr>) fs p" "kmem_ready c (t\<lparr>mem := fill (mem t) p 0 4096\<rparr>)"
    "lookup (fill (mem t) p 0 4096) p = (\<lambda>_. None)" "tables (fill (mem t) p 0 4096) p = {}"
proof -
  have p: "page_ok (kend s) p" "p \<notin> set fs" using assms(2) by (auto simp: kmem_inv_def)
  note al = page_aligned[OF p(1)]
  from kalloc_step[OF assms] obtain t where
    t: "kalloc s = Inr (p, t)" "kmem_inv t fs" "same_rest s t" "mem t = mem s" "kend t = kend s" "kmem_ready c t" .
  let ?m = "fill (mem t) p 0 4096"
  have tab: "tab ?m p i = None" if "unat i < 1024" for i
    using read32_zero_page[OF al that] by (simp add: tab_def)
  then have ts: "tables ?m p = {}" by (auto simp: tables_def)
  have "kmem_inv (t\<lparr>mem := ?m\<rparr>) fs"
    using fill_same_outside[OF al, of "mem t" 0] p(2) by (intro kmem_inv_cong[OF t(2), of "{p}"]) auto
  then have "vspace (t\<lparr>mem := ?m\<rparr>) fs p"
    using p t(5) tab ts by (auto simp: vspace_def space_def own_pages_def)
  moreover have "kmem_ready c (t\<lparr>mem := ?m\<rparr>)" using t(6) by (simp add: kmem_ready_def)
  moreover have "lookup ?m p = (\<lambda>_. None)" using tab PDX_bound by (auto simp: lookup_def)
  ultimately show ?thesis using t ts by (intro that[of t])
qed

section \<open>The kernel part\<close>

text \<open>The table in the comment above \<^verbatim>\<open>kmap\<close>.\<close>

definition kernel_map :: "u32 \<Rightarrow> u32 \<Rightarrow> u32 option" where
  "kernel_map kdata va =
     (if va < KERNBASE then None
      else if va < P2V PHYSTOP
      then Some (V2P (PGROUNDDOWN va) OR (if KERNLINK \<le> va \<and> va < kdata then 0 else PTE_W) OR PTE_P)
      else if va < DEVSPACE then None
      else Some (PGROUNDDOWN va OR PTE_W OR PTE_P))"

lemma kernel_map_mapped:
  assumes "unat kdata = 0x80100000 + Suc n * 4096" "unat kdata + Suc k * 4096 = 0x8E000000"
  shows "mapped DEVSPACE 8192 DEVSPACE PTE_W
      (mapped kdata (Suc k) (V2P kdata) PTE_W
      (mapped KERNLINK (Suc n) (V2P KERNLINK) 0
      (mapped KERNBASE 256 0 PTE_W (\<lambda>_. None)))) = kernel_map kdata"
proof
  fix va
  show "mapped DEVSPACE 8192 DEVSPACE PTE_W
      (mapped kdata (Suc k) (V2P kdata) PTE_W
      (mapped KERNLINK (Suc n) (V2P KERNLINK) 0
      (mapped KERNBASE 256 0 PTE_W (\<lambda>_. None)))) va = kernel_map kdata va"
    using assms unat32_bound[of va]
    by (auto simp: mapped_def kernel_map_def DEVSPACE_def KERNLINK_def EXTMEM_def page_defs
        word_less_nat_alt word_le_nat_alt)
qed

lemma evolves_enough:
  "evolves d s fs t gs \<Longrightarrow> n \<le> length fs + card (tables (mem s) d) \<Longrightarrow> n \<le> length gs + card (tables (mem t) d)"
  by (simp add: evolves_def)

lemma evolves_vspace: "evolves d s fs t gs \<Longrightarrow> vspace t gs d"
  by (simp add: evolves_def)

lemma mapped_outside:
  "unat vb < unat a \<or> unat a + n * 4096 \<le> unat vb \<Longrightarrow> mapped a n pa perm f vb = f vb"
  by (auto simp: mapped_def)

definition kdata_ok :: "u32 \<Rightarrow> bool" where
  "kdata_ok kdata \<longleftrightarrow> 4096 dvd unat kdata \<and> KERNLINK < kdata \<and> kdata < P2V PHYSTOP"

lemma kdata_pages:
  assumes "kdata_ok kdata"
  obtains n k where "unat kdata = 0x80100000 + Suc n * 4096" "unat kdata + Suc k * 4096 = 0x8E000000"
proof -
  from assms obtain q where q: "unat kdata = 4096 * q" by (auto simp: kdata_ok_def elim: dvdE)
  have b: "0x80100000 < unat kdata" "unat kdata < 0x8E000000"
    using assms by (simp_all add: kdata_ok_def KERNLINK_def EXTMEM_def page_defs word_less_nat_alt)
  show ?thesis
    using q b by (intro that[of "q - 0x80101" "0x8DFFF - q"]) auto
qed

lemma setupkvm_maps:
  assumes "kmem_ready c u" "vspace u fs d" "lookup (mem u) d = (\<lambda>_. None)" "1024 \<le> length fs" "kdata_ok kdata"
  obtains t gs where "setupkvm_loop (kmap kdata) d u = Inr (d, t)" "evolves d u fs t gs" "kmem_ready c t"
    "lookup (mem t) d = kernel_map kdata"
proof -
  from kdata_pages[OF assms(5)] obtain n k where
    nk: "unat kdata = 0x80100000 + Suc n * 4096" "unat kdata + Suc k * 4096 = 0x8E000000" .
  note csts = DEVSPACE_def KERNLINK_def EXTMEM_def page_defs
  have e0: "1024 \<le> length fs + card (tables (mem u) d)" using assms(4) by simp
  obtain s1 f1 where m1: "mappages d KERNBASE (EXTMEM - 0) 0 PTE_W u = Inr (0, s1)" "evolves d u fs s1 f1" "kmem_ready c s1"
    "lookup (mem s1) d = mapped KERNBASE 256 0 PTE_W (\<lambda>_. None)"
    by (rule mappages_enough[OF assms(1,2) _ _ _ e0, of KERNBASE "EXTMEM - 0" 255 0 PTE_W])
       (simp_all add: csts assms(3))
  have s2: "unat (V2P kdata - V2P KERNLINK) = Suc n * 4096"
    using nk(1) by (simp add: csts unat_sub_if')
  obtain s2 f2 where m2: "mappages d KERNLINK (V2P kdata - V2P KERNLINK) (V2P KERNLINK) 0 s1 = Inr (0, s2)"
    "evolves d s1 f1 s2 f2" "kmem_ready c s2"
    "lookup (mem s2) d = mapped KERNLINK (Suc n) (V2P KERNLINK) 0 (lookup (mem s1) d)"
    by (rule mappages_enough[OF m1(3) evolves_vspace[OF m1(2)] _ s2 _ evolves_enough[OF m1(2) e0], of KERNLINK "V2P KERNLINK" 0])
       (use nk in \<open>simp_all add: csts m1(4) mapped_outside\<close>)
  have s3: "unat (PHYSTOP - V2P kdata) = Suc k * 4096"
    using nk by (simp add: csts unat_sub_if')
  note e2 = evolves_trans[OF m1(2) m2(2)]
  obtain s3 f3 where m3: "mappages d kdata (PHYSTOP - V2P kdata) (V2P kdata) PTE_W s2 = Inr (0, s3)"
    "evolves d s2 f2 s3 f3" "kmem_ready c s3"
    "lookup (mem s3) d = mapped kdata (Suc k) (V2P kdata) PTE_W (lookup (mem s2) d)"
    by (rule mappages_enough[OF m2(3) evolves_vspace[OF m2(2)] _ s3 _ evolves_enough[OF e2 e0], of kdata "V2P kdata" PTE_W])
       (use nk assms(5) in \<open>simp_all add: csts m1(4) m2(4) mapped_outside kdata_ok_def\<close>)
  note e3 = evolves_trans[OF e2 m3(2)]
  obtain s4 f4 where m4: "mappages d DEVSPACE (0 - DEVSPACE) DEVSPACE PTE_W s3 = Inr (0, s4)"
    "evolves d s3 f3 s4 f4" "kmem_ready c s4"
    "lookup (mem s4) d = mapped DEVSPACE 8192 DEVSPACE PTE_W (lookup (mem s3) d)"
    by (rule mappages_enough[OF m3(3) evolves_vspace[OF m3(2)] _ _ _ evolves_enough[OF e3 e0], of DEVSPACE "0 - DEVSPACE" 8191 DEVSPACE PTE_W])
       (use nk in \<open>simp_all add: csts m1(4) m2(4) m3(4) mapped_outside\<close>)
  have "setupkvm_loop (kmap kdata) d u = Inr (d, s4)"
    using m1(1) m2(1) m3(1) m4(1) by (simp add: kmap_def)
  then show ?thesis
    using that[of s4 f4] evolves_trans[OF e3 m4(2)] m4(3) kernel_map_mapped[OF nk]
    by (simp add: m1(4) m2(4) m3(4) m4(4))
qed

lemma setupkvm_ok:
  assumes "kmem_ready c s" "kmem_inv s (p # fs)" "1024 \<le> length fs" "kdata_ok kdata"
  obtains t gs where "setupkvm kdata s = Inr (p, t)" "kmem_ready c t" "vspace t gs p" "kend t = kend s"
    "same_rest s t" "lookup (mem t) p = kernel_map kdata" "set gs \<subseteq> set fs"
    "own_pages (mem t) p \<union> set gs \<subseteq> insert p (set fs)" "same_outside (own_pages (mem t) p) (mem s) (mem t)"
    "length gs + card (tables (mem t) p) = length fs"
proof -
  have p: "page_ok (kend s) p" using assms(2) by (simp add: kmem_inv_def)
  from empty_directory[OF assms(1,2)] obtain u where
    u: "kalloc s = Inr (p, u)" "same_rest s u" "kend u = kend s" "mem u = mem s"
    "vspace (u\<lparr>mem := fill (mem u) p 0 4096\<rparr>) fs p" "kmem_ready c (u\<lparr>mem := fill (mem u) p 0 4096\<rparr>)"
    "lookup (fill (mem u) p 0 4096) p = (\<lambda>_. None)" "tables (fill (mem u) p 0 4096) p = {}" .
  let ?u = "u\<lparr>mem := fill (mem u) p 0 4096\<rparr>"
  have "lookup (mem ?u) p = (\<lambda>_. None)" using u(7) by simp
  from setupkvm_maps[OF u(6,5) this assms(3,4)] obtain t gs where
    t: "setupkvm_loop (kmap kdata) p ?u = Inr (p, t)" "evolves p ?u fs t gs" "kmem_ready c t"
    "lookup (mem t) p = kernel_map kdata" .
  have e: "vspace t gs p" "set gs \<subseteq> set fs" "own_pages (mem t) p \<subseteq> insert p (set fs)"
    "length gs + card (tables (mem t) p) = length fs" "kend t = kend s" "same_rest s t"
    "p \<in> own_pages (mem t) p" "same_outside (own_pages (mem t) p) (mem ?u) (mem t)"
    using t(2) u(2,3,8) by (auto simp: evolves_def own_pages_def intro: same_rest_trans)
  have "same_outside (own_pages (mem t) p) (mem s) (mem t)"
    using same_outside_trans[OF fill_same_outside[OF page_aligned[OF p], of "mem s" 0]] e(7,8)
    by (fastforce simp: u(4) insert_absorb)
  moreover have "setupkvm kdata s = Inr (p, t)"
  proof -
    have "\<not> P2V PHYSTOP > DEVSPACE" by (simp add: page_defs DEVSPACE_def)
    then show ?thesis
      using u(1) t(1) page_nonzero[OF p] by (simp add: setupkvm_def Let_def memset_fill PGSIZE_def)
  qed
  ultimately show ?thesis using e t(3,4) by (intro that[of t gs]) auto
qed

section \<open>Copying the user part\<close>

abbreviation page_addr :: "nat \<Rightarrow> u32" where
  "page_addr i \<equiv> of_nat i * PGSIZE"

definition uentry :: "bytes \<Rightarrow> u32 \<Rightarrow> nat \<Rightarrow> u32" where
  "uentry m P i = the (lookup m P (page_addr i))"

definition source_page :: "bytes \<Rightarrow> u32 \<Rightarrow> nat \<Rightarrow> u32" where
  "source_page m P i = P2V (PTE_ADDR (uentry m P i))"

definition copy_inv ::
  "nat \<Rightarrow> u32 \<Rightarrow> bytes \<Rightarrow> u32 \<Rightarrow> u32 set \<Rightarrow> u32 \<Rightarrow> nat \<Rightarrow> 'a kphys_scheme \<Rightarrow> u32 list \<Rightarrow> u32 list \<Rightarrow> bool" where
  "copy_inv c kdata m0 P F d j s gs vs \<longleftrightarrow> length vs = j \<and> distinct vs \<and> kmem_ready c s \<and> vspace s gs d \<and>
     (\<forall>va. KERNBASE \<le> va \<longrightarrow> lookup (mem s) d va = kernel_map kdata va) \<and>
     (\<forall>va. j * 4096 \<le> unat va \<and> va < KERNBASE \<longrightarrow> lookup (mem s) d va = None) \<and>
     (\<forall>i<j. lookup (mem s) d (page_addr i) = Some (V2P (vs ! i) OR PTE_FLAGS (uentry m0 P i) OR PTE_P) \<and>
        (\<forall>k. unat k < 4096 \<longrightarrow> mem s (vs ! i + k) = m0 (source_page m0 P i + k))) \<and>
     (\<forall>v \<in> set vs. page_ok (kend s) v) \<and> set vs \<inter> (own_pages (mem s) d \<union> set gs) = {} \<and>
     own_pages (mem s) d \<union> set vs \<union> set gs \<subseteq> F \<and> same_outside (own_pages (mem s) d \<union> set vs) m0 (mem s)"

lemma vspace_frame:
  assumes "vspace s gs d" "same_outside {v} (mem s) m" "v \<notin> own_pages (mem s) d" "v \<notin> set gs"
  shows "vspace (s\<lparr>mem := m\<rparr>) gs d" "lookup m d = lookup (mem s) d" "tables m d = tables (mem s) d"
proof -
  have v: "kmem_inv s gs" "space (kend s) (mem s) d" "own_pages (mem s) d \<inter> set gs = {}" "d \<notin> {v}"
    using assms(1,3) by (auto simp: vspace_def own_pages_def)
  have d: "4096 dvd unat d" using v(2) page_aligned by (auto simp: space_def)
  show t: "tables m d = tables (mem s) d" using tables_cong[OF assms(2) d v(4)] .
  show "lookup m d = lookup (mem s) d"
    using assms(3) by (intro ext lookup_cong[OF assms(2) v(2)]) simp
  have "kmem_inv (s\<lparr>mem := m\<rparr>) gs" using assms(2,4) by (intro kmem_inv_cong[OF v(1), of "{v}"]) simp_all
  then show "vspace (s\<lparr>mem := m\<rparr>) gs d"
    using space_cong[OF assms(2) v(2,4)] v(3) t by (simp add: vspace_def own_pages_def)
qed

lemma PTE_ADDR_aligned: "4096 dvd unat (PTE_ADDR e)" "4096 dvd unat (P2V (PTE_ADDR e))"
proof -
  have "PTE_ADDR e = PGROUNDDOWN e" by (simp add: PTE_ADDR_shift PGROUNDDOWN_shift)
  then show a: "4096 dvd unat (PTE_ADDR e)" by (simp add: unat_PGROUNDDOWN)
  then show "4096 dvd unat (P2V (PTE_ADDR e))"
    by (simp add: P2V_def KERNBASE_def unat_word_ariths dvd_mod)
qed

lemma page_bound: "page_ok e v \<Longrightarrow> unat v < 0x8E000000"
  by (auto simp: page_ok_def page_defs word_less_nat_alt unat_sub_if' split: if_splits)

lemma copy_page:
  assumes "page_ok e v" "4096 dvd unat src" "unat src + 4096 < 2 ^ 32"
  shows "memmove m v src PGSIZE = copied m v src 4096" "same_outside {v} m (copied m v src 4096)"
    "unat k < 4096 \<Longrightarrow> copied m v src 4096 (v + k) = m (src + k)"
proof -
  show "memmove m v src PGSIZE = copied m v src 4096"
    using assms(3) page_bound[OF assms(1)] memmove_copied[of v PGSIZE src m] by (simp add: PGSIZE_def)
  show "same_outside {v} m (copied m v src 4096)"
    using in_page[OF page_aligned[OF assms(1)]] by (auto simp: same_outside_def copied_def)
  show "unat k < 4096 \<Longrightarrow> copied m v src 4096 (v + k) = m (src + k)" by (simp add: copied_def)
qed

text \<open>The address space that is copied: \<open>n\<close> mapped pages, none of them among the pages \<open>F\<close>.\<close>

definition parent_ok :: "u32 \<Rightarrow> bytes \<Rightarrow> u32 \<Rightarrow> nat \<Rightarrow> u32 set \<Rightarrow> bool" where
  "parent_ok e m P n F \<longleftrightarrow> space e m P \<and> own_pages m P \<inter> F = {} \<and>
     (\<forall>i<n. lookup m P (page_addr i) \<noteq> None \<and> page_ok e (source_page m P i) \<and> source_page m P i \<notin> F)"

lemma lookup_walk:
  assumes "space e (mem s) P" "lookup (mem s) P va = Some x"
  obtains pte where "walkpgdir P va al s = Inr (pte, s)" "pte \<noteq> 0" "read32 (mem s) pte = x" "present x"
proof -
  from assms(2) obtain t where t: "tab (mem s) P (PDX va) = Some t" "read32 (mem s) (t + 4 * PTX va) = x" "present x"
    by (auto simp: lookup_def Let_def split: option.splits if_splits)
  then have "page_ok e t" using assms(1) PDX_bound by (auto simp: space_def tables_def)
  then show ?thesis using that t walk_present[OF t(1)] entry_nonzero[OF _ PTX_bound] by blast
qed

lemma parent_lookup:
  assumes "parent_ok e m0 P n F" "copy_inv c kdata m0 P F d j s gs vs" "j < n"
  shows "lookup (mem s) P (page_addr j) = Some (uentry m0 P j)" "space e (mem s) P"
    "unat k < 4096 \<Longrightarrow> mem s (source_page m0 P j + k) = m0 (source_page m0 P j + k)"
proof -
  have so: "same_outside (own_pages (mem s) d \<union> set vs) m0 (mem s)" and F: "own_pages (mem s) d \<union> set vs \<subseteq> F"
    using assms(2) by (auto simp: copy_inv_def)
  have P: "space e m0 P" "own_pages m0 P \<inter> (own_pages (mem s) d \<union> set vs) = {}" "P \<notin> own_pages (mem s) d \<union> set vs"
    using assms(1) F by (auto simp: parent_ok_def own_pages_def)
  show "lookup (mem s) P (page_addr j) = Some (uentry m0 P j)"
    using lookup_cong[OF so P(1,2)] assms(1,3) by (auto simp: parent_ok_def uentry_def)
  show "space e (mem s) P" using space_cong[OF so P(1,3)] .
  have "4096 dvd unat (source_page m0 P j)" "source_page m0 P j \<notin> own_pages (mem s) d \<union> set vs"
    using assms(1,3) F page_aligned by (auto simp: parent_ok_def)
  then show "unat k < 4096 \<Longrightarrow> mem s (source_page m0 P j + k) = m0 (source_page m0 P j + k)"
    using so page_offset(2) by (auto simp: same_outside_def)
qed

lemma unat_page_addr: "i * 4096 < 2 ^ 32 \<Longrightarrow> unat (page_addr i) = i * 4096"
  using unat_page_add[of 0 i] by simp

text \<open>
  The invariant after one more page: the memory \<open>m\<close> has the copy in page \<open>v\<close>, and mapping \<open>v\<close>
  led from \<open>m\<close> to the memory of \<open>t\<close>.
\<close>

lemma copy_inv_Suc:
  assumes inv: "copy_inv c kdata m0 P F d j s (v # gs) vs" and j: "Suc j * 4096 \<le> 0x80000000"
    and ev: "evolves d u gs t hs" "kmem_ready c t" "kend u = kend s"
    and frame: "lookup (mem u) d = lookup (mem s) d" "tables (mem u) d = tables (mem s) d" "same_outside {v} (mem s) (mem u)"
    and content: "\<And>k. unat k < 4096 \<Longrightarrow> mem u (v + k) = m0 (source_page m0 P j + k)"
    and l: "lookup (mem t) d = mapped (page_addr j) (Suc 0) (V2P v) (PTE_FLAGS (uentry m0 P j)) (lookup (mem u) d)"
  shows "copy_inv c kdata m0 P F d (Suc j) t hs (vs @ [v])"
proof -
  have i: "unat (page_addr i) = i * 4096" if "i \<le> j" for i using that j by (intro unat_page_addr) simp
  have o: "own_pages (mem u) d = own_pages (mem s) d" using frame(2) by (simp add: own_pages_def)
  have E: "vspace t hs d" "kend t = kend s" "set hs \<subseteq> set gs" "same_outside (own_pages (mem t) d) (mem u) (mem t)"
    "own_pages (mem s) d \<subseteq> own_pages (mem t) d" "own_pages (mem t) d \<subseteq> own_pages (mem s) d \<union> set gs"
    "own_pages (mem t) d \<inter> set hs = {}"
    using ev(1,3) o by (auto simp: evolves_def vspace_def)
  have I: "page_ok (kend s) v" "v \<notin> set gs" "v \<notin> own_pages (mem s) d" "v \<notin> set vs" "set vs \<inter> set gs = {}"
    "set vs \<inter> own_pages (mem s) d = {}" "\<forall>w \<in> set vs. page_ok (kend s) w" "own_pages (mem s) d \<union> set vs \<union> insert v (set gs) \<subseteq> F"
    "same_outside (own_pages (mem s) d \<union> set vs) m0 (mem s)"
    using inv by (auto simp: copy_inv_def vspace_def kmem_inv_def)
  have data: "mem t (w + k) = mem u (w + k)" if "w \<in> insert v (set vs)" "unat k < 4096" for w k
  proof -
    have "page_ok (kend s) w" "w \<notin> own_pages (mem t) d" using that I E(6) by auto
    then show ?thesis using E(4) page_offset(2)[OF page_aligned that(2)] by (auto simp: same_outside_def)
  qed
  have old: "mem u (w + k) = mem s (w + k)" if "w \<in> set vs" "unat k < 4096" for w k
  proof -
    have "page_ok (kend s) w" "w \<noteq> v" using that I by auto
    then show ?thesis using frame(3) page_offset(2)[OF page_aligned that(2)] by (auto simp: same_outside_def)
  qed
  have lk: "lookup (mem t) d va = lookup (mem s) d va" if "unat va < j * 4096 \<or> Suc j * 4096 \<le> unat va" for va
    using that i[of j] unfolding l frame(1) by (intro mapped_outside) auto
  have new: "lookup (mem t) d (page_addr j) = Some (V2P v OR PTE_FLAGS (uentry m0 P j) OR PTE_P)"
  proof -
    have "PGROUNDDOWN (page_addr j) = page_addr j" using i[of j] by (simp add: word_unat_eq_iff unat_PGROUNDDOWN)
    then show ?thesis unfolding l using i[of j] by (simp add: mapped_def)
  qed
  have vs: "length vs = j" "distinct vs" using inv by (simp_all add: copy_inv_def)
  have pages: "lookup (mem t) d (page_addr i) = Some (V2P ((vs @ [v]) ! i) OR PTE_FLAGS (uentry m0 P i) OR PTE_P) \<and>
        (\<forall>k. unat k < 4096 \<longrightarrow> mem t ((vs @ [v]) ! i + k) = m0 (source_page m0 P i + k))" if "i < Suc j" for i
  proof (cases "i = j")
    case True
    then show ?thesis using new content data vs by auto
  next
    case False
    with that have "i < j" by simp
    with inv have "vs ! i \<in> set vs" "lookup (mem s) d (page_addr i) = Some (V2P (vs ! i) OR PTE_FLAGS (uentry m0 P i) OR PTE_P)"
      "\<forall>k. unat k < 4096 \<longrightarrow> mem s (vs ! i + k) = m0 (source_page m0 P i + k)" by (auto simp: copy_inv_def)
    then show ?thesis using lk[of "page_addr i"] i[of i] \<open>i < j\<close> data[of "vs ! i"] old[of "vs ! i"] vs by (auto simp: nth_append)
  qed
  have so: "same_outside (own_pages (mem t) d \<union> set (vs @ [v])) m0 (mem t)"
    by (rule same_outside_mono[OF same_outside_trans[OF same_outside_trans[OF I(9) frame(3)] E(4)]]) (use E(5) in auto)
  have "lookup (mem t) d va = kernel_map kdata va" if "KERNBASE \<le> va" for va
    using that lk[of va] inv j by (simp add: copy_inv_def KERNBASE_def word_le_nat_alt)
  moreover have "lookup (mem t) d va = None" if "Suc j * 4096 \<le> unat va" "va < KERNBASE" for va
    using that lk[of va] inv by (simp add: copy_inv_def)
  ultimately show ?thesis
    unfolding copy_inv_def using pages so ev(2) E I vs by auto
qed

text \<open>One pass of the loop copies one page.\<close>

lemma copyuvm_step:
  assumes par: "parent_ok (kend s) m0 P n F" and inv: "copy_inv c kdata m0 P F d j s (v # gs) vs"
    and "j < n" "n * 4096 \<le> 0x80000000" "1024 \<le> length gs + card (tables (mem s) d)" "page_addr j < sz"
  obtains t hs where "copyuvm_loop (Suc f) P d (page_addr j) sz s = copyuvm_loop f P d (page_addr (Suc j)) sz t"
    "copy_inv c kdata m0 P F d (Suc j) t hs (vs @ [v])" "kend t = kend s"
    "length hs + card (tables (mem t) d) = length gs + card (tables (mem s) d)"
proof -
  let ?e = "uentry m0 P j" and ?src = "source_page m0 P j" and ?i = "page_addr j"
  have i: "unat ?i = j * 4096" using assms(3,4) by (intro unat_page_addr) simp
  note pl = parent_lookup[OF par inv assms(3)]
  from lookup_walk[OF pl(2,1), of False] obtain pte where
    pte: "walkpgdir P ?i False s = Inr (pte, s)" "pte \<noteq> 0" "read32 (mem s) pte = ?e" "present ?e" .
  have I: "kmem_ready c s" "vspace s (v # gs) d" "kmem_inv s (v # gs)" "page_ok (kend s) v" "v \<notin> set gs"
    "v \<notin> own_pages (mem s) d" "v \<notin> set vs"
    using inv by (auto simp: copy_inv_def vspace_def kmem_inv_def)
  from kalloc_step[OF I(1,3)] obtain u where
    u: "kalloc s = Inr (v, u)" "kmem_inv u gs" "same_rest s u" "mem u = mem s" "kend u = kend s" "kmem_ready c u" .
  have "page_ok (kend s) ?src" using par assms(3) by (simp add: parent_ok_def)
  then have src: "4096 dvd unat ?src" "unat ?src + 4096 < 2 ^ 32" using page_aligned page_bound by force+
  note cp = copy_page[OF I(4) src, where m = "mem s"]
  let ?m = "copied (mem s) v ?src 4096"
  have vs: "vspace u gs d" using I(2) u by (auto simp: vspace_def)
  note fr = vspace_frame[OF vs, unfolded u(4), OF cp(2) I(6,5)]
  let ?u = "u\<lparr>mem := ?m\<rparr>"
  have none: "lookup (mem ?u) d vb = None" if "unat ?i \<le> unat vb" "unat vb < unat ?i + Suc 0 * 4096" for vb
  proof -
    have "vb < KERNBASE" using that i assms(3,4) by (simp add: KERNBASE_def word_less_nat_alt)
    then show ?thesis using that i inv by (simp add: fr(2) copy_inv_def)
  qed
  have pre: "kmem_ready c ?u" "4096 dvd unat ?i" "unat PGSIZE = Suc 0 * 4096" "unat ?i + Suc 0 * 4096 \<le> 2 ^ 32"
    "1024 \<le> length gs + card (tables (mem ?u) d)"
    using u(6) i assms(3-5) fr(3) by (simp_all add: kmem_ready_def PGSIZE_def)
  obtain t hs where
    t: "mappages d ?i PGSIZE (V2P v) (PTE_FLAGS ?e) ?u = Inr (0, t)" "evolves d ?u gs t hs" "kmem_ready c t"
      "lookup (mem t) d = mapped ?i (Suc 0) (V2P v) (PTE_FLAGS ?e) (lookup (mem ?u) d)"
    by (rule mappages_enough[OF pre(1) fr(1) pre(2-5) none])
  have "copyuvm_loop (Suc f) P d ?i sz s = copyuvm_loop f P d (page_addr (Suc j)) sz t"
    using pte u(1,4) t(1) assms(6) cp(1) page_nonzero[OF I(4)]
    by (subst copyuvm_loop.simps) (simp add: Let_def source_page_def algebra_simps)
  moreover have "copy_inv c kdata m0 P F d (Suc j) t hs (vs @ [v])"
    using assms(3,4) t(2,3,4) u(4,5) fr(2,3) cp(2,3) pl(3) by (intro copy_inv_Suc[OF inv, of ?u]) simp_all
  ultimately show ?thesis using t(2) u(5) fr(3) by (intro that[of t hs]) (auto simp: evolves_def)
qed

lemma card_tables: "card (tables m d) \<le> 1024"
proof -
  have "card {i. unat i < 1024 \<and> tab m d i \<noteq> None} \<le> card {i :: u32. unat i < 1024}"
    using entry_indices(1) by (intro card_mono) auto
  moreover have "finite {i. unat i < 1024 \<and> tab m d i \<noteq> None}" using entry_indices(1) by simp
  ultimately show ?thesis
    using entry_indices(2) card_mono[OF _ tables_image[of m d]]
      card_image_le[of "{i. unat i < 1024 \<and> tab m d i \<noteq> None}" "\<lambda>i. the (tab m d i)"] by simp
qed

lemma copyuvm_loop_upto:
  assumes "parent_ok (kend s) m0 P n F" "copy_inv c kdata m0 P F d j s gs vs" "j \<le> n"
    "n * 4096 \<le> 0x80000000" "n * 4096 < unat sz + 4096"
    "1024 + (n - j) \<le> length gs + card (tables (mem s) d)" "n - j \<le> fuel"
  shows "\<exists>t hs ws. copyuvm_loop fuel P d (page_addr j) sz s = copyuvm_loop (fuel - (n - j)) P d (page_addr n) sz t \<and>
     copy_inv c kdata m0 P F d n t hs ws \<and> kend t = kend s"
  using assms
proof (induction "n - j" arbitrary: j s gs vs fuel)
  case 0
  then have "j = n" by simp
  then show ?case using 0 by auto
next
  case (Suc k)
  then obtain f where f: "fuel = Suc f" by (cases fuel) auto
  have "card (tables (mem s) d) \<le> 1024" by (rule card_tables)
  then obtain v gs' where gs: "gs = v # gs'" using Suc.prems(6) Suc.hyps(2) by (cases gs) auto
  have j: "j < n" using Suc.hyps(2) by simp
  have "unat (page_addr j) = j * 4096" using Suc.prems(4) j by (intro unat_page_addr) simp
  then have lt: "page_addr j < sz" using Suc.prems(5) j by (simp add: word_less_nat_alt)
  have en: "1024 \<le> length gs' + card (tables (mem s) d)" using Suc.prems(6) gs Suc.hyps(2) by simp
  from copyuvm_step[OF Suc.prems(1) Suc.prems(2)[unfolded gs] j Suc.prems(4) en lt] obtain t hs where
    t: "copyuvm_loop (Suc f) P d (page_addr j) sz s = copyuvm_loop f P d (page_addr (Suc j)) sz t"
    "copy_inv c kdata m0 P F d (Suc j) t hs (vs @ [v])" "kend t = kend s"
    "length hs + card (tables (mem t) d) = length gs' + card (tables (mem s) d)" by blast
  have "\<exists>t' hs' ws. copyuvm_loop f P d (page_addr (Suc j)) sz t = copyuvm_loop (f - (n - Suc j)) P d (page_addr n) sz t' \<and>
      copy_inv c kdata m0 P F d n t' hs' ws \<and> kend t' = kend t"
    using Suc.hyps(2) Suc.prems t gs f by (intro Suc.hyps(1)) auto
  moreover have "fuel - (n - j) = f - (n - Suc j)" using f j by simp
  ultimately show ?case using t(1,3) f by auto
qed

lemma copyuvm_upto:
  assumes "kmem_ready c s" "kmem_inv s fs" "kdata_ok kdata" "parent_ok (kend s) (mem s) P n (set fs)"
    "n * 4096 < unat sz + 4096" "n * 4096 \<le> 0x80000000" "1025 + n \<le> length fs"
  obtains d t hs vs where "copyuvm kdata P sz s = copyuvm_loop (unat sz div 4096 + 1 - n) P d (page_addr n) sz t"
    "copy_inv c kdata (mem s) P (set fs) d n t hs vs" "d \<in> set fs" "kend t = kend s"
proof -
  from assms(7) obtain p gs where fs: "fs = p # gs" by (cases fs) auto
  have "1024 \<le> length gs" using assms(7) fs by simp
  from setupkvm_ok[OF assms(1) assms(2)[unfolded fs] this assms(3)] obtain u hs where
    u: "setupkvm kdata s = Inr (p, u)" "kmem_ready c u" "vspace u hs p" "kend u = kend s"
    "same_rest s u" "lookup (mem u) p = kernel_map kdata" "set hs \<subseteq> set gs"
    "own_pages (mem u) p \<union> set hs \<subseteq> insert p (set gs)" "same_outside (own_pages (mem u) p) (mem s) (mem u)"
    "length hs + card (tables (mem u) p) = length gs" .
  have p: "p \<noteq> 0" using assms(2) fs page_nonzero by (auto simp: kmem_inv_def)
  have inv: "copy_inv c kdata (mem s) P (set fs) p 0 u hs []"
    using u(2,3,6,8,9) fs by (auto simp: copy_inv_def kernel_map_def)
  have "n \<le> unat sz div 4096 + 1" using assms(5) by linarith
  with copyuvm_loop_upto[OF _ inv _ assms(6,5), of "unat sz div 4096 + 1"] obtain t ks vs where
    "copyuvm_loop (unat sz div 4096 + 1) P p (page_addr 0) sz u = copyuvm_loop (unat sz div 4096 + 1 - n) P p (page_addr n) sz t"
    "copy_inv c kdata (mem s) P (set fs) p n t ks vs" "kend t = kend s"
    using assms(4,7) fs u(4,10) by auto
  moreover have "copyuvm kdata P sz s = copyuvm_loop (unat sz div 4096 + 1) P p (page_addr 0) sz u"
    using u(1) p by (simp add: copyuvm_def)
  ultimately show ?thesis using fs by (intro that[of p t ks vs]) auto
qed

text \<open>A missing page below \<^verbatim>\<open>sz\<close> stops the copy.\<close>

lemma copyuvm_missing:
  assumes "kmem_ready c s" "kmem_inv s fs" "kdata_ok kdata" "parent_ok (kend s) (mem s) P n (set fs)"
    "n * 4096 < unat sz" "n * 4096 < 0x80000000" "1025 + n \<le> length fs"
    "lookup (mem s) P (page_addr n) = None" "tab (mem s) P (PDX (page_addr n)) \<noteq> None"
  shows "copyuvm kdata P sz s = Inl (Panic ''copyuvm: page not present'')"
proof -
  obtain d t hs vs where t: "copyuvm kdata P sz s = copyuvm_loop (unat sz div 4096 + 1 - n) P d (page_addr n) sz t"
    "copy_inv c kdata (mem s) P (set fs) d n t hs vs" "d \<in> set fs" "kend t = kend s"
    using assms(5,6) by (elim copyuvm_upto[OF assms(1-4) _ _ assms(7), of sz, rotated 2]) auto
  have so: "same_outside (own_pages (mem t) d \<union> set vs) (mem s) (mem t)" and F: "own_pages (mem t) d \<union> set vs \<subseteq> set fs"
    using t(2) by (auto simp: copy_inv_def)
  have P: "space (kend s) (mem s) P" "own_pages (mem s) P \<inter> (own_pages (mem t) d \<union> set vs) = {}" "P \<notin> own_pages (mem t) d \<union> set vs"
    using assms(4) F by (auto simp: parent_ok_def own_pages_def)
  have al: "4096 dvd unat P" using P(1) page_aligned by (auto simp: space_def)
  have "unat (page_addr n) = n * 4096" using assms(6) by (intro unat_page_addr) simp
  then have lt: "page_addr n < sz" using assms(5) by (simp add: word_less_nat_alt)
  from assms(9) obtain q where q: "tab (mem t) P (PDX (page_addr n)) = Some q"
    using tab_cong[OF so al P(3) PDX_bound] by auto
  have l: "lookup (mem t) P (page_addr n) = None" using lookup_cong[OF so P(1,2)] assms(8) by simp
  have "q \<in> tables (mem t) P" using q PDX_bound by (auto simp: tables_def)
  then have "page_ok (kend s) q" using space_cong[OF so P(1,3)] by (auto simp: space_def)
  then have "q + 4 * PTX (page_addr n) \<noteq> 0" using entry_nonzero PTX_bound by blast
  then have "copyuvm_loop f P d (page_addr n) sz t = Inl (Panic ''copyuvm: page not present'')" for f
    using lt q l by (subst copyuvm_loop.simps) (simp add: walk_present lookup_def Let_def split: if_splits)
  then show ?thesis using t(1) by simp
qed

section \<open>Properties\<close>

text \<open>
  C20. \<^verbatim>\<open>mappages\<close> maps exactly its range. Called on whole pages that are not mapped yet, it never
  panics: it returns 0 and then every page of the range translates to its physical page with
  the given permissions while every other translation is as before, or it returns -1 because
  a page table was missing and no page was free, and then no translation outside the range
  has changed. Either way the table pages stay apart from each other and from the free pages.
\<close>

theorem mappages_maps:
  assumes "kmem_ready c s" "vspace s fs d" "4096 dvd unat va" "unat sz = Suc n * 4096"
    "unat va + Suc n * 4096 \<le> 2 ^ 32"
    "\<forall>vb. unat va \<le> unat vb \<and> unat vb < unat va + Suc n * 4096 \<longrightarrow> lookup (mem s) d vb = None"
  shows "\<exists>r t gs. mappages d va sz pa perm s = Inr (r, t) \<and> vspace t gs d \<and> same_rest s t \<and>
     (r = 0 \<and> (\<forall>vb. lookup (mem t) d vb =
          (if unat va \<le> unat vb \<and> unat vb < unat va + Suc n * 4096
           then Some ((pa + (PGROUNDDOWN vb - va)) OR perm OR PTE_P) else lookup (mem s) d vb))
      \<or> r = -1 \<and> gs = [] \<and>
        (\<forall>vb. unat vb < unat va \<or> unat va + Suc n * 4096 \<le> unat vb \<longrightarrow> lookup (mem t) d vb = lookup (mem s) d vb))"
proof -
  have none: "\<And>vb. unat va \<le> unat vb \<Longrightarrow> unat vb < unat va + Suc n * 4096 \<Longrightarrow> lookup (mem s) d vb = None"
    using assms(6) by simp
  obtain r t gs where m: "mappages d va sz pa perm s = Inr (r, t)" "map_result d s fs va (Suc n) pa perm r t gs"
    using none by (rule mappages_ok[OF assms(1-5)])
  have "evolves d s fs t gs" using m(2) by (simp add: map_result_def)
  then have "vspace t gs d" "same_rest s t" by (simp_all add: evolves_def)
  moreover have "lookup (mem t) d = mapped va (Suc n) pa perm (lookup (mem s) d) \<Longrightarrow> \<forall>vb. lookup (mem t) d vb =
          (if unat va \<le> unat vb \<and> unat vb < unat va + Suc n * 4096
           then Some ((pa + (PGROUNDDOWN vb - va)) OR perm OR PTE_P) else lookup (mem s) d vb)"
    by (simp add: mapped_def)
  ultimately show ?thesis using m unfolding map_result_def by blast
qed

text \<open>
  C19. Forking copies the address space. With enough free pages, \<^verbatim>\<open>copyuvm\<close> on a parent whose
  \<open>n\<close> pages below \<^verbatim>\<open>sz\<close> are all mapped returns a new directory in which the kernel part is the
  one every process has, page \<open>i\<close> of the user part is mapped with the parent's permissions to
  a page of its own that holds the same bytes, and nothing else is mapped. The \<open>n\<close> pages are
  distinct, they and the new tables were free before, and no other memory has changed.
\<close>

theorem copyuvm_copies:
  assumes "kmem_ready c s" "kmem_inv s fs" "kdata_ok kdata" "parent_ok (kend s) (mem s) P n (set fs)"
    "unat sz \<le> n * 4096" "n * 4096 < unat sz + 4096" "n * 4096 \<le> 0x80000000" "1025 + n \<le> length fs"
  shows "\<exists>d t vs. copyuvm kdata P sz s = Inr (d, t) \<and> d \<in> set fs \<and> length vs = n \<and> distinct vs \<and> set vs \<subseteq> set fs \<and>
     same_outside (set fs) (mem s) (mem t) \<and>
     (\<forall>i<n. lookup (mem t) d (page_addr i) = Some (V2P (vs ! i) OR PTE_FLAGS (uentry (mem s) P i) OR PTE_P) \<and>
        (\<forall>k. unat k < 4096 \<longrightarrow> mem t (vs ! i + k) = mem s (source_page (mem s) P i + k))) \<and>
     (\<forall>va. n * 4096 \<le> unat va \<longrightarrow> lookup (mem t) d va = kernel_map kdata va)"
proof -
  obtain d t hs vs where t: "copyuvm kdata P sz s = copyuvm_loop (unat sz div 4096 + 1 - n) P d (page_addr n) sz t"
    "copy_inv c kdata (mem s) P (set fs) d n t hs vs" "d \<in> set fs" "kend t = kend s"
    by (rule copyuvm_upto[OF assms(1-4,6-8)])
  have "same_outside (set fs) (mem s) (mem t)"
    using t(2) same_outside_mono[of "own_pages (mem t) d \<union> set vs" "mem s" "mem t"] by (auto simp: copy_inv_def)
  moreover have "lookup (mem t) d va = kernel_map kdata va" if "n * 4096 \<le> unat va" for va
    using that t(2) by (cases "va < KERNBASE") (auto simp: copy_inv_def kernel_map_def)
  moreover have "copyuvm kdata P sz s = Inr (d, t)"
  proof -
    have "unat (page_addr n) = n * 4096" using assms(7) by (intro unat_page_addr) simp
    then have "\<not> page_addr n < sz" using assms(5) by (simp add: word_less_nat_alt)
    then show ?thesis using t(1) by (subst (asm) copyuvm_loop.simps) simp
  qed
  ultimately show ?thesis using t(2,3) by (intro exI[of _ d] exI[of _ t] exI[of _ vs]) (auto simp: copy_inv_def)
qed

section \<open>Examples\<close>

text \<open>A machine with 6000 free pages, and one of its address spaces with a single user page.\<close>

lemma pages_length [simp]: "length (pages p n) = n"
  by (simp add: pages_def)

lemma ex_free_pages:
  fixes b :: kphys
  assumes "kmem_ready 0 b" "kmem_inv b []" "kend b = 0x80200000"
  shows "\<exists>(s :: kphys) fs. kmem_ready 0 s \<and> kmem_inv s fs \<and> length fs = 6000 \<and> core s = core b"
proof -
  have p: "PGROUNDUP 0x80400000 = 0x80400000" by (simp add: PGROUNDUP_def PGSIZE_def)
  from freerange_pages[OF assms(1,2), of "0x80400000" "0x81B70000" 6000] obtain t :: kphys where
    "kmem_inv t (rev (pages (0x80400000) 6000) @ [])" "kmem_ready 0 t" "core t = core b"
    by (auto simp: p assms(3) KERNBASE_def)
  then show ?thesis by (intro exI[of _ t] exI[of _ "rev (pages (0x80400000) 6000)"]) simp
qed

lemma user_entry:
  assumes "page_ok e v"
  shows "P2V (PTE_ADDR (V2P v OR (PTE_W OR PTE_U) OR PTE_P)) = v"
proof -
  have f: "(PTE_W OR PTE_U) OR PTE_P = 7" by (simp add: PTE_P_def PTE_W_def PTE_U_def)
  have "(7 :: u32) = mask 3" by (simp add: mask_eq_exp_minus_1)
  then have "\<not> bit (7 :: u32) n" if "12 \<le> n" for n using that by (simp only: bit_mask_iff) simp
  moreover have "4096 dvd unat (V2P v)"
    using page_aligned[OF assms] by (simp add: V2P_def KERNBASE_def unat_sub_if')
  ultimately show ?thesis using PTE_ADDR_flags[of "V2P v" 7] by (simp add: f P2V_def V2P_def)
qed

lemma ex_parent:
  fixes b :: kphys
  assumes "kmem_ready 0 b" "kmem_inv b []" "kend b = 0x80200000"
  shows "\<exists>(s :: kphys) fs P. kmem_ready 0 s \<and> vspace s fs P \<and> 3000 \<le> length fs \<and> core s = core b \<and>
     parent_ok (kend s) (mem s) P 1 (set fs) \<and>
     (\<forall>vb. 4096 \<le> unat vb \<longrightarrow> lookup (mem s) P vb = kernel_map 0x80108000 vb)"
proof -
  obtain s0 :: kphys and fs where s0: "kmem_ready 0 s0" "kmem_inv s0 fs" "length fs = 6000" "core s0 = core b" using ex_free_pages[OF assms] by auto
  then obtain P fs1 where fs: "fs = P # fs1" by (cases fs) auto
  have kd: "kdata_ok 0x80108000" by (simp add: kdata_ok_def KERNLINK_def EXTMEM_def page_defs)
  have "1024 \<le> length fs1" using s0(3) fs by simp
  from setupkvm_ok[OF s0(1) s0(2)[unfolded fs] this kd] obtain s1 :: kphys and gs where
    "setupkvm 0x80108000 s0 = Inr (P, s1)" and s1: "kmem_ready 0 s1" "vspace s1 gs P" and "kend s1 = kend s0" and r1: "same_rest s0 s1"
    and l1: "lookup (mem s1) P = kernel_map 0x80108000" and "set gs \<subseteq> set fs1"
    "own_pages (mem s1) P \<union> set gs \<subseteq> insert P (set fs1)" "same_outside (own_pages (mem s1) P) (mem s0) (mem s1)"
    and n1: "length gs + card (tables (mem s1) P) = length fs1" .
  have "4900 < length gs" using n1 s0(3) fs card_tables[of "mem s1" P] by simp
  then obtain v hs where gs: "gs = v # hs" "4900 \<le> length hs" by (cases gs) auto
  have v: "page_ok (kend s1) v" "v \<notin> set hs" "kmem_inv s1 (v # hs)" "v \<notin> own_pages (mem s1) P"
    using s1(2) gs by (auto simp: vspace_def kmem_inv_def)
  from kalloc_step[OF s1(1) v(3)] obtain s2 :: kphys where
    "kalloc s1 = Inr (v, s2)" and s2: "kmem_inv s2 hs" "same_rest s1 s2" "mem s2 = mem s1" "kend s2 = kend s1" "kmem_ready 0 s2" .
  have vs2: "vspace s2 hs P" using s1(2) s2 gs by (auto simp: vspace_def)
  have none: "lookup (mem s2) P vb = None" if "unat (0 :: u32) \<le> unat vb" "unat vb < unat (0 :: u32) + Suc 0 * 4096" for vb
    using that l1 s2(3) by (simp add: kernel_map_def KERNBASE_def word_less_nat_alt)
  have en: "1024 \<le> length hs + card (tables (mem s2) P)" using gs(2) by simp
  have pre: "4096 dvd unat (0 :: u32)" "unat (4096 :: u32) = Suc 0 * 4096" "unat (0 :: u32) + Suc 0 * 4096 \<le> 2 ^ 32" by simp_all
  obtain t :: kphys and ks where t: "evolves P s2 hs t ks" "kmem_ready 0 t"
    "lookup (mem t) P = mapped 0 (Suc 0) (V2P v) (PTE_W OR PTE_U) (lookup (mem s2) P)"
    by (rule mappages_enough[OF s2(5) vs2 pre en none, where pa = "V2P v" and perm = "PTE_W OR PTE_U"])
  have E: "vspace t ks P" "set ks \<subseteq> set hs" "kend t = kend s1"
    "length ks + card (tables (mem t) P) = length hs + card (tables (mem s2) P)"
    using t(1) s2(4) by (auto simp: evolves_def)
  have l: "lookup (mem t) P 0 = Some (V2P v OR (PTE_W OR PTE_U) OR PTE_P)"
    unfolding t(3) by (simp add: mapped_def PGROUNDDOWN_def)
  then have "source_page (mem t) P 0 = v"
    using user_entry[OF v(1)] by (simp add: source_page_def uentry_def)
  then have "parent_ok (kend t) (mem t) P 1 (set ks)"
    using E v(1,2) l by (auto simp: parent_ok_def vspace_def)
  moreover have "3000 \<le> length ks" using E(4) gs(2) card_tables[of "mem t" P] by simp
  moreover have "core t = core b"
    using t(1) s2(2) r1 s0(4) by (simp add: evolves_def same_rest_def)
  moreover have "lookup (mem t) P vb = kernel_map 0x80108000 vb" if "4096 \<le> unat vb" for vb
    using that unfolding t(3) s2(3) l1 by (simp add: mapped_def)
  ultimately show ?thesis using t(2) E(1) by blast
qed

theorem copyuvm_copies_witness:
  "\<exists>(s :: kphys) P d t v. copyuvm 0x80108000 P 4096 s = Inr (d, t) \<and>
     lookup (mem t) d 0 = Some (V2P v OR PTE_FLAGS (uentry (mem s) P 0) OR PTE_P) \<and>
     mem t (v + 5) = mem s (source_page (mem s) P 0 + 5) \<and>
     lookup (mem t) d 0x80000000 = Some (PTE_W OR PTE_P) \<and> lookup (mem t) d 4096 = None"
proof -
  obtain s :: kphys and fs P where s: "kmem_ready 0 s" "kmem_inv s fs" "3000 \<le> length fs" "parent_ok (kend s) (mem s) P 1 (set fs)"
    using ex_parent[OF boot_kphys_ok] by (auto simp: vspace_def)
  have kd: "kdata_ok 0x80108000" by (simp add: kdata_ok_def KERNLINK_def EXTMEM_def page_defs)
  from copyuvm_copies[OF s(1,2) kd s(4), of 4096] s(3) obtain d t vs where
    t: "copyuvm 0x80108000 P 4096 s = Inr (d, t)"
      "\<forall>i<1. lookup (mem t) d (page_addr i) = Some (V2P (vs ! i) OR PTE_FLAGS (uentry (mem s) P i) OR PTE_P) \<and>
        (\<forall>k. unat k < 4096 \<longrightarrow> mem t (vs ! i + k) = mem s (source_page (mem s) P i + k))"
      "\<forall>va. 1 * 4096 \<le> unat va \<longrightarrow> lookup (mem t) d va = kernel_map 0x80108000 va"
    by auto
  have "lookup (mem t) d 0x80000000 = Some (PTE_W OR PTE_P)" "lookup (mem t) d 4096 = None"
    using t(3) by (simp_all add: kernel_map_def page_defs KERNLINK_def EXTMEM_def PGROUNDDOWN_def)
  then show ?thesis using t(1,2) by (intro exI[of _ s] exI[of _ P] exI[of _ d] exI[of _ t] exI[of _ "vs ! 0"]) simp
qed

lemma boot_space: "vspace boot_kphys2 [0x80202000, 0x80201000] 0x80203000"
  "lookup (mem boot_kphys2) 0x80203000 va = None"
proof -
  have so: "same_outside {0x80202000} (\<lambda>_. 0) (mem boot_kphys2)"
    using write32_same_outside[of "0x80202000" "\<lambda>_. 0" "0x80201000"]
    by (simp add: boot_kphys2_def PGROUNDDOWN_def PGSIZE_def)
  have tab: "tab (mem boot_kphys2) 0x80203000 i = None" if "unat i < 1024" for i
    using tab_cong[OF so _ _ that, of "0x80203000"] by (simp add: tab_def read32_def)
  then have "tables (mem boot_kphys2) 0x80203000 = {}" by (auto simp: tables_def)
  then show "vspace boot_kphys2 [0x80202000, 0x80201000] 0x80203000"
    using boot_kphys2_ok(2) tab
    by (auto simp: vspace_def space_def own_pages_def page_ok_def boot_kphys2_def boot_kphys_ok(3) page_defs)
  show "lookup (mem boot_kphys2) 0x80203000 va = None" using tab[OF PDX_bound] by (simp add: lookup_def)
qed

theorem mappages_maps_witness:
  "\<exists>r t gs. mappages 0x80203000 0x1000 0x2000 0x5000 PTE_W boot_kphys2 = Inr (r, t) \<and> vspace t gs 0x80203000 \<and>
     (r = 0 \<and> lookup (mem t) 0x80203000 0x2004 = Some (0x6000 OR PTE_W OR PTE_P) \<and> lookup (mem t) 0x80203000 0x3000 = None
      \<or> r = -1 \<and> gs = [] \<and> lookup (mem t) 0x80203000 0x3000 = None)"
proof -
  from mappages_maps[OF boot_kphys2_ok(1) boot_space(1), of "0x1000" "0x2000" 1 "0x5000" PTE_W] boot_space(2)
  obtain r t gs where t: "mappages 0x80203000 0x1000 0x2000 0x5000 PTE_W boot_kphys2 = Inr (r, t)" "vspace t gs 0x80203000"
    and o: "r = 0 \<and> (\<forall>vb. lookup (mem t) 0x80203000 vb =
          (if unat (0x1000 :: u32) \<le> unat vb \<and> unat vb < unat (0x1000 :: u32) + Suc 1 * 4096
           then Some ((0x5000 + (PGROUNDDOWN vb - 0x1000)) OR PTE_W OR PTE_P) else None))
      \<or> r = -1 \<and> gs = [] \<and>
        (\<forall>vb. unat vb < unat (0x1000 :: u32) \<or> unat (0x1000 :: u32) + Suc 1 * 4096 \<le> unat vb \<longrightarrow> lookup (mem t) 0x80203000 vb = None)"
    by auto
  from o have "r = 0 \<and> lookup (mem t) 0x80203000 0x2004 = Some (0x6000 OR PTE_W OR PTE_P) \<and> lookup (mem t) 0x80203000 0x3000 = None
      \<or> r = -1 \<and> gs = [] \<and> lookup (mem t) 0x80203000 0x3000 = None"
    by (elim disjE) (simp_all add: PGROUNDDOWN_def PGSIZE_def)
  then show ?thesis using t by blast
qed

end
