(* ===== verification/Shmem.thy ===== *)
theory Shmem
  imports Console AddressCopy
begin

text \<open>
  Shared memory pages (the end of \<^verbatim>\<open>vm.c\<close>). The table of shared pages is the field \<open>shmem\<close>. What a
  process gets from \<^verbatim>\<open>openshmem\<close>, and three ways in which the error paths and \<^verbatim>\<open>closeshmem\<close> go wrong.
\<close>

section \<open>State and operations\<close>

definition NSHPAGE :: nat where "NSHPAGE = 64"

record shpage =
  shid :: int
  n_access :: int
  physicalAddr :: u32

record kshm = kconsole +
  shmem :: "shpage list"

definition shpage_upd :: "nat \<Rightarrow> (shpage \<Rightarrow> shpage) \<Rightarrow> 'a kshm_scheme \<Rightarrow> 'a kshm_scheme" where
  "shpage_upd i f s = s\<lparr>shmem := (shmem s)[i := f (shmem s ! i)]\<rparr>"

definition the_proc :: "nat option \<Rightarrow> nat kres" where
  "the_proc p = (case p of None \<Rightarrow> Inl (Fault ''null process'') | Some q \<Rightarrow> Inr q)"

text \<open>The failure value of a function that returns an address.\<close>

definition MINUS1 :: u32 where "MINUS1 = 0xFFFFFFFF"

definition openshmem :: "int \<Rightarrow> 'a kshm_scheme \<Rightarrow> (u32 \<times> 'a kshm_scheme) kres" where
  "openshmem ident s =
     kbind (myproc s) (\<lambda>(p, s0).
     kbind (acquire ShmemLock s0) (\<lambda>s1.
     case find_idx (\<lambda>g. shid g = ident) (shmem s1) of
       Some i \<Rightarrow>
         let s2 = shpage_upd i (\<lambda>g. g\<lparr>n_access := wrap32 (n_access g + 1)\<rparr>) s1 in
         kbind (the_proc p) (\<lambda>q.
         let vaddr = PGROUNDUP (sz (ptable s2 ! q)) in
         kbind (mappages (pgdir (ptable s2 ! q)) vaddr PGSIZE (physicalAddr (shmem s2 ! i)) (PTE_W OR PTE_U) s2) (\<lambda>(r, s3).
         if r < 0 then Inr (MINUS1, s3)
         else kbind (release ShmemLock (pupd q (\<lambda>x. x\<lparr>shmemaddr := vaddr, sz := sz x + PGSIZE\<rparr>) s3)) (\<lambda>s4.
           Inr (vaddr, s4))))
     | None \<Rightarrow>
        (case find_idx (\<lambda>g. shid g = 0) (shmem s1) of
           None \<Rightarrow>
             kbind (cprintf (''shared memory: pages are full'' @ [CHR 0x0A]) [] s1) (\<lambda>s2.
             kbind (release ShmemLock s2) (\<lambda>s3. Inr (MINUS1, s3)))
         | Some i \<Rightarrow>
             kbind (kalloc (shpage_upd i (\<lambda>g. g\<lparr>shid := ident\<rparr>) s1)) (\<lambda>(paddr, s2).
             if paddr = 0 then
               kbind (cprintf (''shared memory: out of memory'' @ [CHR 0x0A]) [] s2) (\<lambda>s3.
               kbind (release ShmemLock s3) (\<lambda>s4. Inr (MINUS1, s4)))
             else
               kbind (the_proc p) (\<lambda>q.
               let s3 = shpage_upd i (\<lambda>g. g\<lparr>physicalAddr := V2P paddr\<rparr>) (s2\<lparr>mem := memset (mem s2) paddr 0 PGSIZE\<rparr>);
                   vaddr = PGROUNDUP (sz (ptable s3 ! q))
               in kbind (mappages (pgdir (ptable s3 ! q)) vaddr PGSIZE (physicalAddr (shmem s3 ! i)) (PTE_W OR PTE_U) s3) (\<lambda>(r, s4).
                  if r < 0 then Inr (MINUS1, s4)
                  else
                    let s5 = shpage_upd i (\<lambda>g. g\<lparr>n_access := wrap32 (n_access g + 1)\<rparr>) s4 in
                    kbind (release ShmemLock (pupd q (\<lambda>x. x\<lparr>shmemaddr := vaddr, sz := sz x + PGSIZE\<rparr>) s5)) (\<lambda>s6.
                    Inr (vaddr, s6))))))))"

definition closeshmem :: "int \<Rightarrow> 'a kshm_scheme \<Rightarrow> (int \<times> 'a kshm_scheme) kres" where
  "closeshmem ident s =
     kbind (myproc s) (\<lambda>(p, s0).
     kbind (acquire ShmemLock s0) (\<lambda>s1.
     case find_idx (\<lambda>g. shid g = ident) (shmem s1) of
       Some i \<Rightarrow>
         let s2 = shpage_upd i (\<lambda>g. g\<lparr>n_access := wrap32 (n_access g - 1)\<rparr>) s1 in
         kbind (the_proc p) (\<lambda>q.
         let a = PGROUNDUP (shmemaddr (ptable s2 ! q)) in
         kbind (walkpgdir (pgdir (ptable s2 ! q)) a False s2) (\<lambda>(pte, s3).
         if pte = 0 then Inl (Fault ''null pte'')
         else
           let s4 = s3\<lparr>mem := write32 (mem s3) pte 0\<rparr>;
               s5 = (if n_access (shmem s4 ! i) = 0 then shpage_upd i (\<lambda>g. g\<lparr>shid := 0\<rparr>) s4 else s4)
           in kbind (release ShmemLock s5) (\<lambda>s6. Inr (0, s6))))
     | None \<Rightarrow>
         kbind (release ShmemLock s1) (\<lambda>s2.
         kbind (cprintf (''No shared memory with this ID.'' @ [CHR 0x0A]) [] s2) (\<lambda>s3. Inr (-1, s3)))))"

section \<open>Lemmas\<close>

lemma kshm_core [simp]: "core (shmem_update f s) = core s" "core (shpage_upd i g s) = core s"
  by (simp_all add: core_def shpage_upd_def)

lemma kshm_frame [simp]:
  "shmem (acquired l c s) = shmem s" "shmem (released l c s) = shmem s" "shmem (touched c s) = shmem s"
  "shmem (printed c out s) = shmem s" "shmem (kmem_step c m h s) = shmem s" "shmem (pupd i f s) = shmem s"
  "ptable (shpage_upd i g s) = ptable s" "mem (shpage_upd i g s) = mem s" "kend (shpage_upd i g s) = kend s"
  "freelist (shpage_upd i g s) = freelist s" "use_lock (shpage_upd i g s) = use_lock s"
  "shmem (shpage_upd i g s) = (shmem s)[i := g (shmem s ! i)]"
  by (simp_all add: acquired_def released_def touched_def printed_def kmem_step_def pupd_def shpage_upd_def)

lemma ptable_rest: "same_rest s t \<Longrightarrow> ptable t = ptable s"
  by (cases s; cases t) (simp add: same_rest_def)

lemma shmem_rest: "same_rest s t \<Longrightarrow> shmem t = shmem s"
  by (cases s; cases t) (simp add: same_rest_def)

lemma rest_core: "same_rest s t \<Longrightarrow> core t = core s"
  by (simp add: same_rest_def)

lemma vspace_cong:
  "mem t = mem s \<Longrightarrow> kend t = kend s \<Longrightarrow> freelist t = freelist s \<Longrightarrow> vspace t fs d = vspace s fs d"
  by (simp add: vspace_def kmem_inv_def)

definition shm_ready :: "nat \<Rightarrow> nat \<Rightarrow> 'a kshm_scheme \<Rightarrow> bool" where
  "shm_ready c q s \<longleftrightarrow> cpu_ok c (core s) \<and> lock_free ShmemLock (core s) \<and> lock_free KmemLock (core s) \<and>
     cur c (core s) = Some q \<and> q < length (ptable s)"

text \<open>The state inside the critical section.\<close>

definition shm_enter :: "nat \<Rightarrow> 'a kshm_scheme \<Rightarrow> 'a kshm_scheme" where
  "shm_enter c s = acquired ShmemLock c (touched c s)"

lemma shm_enter_simps [simp]:
  "ptable (shm_enter c s) = ptable s" "shmem (shm_enter c s) = shmem s" "mem (shm_enter c s) = mem s"
  "kend (shm_enter c s) = kend s" "freelist (shm_enter c s) = freelist s"
  by (simp_all add: shm_enter_def acquired_def touched_def)

lemma shm_enter_core: "shm_ready c q s \<Longrightarrow> core (shm_enter c s) = take_lock ShmemLock c (core s)"
  by (simp add: shm_enter_def shm_ready_def)

lemma shm_enter_ok:
  assumes "shm_ready c q s"
  shows "myproc s = Inr (Some q, touched c s)" "acquire ShmemLock (touched c s) = Inr (shm_enter c s)"
  using assms by (simp_all add: shm_ready_def myproc_cur[of c] acquire_ok[of c] shm_enter_def)

lemma shm_section:
  assumes "shm_ready c q s" "core t = core (shm_enter c s)"
  shows "kmem_ready c t" "release ShmemLock t = Inr (released ShmemLock c t)" "core (released ShmemLock c t) = core s"
proof -
  have t: "core t = take_lock ShmemLock c (core s)" using assms by (simp add: shm_enter_core)
  have ok: "cpu_ok c (core s)" "lock_free ShmemLock (core s)" "lock_free KmemLock (core s)"
    using assms(1) by (simp_all add: shm_ready_def)
  then have h: "cpu_ok c (core t)" "lock_held ShmemLock c (core t)" unfolding t by simp_all
  show "kmem_ready c t" unfolding kmem_ready_def t using ok by simp
  show "release ShmemLock t = Inr (released ShmemLock c t)" using h by (rule release_ok)
  show "core (released ShmemLock c t) = core s" using h ok by (simp add: t)
qed

text \<open>Inside the critical section a call of \<^verbatim>\<open>openshmem\<close> or \<^verbatim>\<open>closeshmem\<close> on this CPU panics.\<close>

lemma shm_held:
  assumes "shm_ready c q s" "core t = core (shm_enter c s)"
  shows "openshmem ident t = Inl (Panic ''acquire'')" "closeshmem ident t = Inl (Panic ''acquire'')"
    "lock_held ShmemLock c (core t)"
proof -
  have t: "core t = take_lock ShmemLock c (core s)" using assms by (simp add: shm_enter_core)
  have h: "cpu_ok c (core t)" "lock_held ShmemLock c (core t)"
    using assms(1) unfolding t by (simp_all add: shm_ready_def)
  then have "acquire ShmemLock (touched c t) = Inl (Panic ''acquire'')"
    by (intro acquire_own) simp_all
  then show "openshmem ident t = Inl (Panic ''acquire'')" "closeshmem ident t = Inl (Panic ''acquire'')"
    using h(1) by (simp_all add: openshmem_def closeshmem_def myproc_cur[of c])
  show "lock_held ShmemLock c (core t)" by (rule h)
qed

lemma shm_page:
  assumes "unat (sz p) < 0x80000000"
  shows "4096 dvd unat (PGROUNDUP (sz p))" "unat (PGROUNDUP (sz p)) + Suc 0 * 4096 \<le> 2 ^ 32" "unat PGSIZE = Suc 0 * 4096"
proof -
  have u: "unat (PGROUNDUP (sz p)) = (unat (sz p) + 4095) div 4096 * 4096" using assms by (intro unat_PGROUNDUP) simp
  then show "4096 dvd unat (PGROUNDUP (sz p))" by simp
  have "(unat (sz p) + 4095) div 4096 * 4096 \<le> unat (sz p) + 4095" by (rule div_times_less_eq_dividend)
  then show "unat (PGROUNDUP (sz p)) + Suc 0 * 4096 \<le> 2 ^ 32" using u assms by simp
qed (simp add: PGSIZE_def)

lemma map_shared:
  assumes "shm_ready c q s" "vspace s2 fs d" "core s2 = core (shm_enter c s)" "unat (sz p) < 0x80000000"
    "\<forall>vb. PGROUNDDOWN vb = PGROUNDUP (sz p) \<longrightarrow> lookup (mem s2) d vb = None" "1024 \<le> length fs + card (tables (mem s2) d)"
  obtains t gs where "mappages d (PGROUNDUP (sz p)) PGSIZE pa perm s2 = Inr (0, t)" "evolves d s2 fs t gs"
    "lookup (mem t) d = (\<lambda>vb. if PGROUNDDOWN vb = PGROUNDUP (sz p) then Some (pa OR perm OR PTE_P) else lookup (mem s2) d vb)"
proof -
  let ?v = "PGROUNDUP (sz p)"
  note pg = shm_page[OF assms(4)]
  have a: "PGROUNDDOWN ?v = ?v" using pg(1) by (simp add: word_unat_eq_iff unat_PGROUNDDOWN)
  have none: "lookup (mem s2) d vb = None" if "unat ?v \<le> unat vb" "unat vb < unat ?v + Suc 0 * 4096" for vb
    using that assms(5) page_above[OF pg(1), of vb] pg(2) by simp
  note ready = shm_section(1)[OF assms(1,3)]
  obtain t gs where "mappages d ?v PGSIZE pa perm s2 = Inr (0, t)" "evolves d s2 fs t gs" "kmem_ready c t"
    "lookup (mem t) d = mapped ?v (Suc 0) pa perm (lookup (mem s2) d)"
    by (rule mappages_enough[OF ready assms(2) pg(1,3,2) assms(6) none])
  then show ?thesis using that mapped_1[OF pg(1)] pg(2) a by simp
qed

section \<open>Properties\<close>

text \<open>
  C21. Opening a shared page whose identifier is in the table attaches that page: the next page
  of the caller's address space translates to the physical page in the table entry, writable by
  the user, every other translation is as before, the process grows by a page, the entry's
  count goes up, and the locks are as they were. Two processes that open one identifier thus
  share one physical page. The entry is the first with that identifier, so opening identifier
  0 attaches the page recorded in an unused entry.
\<close>

theorem openshmem_attaches:
  assumes "shm_ready c q s" "find_idx (\<lambda>g. shid g = ident) (shmem s) = Some i" "ptable s ! q = p"
    "vspace s fs (pgdir p)" "unat (sz p) < 0x80000000"
    "\<forall>vb. PGROUNDDOWN vb = PGROUNDUP (sz p) \<longrightarrow> lookup (mem s) (pgdir p) vb = None"
    "1024 \<le> length fs + card (tables (mem s) (pgdir p))"
  shows "\<exists>t. openshmem ident s = Inr (PGROUNDUP (sz p), t) \<and> core t = core s \<and>
     lookup (mem t) (pgdir p) = (\<lambda>vb. if PGROUNDDOWN vb = PGROUNDUP (sz p)
       then Some (physicalAddr (shmem s ! i) OR (PTE_W OR PTE_U) OR PTE_P) else lookup (mem s) (pgdir p) vb) \<and>
     ptable t = (ptable s)[q := p\<lparr>shmemaddr := PGROUNDUP (sz p), sz := sz p + PGSIZE\<rparr>] \<and>
     shmem t = (shmem s)[i := (shmem s ! i)\<lparr>n_access := wrap32 (n_access (shmem s ! i) + 1)\<rparr>]"
proof -
  define s2 where "s2 = shpage_upd i (\<lambda>g. g\<lparr>n_access := wrap32 (n_access g + 1)\<rparr>) (shm_enter c s)"
  have i: "i < length (shmem s)" using assms(2) by (rule find_idx_SomeD)
  have v2: "vspace s2 fs (pgdir p)" using assms(4) vspace_cong[of s2 s] by (simp add: s2_def)
  have c2: "core s2 = core (shm_enter c s)" and m2: "mem s2 = mem s" by (simp_all add: s2_def)
  obtain t gs where
    t: "mappages (pgdir p) (PGROUNDUP (sz p)) PGSIZE (physicalAddr (shmem s ! i)) (PTE_W OR PTE_U) s2 = Inr (0, t)"
      "evolves (pgdir p) s2 fs t gs"
      "lookup (mem t) (pgdir p) = (\<lambda>vb. if PGROUNDDOWN vb = PGROUNDUP (sz p)
         then Some (physicalAddr (shmem s ! i) OR (PTE_W OR PTE_U) OR PTE_P) else lookup (mem s2) (pgdir p) vb)"
    using assms(5-7) by (elim map_shared[OF assms(1) v2 c2, rotated 3]) (simp_all add: s2_def)
  have r: "same_rest s2 t" using t(2) by (simp add: evolves_def)
  let ?t = "pupd q (\<lambda>x. x\<lparr>shmemaddr := PGROUNDUP (sz p), sz := sz x + PGSIZE\<rparr>) t"
  have "core ?t = core (shm_enter c s)" using rest_core[OF r] c2 by simp
  note sec = shm_section[OF assms(1) this]
  have "openshmem ident s = Inr (PGROUNDUP (sz p), released ShmemLock c ?t)"
    using assms(2,3) i shm_enter_ok[OF assms(1)] t(1) sec(2)
    by (simp add: openshmem_def s2_def[symmetric] the_proc_def Let_def) (simp add: s2_def)
  then show ?thesis
    using sec(3) t(3)[unfolded m2] ptable_rest[OF r] shmem_rest[OF r] assms(3)
    by (intro exI[of _ "released ShmemLock c ?t"]) (simp add: s2_def pupd_def)
qed


text \<open>
  C22. Closing a shared page leaves a hole below \<^verbatim>\<open>sz\<close>. When the process has the page attached at
  page \<open>n\<close> and every page before it is mapped, \<^verbatim>\<open>closeshmem\<close> returns 0 with that translation
  removed and \<^verbatim>\<open>sz\<close> unchanged, and copying the address space (the next \<^verbatim>\<open>fork\<close>) panics.
\<close>

theorem closeshmem_breaks_fork:
  assumes "shm_ready c q s" "find_idx (\<lambda>g. shid g = ident) (shmem s) = Some i" "ptable s ! q = p"
    "kmem_inv s fs" "parent_ok (kend s) (mem s) (pgdir p) n (set fs)" "1025 + n \<le> length fs" "kdata_ok kdata"
    "shmemaddr p = page_addr n" "n * 4096 < unat (sz p)" "n * 4096 < 0x80000000"
    "lookup (mem s) (pgdir p) (page_addr n) \<noteq> None"
  shows "\<exists>t. closeshmem ident s = Inr (0, t) \<and> core t = core s \<and> ptable t = ptable s \<and>
     lookup (mem t) (pgdir p) (page_addr n) = None \<and>
     copyuvm kdata (pgdir p) (sz p) t = Inl (Panic ''copyuvm: page not present'')"
proof -
  let ?d = "pgdir p" and ?a = "page_addr n"
  define s2 where "s2 = shpage_upd i (\<lambda>g. g\<lparr>n_access := wrap32 (n_access g - 1)\<rparr>) (shm_enter c s)"
  have i: "i < length (shmem s)" using assms(2) by (rule find_idx_SomeD)
  have u: "unat (page_addr j) = j * 4096" if "j \<le> n" for j using that assms(10) by (intro unat_page_addr) simp
  have a: "PGROUNDUP ?a = ?a" using u[of n] assms(10) by (simp add: word_unat_eq_iff unat_PGROUNDUP)
  have sp: "space (kend s) (mem s) ?d" using assms(5) by (simp add: parent_ok_def)
  from assms(11) obtain tb where tb: "tab (mem s) ?d (PDX ?a) = Some tb" by (auto simp: lookup_def split: option.splits)
  then have tbt: "tb \<in> tables (mem s) ?d" using PDX_bound by (auto simp: tables_def)
  then have pok: "page_ok (kend s) tb" using sp by (auto simp: space_def)
  let ?m = "write32 (mem s) (tb + 4 * PTX ?a) 0"
  note se = set_entry[OF sp tb, of 0, simplified]
  have f2: "ptable s2 = ptable s" "mem s2 = mem s" by (simp_all add: s2_def)
  define s4 where "s4 = s2\<lparr>mem := ?m\<rparr>"
  define s5 where "s5 = (if n_access (shmem s4 ! i) = 0 then shpage_upd i (\<lambda>g. g\<lparr>shid := 0\<rparr>) s4 else s4)"
  have f5: "core s5 = core (shm_enter c s)" "mem s5 = ?m" "ptable s5 = ptable s" "kend s5 = kend s" "freelist s5 = freelist s"
    by (simp_all add: s5_def s4_def s2_def)
  note sec = shm_section[OF assms(1) f5(1)]
  define t where "t = released ShmemLock c s5"
  have w: "walkpgdir ?d ?a False s2 = Inr (tb + 4 * PTX ?a, s2)"
    using tb by (intro walk_present) (simp add: s2_def)
  have "closeshmem ident s = Inr (0, t)"
    using shm_enter_ok[OF assms(1)] entry_nonzero[OF pok PTX_bound, of ?a] sec(2)
    by (simp add: closeshmem_def assms(2) s2_def[symmetric] the_proc_def Let_def f2 assms(3,8) a w
        s4_def[symmetric] t_def)
       (cases "n_access (shmem s2 ! i) = 0"; simp add: s5_def s4_def)
  have ft: "mem t = ?m" "kend t = kend s" "freelist t = freelist s" "ptable t = ptable s" "core t = core s"
    using f5 sec(3) by (simp_all add: t_def)
  have lk: "lookup ?m ?d (page_addr j) = lookup (mem s) ?d (page_addr j)" if "j < n" for j
  proof -
    have "PGROUNDDOWN (page_addr j) \<noteq> PGROUNDDOWN ?a" using that u[of j] u[of n] by (simp add: word_unat_eq_iff unat_PGROUNDDOWN)
    then show ?thesis using se(4)[of "page_addr j"] by simp
  qed
  have none: "lookup ?m ?d ?a = None" using se(4)[of ?a] by simp
  have par: "parent_ok (kend t) (mem t) ?d n (set fs)"
    using assms(5) se(2,3) lk unfolding parent_ok_def own_pages_def source_page_def uentry_def ft by simp
  have inv: "kmem_inv t fs"
    using se(1) tbt assms(5) by (intro kmem_inv_cong[OF assms(4), of "{tb}"]) (auto simp: ft parent_ok_def own_pages_def)
  have "kmem_ready c t" using assms(1) by (simp add: kmem_ready_def ft shm_ready_def)
  moreover have "tab (mem t) ?d (PDX ?a) \<noteq> None"
    using tab_cong[OF se(1) _ _ PDX_bound, of ?d ?a] tb tbt sp page_aligned by (auto simp: ft space_def)
  ultimately have "copyuvm kdata ?d (sz p) t = Inl (Panic ''copyuvm: page not present'')"
    using none by (intro copyuvm_missing[OF _ inv assms(7) par assms(9,10,6)]) (simp_all add: ft)
  then show ?thesis using \<open>closeshmem ident s = Inr (0, t)\<close> ft none by (intro exI[of _ t]) simp
qed

section \<open>Examples\<close>

definition boot_console :: console where
  "boot_console = \<lparr>crt = (\<lambda>_. 0), crtpos = 0, uart_out = [], panicked = False, ibuf = replicate 128 0,
     ir = 0, iw = 0, ie = 0, ishift = 0, cbuf = replicate 10 (replicate 128 0), cr = 0, cw = 0,
     cintab = False, ctmpcmd = replicate 128 0, clastused = 0\<rparr>"

text \<open>Process 1 runs with directory \<open>d\<close> and has a page attached at \<open>a\<close>; identifier 7 names page 0x5000.\<close>

definition demo_kshm :: "u32 \<Rightarrow> u32 \<Rightarrow> u32 \<Rightarrow> kshm" where
  "demo_kshm d n a = kconsole.extend
     (ksleep.extend (demo_ksleep\<lparr>ptable := demo_table[1 := (demo_table ! 1)\<lparr>pgdir := d, sz := n, shmemaddr := a\<rparr>]\<rparr>)
        \<lparr>con = boot_console\<rparr>)
     \<lparr>shmem = \<lparr>shid = 7, n_access = 1, physicalAddr = 0x5000\<rparr> # replicate 63 \<lparr>shid = 0, n_access = 0, physicalAddr = 0\<rparr>\<rparr>"

definition on_machine :: "kphys \<Rightarrow> kshm \<Rightarrow> kshm" where
  "on_machine s t = kphys.extend s (kphys.more t)"

lemma on_machine_simps [simp]:
  "mem (on_machine s t) = mem s" "kend (on_machine s t) = kend s" "freelist (on_machine s t) = freelist s"
  "core (on_machine s t) = core s" "ptable (on_machine s t) = ptable t" "shmem (on_machine s t) = shmem t"
  by (simp_all add: on_machine_def kphys.defs core_def) (cases t, simp)+

lemma demo_kshm_simps:
  "ptable (demo_kshm d n a) ! Suc 0 = (demo_table ! Suc 0)\<lparr>pgdir := d, sz := n, shmemaddr := a\<rparr>"
  "length (ptable (demo_kshm d n a)) = 64"
  "find_idx (\<lambda>g. shid g = 7) (shmem (demo_kshm d n a)) = Some 0"
  "shmem (demo_kshm d n a) ! 0 = \<lparr>shid = 7, n_access = 1, physicalAddr = 0x5000\<rparr>"
  by (simp_all add: demo_kshm_def kconsole.defs ksleep.defs demo_table_def)

lemma demo_shm_ready: "core s = core demo_pbase \<Longrightarrow> shm_ready 0 1 (on_machine s (demo_kshm d n a))"
  using demo_kshm_simps(2)[of d n a]
  by (simp add: shm_ready_def demo_pbase_def cpu_ok_def lock_free_def boot_cpu_def boot_lock_def cur_def)

lemma demo_truncate:
  "kmem_ready 0 (kphys.truncate demo_pbase)" "kmem_inv (kphys.truncate demo_pbase) []"
  "kend (kphys.truncate demo_pbase) = 0x80200000" "core (kphys.truncate demo_pbase) = core demo_pbase"
  "mem (kphys.truncate demo_pbase) = (\<lambda>_. 0)"
  by (simp_all add: kphys.defs demo_pbase_def kmem_ready_def kmem_inv_def core_def cpu_ok_def lock_free_def
      boot_cpu_def boot_lock_def)

theorem openshmem_attaches_witness:
  "\<exists>(s :: kshm) P t. openshmem 7 s = Inr (0x1000, t) \<and> lookup (mem t) P 0x1004 = Some (0x5000 OR (PTE_W OR PTE_U) OR PTE_P) \<and>
     sz (ptable t ! 1) = 0x1123"
proof -
  obtain s0 :: kphys and fs P where
    s0: "vspace s0 fs P" "3000 \<le> length fs" "core s0 = core demo_pbase"
      "\<forall>vb. 4096 \<le> unat vb \<longrightarrow> lookup (mem s0) P vb = kernel_map 0x80108000 vb"
    using ex_parent[OF demo_truncate(1-3)] by (auto simp: demo_truncate(4))
  let ?s = "on_machine s0 (demo_kshm P 0x123 0)" and ?p = "(demo_table ! 1)\<lparr>pgdir := P, sz := 0x123, shmemaddr := 0\<rparr>"
  have up: "PGROUNDUP 0x123 = 0x1000" by (simp add: PGROUNDUP_def PGSIZE_def)
  have page: "PGROUNDDOWN vb = 0x1000 \<longleftrightarrow> 4096 \<le> unat vb \<and> unat vb < 8192" for vb
    using page_above[of "0x1000" vb] by simp
  have none: "\<forall>vb. PGROUNDDOWN vb = PGROUNDUP (sz ?p) \<longrightarrow> lookup (mem ?s) (pgdir ?p) vb = None"
    using s0(4) by (auto simp: up page kernel_map_def KERNBASE_def word_less_nat_alt)
  have "vspace ?s fs (pgdir ?p)" using s0(1) by (simp add: vspace_def kmem_inv_def)
  from openshmem_attaches[OF demo_shm_ready[OF s0(3)] _ _ this _ none, where ident = 7 and i = 0]
  obtain t where t: "openshmem 7 ?s = Inr (0x1000, t)"
    "lookup (mem t) P = (\<lambda>vb. if PGROUNDDOWN vb = 0x1000
       then Some (physicalAddr (shmem ?s ! 0) OR (PTE_W OR PTE_U) OR PTE_P) else lookup (mem ?s) (pgdir ?p) vb)"
    "ptable t = (ptable ?s)[1 := ?p\<lparr>shmemaddr := 0x1000, sz := 0x1123\<rparr>]"
    using s0(2) by (auto simp: demo_kshm_simps up PGSIZE_def)
  have "sz (ptable t ! 1) = 0x1123" using t(3) demo_kshm_simps(2) by simp
  then show ?thesis using t(1,2) page[of "0x1004"]
    by (intro exI[of _ ?s] exI[of _ P] exI[of _ t]) (simp add: demo_kshm_simps)
qed


theorem closeshmem_breaks_fork_witness:
  "\<exists>(s :: kshm) P t. closeshmem 7 s = Inr (0, t) \<and> copyuvm 0x80108000 P 4096 t = Inl (Panic ''copyuvm: page not present'')"
proof -
  obtain s0 :: kphys and fs P where
    s0: "vspace s0 fs P" "3000 \<le> length fs" "core s0 = core demo_pbase" "parent_ok (kend s0) (mem s0) P 1 (set fs)"
    using ex_parent[OF demo_truncate(1-3)] by (auto simp: demo_truncate(4))
  let ?s = "on_machine s0 (demo_kshm P 4096 0)" and ?p = "(demo_table ! Suc 0)\<lparr>pgdir := P, sz := 4096, shmemaddr := 0\<rparr>"
  have kd: "kdata_ok 0x80108000" by (simp add: kdata_ok_def KERNLINK_def EXTMEM_def page_defs)
  have inv: "kmem_inv ?s fs" using s0(1) by (simp add: vspace_def kmem_inv_def)
  have par: "parent_ok (kend ?s) (mem ?s) (pgdir ?p) 0 (set fs)" "lookup (mem ?s) (pgdir ?p) (page_addr 0) \<noteq> None"
    using s0(4) by (simp_all add: parent_ok_def)
  from closeshmem_breaks_fork[OF demo_shm_ready[OF s0(3)] _ _ inv par(1) _ kd, where ident = 7 and i = 0] par(2) s0(2)
  obtain t where "closeshmem 7 ?s = Inr (0, t)" "copyuvm 0x80108000 P 4096 t = Inl (Panic ''copyuvm: page not present'')"
    by (auto simp: demo_kshm_simps)
  then show ?thesis by blast
qed

end
