(* ===== verification/Bio.thy ===== *)
theory Bio
  imports Shmem
begin

text \<open>
  The buffer cache (\<^verbatim>\<open>bio.c\<close>, \<^verbatim>\<open>buf.h\<close>) over the memory disk (\<^verbatim>\<open>memide.c\<close>). Buffers are referred to by
  their index; index \<open>NBUF\<close> is the list head, so that the doubly linked list is kept as the
  code keeps it, in the fields of the buffers. The disk is a function from block numbers to
  blocks, with the history of the writes it received.
\<close>

section \<open>State\<close>

definition BSIZE :: nat where "BSIZE = 512"

definition NBUF :: nat where "NBUF = 30"

definition B_VALID :: u32 where "B_VALID = 2"

definition B_DIRTY :: u32 where "B_DIRTY = 4"

type_synonym block = "u8 list"

record buf =
  bflags :: u32
  bdev :: u32
  blockno :: u32
  refcnt :: u32
  bprev :: nat
  bnext :: nat
  bdata :: block

record kbio = kshm +
  bcache :: "buf list"
  disk :: "u32 \<Rightarrow> block"
  disksize :: int
  diskw :: "(u32 \<times> block) list"

text \<open>
  What the file system code gets from outside: the context switch and how often a lock may be
  slept on (as for sleep locks), the disk driver, and the device switch table, whose entries
  are functions that return the bytes read or the number of bytes written.
\<close>

record 'x fsenv =
  fsw :: "'x \<Rightarrow> 'x kres"
  tries :: nat
  drv :: "nat \<Rightarrow> 'x \<Rightarrow> 'x kres"
  devread :: "int \<Rightarrow> (nat \<Rightarrow> u32 \<Rightarrow> 'x \<Rightarrow> (block option \<times> 'x) kres) option"
  devwrite :: "int \<Rightarrow> (nat \<Rightarrow> block \<Rightarrow> 'x \<Rightarrow> (int \<times> 'x) kres) option"

definition buf_upd :: "nat \<Rightarrow> (buf \<Rightarrow> buf) \<Rightarrow> 'a kbio_scheme \<Rightarrow> 'a kbio_scheme" where
  "buf_upd b f s = s\<lparr>bcache := (bcache s)[b := f (bcache s ! b)]\<rparr>"

definition bufat :: "'a kbio_scheme \<Rightarrow> nat \<Rightarrow> buf" where
  "bufat s b = bcache s ! b"

definition is_valid :: "buf \<Rightarrow> bool" where "is_valid b \<longleftrightarrow> bflags b AND B_VALID \<noteq> 0"

definition is_dirty :: "buf \<Rightarrow> bool" where "is_dirty b \<longleftrightarrow> bflags b AND B_DIRTY \<noteq> 0"

section \<open>The memory disk\<close>

definition ideinit :: "(u32 \<Rightarrow> block) \<Rightarrow> u32 \<Rightarrow> 'a kbio_scheme \<Rightarrow> 'a kbio_scheme" where
  "ideinit img img_size s = s\<lparr>disk := img, disksize := int (unat img_size div BSIZE)\<rparr>"

definition disk_write :: "u32 \<Rightarrow> block \<Rightarrow> 'a kbio_scheme \<Rightarrow> 'a kbio_scheme" where
  "disk_write n d s = s\<lparr>disk := (disk s)(n := d), diskw := diskw s @ [(n, d)]\<rparr>"

definition iderw :: "nat \<Rightarrow> 'a kbio_scheme \<Rightarrow> ('a kbio_scheme) kres" where
  "iderw b s =
     kbind (holdingsleep (BufSl b) s) (\<lambda>(h, s1).
     let k = bufat s1 b in
     if \<not> h then Inl (Panic ''iderw: buf not locked'')
     else if bflags k AND (B_VALID OR B_DIRTY) = B_VALID then Inl (Panic ''iderw: nothing to do'')
     else if bdev k \<noteq> 1 then Inl (Panic ''iderw: request not for disk 1'')
     else if blockno k \<ge> of_int (disksize s1) then Inl (Panic ''iderw: block out of range'')
     else
       let s2 = (if is_dirty k
                 then disk_write (blockno k) (bdata k) (buf_upd b (\<lambda>x. x\<lparr>bflags := bflags x AND NOT B_DIRTY\<rparr>) s1)
                 else buf_upd b (\<lambda>x. x\<lparr>bdata := disk s1 (blockno k)\<rparr>) s1)
       in Inr (buf_upd b (\<lambda>x. x\<lparr>bflags := bflags x OR B_VALID\<rparr>) s2))"

section \<open>The buffer cache\<close>

primrec binit_loop :: "nat \<Rightarrow> nat \<Rightarrow> 'a kbio_scheme \<Rightarrow> 'a kbio_scheme" where
  "binit_loop 0 b s = s"
| "binit_loop (Suc n) b s =
     (let s1 = buf_upd b (\<lambda>x. x\<lparr>bnext := bnext (bufat s NBUF), bprev := NBUF\<rparr>) s;
          s2 = initsleeplock (BufSl b) ''buffer'' s1;
          s3 = buf_upd (bnext (bufat s2 NBUF)) (\<lambda>x. x\<lparr>bprev := b\<rparr>) s2;
          s4 = buf_upd NBUF (\<lambda>x. x\<lparr>bnext := b\<rparr>) s3
      in binit_loop n (b + 1) s4)"

definition binit :: "'a kbio_scheme \<Rightarrow> 'a kbio_scheme" where
  "binit s = binit_loop NBUF 0
     (buf_upd NBUF (\<lambda>x. x\<lparr>bprev := NBUF, bnext := NBUF\<rparr>) (initlock BcacheLock ''bcache'' s))"

text \<open>
  A search along the list in the direction \<open>nxt\<close>. On a list that does not lead back to the head
  the C loop does not end; with \<open>NBUF\<close> steps allowed that is the outcome \<open>Fault\<close>.
\<close>

primrec bscan :: "(buf \<Rightarrow> bool) \<Rightarrow> (buf \<Rightarrow> nat) \<Rightarrow> buf list \<Rightarrow> nat \<Rightarrow> nat \<Rightarrow> (nat option) kres" where
  "bscan P nxt bs 0 b = (if b = NBUF then Inr None else Inl (Fault ''buffer list''))"
| "bscan P nxt bs (Suc n) b =
     (if b = NBUF then Inr None
      else if P (bs ! b) then Inr (Some b)
      else bscan P nxt bs n (nxt (bs ! b)))"

definition bget :: "('a kbio_scheme) fsenv \<Rightarrow> u32 \<Rightarrow> u32 \<Rightarrow> 'a kbio_scheme \<Rightarrow> (nat \<times> 'a kbio_scheme) kres" where
  "bget E dev bn s =
     kbind (acquire BcacheLock s) (\<lambda>s1.
     kbind (bscan (\<lambda>k. bdev k = dev \<and> blockno k = bn) bnext (bcache s1) NBUF (bnext (bufat s1 NBUF))) (\<lambda>r.
     case r of
       Some b \<Rightarrow>
         kbind (release BcacheLock (buf_upd b (\<lambda>x. x\<lparr>refcnt := refcnt x + 1\<rparr>) s1)) (\<lambda>s2.
         kbind (acquiresleep (fsw E) (tries E) (BufSl b) s2) (\<lambda>s3. Inr (b, s3)))
     | None \<Rightarrow>
         kbind (bscan (\<lambda>k. refcnt k = 0 \<and> bflags k AND B_DIRTY = 0) bprev (bcache s1) NBUF (bprev (bufat s1 NBUF))) (\<lambda>r2.
         case r2 of
           Some b \<Rightarrow>
             kbind (release BcacheLock (buf_upd b (\<lambda>x. x\<lparr>bdev := dev, blockno := bn, bflags := 0, refcnt := 1\<rparr>) s1)) (\<lambda>s2.
             kbind (acquiresleep (fsw E) (tries E) (BufSl b) s2) (\<lambda>s3. Inr (b, s3)))
         | None \<Rightarrow> Inl (Panic ''bget: no buffers''))))"

definition bread :: "('a kbio_scheme) fsenv \<Rightarrow> u32 \<Rightarrow> u32 \<Rightarrow> 'a kbio_scheme \<Rightarrow> (nat \<times> 'a kbio_scheme) kres" where
  "bread E dev bn s =
     kbind (bget E dev bn s) (\<lambda>(b, s1).
     kbind (if bflags (bufat s1 b) AND B_VALID = 0 then drv E b s1 else Inr s1) (\<lambda>s2. Inr (b, s2)))"

definition bwrite :: "('a kbio_scheme) fsenv \<Rightarrow> nat \<Rightarrow> 'a kbio_scheme \<Rightarrow> ('a kbio_scheme) kres" where
  "bwrite E b s =
     kbind (holdingsleep (BufSl b) s) (\<lambda>(h, s1).
     if \<not> h then Inl (Panic ''bwrite'')
     else drv E b (buf_upd b (\<lambda>x. x\<lparr>bflags := bflags x OR B_DIRTY\<rparr>) s1))"

text \<open>Unlinking a buffer and linking it in behind the head.\<close>

definition bmove :: "nat \<Rightarrow> 'a kbio_scheme \<Rightarrow> 'a kbio_scheme" where
  "bmove b s =
     (let s1 = buf_upd (bnext (bufat s b)) (\<lambda>x. x\<lparr>bprev := bprev (bufat s b)\<rparr>) s;
          s2 = buf_upd (bprev (bufat s1 b)) (\<lambda>x. x\<lparr>bnext := bnext (bufat s1 b)\<rparr>) s1;
          s3 = buf_upd b (\<lambda>x. x\<lparr>bnext := bnext (bufat s2 NBUF)\<rparr>) s2;
          s4 = buf_upd b (\<lambda>x. x\<lparr>bprev := NBUF\<rparr>) s3;
          s5 = buf_upd (bnext (bufat s4 NBUF)) (\<lambda>x. x\<lparr>bprev := b\<rparr>) s4
      in buf_upd NBUF (\<lambda>x. x\<lparr>bnext := b\<rparr>) s5)"

definition brelse :: "nat \<Rightarrow> 'a kbio_scheme \<Rightarrow> ('a kbio_scheme) kres" where
  "brelse b s =
     kbind (holdingsleep (BufSl b) s) (\<lambda>(h, s1).
     if \<not> h then Inl (Panic ''brelse'')
     else
       kbind (releasesleep (BufSl b) s1) (\<lambda>s2.
       kbind (acquire BcacheLock s2) (\<lambda>s3.
       let s4 = buf_upd b (\<lambda>x. x\<lparr>refcnt := refcnt x - 1\<rparr>) s3;
           s5 = (if refcnt (bufat s4 b) = 0 then bmove b s4 else s4)
       in release BcacheLock s5)))"

end
