(* ===== verification/Log.thy ===== *)
theory Log
  imports Bio
begin

text \<open>
  The redo log (\<^verbatim>\<open>log.c\<close>): transactions collect the numbers of modified blocks, \<^verbatim>\<open>commit\<close> writes the
  blocks to the log, then the header, then the home locations, then an empty header, and
  recovery repeats the home writes of a committed header. Numbers in a block are little endian.
\<close>

section \<open>Numbers in blocks\<close>

definition get16 :: "block \<Rightarrow> nat \<Rightarrow> u16" where
  "get16 d i = ucast (d ! i) OR push_bit 8 (ucast (d ! (i + 1)))"

definition put16 :: "block \<Rightarrow> nat \<Rightarrow> u16 \<Rightarrow> block" where
  "put16 d i v = d[i := ucast v, i + 1 := ucast (drop_bit 8 v)]"

definition get32 :: "block \<Rightarrow> nat \<Rightarrow> u32" where
  "get32 d i = ucast (d ! i) OR push_bit 8 (ucast (d ! (i + 1)))
     OR push_bit 16 (ucast (d ! (i + 2))) OR push_bit 24 (ucast (d ! (i + 3)))"

definition put32 :: "block \<Rightarrow> nat \<Rightarrow> u32 \<Rightarrow> block" where
  "put32 d i v = d[i := ucast v, i + 1 := ucast (drop_bit 8 v),
     i + 2 := ucast (drop_bit 16 v), i + 3 := ucast (drop_bit 24 v)]"

section \<open>State\<close>

definition MAXOPBLOCKS :: int where "MAXOPBLOCKS = 10"

definition LOGSIZE :: nat where "LOGSIZE = 30"

record superblock =
  sbsize :: u32
  nblocks :: u32
  ninodes :: u32
  nlog :: u32
  logstart :: u32
  inodestart :: u32
  bmapstart :: u32

record logst =
  lstart :: int
  lsize :: int
  outstanding :: int
  committing :: bool
  ldev :: u32
  lhn :: int
  lhblock :: "int list"

record klog = kbio +
  lg :: logst

definition lg_upd :: "(logst \<Rightarrow> logst) \<Rightarrow> 'a klog_scheme \<Rightarrow> 'a klog_scheme" where
  "lg_upd f s = s\<lparr>lg := f (lg s)\<rparr>"

definition readsb :: "('a klog_scheme) fsenv \<Rightarrow> u32 \<Rightarrow> 'a klog_scheme \<Rightarrow> (superblock \<times> 'a klog_scheme) kres" where
  "readsb E dev s =
     kbind (bread E dev 1 s) (\<lambda>(bp, s1).
     let d = bdata (bufat s1 bp);
         sb = \<lparr>sbsize = get32 d 0, nblocks = get32 d 4, ninodes = get32 d 8, nlog = get32 d 12,
               logstart = get32 d 16, inodestart = get32 d 20, bmapstart = get32 d 24\<rparr>
     in kbind (brelse bp s1) (\<lambda>s2. Inr (sb, s2)))"

section \<open>Writing and recovering\<close>

primrec install_loop :: "('a klog_scheme) fsenv \<Rightarrow> nat \<Rightarrow> int \<Rightarrow> 'a klog_scheme \<Rightarrow> ('a klog_scheme) kres" where
  "install_loop E 0 tail s = Inr s"
| "install_loop E (Suc n) tail s =
     kbind (bread E (ldev (lg s)) (of_int (lstart (lg s) + tail + 1)) s) (\<lambda>(lbuf, s1).
     kbind (bread E (ldev (lg s1)) (of_int (lhblock (lg s1) ! nat tail)) s1) (\<lambda>(dbuf, s2).
     kbind (bwrite E dbuf (buf_upd dbuf (\<lambda>x. x\<lparr>bdata := bdata (bufat s2 lbuf)\<rparr>) s2)) (\<lambda>s3.
     kbind (brelse lbuf s3) (\<lambda>s4.
     kbind (brelse dbuf s4) (\<lambda>s5. install_loop E n (tail + 1) s5)))))"

definition install_trans :: "('a klog_scheme) fsenv \<Rightarrow> 'a klog_scheme \<Rightarrow> ('a klog_scheme) kres" where
  "install_trans E s = install_loop E (nat (lhn (lg s))) 0 s"

definition read_head :: "('a klog_scheme) fsenv \<Rightarrow> 'a klog_scheme \<Rightarrow> ('a klog_scheme) kres" where
  "read_head E s =
     kbind (bread E (ldev (lg s)) (of_int (lstart (lg s))) s) (\<lambda>(b, s1).
     let d = bdata (bufat s1 b); n = sint (get32 d 0) in
     if n > int LOGSIZE then Inl (Fault ''log header'')
     else brelse b (lg_upd (\<lambda>l. l\<lparr>lhn := n,
            lhblock := map (\<lambda>i. sint (get32 d (4 + 4 * i))) [0..<nat n] @ drop (nat n) (lhblock l)\<rparr>) s1))"

definition put_head :: "logst \<Rightarrow> block \<Rightarrow> block" where
  "put_head l d =
     fold (\<lambda>i d. put32 d (4 + 4 * i) (of_int (lhblock l ! i))) [0..<nat (lhn l)] (put32 d 0 (of_int (lhn l)))"

definition write_head :: "('a klog_scheme) fsenv \<Rightarrow> 'a klog_scheme \<Rightarrow> ('a klog_scheme) kres" where
  "write_head E s =
     kbind (bread E (ldev (lg s)) (of_int (lstart (lg s))) s) (\<lambda>(b, s1).
     kbind (bwrite E b (buf_upd b (\<lambda>x. x\<lparr>bdata := put_head (lg s1) (bdata x)\<rparr>) s1)) (brelse b))"

definition recover_from_log :: "('a klog_scheme) fsenv \<Rightarrow> 'a klog_scheme \<Rightarrow> ('a klog_scheme) kres" where
  "recover_from_log E s =
     kbind (read_head E s) (\<lambda>s1.
     kbind (install_trans E s1) (\<lambda>s2. write_head E (lg_upd (\<lambda>l. l\<lparr>lhn := 0\<rparr>) s2)))"

definition initlog :: "('a klog_scheme) fsenv \<Rightarrow> u32 \<Rightarrow> 'a klog_scheme \<Rightarrow> ('a klog_scheme) kres" where
  "initlog E dev s =
     (if 4 + 4 * LOGSIZE \<ge> BSIZE then Inl (Panic ''initlog: too big logheader'')
      else kbind (readsb E dev (initlock LogLock ''log'' s)) (\<lambda>(sb, s1).
        recover_from_log E (lg_upd (\<lambda>l. l\<lparr>lstart := sint (logstart sb), lsize := sint (nlog sb), ldev := dev\<rparr>) s1)))"

primrec write_log_loop :: "('a klog_scheme) fsenv \<Rightarrow> nat \<Rightarrow> int \<Rightarrow> 'a klog_scheme \<Rightarrow> ('a klog_scheme) kres" where
  "write_log_loop E 0 tail s = Inr s"
| "write_log_loop E (Suc n) tail s =
     kbind (bread E (ldev (lg s)) (of_int (lstart (lg s) + tail + 1)) s) (\<lambda>(to, s1).
     kbind (bread E (ldev (lg s1)) (of_int (lhblock (lg s1) ! nat tail)) s1) (\<lambda>(from, s2).
     kbind (bwrite E to (buf_upd to (\<lambda>x. x\<lparr>bdata := bdata (bufat s2 from)\<rparr>) s2)) (\<lambda>s3.
     kbind (brelse from s3) (\<lambda>s4.
     kbind (brelse to s4) (\<lambda>s5. write_log_loop E n (tail + 1) s5)))))"

definition write_log :: "('a klog_scheme) fsenv \<Rightarrow> 'a klog_scheme \<Rightarrow> ('a klog_scheme) kres" where
  "write_log E s = write_log_loop E (nat (lhn (lg s))) 0 s"

definition commit :: "('a klog_scheme) fsenv \<Rightarrow> 'a klog_scheme \<Rightarrow> ('a klog_scheme) kres" where
  "commit E s =
     (if lhn (lg s) > 0 then
        kbind (write_log E s) (\<lambda>s1.
        kbind (write_head E s1) (\<lambda>s2.
        kbind (install_trans E s2) (\<lambda>s3.
        write_head E (lg_upd (\<lambda>l. l\<lparr>lhn := 0\<rparr>) s3))))
      else Inr s)"

section \<open>Transactions\<close>

primrec begin_op_loop :: "('a klog_scheme) fsenv \<Rightarrow> nat \<Rightarrow> 'a klog_scheme \<Rightarrow> ('a klog_scheme) kres" where
  "begin_op_loop E 0 s =
     (if committing (lg s) then Inl (Sleeps LogChan)
      else if lhn (lg s) + (outstanding (lg s) + 1) * MAXOPBLOCKS > int LOGSIZE then Inl (Sleeps LogChan)
      else release LogLock (lg_upd (\<lambda>l. l\<lparr>outstanding := outstanding l + 1\<rparr>) s))"
| "begin_op_loop E (Suc n) s =
     (if committing (lg s) then kbind (sleep (fsw E) LogChan (Some LogLock) s) (begin_op_loop E n)
      else if lhn (lg s) + (outstanding (lg s) + 1) * MAXOPBLOCKS > int LOGSIZE
      then kbind (sleep (fsw E) LogChan (Some LogLock) s) (begin_op_loop E n)
      else release LogLock (lg_upd (\<lambda>l. l\<lparr>outstanding := outstanding l + 1\<rparr>) s))"

definition begin_op :: "('a klog_scheme) fsenv \<Rightarrow> 'a klog_scheme \<Rightarrow> ('a klog_scheme) kres" where
  "begin_op E s = kbind (acquire LogLock s) (begin_op_loop E (tries E))"

definition end_op :: "('a klog_scheme) fsenv \<Rightarrow> 'a klog_scheme \<Rightarrow> ('a klog_scheme) kres" where
  "end_op E s =
     kbind (acquire LogLock s) (\<lambda>s1.
     let s2 = lg_upd (\<lambda>l. l\<lparr>outstanding := outstanding l - 1\<rparr>) s1 in
     if committing (lg s2) then Inl (Panic ''log.committing'')
     else
       let do_commit = (outstanding (lg s2) = 0) in
       kbind (if do_commit then Inr (lg_upd (\<lambda>l. l\<lparr>committing := True\<rparr>) s2) else wakeup LogChan s2) (\<lambda>s3.
       kbind (release LogLock s3) (\<lambda>s4.
       if do_commit then
         kbind (commit E s4) (\<lambda>s5.
         kbind (acquire LogLock s5) (\<lambda>s6.
         kbind (wakeup LogChan (lg_upd (\<lambda>l. l\<lparr>committing := False\<rparr>) s6)) (release LogLock)))
       else Inr s4)))"

definition log_write :: "nat \<Rightarrow> 'a klog_scheme \<Rightarrow> ('a klog_scheme) kres" where
  "log_write b s =
     (if lhn (lg s) \<ge> int LOGSIZE \<or> lhn (lg s) \<ge> lsize (lg s) - 1 then Inl (Panic ''too big a transaction'')
      else if outstanding (lg s) < 1 then Inl (Panic ''log_write outside of trans'')
      else
        kbind (acquire LogLock s) (\<lambda>s1.
        let l = lg s1; bn = blockno (bufat s1 b);
            i = (case find_idx (\<lambda>x. of_int x = bn) (take (nat (lhn l)) (lhblock l)) of
                   Some i \<Rightarrow> i | None \<Rightarrow> nat (lhn l));
            s2 = lg_upd (\<lambda>l. l\<lparr>lhblock := (lhblock l)[i := sint bn]\<rparr>) s1;
            s3 = (if int i = lhn l then lg_upd (\<lambda>l. l\<lparr>lhn := lhn l + 1\<rparr>) s2 else s2);
            s4 = buf_upd b (\<lambda>x. x\<lparr>bflags := bflags x OR B_DIRTY\<rparr>) s3
        in release LogLock s4))"

end
