(* ===== verification/Fs.thy ===== *)
theory Fs
  imports Log
begin

text \<open>
  The file system below system calls (\<^verbatim>\<open>fs.c\<close>, \<^verbatim>\<open>fs.h\<close>, \<^verbatim>\<open>stat.h\<close>): block allocation, inodes and their
  contents. Inodes in memory are referred to by their index in the cache. \<^verbatim>\<open>readi\<close> returns the
  bytes it reads and \<^verbatim>\<open>writei\<close> takes the bytes to write; the callers move them from and to user
  memory.
\<close>

section \<open>State\<close>

definition ROOTINO :: u32 where "ROOTINO = 1"

definition ROOTDEV :: u32 where "ROOTDEV = 1"

definition NINODE :: nat where "NINODE = 50"

definition NDEV :: int where "NDEV = 10"

definition NDIRECT :: nat where "NDIRECT = 12"

definition NINDIRECT :: nat where "NINDIRECT = BSIZE div 4"

definition MAXFILE :: nat where "MAXFILE = NDIRECT + NINDIRECT"

definition DINODE_SIZE :: nat where "DINODE_SIZE = 64"

definition IPB :: nat where "IPB = BSIZE div DINODE_SIZE"

definition BPB :: nat where "BPB = BSIZE * 8"

definition T_DIR :: int where "T_DIR = 1"

definition T_FILE :: int where "T_FILE = 2"

definition T_DEV :: int where "T_DEV = 3"

record dinode =
  dtype :: u16
  dmajor :: u16
  dminor :: u16
  dnlink :: u16
  dsize :: u32
  daddrs :: "u32 list"

record inode =
  idev :: u32
  inum :: u32
  iref :: int
  ivalid :: bool
  itype :: int
  imajor :: int
  iminor :: int
  inlink :: int
  isize :: u32
  iaddrs :: "u32 list"

record kfs = klog +
  icache :: "inode list"
  sb :: superblock

definition inode_upd :: "nat \<Rightarrow> (inode \<Rightarrow> inode) \<Rightarrow> 'a kfs_scheme \<Rightarrow> 'a kfs_scheme" where
  "inode_upd i f s = s\<lparr>icache := (icache s)[i := f (icache s ! i)]\<rparr>"

definition IBLOCK :: "u32 \<Rightarrow> superblock \<Rightarrow> u32" where
  "IBLOCK i k = of_nat (unat i div IPB) + inodestart k"

definition BBLOCK :: "u32 \<Rightarrow> superblock \<Rightarrow> u32" where
  "BBLOCK b k = of_nat (unat b div BPB) + bmapstart k"

text \<open>The inode with index \<open>k\<close> in a block.\<close>

definition get_dinode :: "block \<Rightarrow> nat \<Rightarrow> dinode" where
  "get_dinode d k =
     (let ad = k * DINODE_SIZE in
      \<lparr>dtype = get16 d ad, dmajor = get16 d (ad + 2), dminor = get16 d (ad + 4), dnlink = get16 d (ad + 6),
       dsize = get32 d (ad + 8), daddrs = map (\<lambda>j. get32 d (ad + 12 + 4 * j)) [0..<NDIRECT + 1]\<rparr>)"

definition put_dinode :: "block \<Rightarrow> nat \<Rightarrow> dinode \<Rightarrow> block" where
  "put_dinode d k x =
     (let ad = k * DINODE_SIZE;
          d1 = put16 d ad (dtype x); d2 = put16 d1 (ad + 2) (dmajor x); d3 = put16 d2 (ad + 4) (dminor x);
          d4 = put16 d3 (ad + 6) (dnlink x); d5 = put32 d4 (ad + 8) (dsize x)
      in fold (\<lambda>j d. put32 d (ad + 12 + 4 * j) (daddrs x ! j)) [0..<NDIRECT + 1] d5)"

section \<open>Blocks\<close>

definition bzero :: "('a kfs_scheme) fsenv \<Rightarrow> u32 \<Rightarrow> u32 \<Rightarrow> 'a kfs_scheme \<Rightarrow> ('a kfs_scheme) kres" where
  "bzero E dev bno s =
     kbind (bread E dev bno s) (\<lambda>(bp, s1).
     kbind (log_write bp (buf_upd bp (\<lambda>x. x\<lparr>bdata := replicate BSIZE 0\<rparr>) s1)) (brelse bp))"

definition bit_at :: "block \<Rightarrow> nat \<Rightarrow> bool" where
  "bit_at d bi = bit (d ! (bi div 8)) (bi mod 8)"

definition put_bit :: "block \<Rightarrow> nat \<Rightarrow> bool \<Rightarrow> block" where
  "put_bit d bi v = d[bi div 8 := (if v then set_bit (bi mod 8) (d ! (bi div 8)) else unset_bit (bi mod 8) (d ! (bi div 8)))]"

primrec balloc_loop :: "('a kfs_scheme) fsenv \<Rightarrow> u32 \<Rightarrow> nat \<Rightarrow> nat \<Rightarrow> 'a kfs_scheme \<Rightarrow> (u32 \<times> 'a kfs_scheme) kres" where
  "balloc_loop E dev 0 b s = Inl (Panic ''balloc: out of blocks'')"
| "balloc_loop E dev (Suc n) b s =
     kbind (bread E dev (BBLOCK (of_nat b) (sb s)) s) (\<lambda>(bp, s1).
     case find (\<lambda>bi. \<not> bit_at (bdata (bufat s1 bp)) bi) [0..<min BPB (unat (sbsize (sb s1)) - b)] of
       Some bi \<Rightarrow>
         kbind (log_write bp (buf_upd bp (\<lambda>x. x\<lparr>bdata := put_bit (bdata x) bi True\<rparr>) s1)) (\<lambda>s2.
         kbind (brelse bp s2) (\<lambda>s3.
         kbind (bzero E dev (of_nat (b + bi)) s3) (\<lambda>s4. Inr (of_nat (b + bi), s4))))
     | None \<Rightarrow> kbind (brelse bp s1) (balloc_loop E dev n (b + BPB)))"

text \<open>One pass for each started group of \<open>BPB\<close> blocks.\<close>

definition balloc :: "('a kfs_scheme) fsenv \<Rightarrow> u32 \<Rightarrow> 'a kfs_scheme \<Rightarrow> (u32 \<times> 'a kfs_scheme) kres" where
  "balloc E dev s = balloc_loop E dev ((unat (sbsize (sb s)) + BPB - 1) div BPB) 0 s"

definition bfree :: "('a kfs_scheme) fsenv \<Rightarrow> u32 \<Rightarrow> u32 \<Rightarrow> 'a kfs_scheme \<Rightarrow> ('a kfs_scheme) kres" where
  "bfree E dev b s =
     kbind (bread E dev (BBLOCK b (sb s)) s) (\<lambda>(bp, s1).
     let bi = unat b mod BPB in
     if \<not> bit_at (bdata (bufat s1 bp)) bi then Inl (Panic ''freeing free block'')
     else kbind (log_write bp (buf_upd bp (\<lambda>x. x\<lparr>bdata := put_bit (bdata x) bi False\<rparr>) s1)) (brelse bp))"

section \<open>Inodes\<close>

primrec iinit_loop :: "nat \<Rightarrow> nat \<Rightarrow> 'a kfs_scheme \<Rightarrow> 'a kfs_scheme" where
  "iinit_loop 0 i s = s"
| "iinit_loop (Suc n) i s = iinit_loop n (i + 1) (initsleeplock (InodeSl i) ''inode'' s)"

definition iinit :: "('a kfs_scheme) fsenv \<Rightarrow> u32 \<Rightarrow> 'a kfs_scheme \<Rightarrow> ('a kfs_scheme) kres" where
  "iinit E dev s =
     kbind (readsb E dev (iinit_loop NINODE 0 (initlock IcacheLock ''icache'' s))) (\<lambda>(k, s1).
     cprintf (''sb: size %d nblocks %d ninodes %d nlog %d logstart %d inodestart %d bmap start %d'' @ [CHR 0x0A])
       (map AInt [sbsize k, nblocks k, ninodes k, nlog k, logstart k, inodestart k, bmapstart k])
       (s1\<lparr>sb := k\<rparr>))"

definition iget :: "u32 \<Rightarrow> u32 \<Rightarrow> 'a kfs_scheme \<Rightarrow> (nat \<times> 'a kfs_scheme) kres" where
  "iget dev n s =
     kbind (acquire IcacheLock s) (\<lambda>s1.
     case find_idx (\<lambda>ip. iref ip > 0 \<and> idev ip = dev \<and> inum ip = n) (icache s1) of
       Some i \<Rightarrow>
         kbind (release IcacheLock (inode_upd i (\<lambda>ip. ip\<lparr>iref := iref ip + 1\<rparr>) s1)) (\<lambda>s2. Inr (i, s2))
     | None \<Rightarrow>
        (case find_idx (\<lambda>ip. iref ip = 0) (icache s1) of
           None \<Rightarrow> Inl (Panic ''iget: no inodes'')
         | Some i \<Rightarrow>
             kbind (release IcacheLock (inode_upd i (\<lambda>ip. ip\<lparr>idev := dev, inum := n, iref := 1, ivalid := False\<rparr>) s1)) (\<lambda>s2.
             Inr (i, s2))))"

primrec ialloc_loop :: "('a kfs_scheme) fsenv \<Rightarrow> u32 \<Rightarrow> int \<Rightarrow> nat \<Rightarrow> nat \<Rightarrow> 'a kfs_scheme \<Rightarrow> (nat \<times> 'a kfs_scheme) kres" where
  "ialloc_loop E dev ty 0 i s = Inl (Panic ''ialloc: no inodes'')"
| "ialloc_loop E dev ty (Suc n) i s =
     kbind (bread E dev (IBLOCK (of_nat i) (sb s)) s) (\<lambda>(bp, s1).
     if dtype (get_dinode (bdata (bufat s1 bp)) (i mod IPB)) = 0 then
       let x = \<lparr>dtype = of_int ty, dmajor = 0, dminor = 0, dnlink = 0, dsize = 0, daddrs = replicate (NDIRECT + 1) 0\<rparr> in
       kbind (log_write bp (buf_upd bp (\<lambda>b. b\<lparr>bdata := put_dinode (bdata b) (i mod IPB) x\<rparr>) s1)) (\<lambda>s2.
       kbind (brelse bp s2) (iget dev (of_nat i)))
     else kbind (brelse bp s1) (ialloc_loop E dev ty n (i + 1)))"

definition ialloc :: "('a kfs_scheme) fsenv \<Rightarrow> u32 \<Rightarrow> int \<Rightarrow> 'a kfs_scheme \<Rightarrow> (nat \<times> 'a kfs_scheme) kres" where
  "ialloc E dev ty s = ialloc_loop E dev ty (unat (ninodes (sb s)) - 1) 1 s"

definition iupdate :: "('a kfs_scheme) fsenv \<Rightarrow> nat \<Rightarrow> 'a kfs_scheme \<Rightarrow> ('a kfs_scheme) kres" where
  "iupdate E i s =
     (let ip = icache s ! i in
      kbind (bread E (idev ip) (IBLOCK (inum ip) (sb s)) s) (\<lambda>(bp, s1).
      let ip = icache s1 ! i;
          x = \<lparr>dtype = of_int (itype ip), dmajor = of_int (imajor ip), dminor = of_int (iminor ip),
               dnlink = of_int (inlink ip), dsize = isize ip, daddrs = iaddrs ip\<rparr>
      in kbind (log_write bp (buf_upd bp (\<lambda>b. b\<lparr>bdata := put_dinode (bdata b) (unat (inum ip) mod IPB) x\<rparr>) s1)) (brelse bp)))"

definition idup :: "nat \<Rightarrow> 'a kfs_scheme \<Rightarrow> (nat \<times> 'a kfs_scheme) kres" where
  "idup i s =
     kbind (acquire IcacheLock s) (\<lambda>s1.
     kbind (release IcacheLock (inode_upd i (\<lambda>ip. ip\<lparr>iref := iref ip + 1\<rparr>) s1)) (\<lambda>s2. Inr (i, s2)))"

definition ilock :: "('a kfs_scheme) fsenv \<Rightarrow> nat option \<Rightarrow> 'a kfs_scheme \<Rightarrow> ('a kfs_scheme) kres" where
  "ilock E ip s =
     (case ip of None \<Rightarrow> Inl (Panic ''ilock'')
      | Some i \<Rightarrow>
        if iref (icache s ! i) < 1 then Inl (Panic ''ilock'')
        else
          kbind (acquiresleep (fsw E) (tries E) (InodeSl i) s) (\<lambda>s1.
          if \<not> ivalid (icache s1 ! i) then
            kbind (bread E (idev (icache s1 ! i)) (IBLOCK (inum (icache s1 ! i)) (sb s1)) s1) (\<lambda>(bp, s2).
            let x = get_dinode (bdata (bufat s2 bp)) (unat (inum (icache s2 ! i)) mod IPB) in
            kbind (brelse bp (inode_upd i (\<lambda>k. k\<lparr>itype := sint (dtype x), imajor := sint (dmajor x), iminor := sint (dminor x),
                inlink := sint (dnlink x), isize := dsize x, iaddrs := daddrs x\<rparr>) s2)) (\<lambda>s3.
            let s4 = inode_upd i (\<lambda>k. k\<lparr>ivalid := True\<rparr>) s3 in
            if itype (icache s4 ! i) = 0 then Inl (Panic ''ilock: no type'') else Inr s4))
          else Inr s1))"

definition iunlock :: "nat option \<Rightarrow> 'a kfs_scheme \<Rightarrow> ('a kfs_scheme) kres" where
  "iunlock ip s =
     (case ip of None \<Rightarrow> Inl (Panic ''iunlock'')
      | Some i \<Rightarrow>
          kbind (holdingsleep (InodeSl i) s) (\<lambda>(h, s1).
          if \<not> h \<or> iref (icache s1 ! i) < 1 then Inl (Panic ''iunlock'')
          else releasesleep (InodeSl i) s1))"

section \<open>Contents\<close>

definition bmap :: "('a kfs_scheme) fsenv \<Rightarrow> nat \<Rightarrow> nat \<Rightarrow> 'a kfs_scheme \<Rightarrow> (u32 \<times> 'a kfs_scheme) kres" where
  "bmap E i bn s =
     (if bn < NDIRECT then
        let addr = iaddrs (icache s ! i) ! bn in
        if addr = 0 then
          kbind (balloc E (idev (icache s ! i)) s) (\<lambda>(addr, s1).
          Inr (addr, inode_upd i (\<lambda>ip. ip\<lparr>iaddrs := (iaddrs ip)[bn := addr]\<rparr>) s1))
        else Inr (addr, s)
      else if bn - NDIRECT < NINDIRECT then
        let k = bn - NDIRECT; addr = iaddrs (icache s ! i) ! NDIRECT in
        kbind (if addr = 0 then
                 kbind (balloc E (idev (icache s ! i)) s) (\<lambda>(addr, s1).
                 Inr (addr, inode_upd i (\<lambda>ip. ip\<lparr>iaddrs := (iaddrs ip)[NDIRECT := addr]\<rparr>) s1))
               else Inr (addr, s)) (\<lambda>(addr, s1).
        kbind (bread E (idev (icache s1 ! i)) addr s1) (\<lambda>(bp, s2).
        let a = get32 (bdata (bufat s2 bp)) (4 * k) in
        kbind (if a = 0 then
                 kbind (balloc E (idev (icache s2 ! i)) s2) (\<lambda>(a, s3).
                 kbind (log_write bp (buf_upd bp (\<lambda>x. x\<lparr>bdata := put32 (bdata x) (4 * k) a\<rparr>) s3)) (\<lambda>s4. Inr (a, s4)))
               else Inr (a, s2)) (\<lambda>(a, s5).
        kbind (brelse bp s5) (\<lambda>s6. Inr (a, s6)))))
      else Inl (Panic ''bmap: out of range''))"

primrec itrunc_direct :: "('a kfs_scheme) fsenv \<Rightarrow> nat \<Rightarrow> nat \<Rightarrow> nat \<Rightarrow> 'a kfs_scheme \<Rightarrow> ('a kfs_scheme) kres" where
  "itrunc_direct E i 0 j s = Inr s"
| "itrunc_direct E i (Suc n) j s =
     kbind (if iaddrs (icache s ! i) ! j \<noteq> 0
            then kbind (bfree E (idev (icache s ! i)) (iaddrs (icache s ! i) ! j) s) (\<lambda>s1.
                 Inr (inode_upd i (\<lambda>ip. ip\<lparr>iaddrs := (iaddrs ip)[j := 0]\<rparr>) s1))
            else Inr s) (itrunc_direct E i n (j + 1))"

primrec itrunc_indirect :: "('a kfs_scheme) fsenv \<Rightarrow> u32 \<Rightarrow> nat \<Rightarrow> nat \<Rightarrow> nat \<Rightarrow> 'a kfs_scheme \<Rightarrow> ('a kfs_scheme) kres" where
  "itrunc_indirect E dev bp 0 j s = Inr s"
| "itrunc_indirect E dev bp (Suc n) j s =
     (let a = get32 (bdata (bufat s bp)) (4 * j) in
      kbind (if a \<noteq> 0 then bfree E dev a s else Inr s) (itrunc_indirect E dev bp n (j + 1)))"

definition itrunc :: "('a kfs_scheme) fsenv \<Rightarrow> nat \<Rightarrow> 'a kfs_scheme \<Rightarrow> ('a kfs_scheme) kres" where
  "itrunc E i s =
     kbind (itrunc_direct E i NDIRECT 0 s) (\<lambda>s1.
     kbind (if iaddrs (icache s1 ! i) ! NDIRECT \<noteq> 0 then
              kbind (bread E (idev (icache s1 ! i)) (iaddrs (icache s1 ! i) ! NDIRECT) s1) (\<lambda>(bp, s2).
              kbind (itrunc_indirect E (idev (icache s2 ! i)) bp NINDIRECT 0 s2) (\<lambda>s3.
              kbind (brelse bp s3) (\<lambda>s4.
              kbind (bfree E (idev (icache s4 ! i)) (iaddrs (icache s4 ! i) ! NDIRECT) s4) (\<lambda>s5.
              Inr (inode_upd i (\<lambda>ip. ip\<lparr>iaddrs := (iaddrs ip)[NDIRECT := 0]\<rparr>) s5)))))
            else Inr s1) (\<lambda>s6.
     iupdate E i (inode_upd i (\<lambda>ip. ip\<lparr>isize := 0\<rparr>) s6)))"

definition iput :: "('a kfs_scheme) fsenv \<Rightarrow> nat \<Rightarrow> 'a kfs_scheme \<Rightarrow> ('a kfs_scheme) kres" where
  "iput E i s =
     kbind (acquiresleep (fsw E) (tries E) (InodeSl i) s) (\<lambda>s1.
     kbind (if ivalid (icache s1 ! i) \<and> inlink (icache s1 ! i) = 0 then
              kbind (acquire IcacheLock s1) (\<lambda>s2.
              let r = iref (icache s2 ! i) in
              kbind (release IcacheLock s2) (\<lambda>s3.
              if r = 1 then
                kbind (itrunc E i s3) (\<lambda>s4.
                kbind (iupdate E i (inode_upd i (\<lambda>ip. ip\<lparr>itype := 0\<rparr>) s4)) (\<lambda>s5.
                Inr (inode_upd i (\<lambda>ip. ip\<lparr>ivalid := False\<rparr>) s5)))
              else Inr s3))
            else Inr s1) (\<lambda>s6.
     kbind (releasesleep (InodeSl i) s6) (\<lambda>s7.
     kbind (acquire IcacheLock s7) (\<lambda>s8.
     release IcacheLock (inode_upd i (\<lambda>ip. ip\<lparr>iref := iref ip - 1\<rparr>) s8)))))"

definition iunlockput :: "('a kfs_scheme) fsenv \<Rightarrow> nat \<Rightarrow> 'a kfs_scheme \<Rightarrow> ('a kfs_scheme) kres" where
  "iunlockput E i s = kbind (iunlock (Some i) s) (iput E i)"

record stat =
  st_type :: int
  st_dev :: int
  st_ino :: u32
  st_nlink :: int
  st_size :: u32

definition stati :: "nat \<Rightarrow> 'a kfs_scheme \<Rightarrow> stat" where
  "stati i s =
     (let ip = icache s ! i in
      \<lparr>st_type = itype ip, st_dev = sint (idev ip), st_ino = inum ip, st_nlink = inlink ip, st_size = isize ip\<rparr>)"

function (sequential) readi_loop :: "('a kfs_scheme) fsenv \<Rightarrow> nat \<Rightarrow> nat \<Rightarrow> nat \<Rightarrow> 'a kfs_scheme \<Rightarrow> (block \<times> 'a kfs_scheme) kres" where
  "readi_loop E i off left s =
     (if left = 0 then Inr ([], s)
      else let m = min left (BSIZE - off mod BSIZE) in
        kbind (bmap E i (off div BSIZE) s) (\<lambda>(a, s1).
        kbind (bread E (idev (icache s1 ! i)) a s1) (\<lambda>(bp, s2).
        let x = take m (drop (off mod BSIZE) (bdata (bufat s2 bp))) in
        kbind (brelse bp s2) (\<lambda>s3.
        kbind (readi_loop E i (off + m) (left - m) s3) (\<lambda>(y, s4). Inr (x @ y, s4))))))"
  by pat_completeness auto
termination
  by (relation "measure (\<lambda>(E, i, off, left, s). left)") (auto simp: BSIZE_def)

declare readi_loop.simps [simp del]

definition readi :: "('a kfs_scheme) fsenv \<Rightarrow> nat \<Rightarrow> u32 \<Rightarrow> u32 \<Rightarrow> 'a kfs_scheme \<Rightarrow> (block option \<times> 'a kfs_scheme) kres" where
  "readi E i off n s =
     (let ip = icache s ! i in
      if itype ip = T_DEV then
        (if imajor ip < 0 \<or> imajor ip \<ge> NDEV then Inr (None, s)
         else case devread E (imajor ip) of None \<Rightarrow> Inr (None, s) | Some f \<Rightarrow> f i n s)
      else if off > isize ip \<or> off + n < off then Inr (None, s)
      else let n = (if off + n > isize ip then isize ip - off else n) in
        kbind (readi_loop E i (unat off) (unat n) s) (\<lambda>(x, s1). Inr (Some x, s1)))"

function (sequential) writei_loop :: "('a kfs_scheme) fsenv \<Rightarrow> nat \<Rightarrow> nat \<Rightarrow> block \<Rightarrow> 'a kfs_scheme \<Rightarrow> ('a kfs_scheme) kres" where
  "writei_loop E i off src s =
     (if src = [] then Inr s
      else let m = min (length src) (BSIZE - off mod BSIZE) in
        kbind (bmap E i (off div BSIZE) s) (\<lambda>(a, s1).
        kbind (bread E (idev (icache s1 ! i)) a s1) (\<lambda>(bp, s2).
        let upd = (\<lambda>d. take (off mod BSIZE) d @ take m src @ drop (off mod BSIZE + m) d) in
        kbind (log_write bp (buf_upd bp (\<lambda>x. x\<lparr>bdata := upd (bdata x)\<rparr>) s2)) (\<lambda>s3.
        kbind (brelse bp s3) (\<lambda>s4. writei_loop E i (off + m) (drop m src) s4)))))"
  by pat_completeness auto
termination
  by (relation "measure (\<lambda>(E, i, off, src, s). length src)") (auto simp: BSIZE_def)

declare writei_loop.simps [simp del]

definition writei :: "('a kfs_scheme) fsenv \<Rightarrow> nat \<Rightarrow> block \<Rightarrow> u32 \<Rightarrow> 'a kfs_scheme \<Rightarrow> (int \<times> 'a kfs_scheme) kres" where
  "writei E i src off s =
     (let ip = icache s ! i; n = of_nat (length src) :: u32 in
      if itype ip = T_DEV then
        (if imajor ip < 0 \<or> imajor ip \<ge> NDEV then Inr (-1, s)
         else case devwrite E (imajor ip) of None \<Rightarrow> Inr (-1, s) | Some f \<Rightarrow> f i src s)
      else if off > isize ip \<or> off + n < off then Inr (-1, s)
      else if off + n > of_nat (MAXFILE * BSIZE) then Inr (-1, s)
      else
        kbind (writei_loop E i (unat off) src s) (\<lambda>s1.
        kbind (if n > 0 \<and> off + n > isize (icache s1 ! i)
               then iupdate E i (inode_upd i (\<lambda>ip. ip\<lparr>isize := off + n\<rparr>) s1) else Inr s1) (\<lambda>s2.
        Inr (sint n, s2))))"

end
