(* ===== verification/FsDir.thy ===== *)
theory FsDir
  imports Fs
begin

text \<open>
  Directories and path names (the second half of \<^verbatim>\<open>fs.c\<close>). A path is the list of bytes before its
  NUL. A directory name is its bytes up to the first NUL, at most \<open>DIRSIZ\<close> of them.
\<close>

definition DIRSIZ :: nat where "DIRSIZ = 14"

definition DIRENT :: nat where "DIRENT = 2 + DIRSIZ"

definition slash :: u8 where "slash = 47"

section \<open>Directories\<close>

text \<open>\<^verbatim>\<open>strncmp\<close> on byte strings; the end of the list stands for the NUL.\<close>

fun chr0 :: "u8 list \<Rightarrow> u8" where
  "chr0 [] = 0" | "chr0 (x # xs) = x"

primrec lstrncmp :: "nat \<Rightarrow> u8 list \<Rightarrow> u8 list \<Rightarrow> int" where
  "lstrncmp 0 p q = 0"
| "lstrncmp (Suc n) p q =
     (if chr0 p \<noteq> 0 \<and> chr0 p = chr0 q then lstrncmp n (tl p) (tl q) else uint (chr0 p) - uint (chr0 q))"

definition namecmp :: "u8 list \<Rightarrow> u8 list \<Rightarrow> int" where
  "namecmp s t = lstrncmp DIRSIZ s t"

primrec dirlookup_loop ::
  "('a kfs_scheme) fsenv \<Rightarrow> nat \<Rightarrow> u8 list \<Rightarrow> nat \<Rightarrow> u32 \<Rightarrow> 'a kfs_scheme \<Rightarrow> ((nat \<times> u32) option \<times> 'a kfs_scheme) kres" where
  "dirlookup_loop E dp nm 0 off s = Inr (None, s)"
| "dirlookup_loop E dp nm (Suc n) off s =
     (if off < isize (icache s ! dp) then
        kbind (readi E dp off (of_nat DIRENT) s) (\<lambda>(r, s1).
        case r of None \<Rightarrow> Inl (Panic ''dirlookup read'')
        | Some de \<Rightarrow>
          if length de \<noteq> DIRENT then Inl (Panic ''dirlookup read'')
          else if get16 de 0 = 0 then dirlookup_loop E dp nm n (off + of_nat DIRENT) s1
          else if namecmp nm (drop 2 de) = 0 then
            kbind (iget (idev (icache s1 ! dp)) (ucast (get16 de 0)) s1) (\<lambda>(i, s2). Inr (Some (i, off), s2))
          else dirlookup_loop E dp nm n (off + of_nat DIRENT) s1)
      else Inr (None, s))"

text \<open>A directory of \<open>sz\<close> bytes has at most \<open>sz div DIRENT + 1\<close> entries that start before its end.\<close>

definition dirlookup ::
  "('a kfs_scheme) fsenv \<Rightarrow> nat \<Rightarrow> u8 list \<Rightarrow> 'a kfs_scheme \<Rightarrow> ((nat \<times> u32) option \<times> 'a kfs_scheme) kres" where
  "dirlookup E dp nm s =
     (if itype (icache s ! dp) \<noteq> T_DIR then Inl (Panic ''dirlookup not DIR'')
      else dirlookup_loop E dp nm (unat (isize (icache s ! dp)) div DIRENT + 1) 0 s)"

primrec dirlink_loop :: "('a kfs_scheme) fsenv \<Rightarrow> nat \<Rightarrow> nat \<Rightarrow> u32 \<Rightarrow> 'a kfs_scheme \<Rightarrow> (u32 \<times> 'a kfs_scheme) kres" where
  "dirlink_loop E dp 0 off s = Inr (off, s)"
| "dirlink_loop E dp (Suc n) off s =
     (if off < isize (icache s ! dp) then
        kbind (readi E dp off (of_nat DIRENT) s) (\<lambda>(r, s1).
        case r of None \<Rightarrow> Inl (Panic ''dirlink read'')
        | Some de \<Rightarrow>
          if length de \<noteq> DIRENT then Inl (Panic ''dirlink read'')
          else if get16 de 0 = 0 then Inr (off, s1)
          else dirlink_loop E dp n (off + of_nat DIRENT) s1)
      else Inr (off, s))"

text \<open>The new entry: the number, then the name padded with NULs as \<^verbatim>\<open>strncpy\<close> does.\<close>

definition mk_dirent :: "u32 \<Rightarrow> u8 list \<Rightarrow> block" where
  "mk_dirent n nm = put16 (replicate 2 0) 0 (ucast n) @ take DIRSIZ (takeWhile (\<lambda>c. c \<noteq> 0) nm @ replicate DIRSIZ 0)"

definition dirlink :: "('a kfs_scheme) fsenv \<Rightarrow> nat \<Rightarrow> u8 list \<Rightarrow> u32 \<Rightarrow> 'a kfs_scheme \<Rightarrow> (int \<times> 'a kfs_scheme) kres" where
  "dirlink E dp nm n s =
     kbind (dirlookup E dp nm s) (\<lambda>(r, s1).
     case r of Some (i, _) \<Rightarrow> kbind (iput E i s1) (\<lambda>s2. Inr (-1, s2))
     | None \<Rightarrow>
       kbind (dirlink_loop E dp (unat (isize (icache s1 ! dp)) div DIRENT + 1) 0 s1) (\<lambda>(off, s2).
       kbind (writei E dp (mk_dirent n nm) off s2) (\<lambda>(w, s3).
       if w \<noteq> int DIRENT then Inl (Panic ''dirlink'') else Inr (0, s3))))"

section \<open>Paths\<close>

definition skipelem :: "u8 list \<Rightarrow> (u8 list \<times> u8 list) option" where
  "skipelem path =
     (let p = dropWhile (\<lambda>c. c = slash) path in
      if p = [] then None
      else let el = takeWhile (\<lambda>c. c \<noteq> slash) p; rest = dropWhile (\<lambda>c. c \<noteq> slash) p;
               nm = (if length el \<ge> DIRSIZ then take DIRSIZ el else el)
           in Some (dropWhile (\<lambda>c. c = slash) rest, nm))"

lemma skipelem_shorter: "skipelem path = Some (rest, nm) \<Longrightarrow> length rest < length path"
proof -
  assume a: "skipelem path = Some (rest, nm)"
  let ?p = "dropWhile (\<lambda>c. c = slash) path"
  from a have p: "?p \<noteq> []" and r: "rest = dropWhile (\<lambda>c. c = slash) (dropWhile (\<lambda>c. c \<noteq> slash) ?p)"
    by (auto simp: skipelem_def Let_def split: if_splits)
  from p have "hd ?p \<noteq> slash" using hd_dropWhile by blast
  with p have "length (dropWhile (\<lambda>c. c \<noteq> slash) ?p) < length ?p"
    by (cases ?p) (auto simp: le_imp_less_Suc length_dropWhile_le)
  then show "length rest < length path"
    unfolding r by (meson length_dropWhile_le le_less_trans less_le_trans)
qed

function (sequential) namex_loop ::
  "('a kfs_scheme) fsenv \<Rightarrow> bool \<Rightarrow> u8 list \<Rightarrow> u8 list \<Rightarrow> nat \<Rightarrow> 'a kfs_scheme \<Rightarrow> ((nat \<times> u8 list) option \<times> 'a kfs_scheme) kres" where
  "namex_loop E pmode path nm ip s =
     (case skipelem path of
        None \<Rightarrow> if pmode then kbind (iput E ip s) (\<lambda>s1. Inr (None, s1)) else Inr (Some (ip, nm), s)
      | Some (rest, el) \<Rightarrow>
          kbind (ilock E (Some ip) s) (\<lambda>s1.
          if itype (icache s1 ! ip) \<noteq> T_DIR then kbind (iunlockput E ip s1) (\<lambda>s2. Inr (None, s2))
          else if pmode \<and> rest = [] then kbind (iunlock (Some ip) s1) (\<lambda>s2. Inr (Some (ip, el), s2))
          else
            kbind (dirlookup E ip el s1) (\<lambda>(r, s2).
            case r of None \<Rightarrow> kbind (iunlockput E ip s2) (\<lambda>s3. Inr (None, s3))
            | Some (nxt, _) \<Rightarrow> kbind (iunlockput E ip s2) (\<lambda>s3. namex_loop E pmode rest el nxt s3))))"
  by pat_completeness auto
termination
  by (relation "measure (\<lambda>(E, pmode, path, nm, ip, s). length path)") (auto dest: skipelem_shorter)

declare namex_loop.simps [simp del]

definition namex :: "('a kfs_scheme) fsenv \<Rightarrow> u8 list \<Rightarrow> bool \<Rightarrow> 'a kfs_scheme \<Rightarrow> ((nat \<times> u8 list) option \<times> 'a kfs_scheme) kres" where
  "namex E path pmode s =
     kbind (if path \<noteq> [] \<and> hd path = slash then iget ROOTDEV ROOTINO s
            else kbind (myproc s) (\<lambda>(p, s1).
                 kbind (the_proc p) (\<lambda>q.
                 case cwd (ptable s1 ! q) of None \<Rightarrow> Inl (Fault ''null inode'') | Some d \<Rightarrow> idup d s1)))
       (\<lambda>(ip, s2). namex_loop E pmode path [] ip s2)"

definition namei :: "('a kfs_scheme) fsenv \<Rightarrow> u8 list \<Rightarrow> 'a kfs_scheme \<Rightarrow> (nat option \<times> 'a kfs_scheme) kres" where
  "namei E path s = kbind (namex E path False s) (\<lambda>(r, s1). Inr (map_option fst r, s1))"

definition nameiparent :: "('a kfs_scheme) fsenv \<Rightarrow> u8 list \<Rightarrow> 'a kfs_scheme \<Rightarrow> ((nat \<times> u8 list) option \<times> 'a kfs_scheme) kres" where
  "nameiparent E path s = namex E path True s"

end
