(* ===== verification/Pipe.thy ===== *)
theory Pipe
  imports FsDir
begin

text \<open>
  Pipes (\<^verbatim>\<open>pipe.c\<close>) without their allocation, which is with the file table. A pipe is referred to by
  the address of its page; the contents of these pages are kept as records. Bytes written are
  passed in and bytes read are returned, the callers move them from and to user memory.
\<close>

section \<open>State and operations\<close>

definition PIPESIZE :: nat where "PIPESIZE = 512"

record pipe =
  pdata :: "u8 list"
  nread :: u32
  nwrite :: u32
  readopen :: bool
  writeopen :: bool

record kpipe = kfs +
  pipes :: "u32 \<Rightarrow> pipe"

definition pipe_upd :: "u32 \<Rightarrow> (pipe \<Rightarrow> pipe) \<Rightarrow> 'a kpipe_scheme \<Rightarrow> 'a kpipe_scheme" where
  "pipe_upd p f s = s\<lparr>pipes := (pipes s)(p := f (pipes s p))\<rparr>"

definition cur_killed :: "'a pbase_scheme \<Rightarrow> (bool \<times> 'a pbase_scheme) kres" where
  "cur_killed s = kbind (myproc s) (\<lambda>(p, s1). kbind (the_proc p) (\<lambda>q. Inr (killed (ptable s1 ! q), s1)))"

definition pipeclose :: "u32 \<Rightarrow> bool \<Rightarrow> 'a kpipe_scheme \<Rightarrow> ('a kpipe_scheme) kres" where
  "pipeclose p writable s =
     (let lk = PipeLock (unat p) in
      kbind (acquire lk s) (\<lambda>s1.
      kbind (if writable then wakeup (PipeReadChan (unat p)) (pipe_upd p (\<lambda>x. x\<lparr>writeopen := False\<rparr>) s1)
             else wakeup (PipeWriteChan (unat p)) (pipe_upd p (\<lambda>x. x\<lparr>readopen := False\<rparr>) s1)) (\<lambda>s2.
      if \<not> readopen (pipes s2 p) \<and> \<not> writeopen (pipes s2 p)
      then kbind (release lk s2) (kfree p) else release lk s2)))"

definition pipe_full :: "pipe \<Rightarrow> bool" where
  "pipe_full x \<longleftrightarrow> nwrite x = nread x + of_nat PIPESIZE"

definition pipe_put :: "u8 \<Rightarrow> pipe \<Rightarrow> pipe" where
  "pipe_put c x = x\<lparr>pdata := (pdata x)[unat (nwrite x) mod PIPESIZE := c], nwrite := nwrite x + 1\<rparr>"

definition pipe_get :: "pipe \<Rightarrow> u8 \<times> pipe" where
  "pipe_get x = (pdata x ! (unat (nread x) mod PIPESIZE), x\<lparr>nread := nread x + 1\<rparr>)"

text \<open>\<open>fuel\<close> is how often the writer may go to sleep on a full pipe.\<close>

fun pipewrite_loop ::
  "('a kpipe_scheme \<Rightarrow> ('a kpipe_scheme) kres) \<Rightarrow> u32 \<Rightarrow> nat \<Rightarrow> u8 list \<Rightarrow> 'a kpipe_scheme \<Rightarrow> (bool \<times> 'a kpipe_scheme) kres" where
  "pipewrite_loop sw p fuel [] s = Inr (True, s)"
| "pipewrite_loop sw p fuel (c # cs) s =
     (if pipe_full (pipes s p) then
        kbind (if \<not> readopen (pipes s p) then Inr (True, s) else cur_killed s) (\<lambda>(stop, s1).
        if stop then kbind (release (PipeLock (unat p)) s1) (\<lambda>s2. Inr (False, s2))
        else
          kbind (wakeup (PipeReadChan (unat p)) s1) (\<lambda>s2.
          case fuel of 0 \<Rightarrow> Inl (Sleeps (PipeWriteChan (unat p)))
          | Suc f \<Rightarrow> kbind (sleep sw (PipeWriteChan (unat p)) (Some (PipeLock (unat p))) s2) (pipewrite_loop sw p f (c # cs))))
      else pipewrite_loop sw p fuel cs (pipe_upd p (pipe_put c) s))"

definition pipewrite ::
  "('a kpipe_scheme \<Rightarrow> ('a kpipe_scheme) kres) \<Rightarrow> nat \<Rightarrow> u32 \<Rightarrow> u8 list \<Rightarrow> 'a kpipe_scheme \<Rightarrow> (int \<times> 'a kpipe_scheme) kres" where
  "pipewrite sw fuel p cs s =
     kbind (acquire (PipeLock (unat p)) s) (\<lambda>s1.
     kbind (pipewrite_loop sw p fuel cs s1) (\<lambda>(done, s2).
     if \<not> done then Inr (-1, s2)
     else
       kbind (wakeup (PipeReadChan (unat p)) s2) (\<lambda>s3.
       kbind (release (PipeLock (unat p)) s3) (\<lambda>s4. Inr (int (length cs), s4)))))"

primrec piperead_wait ::
  "('a kpipe_scheme \<Rightarrow> ('a kpipe_scheme) kres) \<Rightarrow> u32 \<Rightarrow> nat \<Rightarrow> 'a kpipe_scheme \<Rightarrow> (bool \<times> 'a kpipe_scheme) kres" where
  "piperead_wait sw p 0 s =
     (if nread (pipes s p) = nwrite (pipes s p) \<and> writeopen (pipes s p) then
        kbind (cur_killed s) (\<lambda>(k, s1).
        if k then kbind (release (PipeLock (unat p)) s1) (\<lambda>s2. Inr (False, s2))
        else Inl (Sleeps (PipeReadChan (unat p))))
      else Inr (True, s))"
| "piperead_wait sw p (Suc f) s =
     (if nread (pipes s p) = nwrite (pipes s p) \<and> writeopen (pipes s p) then
        kbind (cur_killed s) (\<lambda>(k, s1).
        if k then kbind (release (PipeLock (unat p)) s1) (\<lambda>s2. Inr (False, s2))
        else kbind (sleep sw (PipeReadChan (unat p)) (Some (PipeLock (unat p))) s1) (piperead_wait sw p f))
      else Inr (True, s))"

primrec piperead_copy :: "nat \<Rightarrow> pipe \<Rightarrow> u8 list \<times> pipe" where
  "piperead_copy 0 x = ([], x)"
| "piperead_copy (Suc n) x =
     (if nread x = nwrite x then ([], x)
      else let (c, y) = pipe_get x; (cs, z) = piperead_copy n y in (c # cs, z))"

definition piperead ::
  "('a kpipe_scheme \<Rightarrow> ('a kpipe_scheme) kres) \<Rightarrow> nat \<Rightarrow> u32 \<Rightarrow> int \<Rightarrow> 'a kpipe_scheme \<Rightarrow> (u8 list option \<times> 'a kpipe_scheme) kres" where
  "piperead sw fuel p n s =
     kbind (acquire (PipeLock (unat p)) s) (\<lambda>s1.
     kbind (piperead_wait sw p fuel s1) (\<lambda>(done, s2).
     if \<not> done then Inr (None, s2)
     else
       let (cs, x) = piperead_copy (nat n) (pipes s2 p) in
       kbind (wakeup (PipeWriteChan (unat p)) (pipe_upd p (\<lambda>_. x) s2)) (\<lambda>s3.
       kbind (release (PipeLock (unat p)) s3) (\<lambda>s4. Inr (Some cs, s4)))))"

end
