(* ===== verification/File.thy ===== *)
theory File
  imports Pipe
begin

text \<open>
  The table of open files (\<^verbatim>\<open>file.c\<close>, \<^verbatim>\<open>file.h\<close>) and the allocation of pipes (\<^verbatim>\<open>pipealloc\<close> of \<^verbatim>\<open>pipe.c\<close>).
  Open files are referred to by their index in the table.
\<close>

section \<open>State\<close>

definition NFILE :: nat where "NFILE = 100"

datatype ftype = FD_NONE | FD_PIPE | FD_INODE

record file_t =
  ftype :: ftype
  fref :: int
  readable :: bool
  writable :: bool
  fpipe :: u32
  fip :: "nat option"
  foff :: u32

record kfile = kpipe +
  ftable :: "file_t list"

definition file_upd :: "nat \<Rightarrow> (file_t \<Rightarrow> file_t) \<Rightarrow> 'a kfile_scheme \<Rightarrow> 'a kfile_scheme" where
  "file_upd f g s = s\<lparr>ftable := (ftable s)[f := g (ftable s ! f)]\<rparr>"

section \<open>Operations\<close>

definition fileinit :: "'a kfile_scheme \<Rightarrow> 'a kfile_scheme" where
  "fileinit s = initlock FtableLock ''ftable'' s"

definition filealloc :: "'a kfile_scheme \<Rightarrow> (nat option \<times> 'a kfile_scheme) kres" where
  "filealloc s =
     kbind (acquire FtableLock s) (\<lambda>s1.
     case find_idx (\<lambda>f. fref f = 0) (ftable s1) of
       Some f \<Rightarrow> kbind (release FtableLock (file_upd f (\<lambda>x. x\<lparr>fref := 1\<rparr>) s1)) (\<lambda>s2. Inr (Some f, s2))
     | None \<Rightarrow> kbind (release FtableLock s1) (\<lambda>s2. Inr (None, s2)))"

definition filedup :: "nat \<Rightarrow> 'a kfile_scheme \<Rightarrow> (nat \<times> 'a kfile_scheme) kres" where
  "filedup f s =
     kbind (acquire FtableLock s) (\<lambda>s1.
     if fref (ftable s1 ! f) < 1 then Inl (Panic ''filedup'')
     else kbind (release FtableLock (file_upd f (\<lambda>x. x\<lparr>fref := fref x + 1\<rparr>) s1)) (\<lambda>s2. Inr (f, s2)))"

definition fileclose :: "('a kfile_scheme) fsenv \<Rightarrow> nat \<Rightarrow> 'a kfile_scheme \<Rightarrow> ('a kfile_scheme) kres" where
  "fileclose E f s =
     kbind (acquire FtableLock s) (\<lambda>s1.
     if fref (ftable s1 ! f) < 1 then Inl (Panic ''fileclose'')
     else
       let s2 = file_upd f (\<lambda>x. x\<lparr>fref := fref x - 1\<rparr>) s1 in
       if fref (ftable s2 ! f) > 0 then release FtableLock s2
       else
         let ff = ftable s2 ! f in
         kbind (release FtableLock (file_upd f (\<lambda>x. x\<lparr>fref := 0, ftype := FD_NONE\<rparr>) s2)) (\<lambda>s3.
         if ftype ff = FD_PIPE then pipeclose (fpipe ff) (writable ff) s3
         else if ftype ff = FD_INODE then
           (case fip ff of None \<Rightarrow> Inl (Fault ''null inode'')
            | Some i \<Rightarrow> kbind (begin_op E s3) (\<lambda>s4. kbind (iput E i s4) (end_op E)))
         else Inr s3))"

definition filestat :: "('a kfile_scheme) fsenv \<Rightarrow> nat \<Rightarrow> 'a kfile_scheme \<Rightarrow> (stat option \<times> 'a kfile_scheme) kres" where
  "filestat E f s =
     (let ff = ftable s ! f in
      if ftype ff = FD_INODE then
        kbind (ilock E (fip ff) s) (\<lambda>s1.
        let st = stati (the (fip ff)) s1 in
        kbind (iunlock (fip ff) s1) (\<lambda>s2. Inr (Some st, s2)))
      else Inr (None, s))"

definition fileread :: "('a kfile_scheme) fsenv \<Rightarrow> nat \<Rightarrow> int \<Rightarrow> 'a kfile_scheme \<Rightarrow> (block option \<times> 'a kfile_scheme) kres" where
  "fileread E f n s =
     (let ff = ftable s ! f in
      if \<not> readable ff then Inr (None, s)
      else if ftype ff = FD_PIPE then piperead (fsw E) (tries E) (fpipe ff) n s
      else if ftype ff = FD_INODE then
        kbind (ilock E (fip ff) s) (\<lambda>s1.
        kbind (readi E (the (fip ff)) (foff (ftable s1 ! f)) (of_int n) s1) (\<lambda>(r, s2).
        let s3 = (case r of None \<Rightarrow> s2 | Some x \<Rightarrow> file_upd f (\<lambda>y. y\<lparr>foff := foff y + of_nat (length x)\<rparr>) s2) in
        kbind (iunlock (fip ff) s3) (\<lambda>s4. Inr (r, s4))))
      else Inl (Panic ''fileread''))"

definition filewrite_max :: nat where "filewrite_max = nat ((MAXOPBLOCKS - 1 - 1 - 2) div 2 * 512)"

function (sequential) filewrite_loop :: "('a kfile_scheme) fsenv \<Rightarrow> nat \<Rightarrow> block \<Rightarrow> 'a kfile_scheme \<Rightarrow> (bool \<times> 'a kfile_scheme) kres" where
  "filewrite_loop E f cs s =
     (if cs = [] then Inr (True, s)
      else let n1 = min (length cs) filewrite_max; ff = ftable s ! f in
        kbind (begin_op E s) (\<lambda>s1.
        kbind (ilock E (fip ff) s1) (\<lambda>s2.
        kbind (writei E (the (fip ff)) (take n1 cs) (foff (ftable s2 ! f)) s2) (\<lambda>(r, s3).
        let s4 = (if r > 0 then file_upd f (\<lambda>y. y\<lparr>foff := foff y + of_int r\<rparr>) s3 else s3) in
        kbind (iunlock (fip ff) s4) (\<lambda>s5.
        kbind (end_op E s5) (\<lambda>s6.
        if r < 0 then Inr (False, s6)
        else if r \<noteq> int n1 then Inl (Panic ''short filewrite'')
        else filewrite_loop E f (drop n1 cs) s6))))))"
  by pat_completeness auto
termination
  by (relation "measure (\<lambda>(E, f, cs, s). length cs)") (auto simp: filewrite_max_def MAXOPBLOCKS_def)

declare filewrite_loop.simps [simp del]

definition filewrite :: "('a kfile_scheme) fsenv \<Rightarrow> nat \<Rightarrow> block \<Rightarrow> 'a kfile_scheme \<Rightarrow> (int \<times> 'a kfile_scheme) kres" where
  "filewrite E f cs s =
     (let ff = ftable s ! f in
      if \<not> writable ff then Inr (-1, s)
      else if ftype ff = FD_PIPE then pipewrite (fsw E) (tries E) (fpipe ff) cs s
      else if ftype ff = FD_INODE then
        kbind (filewrite_loop E f cs s) (\<lambda>(ok, s1). Inr (if ok then int (length cs) else -1, s1))
      else Inl (Panic ''filewrite''))"

text \<open>
  The loop of \<^verbatim>\<open>filecopy\<close> ends when nothing is left to read. It does not end when reading fails:
  the -1 is treated as a length, the \<^verbatim>\<open>writei\<close> of that length fails, and the next read fails too.
  \<open>fuel\<close> bounds the passes.
\<close>

definition COPY_BUF :: nat where "COPY_BUF = 50"

primrec filecopy_loop :: "('a kfile_scheme) fsenv \<Rightarrow> nat \<Rightarrow> nat \<Rightarrow> nat \<Rightarrow> u32 \<Rightarrow> 'a kfile_scheme \<Rightarrow> ('a kfile_scheme) kres" where
  "filecopy_loop E src dest 0 off s = Inl (Fault ''filecopy does not end'')"
| "filecopy_loop E src dest (Suc fuel) off s =
     kbind (readi E src off (of_nat COPY_BUF) s) (\<lambda>(r, s1).
     case r of
       None \<Rightarrow>
         if itype (icache s1 ! dest) = T_DEV then Inl (Fault ''device write'')
         else
           kbind (iupdate E dest (inode_upd dest (\<lambda>ip. ip\<lparr>isize := isize ip - 1\<rparr>) s1)) (\<lambda>s2.
           filecopy_loop E src dest fuel (off - 1) s2)
     | Some x \<Rightarrow>
         if x = [] then Inr s1
         else
           kbind (writei E dest x off (inode_upd dest (\<lambda>ip. ip\<lparr>isize := isize ip + of_nat (length x)\<rparr>) s1)) (\<lambda>(w, s2).
           kbind (iupdate E dest s2) (\<lambda>s3. filecopy_loop E src dest fuel (off + of_nat (length x)) s3)))"

definition filecopy :: "('a kfile_scheme) fsenv \<Rightarrow> nat \<Rightarrow> nat \<Rightarrow> nat \<Rightarrow> 'a kfile_scheme \<Rightarrow> (int \<times> 'a kfile_scheme) kres" where
  "filecopy E fuel src dest s =
     kbind (begin_op E s) (\<lambda>s1.
     kbind (ilock E (Some src) s1) (\<lambda>s2.
     kbind (ilock E (Some dest) s2) (\<lambda>s3.
     kbind (filecopy_loop E src dest fuel 0 (inode_upd dest (\<lambda>ip. ip\<lparr>isize := 0\<rparr>) s3)) (\<lambda>s4.
     kbind (end_op E s4) (\<lambda>s5.
     kbind (iunlockput E src s5) (\<lambda>s6.
     kbind (iunlockput E dest s6) (\<lambda>s7. Inr (0, s7))))))))"

section \<open>Allocating a pipe\<close>

definition pipealloc_bad :: "('a kfile_scheme) fsenv \<Rightarrow> nat option \<Rightarrow> nat option \<Rightarrow> 'a kfile_scheme \<Rightarrow>
    ((nat \<times> nat) option \<times> 'a kfile_scheme) kres" where
  "pipealloc_bad E f0 f1 s =
     kbind (case f0 of Some f \<Rightarrow> fileclose E f s | None \<Rightarrow> Inr s) (\<lambda>s1.
     kbind (case f1 of Some f \<Rightarrow> fileclose E f s1 | None \<Rightarrow> Inr s1) (\<lambda>s2. Inr (None, s2)))"

definition pipealloc :: "('a kfile_scheme) fsenv \<Rightarrow> 'a kfile_scheme \<Rightarrow> ((nat \<times> nat) option \<times> 'a kfile_scheme) kres" where
  "pipealloc E s =
     kbind (filealloc s) (\<lambda>(f0, s1).
     case f0 of None \<Rightarrow> pipealloc_bad E None None s1
     | Some a \<Rightarrow>
       kbind (filealloc s1) (\<lambda>(f1, s2).
       case f1 of None \<Rightarrow> pipealloc_bad E f0 None s2
       | Some b \<Rightarrow>
         kbind (kalloc s2) (\<lambda>(p, s3).
         if p = 0 then pipealloc_bad E f0 f1 s3
         else
           let s4 = pipe_upd p (\<lambda>x. x\<lparr>readopen := True, writeopen := True, nwrite := 0, nread := 0\<rparr>) s3;
               s5 = initlock (PipeLock (unat p)) ''pipe'' s4;
               s6 = file_upd a (\<lambda>x. x\<lparr>ftype := FD_PIPE, readable := True, writable := False, fpipe := p\<rparr>) s5;
               s7 = file_upd b (\<lambda>x. x\<lparr>ftype := FD_PIPE, readable := False, writable := True, fpipe := p\<rparr>) s6
           in Inr (Some (a, b), s7))))"

end
