(* ===== verification/PriorityLock.thy ===== *)
theory PriorityLock
  imports Proc "HOL-Library.Multiset"
begin

text \<open>
  The priority lock (\<^verbatim>\<open>prioritylock.c\<close>) and the system calls built on it (\<^verbatim>\<open>pacquire\<close>, \<^verbatim>\<open>prelease\<close>,
  \<^verbatim>\<open>pqueue\<close> of \<^verbatim>\<open>proc.c\<close>). Waiting processes are kept in an array sorted by descending pid; the
  lock goes to the first. The array operations are shown to implement a priority queue, and
  the protocol of several processes to be mutually exclusive and to follow the priorities.
\<close>

section \<open>The queue operations\<close>

fun shift_right :: "int list \<Rightarrow> nat \<Rightarrow> nat \<Rightarrow> int list" where
  "shift_right reqs i pos =
     (if i > pos then shift_right (reqs[i := reqs ! (i - 1)]) (i - 1) pos else reqs)"

declare shift_right.simps [simp del]

text \<open>The search for the position runs off the array if every entry is larger.\<close>

definition enqueue :: "prioritylock \<Rightarrow> int \<Rightarrow> prioritylock kres" where
  "enqueue lk x =
     (if inqueue lk = int NPROC then Inr lk
      else let pos = length (takeWhile (\<lambda>r. r > x) (lockreq lk)) in
        if pos = length (lockreq lk) then Inl (Fault ''lockreq'')
        else Inr (lk\<lparr>lockreq := (shift_right (lockreq lk) (nat (inqueue lk)) pos)[pos := x],
                    inqueue := inqueue lk + 1\<rparr>))"

function shift_left :: "int list \<Rightarrow> nat \<Rightarrow> nat \<Rightarrow> int list" where
  "shift_left reqs i n =
     (if i + 1 < n then shift_left (reqs[i := reqs ! (i + 1)]) (i + 1) n else reqs)"
  by pat_completeness auto
termination by (relation "measure (\<lambda>(reqs, i, n). n - i)") auto

declare shift_left.simps [simp del]

definition isprior :: "prioritylock \<Rightarrow> int \<Rightarrow> bool \<times> prioritylock" where
  "isprior lk x =
     (if inqueue lk = 0 \<or> lockreq lk ! 0 \<noteq> x then (False, lk)
      else let n = nat (inqueue lk) in
        (True, lk\<lparr>lockreq := (shift_left (lockreq lk) 0 n)[n - 1 := 0], inqueue := inqueue lk - 1\<rparr>))"

section \<open>The lock\<close>

definition my_pid :: "'a pbase_scheme \<Rightarrow> (int \<times> 'a pbase_scheme) kres" where
  "my_pid s =
     kbind (myproc s) (\<lambda>(p, s1).
     case p of None \<Rightarrow> Inl (Fault ''null process'') | Some i \<Rightarrow> Inr (pid (ptable s1 ! i), s1))"

text \<open>\<^verbatim>\<open>memset(lk->lockreq, 0, NPROC)\<close> clears \<^verbatim>\<open>NPROC\<close> bytes, that is the first sixteen entries.\<close>

definition initprioritylock :: "string \<Rightarrow> 'a pbase_scheme \<Rightarrow> 'a pbase_scheme" where
  "initprioritylock nm s =
     (let s1 = initlock PrioLock ''p_s_lock'' s; lk = plock s1 in
      s1\<lparr>plock := lk\<lparr>plname := nm, plocked := False, plpid := 0,
            lockreq := replicate (NPROC div 4) 0 @ drop (NPROC div 4) (lockreq lk)\<rparr>\<rparr>)"

definition pinit :: "'a pbase_scheme \<Rightarrow> 'a pbase_scheme" where
  "pinit s = initprioritylock ''plock'' (initlock PtableLock ''ptable'' s)"

text \<open>
  One pass of the loop in \<^verbatim>\<open>acquirepriority\<close>; \<open>True\<close> means the loop is left and the lock taken. A
  pass that fails changes nothing, so the loop does not end by anything this CPU does.
\<close>

definition acquirepriority_pass :: "'a pbase_scheme \<Rightarrow> (bool \<times> 'a pbase_scheme) kres" where
  "acquirepriority_pass s =
     kbind (acquire PrioLock s) (\<lambda>s1.
     if plocked (plock s1) then kbind (release PrioLock s1) (\<lambda>s2. Inr (False, s2))
     else kbind (my_pid s1) (\<lambda>(x, s2).
       let (prior, lk) = isprior (plock s2) x in
       if \<not> prior then kbind (release PrioLock (s2\<lparr>plock := lk\<rparr>)) (\<lambda>s3. Inr (False, s3))
       else kbind (my_pid (s2\<lparr>plock := lk\<lparr>plocked := True\<rparr>\<rparr>)) (\<lambda>(y, s3).
         kbind (release PrioLock (s3\<lparr>plock := (plock s3)\<lparr>plpid := y\<rparr>\<rparr>)) (\<lambda>s4. Inr (True, s4)))))"

definition acquirepriority :: "'a pbase_scheme \<Rightarrow> ('a pbase_scheme) kres" where
  "acquirepriority s =
     kbind (my_pid s) (\<lambda>(x, s1).
     kbind (enqueue (plock s1) x) (\<lambda>lk.
     kbind (acquirepriority_pass (s1\<lparr>plock := lk\<rparr>)) (\<lambda>(got, s2).
     if got then Inr s2 else Inl (Spin PrioLock))))"

definition releasepriority :: "'a pbase_scheme \<Rightarrow> ('a pbase_scheme) kres" where
  "releasepriority s =
     kbind (acquire PrioLock s) (\<lambda>s1.
     release PrioLock (s1\<lparr>plock := (plock s1)\<lparr>plocked := False, plpid := 0\<rparr>\<rparr>))"

definition isprioritylocked :: "'a pbase_scheme \<Rightarrow> (bool \<times> 'a pbase_scheme) kres" where
  "isprioritylocked s =
     kbind (acquire PrioLock s) (\<lambda>s1.
     let r = plocked (plock s1) in kbind (release PrioLock s1) (\<lambda>s2. Inr (r, s2)))"

definition isholdingpriority :: "'a pbase_scheme \<Rightarrow> (bool \<times> 'a pbase_scheme) kres" where
  "isholdingpriority s =
     kbind (acquire PrioLock s) (\<lambda>s1.
     kbind (if plocked (plock s1) then kbind (my_pid s1) (\<lambda>(x, s2). Inr (plpid (plock s2) = x, s2))
            else Inr (False, s1)) (\<lambda>(r, s3).
     kbind (release PrioLock s3) (\<lambda>s4. Inr (r, s4))))"

fun show_entries :: "nat \<Rightarrow> nat \<Rightarrow> 'a pbase_scheme \<Rightarrow> ('a pbase_scheme) kres" where
  "show_entries 0 i s = Inr s"
| "show_entries (Suc n) i s =
     kbind (cprintf ''%d'' [AInt (of_int (lockreq (plock s) ! i))] s) (\<lambda>s1.
     kbind (if int i \<noteq> inqueue (plock s1) - 1 then cprintf '', '' [] s1 else Inr s1)
       (show_entries n (i + 1)))"

definition showlockqueue :: "'a pbase_scheme \<Rightarrow> ('a pbase_scheme) kres" where
  "showlockqueue s =
     kbind (acquire PrioLock s) (\<lambda>s1.
     kbind (cprintf ''['' [] s1) (\<lambda>s2.
     kbind (show_entries (nat (inqueue (plock s2))) 0 s2) (\<lambda>s3.
     kbind (cprintf [CHR '']'', CHR 0x0A] [] s3) (release PrioLock))))"

section \<open>The system calls\<close>

definition pacquire :: "'a pbase_scheme \<Rightarrow> (int \<times> 'a pbase_scheme) kres" where
  "pacquire s =
     kbind (isholdingpriority s) (\<lambda>(h, s1).
     if h then Inr (-1, s1) else kbind (acquirepriority s1) my_pid)"

definition prelease :: "'a pbase_scheme \<Rightarrow> (int \<times> 'a pbase_scheme) kres" where
  "prelease s =
     kbind (isholdingpriority s) (\<lambda>(h, s1).
     if \<not> h then Inr (-1, s1) else kbind (releasepriority s1) (\<lambda>s2. Inr (0, s2)))"

definition pqueue :: "'a pbase_scheme \<Rightarrow> (int \<times> 'a pbase_scheme) kres" where
  "pqueue s = kbind (showlockqueue s) (\<lambda>s1. Inr (0, s1))"

section \<open>The array is a priority queue\<close>

text \<open>The waiting pids, in the order of the array, and what holds of the array between calls.\<close>

definition waiting :: "prioritylock \<Rightarrow> int list" where
  "waiting lk = take (nat (inqueue lk)) (lockreq lk)"

definition plock_ok :: "prioritylock \<Rightarrow> bool" where
  "plock_ok lk \<longleftrightarrow> inqueue lk = int (length (waiting lk)) \<and> length (waiting lk) \<le> NPROC \<and>
     lockreq lk = waiting lk @ replicate (NPROC - length (waiting lk)) 0 \<and>
     sorted_wrt (\<ge>) (waiting lk) \<and> (\<forall>x \<in> set (waiting lk). 0 < x)"

lemma shift_right_nth:
  assumes "pos \<le> i" "i < length reqs"
  shows "length (shift_right reqs i pos) = length reqs"
    "k < length reqs \<Longrightarrow> shift_right reqs i pos ! k = (if pos < k \<and> k \<le> i then reqs ! (k - 1) else reqs ! k)"
  using assms
proof (induction i arbitrary: reqs)
  case 0
  { case 1 then show ?case by (subst shift_right.simps) simp
  next
    case 2 then show ?case by (subst shift_right.simps) simp }
next
  case (Suc i)
  { case 1 then show ?case using Suc.IH(1)[of "reqs[Suc i := reqs ! i]"]
      by (subst shift_right.simps) (auto simp: not_less_eq_eq)
  next
    case 2 then show ?case using Suc.IH(2)[of "reqs[Suc i := reqs ! i]"]
      by (subst shift_right.simps) (auto simp: not_less_eq_eq nth_list_update) }
qed

lemma shift_left_nth:
  assumes "n \<le> length reqs"
  shows "length (shift_left reqs i n) = length reqs"
    "k < length reqs \<Longrightarrow> shift_left reqs i n ! k = (if i \<le> k \<and> k + 1 < n then reqs ! (k + 1) else reqs ! k)"
  using assms
proof (induction reqs i n rule: shift_left.induct)
  case (1 reqs i n)
  { case 1 then show ?case using "1.IH"(1) by (subst shift_left.simps) auto
  next
    case 2 then show ?case using "1.IH"(2)
      by (subst shift_left.simps) (auto simp: nth_list_update not_less_eq_eq le_Suc_eq) }
qed

lemma shift_right_insert:
  assumes "pos \<le> n" "n < length reqs"
  shows "(shift_right reqs n pos)[pos := x] = take pos reqs @ x # take (n - pos) (drop pos reqs) @ drop (n + 1) reqs"
  using assms shift_right_nth[OF assms]
  by (intro nth_equalityI) (auto simp: nth_append nth_list_update nth_Cons' min_def)

lemma shift_left_pop:
  assumes "0 < n" "n \<le> length reqs"
  shows "(shift_left reqs 0 n)[n - 1 := 0] = take (n - 1) (tl reqs) @ 0 # drop n reqs"
  using assms shift_left_nth[OF assms(2), where i = 0]
  by (intro nth_equalityI) (auto simp: nth_append nth_list_update nth_Cons' nth_tl min_def)

definition insort_desc :: "int \<Rightarrow> int list \<Rightarrow> int list" where
  "insort_desc x q = takeWhile (\<lambda>r. r > x) q @ x # dropWhile (\<lambda>r. r > x) q"

lemma insort_desc_props:
  "mset (insort_desc x q) = add_mset x (mset q)" "set (insort_desc x q) = insert x (set q)"
  "length (insort_desc x q) = Suc (length q)"
proof -
  have "mset (takeWhile P q) + mset (dropWhile P q) = mset q" for P
    by (metis mset_append takeWhile_dropWhile_id)
  then show m: "mset (insort_desc x q) = add_mset x (mset q)" by (simp add: insort_desc_def)
  show "set (insort_desc x q) = insert x (set q)" using arg_cong[OF m, of set_mset] by simp
  show "length (insort_desc x q) = Suc (length q)" using arg_cong[OF m, of size] by simp
qed

lemma distinct_insort_desc: "distinct (insort_desc x q) \<longleftrightarrow> x \<notin> set q \<and> distinct q"
  using mset_eq_imp_distinct_iff[of "insort_desc x q" "x # q"] by (simp add: insort_desc_props)

lemma insort_desc_sorted:
  assumes "sorted_wrt (\<ge>) q"
  shows "sorted_wrt (\<ge>) (insort_desc x q)"
  using assms
proof (induction q)
  case (Cons y q)
  then show ?case using insort_desc_props(2)[of x q] by (auto simp: insort_desc_def)
qed (simp add: insort_desc_def)

lemma takeWhile_zeros:
  assumes "(0 :: int) < x"
  shows "takeWhile (\<lambda>r. r > x) (q @ replicate k 0) = takeWhile (\<lambda>r. r > x) q"
  using assms by (induction q) (auto simp: takeWhile_replicate)

lemma waitingI:
  assumes "inqueue lk = int (length q)" "lockreq lk = q @ r"
  shows "waiting lk = q"
  using assms by (simp add: waiting_def)

lemma enqueue_spec:
  assumes "plock_ok lk" "0 < x" "length (waiting lk) < NPROC"
  shows "\<exists>lk'. enqueue lk x = Inr lk' \<and> plock_ok lk' \<and> waiting lk' = insort_desc x (waiting lk) \<and>
     plocked lk' = plocked lk \<and> plpid lk' = plpid lk"
proof -
  let ?q = "waiting lk" and ?n = "length (waiting lk)"
  let ?pos = "length (takeWhile (\<lambda>r. r > x) ?q)"
  have rep: "lockreq lk = ?q @ replicate (NPROC - ?n) 0" and inq: "inqueue lk = int ?n"
    using assms(1) by (simp_all add: plock_ok_def)
  have len: "length (lockreq lk) = NPROC" using arg_cong[OF rep, of length] assms(3) by simp
  have pos: "length (takeWhile (\<lambda>r. r > x) (lockreq lk)) = ?pos"
    by (subst rep) (simp add: takeWhile_zeros assms(2))
  have pn: "?pos \<le> ?n" by (rule length_takeWhile_le)
  have ld: "length (dropWhile (\<lambda>r. r > x) ?q) = ?n - ?pos"
    by (metis add_diff_cancel_left' length_append takeWhile_dropWhile_id)
  let ?r = "(shift_right (lockreq lk) ?n ?pos)[?pos := x]"
  let ?lk = "lk\<lparr>lockreq := ?r, inqueue := inqueue lk + 1\<rparr>"
  have "?r = take ?pos (lockreq lk) @ x # take (?n - ?pos) (drop ?pos (lockreq lk)) @ drop (?n + 1) (lockreq lk)"
    using pn len assms(3) by (intro shift_right_insert) simp_all
  also have "take ?pos (lockreq lk) = takeWhile (\<lambda>r. r > x) ?q"
    using pn by (subst rep) (simp add: takeWhile_eq_take[symmetric])
  also have "take (?n - ?pos) (drop ?pos (lockreq lk)) = dropWhile (\<lambda>r. r > x) ?q"
    using pn by (subst rep) (simp add: dropWhile_eq_drop[symmetric] ld)
  also have "drop (?n + 1) (lockreq lk) = replicate (NPROC - Suc ?n) 0"
    by (subst rep) simp
  finally have r: "?r = insort_desc x ?q @ replicate (NPROC - Suc ?n) 0" by (simp add: insort_desc_def)
  have w: "waiting ?lk = insort_desc x ?q"
    using inq r by (intro waitingI) (simp_all add: insort_desc_props)
  have "plock_ok ?lk"
    using assms r inq unfolding plock_ok_def w
    by (auto simp: insort_desc_props insort_desc_sorted)
  moreover have "enqueue lk x = Inr ?lk"
    using assms(3) inq pos pn len by (simp add: enqueue_def Let_def)
  ultimately show ?thesis using w by auto
qed

lemma isprior_spec:
  assumes "plock_ok lk"
  shows "case waiting lk of
      [] \<Rightarrow> isprior lk x = (False, lk)
    | y # q \<Rightarrow> if y \<noteq> x then isprior lk x = (False, lk)
        else \<exists>lk'. isprior lk x = (True, lk') \<and> plock_ok lk' \<and> waiting lk' = q \<and>
          plocked lk' = plocked lk \<and> plpid lk' = plpid lk"
proof (cases "waiting lk")
  case Nil
  then show ?thesis using assms by (simp add: isprior_def plock_ok_def)
next
  case (Cons y q)
  have rep: "lockreq lk = y # q @ replicate (NPROC - Suc (length q)) 0" and inq: "inqueue lk = int (Suc (length q))"
    and le: "Suc (length q) \<le> NPROC"
    using assms unfolding plock_ok_def by (simp_all add: Cons)
  show ?thesis
  proof (cases "y = x")
    case True
    let ?n = "Suc (length q)"
    let ?r = "(shift_left (lockreq lk) 0 ?n)[?n - 1 := 0]"
    let ?lk = "lk\<lparr>lockreq := ?r, inqueue := inqueue lk - 1\<rparr>"
    have len: "length (lockreq lk) = NPROC" using arg_cong[OF rep, of length] le by simp
    then have "?r = take (?n - 1) (tl (lockreq lk)) @ 0 # drop ?n (lockreq lk)"
      using le by (intro shift_left_pop) simp_all
    also have "\<dots> = q @ replicate (Suc (NPROC - Suc (length q))) 0" by (simp add: rep)
    finally have r: "?r = q @ replicate (NPROC - length q) 0" using le by (simp add: Suc_diff_Suc del: replicate_Suc)
    have w: "waiting ?lk = q" using inq r by (intro waitingI) simp_all
    have "plock_ok ?lk" using assms r inq le unfolding plock_ok_def w by (auto simp: Cons)
    moreover have "isprior lk x = (True, ?lk)" using True inq rep by (simp add: isprior_def Let_def nat_add_distrib)
    ultimately show ?thesis using True w by (auto simp: Cons)
  next
    case False
    then show ?thesis using inq rep by (simp add: Cons isprior_def)
  qed
qed

text \<open>
  What the lock relies on: an insertion adds the pid, and the first entry is the largest.
\<close>

locale priority_queue =
  fixes ok :: "'q \<Rightarrow> bool" and elems :: "'q \<Rightarrow> int list" and cap :: nat
    and put :: "'q \<Rightarrow> int \<Rightarrow> 'q kres" and take_if :: "'q \<Rightarrow> int \<Rightarrow> bool \<times> 'q"
  assumes put_law: "ok q \<Longrightarrow> 0 < x \<Longrightarrow> length (elems q) < cap \<Longrightarrow>
      \<exists>q'. put q x = Inr q' \<and> ok q' \<and> mset (elems q') = add_mset x (mset (elems q))"
    and take_law: "ok q \<Longrightarrow> take_if q x = (True, q') \<Longrightarrow> ok q' \<and> elems q = x # elems q'"
    and take_hit: "ok q \<Longrightarrow> elems q = x # xs \<Longrightarrow> \<exists>q'. take_if q x = (True, q')"
    and sorted_law: "ok q \<Longrightarrow> sorted_wrt (\<ge>) (elems q)"
begin

lemma taken_is_max:
  assumes "ok q" "take_if q x = (True, q')"
  shows "x \<in> set (elems q)" and "y \<in> set (elems q) \<Longrightarrow> y \<le> x"
    and "mset (elems q) = add_mset x (mset (elems q'))"
  using take_law[OF assms] sorted_law[OF assms(1)] by auto

lemma max_can_take:
  assumes "ok q" "x \<in> set (elems q)" "\<forall>y \<in> set (elems q). y \<le> x"
  shows "\<exists>q'. take_if q x = (True, q')"
proof -
  obtain y xs where e: "elems q = y # xs" using assms(2) by (cases "elems q") auto
  then have "y = x" using sorted_law[OF assms(1)] assms(2,3) by fastforce
  then show ?thesis using take_hit[OF assms(1)] e by blast
qed

end

interpretation reqs: priority_queue plock_ok waiting NPROC enqueue isprior
proof unfold_locales
  fix q q' :: prioritylock and x :: int
  assume ok: "plock_ok q"
  show "0 < x \<Longrightarrow> length (waiting q) < NPROC \<Longrightarrow>
      \<exists>q'. enqueue q x = Inr q' \<and> plock_ok q' \<and> mset (waiting q') = add_mset x (mset (waiting q))"
    using enqueue_spec[OF ok] insort_desc_props(1) by metis
  show "isprior q x = (True, q') \<Longrightarrow> plock_ok q' \<and> waiting q = x # waiting q'"
    using isprior_spec[OF ok, of x] by (auto split: list.splits if_splits)
  show "sorted_wrt (\<ge>) (waiting q)" using ok by (simp add: plock_ok_def)
next
  fix q :: prioritylock and x :: int and xs
  assume "plock_ok q" "waiting q = x # xs"
  then show "\<exists>q'. isprior q x = (True, q')" using isprior_spec[of q x] by auto
qed

section \<open>Properties\<close>

text \<open>
  \<^verbatim>\<open>enqueue\<close> keeps the waiting pids sorted and loses none while the queue is not full: a positive
  pid is inserted behind the larger ones and before the others; the entries behind the queue
  stay zero. When the queue is full, the request is dropped.
\<close>

theorem enqueue_sorted_insert:
  assumes "plock_ok lk" "0 < x"
  shows "if length (waiting lk) = NPROC then enqueue lk x = Inr lk
         else \<exists>lk'. enqueue lk x = Inr lk' \<and> plock_ok lk' \<and>
           waiting lk' = takeWhile (\<lambda>r. r > x) (waiting lk) @ x # dropWhile (\<lambda>r. r > x) (waiting lk)"
proof (cases "length (waiting lk) = NPROC")
  case True
  then show ?thesis using assms(1) by (simp add: enqueue_def plock_ok_def)
next
  case False
  then have "length (waiting lk) < NPROC" using assms(1) by (simp add: plock_ok_def)
  with False show ?thesis using enqueue_spec[OF assms] by (auto simp: insort_desc_def)
qed

definition plock_demo :: prioritylock where
  "plock_demo = \<lparr>plocked = False, inqueue = 2, lockreq = [9, 4] @ replicate 62 0, plname = ''plock'', plpid = 0\<rparr>"

lemma plock_demo_ok: "plock_ok plock_demo" "waiting plock_demo = [9, 4]"
proof -
  show w: "waiting plock_demo = [9, 4]" by (simp add: waiting_def plock_demo_def)
  show "plock_ok plock_demo" unfolding plock_ok_def w by (simp add: plock_demo_def NPROC_def)
qed

theorem enqueue_sorted_insert_witness:
  "\<exists>lk'. enqueue plock_demo 7 = Inr lk' \<and> waiting lk' = [9, 7, 4]"
  using enqueue_sorted_insert[OF plock_demo_ok(1), of 7] by (auto simp: plock_demo_ok(2) NPROC_def)

section \<open>What the lock operations do\<close>

definition plock_ready :: "nat \<Rightarrow> nat \<Rightarrow> 'a pbase_scheme \<Rightarrow> bool" where
  "plock_ready c i s \<longleftrightarrow> cpu_ok c (core s) \<and> lock_free PrioLock (core s) \<and> cur c (core s) = Some i"

definition pass_effect :: "prioritylock \<Rightarrow> int \<Rightarrow> bool \<times> prioritylock" where
  "pass_effect lk x =
     (if plocked lk then (False, lk)
      else let (prior, lk') = isprior lk x in
        if prior then (True, lk'\<lparr>plocked := True, plpid := x\<rparr>) else (False, lk'))"

lemma plock_ok_owner [simp]:
  "waiting (plocked_update f lk) = waiting lk" "waiting (plpid_update g lk) = waiting lk"
  "plock_ok (plocked_update f lk) = plock_ok lk" "plock_ok (plpid_update g lk) = plock_ok lk"
  by (simp_all add: plock_ok_def waiting_def)

lemma pass_effect_spec:
  assumes "plock_ok lk" "pass_effect lk x = (got, lk')"
  shows "if got then \<not> plocked lk \<and> plock_ok lk' \<and> waiting lk = x # waiting lk' \<and> plocked lk' \<and> plpid lk' = x
         else lk' = lk"
proof -
  obtain prior lk1 where p: "isprior lk x = (prior, lk1)" by (cases "isprior lk x")
  show ?thesis
    using assms(2) isprior_spec[OF assms(1), of x] p
    by (auto simp: pass_effect_def split: if_splits list.splits)
qed

lemma my_pid_ok:
  "cpu_ok c (core s) \<Longrightarrow> cur c (core s) = Some i \<Longrightarrow> my_pid s = Inr (pid (ptable s ! i), touched c s)"
  by (simp add: my_pid_def myproc_cur)

lemma prio_release:
  assumes "plock_ready c i s" "core t = take_lock PrioLock c (core s)"
  shows "release PrioLock t = Inr (released PrioLock c t)" "core (released PrioLock c t) = core s"
  using assms by (auto simp: plock_ready_def intro!: release_ok)

lemma acquirepriority_pass_ok:
  assumes "plock_ready c i s"
  shows "\<exists>t. acquirepriority_pass s = Inr (fst (pass_effect (plock s) (pid (ptable s ! i))), t) \<and>
     plock t = snd (pass_effect (plock s) (pid (ptable s ! i))) \<and> core t = core s \<and> ptable t = ptable s"
proof -
  let ?x = "pid (ptable s ! i)" and ?a = "acquired PrioLock c s"
  have a: "acquire PrioLock s = Inr ?a" using assms by (simp add: plock_ready_def acquire_ok[of c])
  have ca: "core ?a = take_lock PrioLock c (core s)" and ok: "cpu_ok c (core ?a)" "cur c (core ?a) = Some i"
    using assms by (simp_all add: plock_ready_def)
  note R = prio_release[OF assms]
  have m: "my_pid t = Inr (pid (ptable t ! i), touched c t)" "core (touched c t) = core t"
    if "core t = core ?a" for t :: "'a pbase_scheme"
    using that ok by (simp_all add: my_pid_ok)
  obtain prior lk where p: "isprior (plock s) ?x = (prior, lk)" by (cases "isprior (plock s) ?x")
  show ?thesis
    using ca by (cases "plocked (plock s)"; cases prior)
      (auto simp: acquirepriority_pass_def a pass_effect_def p m R)
qed

lemma releasepriority_ok:
  assumes "plock_ready c i s"
  shows "\<exists>t. releasepriority s = Inr t \<and> plock t = (plock s)\<lparr>plocked := False, plpid := 0\<rparr> \<and>
     core t = core s \<and> ptable t = ptable s"
proof -
  have "acquire PrioLock s = Inr (acquired PrioLock c s)" "core (acquired PrioLock c s) = take_lock PrioLock c (core s)"
    using assms by (simp_all add: plock_ready_def acquire_ok[of c])
  then show ?thesis by (simp add: releasepriority_def prio_release[OF assms])
qed

lemma isholdingpriority_ok:
  assumes "plock_ready c i s"
  shows "\<exists>t. isholdingpriority s = Inr (plocked (plock s) \<and> plpid (plock s) = pid (ptable s ! i), t) \<and>
     plock t = plock s \<and> core t = core s \<and> ptable t = ptable s"
proof -
  let ?a = "acquired PrioLock c s"
  have a: "acquire PrioLock s = Inr ?a" and ca: "core ?a = take_lock PrioLock c (core s)"
    and ok: "cpu_ok c (core ?a)" "cur c (core ?a) = Some i"
    using assms by (simp_all add: plock_ready_def acquire_ok[of c])
  show ?thesis
    using ca ok by (simp add: isholdingpriority_def a my_pid_ok[OF ok] prio_release[OF assms])
qed

section \<open>The protocol of several processes\<close>

text \<open>
  A state of the protocol is the kernel state, the pids of the processes inside the loop of
  \<^verbatim>\<open>acquirepriority\<close> and those between its return and \<^verbatim>\<open>releasepriority\<close>. A step is one call of
  \<^verbatim>\<open>enqueue\<close>, one pass of the loop, one release, or anything that does not touch the lock's
  fields. Processes have distinct positive pids, so a process that asks finds room in the
  queue (a full queue holds every process).
\<close>

type_synonym prio_run = "pbase \<times> int set \<times> int set"

inductive prio_step :: "prio_run \<Rightarrow> prio_run \<Rightarrow> bool" where
  request: "x \<notin> W \<Longrightarrow> x \<notin> H \<Longrightarrow> 0 < x \<Longrightarrow> length (waiting (plock s)) < NPROC \<Longrightarrow>
     enqueue (plock s) x = Inr lk \<Longrightarrow> prio_step (s, W, H) (s\<lparr>plock := lk\<rparr>, insert x W, H)"
| pass: "plock_ready c i s \<Longrightarrow> x = pid (ptable s ! i) \<Longrightarrow> x \<in> W \<Longrightarrow>
     acquirepriority_pass s = Inr (got, t) \<Longrightarrow>
     prio_step (s, W, H) (t, if got then W - {x} else W, if got then insert x H else H)"
| rel: "plock_ready c i s \<Longrightarrow> x = pid (ptable s ! i) \<Longrightarrow> x \<in> H \<Longrightarrow>
     releasepriority s = Inr t \<Longrightarrow> prio_step (s, W, H) (t, W, H - {x})"
| other: "plock t = plock s \<Longrightarrow> prio_step (s, W, H) (t, W, H)"

inductive_cases prio_step_grant: "prio_step (s, W, H) (t, W', H')"

definition prio_start :: "prio_run \<Rightarrow> bool" where
  "prio_start r \<longleftrightarrow> plock_ok (plock (fst r)) \<and> waiting (plock (fst r)) = [] \<and> \<not> plocked (plock (fst r)) \<and>
     snd r = ({}, {})"

definition prio_inv :: "prio_run \<Rightarrow> bool" where
  "prio_inv r \<longleftrightarrow> (case r of (s, W, H) \<Rightarrow> plock_ok (plock s) \<and> distinct (waiting (plock s)) \<and>
     set (waiting (plock s)) = W \<and> H = (if plocked (plock s) then {plpid (plock s)} else {}))"

lemma prio_step_inv:
  assumes "prio_inv r" "prio_step r r'"
  shows "prio_inv r'"
  using assms(2,1)
proof (cases rule: prio_step.cases)
  case (request x W H s lk)
  then have ok: "plock_ok (plock s)" using assms(1) by (simp add: prio_inv_def)
  obtain lk' where "enqueue (plock s) x = Inr lk'" "plock_ok lk'" "waiting lk' = insort_desc x (waiting (plock s))"
    "plocked lk' = plocked (plock s)" "plpid lk' = plpid (plock s)"
    using enqueue_spec[OF ok request(5,6)] by blast
  then show ?thesis
    using assms(1) request by (auto simp: prio_inv_def insort_desc_props distinct_insort_desc)
next
  case (pass c i s x W got t H)
  obtain u where u: "acquirepriority_pass s = Inr (fst (pass_effect (plock s) x), u)"
    "plock u = snd (pass_effect (plock s) x)"
    using acquirepriority_pass_ok[OF pass(3)] pass(4) by auto
  then have "pass_effect (plock s) x = (got, plock t)" using pass(6) by (simp add: prod_eq_iff)
  note E = pass_effect_spec[OF _ this]
  have I: "plock_ok (plock s)" "distinct (waiting (plock s))" "set (waiting (plock s)) = W"
    "H = (if plocked (plock s) then {plpid (plock s)} else {})"
    using assms(1) pass(1) by (simp_all add: prio_inv_def)
  show ?thesis
  proof (cases got)
    case True
    then have "plock_ok (plock t)" "waiting (plock s) = x # waiting (plock t)" "plocked (plock t)"
      "plpid (plock t) = x" "\<not> plocked (plock s)" using E[OF I(1)] by simp_all
    then show ?thesis using I True by (auto simp: pass(2) prio_inv_def)
  next
    case False
    then show ?thesis using I E[OF I(1)] by (simp add: pass(2) prio_inv_def)
  qed
next
  case (rel c i s x H t W)
  then show ?thesis
    using assms(1) releasepriority_ok[OF rel(3)] by (auto simp: prio_inv_def)
next
  case (other t s W H)
  then show ?thesis using assms(1) by (simp add: prio_inv_def)
qed

interpretation prio_mutex: step_invariant prio_start prio_step prio_inv
proof unfold_locales
  fix r show "prio_start r \<Longrightarrow> prio_inv r"
    by (cases r) (auto simp: prio_start_def prio_inv_def)
qed (rule prio_step_inv)

text \<open>
  C11. The priority lock is mutually exclusive: however the processes' requests, passes and
  releases interleave, at most one process is between its acquisition and its release, and then
  the lock records that process.
\<close>

theorem priority_lock_mutual_exclusion:
  assumes "reach prio_start prio_step (s, W, H)" "x \<in> H" "y \<in> H"
  shows "x = y \<and> plocked (plock s) \<and> plpid (plock s) = x"
proof -
  have "prio_inv (s, W, H)" using assms(1) by (rule prio_mutex.reach_inv)
  then show ?thesis using assms(2,3) by (auto simp: prio_inv_def split: if_splits)
qed


definition prio_demo :: pbase where
  "prio_demo = demo_pbase\<lparr>plock := (plock demo_pbase)\<lparr>lockreq := 2 # replicate 63 0, inqueue := 1\<rparr>\<rparr>"

lemma prio_demo_reach: "reach prio_start prio_step (prio_demo, {2}, {})"
proof -
  have w: "waiting (plock demo_pbase) = []" by (simp add: waiting_def demo_pbase_def)
  have "plock_ok (plock demo_pbase)" unfolding plock_ok_def w by (simp add: demo_pbase_def NPROC_def)
  with w have "reach prio_start prio_step (demo_pbase, {}, {})"
    by (intro reach_init) (simp add: prio_start_def demo_pbase_def)
  moreover have "enqueue (plock demo_pbase) 2 = Inr (plock prio_demo)"
    by (simp add: enqueue_def prio_demo_def demo_pbase_def NPROC_def shift_right.simps numeral_eq_Suc)
  moreover have "demo_pbase\<lparr>plock := plock prio_demo\<rparr> = prio_demo" by (simp add: prio_demo_def)
  ultimately show ?thesis
    using prio_step.request[of 2 "{}" "{}" demo_pbase "plock prio_demo"] w reach_step
    by (fastforce simp: NPROC_def)
qed

lemma prio_demo_ready: "plock_ready 0 1 prio_demo" "pid (ptable prio_demo ! 1) = 2"
  using demo_ready(1) demo_ready(2)[of PrioLock]
  by (simp_all add: plock_ready_def prio_demo_def proc_ready_def)
     (simp_all add: cur_def demo_pbase_def demo_table_def)


theorem priority_lock_mutual_exclusion_witness:
  "\<exists>t. reach prio_start prio_step (t, {}, {2}) \<and> plocked (plock t) \<and> plpid (plock t) = 2"
proof -
  obtain t where t: "acquirepriority_pass prio_demo = Inr (fst (pass_effect (plock prio_demo) 2), t)"
    using acquirepriority_pass_ok[OF prio_demo_ready(1)] prio_demo_ready(2) by auto
  have "fst (pass_effect (plock prio_demo) 2)"
    by (simp add: pass_effect_def isprior_def prio_demo_def demo_pbase_def)
  with t have "acquirepriority_pass prio_demo = Inr (True, t)" by simp
  from prio_step.pass[OF prio_demo_ready(1) prio_demo_ready(2)[symmetric] _ this, of "{2}" "{}"]
  have "reach prio_start prio_step (t, {}, {2})"
    using prio_demo_reach by (auto intro: reach_step)
  then show ?thesis using priority_lock_mutual_exclusion[of t "{}" "{2}" 2 2] by auto
qed

end
