(* ===== verification/Lifecycle.thy ===== *)
theory Lifecycle
  imports File PriorityLock
begin

text \<open>
  Creating and ending processes (\<^verbatim>\<open>userinit\<close>, \<^verbatim>\<open>growproc\<close>, \<^verbatim>\<open>fork\<close>, \<^verbatim>\<open>exit\<close>, \<^verbatim>\<open>wait\<close> and \<^verbatim>\<open>forkret\<close> of \<^verbatim>\<open>proc.c\<close>),
  which bring together the process table, address spaces, open files and the priority lock.
\<close>

section \<open>Operations\<close>

definition write16 :: "bytes \<Rightarrow> u32 \<Rightarrow> u16 \<Rightarrow> bytes" where
  "write16 m a v = m(a := ucast v, a + 1 := ucast (drop_bit 8 v))"

text \<open>
  The trap frame of the first process; offsets are those of \<^verbatim>\<open>struct trapframe\<close>. Selectors are
  \<^verbatim>\<open>SEG_UCODE << 3 | DPL_USER\<close> and \<^verbatim>\<open>SEG_UDATA << 3 | DPL_USER\<close>, and the flags word is \<^verbatim>\<open>FL_IF\<close>.
\<close>

definition init_frame :: "bytes \<Rightarrow> u32 \<Rightarrow> bytes" where
  "init_frame m a =
     (let m0 = memset m a 0 sizeof_trapframe;
          m1 = write16 m0 (a + 60) 0x1B; m2 = write16 m1 (a + 44) 0x23; m3 = write16 m2 (a + 40) 0x23;
          m4 = write16 m3 (a + 72) 0x23; m5 = write32 m4 (a + 64) 0x200; m6 = write32 m5 (a + 68) PGSIZE
      in write32 m6 (a + 56) 0)"

text \<open>\<open>code\<close> and \<open>code_size\<close> are the linker symbols of the embedded first program.\<close>

definition userinit :: "('a kfile_scheme) fsenv \<Rightarrow> u32 \<Rightarrow> u32 \<Rightarrow> u32 \<Rightarrow> 'a kfile_scheme \<Rightarrow> ('a kfile_scheme) kres" where
  "userinit E kdata code code_size s =
     kbind (allocproc s) (\<lambda>(p, s1).
     kbind (the_proc p) (\<lambda>q.
     kbind (setupkvm kdata (s1\<lparr>initproc := p\<rparr>)) (\<lambda>(d, s2).
     let s3 = pupd q (\<lambda>x. x\<lparr>pgdir := d\<rparr>) s2 in
     if d = 0 then Inl (Panic ''userinit: out of memory?'')
     else
       kbind (inituvm d code code_size s3) (\<lambda>s4.
       let s5 = pupd q (\<lambda>x. x\<lparr>sz := PGSIZE, pname := ''initcode''\<rparr>) s4;
           s6 = s5\<lparr>mem := init_frame (mem s5) (tf (ptable s5 ! q))\<rparr>
       in kbind (namei E [slash] s6) (\<lambda>(d, s7).
          kbind (with_ptable (\<lambda>t. Inr (pupd q (\<lambda>x. x\<lparr>pstate := RUNNABLE\<rparr>) t)) (pupd q (\<lambda>x. x\<lparr>cwd := d\<rparr>) s7)) (\<lambda>s8.
          kbind (init_queue (pid (ptable s8 ! q)) s8) (\<lambda>(_, s9). Inr s9)))))))"

definition growproc :: "int \<Rightarrow> 'a kfile_scheme \<Rightarrow> (int \<times> 'a kfile_scheme) kres" where
  "growproc n s =
     kbind (myproc s) (\<lambda>(p, s1).
     kbind (the_proc p) (\<lambda>q.
     let x = ptable s1 ! q in
     kbind (if n > 0 then allocuvm (pgdir x) (sz x) (sz x + of_int n) s1
            else if n < 0 then deallocuvm (pgdir x) (sz x) (sz x + of_int n) s1
            else Inr (sz x, s1)) (\<lambda>(k, s2).
     if n \<noteq> 0 \<and> k = 0 then Inr (-1, s2)
     else
       let s3 = pupd q (\<lambda>y. y\<lparr>sz := k\<rparr>) s2 in
       kbind (switchuvm (ptable s3 ! q) s3) (\<lambda>s4. Inr (0, s4)))))"

primrec dup_files :: "nat \<Rightarrow> nat \<Rightarrow> nat \<Rightarrow> nat \<Rightarrow> 'a kfile_scheme \<Rightarrow> ('a kfile_scheme) kres" where
  "dup_files q np 0 i s = Inr s"
| "dup_files q np (Suc n) i s =
     kbind (case ofile (ptable s ! q) ! i of
              None \<Rightarrow> Inr s
            | Some f \<Rightarrow> kbind (filedup f s) (\<lambda>(g, s1). Inr (pupd np (\<lambda>x. x\<lparr>ofile := (ofile x)[i := Some g]\<rparr>) s1)))
       (dup_files q np n (i + 1))"

definition fork :: "u32 \<Rightarrow> 'a kfile_scheme \<Rightarrow> (int \<times> 'a kfile_scheme) kres" where
  "fork kdata s =
     kbind (myproc s) (\<lambda>(p, s0).
     kbind (allocproc s0) (\<lambda>(r, s1).
     case r of None \<Rightarrow> Inr (-1, s1)
     | Some np \<Rightarrow>
       kbind (the_proc p) (\<lambda>q.
       kbind (copyuvm kdata (pgdir (ptable s1 ! q)) (sz (ptable s1 ! q)) s1) (\<lambda>(d, s2).
       let s3 = pupd np (\<lambda>x. x\<lparr>pgdir := d\<rparr>) s2 in
       if d = 0 then
         kbind (kfree (kstack (ptable s3 ! np)) s3) (\<lambda>s4.
         Inr (-1, pupd np (\<lambda>x. x\<lparr>kstack := 0, pstate := UNUSED\<rparr>) s4))
       else
         let s4 = pupd np (\<lambda>x. x\<lparr>sz := sz (ptable s3 ! q), parent := p\<rparr>) s3;
             t = tf (ptable s4 ! np);
             m1 = memmove (mem s4) t (tf (ptable s4 ! q)) sizeof_trapframe;
             s5 = s4\<lparr>mem := write32 m1 (t + 28) 0\<rparr>
         in kbind (dup_files q np NOFILE 0 s5) (\<lambda>s6.
            kbind (case cwd (ptable s6 ! q) of None \<Rightarrow> Inl (Fault ''null inode'') | Some c \<Rightarrow> idup c s6) (\<lambda>(c, s7).
            let s8 = pupd np (\<lambda>x. x\<lparr>cwd := Some c, pname := take 15 (pname (ptable s7 ! q))\<rparr>) s7;
                newpid = pid (ptable s8 ! np)
            in kbind (with_ptable (\<lambda>t. Inr (pupd np (\<lambda>x. x\<lparr>pstate := RUNNABLE\<rparr>) t)) s8) (\<lambda>s9.
               kbind (acquire TicksLock s9) (\<lambda>s10.
               kbind (release TicksLock (pupd np (\<lambda>x. x\<lparr>ctime := ticks s10, psched := (psched x)\<lparr>last_exec := sint (ticks s10),
                   bjf := (bjf (psched x))\<lparr>arrival_time := sint (ticks s10)\<rparr>\<rparr>\<rparr>) s10)) (\<lambda>s11.
               let s12 = pupd np (sched_upd (\<lambda>k. k\<lparr>bjf := (bjf k)\<lparr>process_size := 4\<rparr>\<rparr>)) s11 in
               kbind (init_queue (pid (ptable s12 ! np)) s12) (\<lambda>(_, s13). Inr (newpid, s13)))))))))))"

primrec close_files :: "('a kfile_scheme) fsenv \<Rightarrow> nat \<Rightarrow> nat \<Rightarrow> nat \<Rightarrow> 'a kfile_scheme \<Rightarrow> ('a kfile_scheme) kres" where
  "close_files E q 0 fd s = Inr s"
| "close_files E q (Suc n) fd s =
     kbind (case ofile (ptable s ! q) ! fd of
              None \<Rightarrow> Inr s
            | Some f \<Rightarrow> kbind (fileclose E f s) (\<lambda>s1. Inr (pupd q (\<lambda>x. x\<lparr>ofile := (ofile x)[fd := None]\<rparr>) s1)))
       (close_files E q n (fd + 1))"

definition proc_chan :: "nat option \<Rightarrow> chan" where
  "proc_chan p = (case p of None \<Rightarrow> NoChan | Some i \<Rightarrow> ProcChan i)"

primrec reparent :: "nat \<Rightarrow> nat \<Rightarrow> nat \<Rightarrow> 'a kfile_scheme \<Rightarrow> 'a kfile_scheme" where
  "reparent q 0 i s = s"
| "reparent q (Suc n) i s =
     reparent q n (i + 1)
       (if parent (ptable s ! i) = Some q then
          let s1 = pupd i (\<lambda>x. x\<lparr>parent := initproc s\<rparr>) s in
          if pstate (ptable s1 ! i) = ZOMBIE then wakeup1 (proc_chan (initproc s1)) s1 else s1
        else s)"

definition kexit :: "('a kfile_scheme) fsenv \<Rightarrow> 'a kfile_scheme \<Rightarrow> ('a kfile_scheme) kres" where
  "kexit E s =
     kbind (myproc s) (\<lambda>(p, s1).
     kbind (isholdingpriority s1) (\<lambda>(h, s2).
     kbind (if h then releasepriority s2 else Inr s2) (\<lambda>s3.
     if p = initproc s3 then Inl (Panic ''init exiting'')
     else
       kbind (the_proc p) (\<lambda>q.
       kbind (close_files E q NOFILE 0 s3) (\<lambda>s4.
       kbind (begin_op E s4) (\<lambda>s5.
       kbind (case cwd (ptable s5 ! q) of None \<Rightarrow> Inl (Fault ''null inode'') | Some c \<Rightarrow> iput E c s5) (\<lambda>s6.
       kbind (end_op E s6) (\<lambda>s7.
       kbind (acquire PtableLock (pupd q (\<lambda>x. x\<lparr>cwd := None\<rparr>) s7)) (\<lambda>s8.
       let s9 = wakeup1 (proc_chan (parent (ptable s8 ! q))) s8;
           s10 = reparent q (length (ptable s9)) 0 s9
       in kbind (sched (fsw E) (pupd q (\<lambda>x. x\<lparr>pstate := ZOMBIE\<rparr>) s10)) (\<lambda>s11. Inl (Panic ''zombie exit'')))))))))))"

text \<open>The first exited child of process \<open>q\<close>, if any.\<close>

definition zombie_child :: "nat \<Rightarrow> proc list \<Rightarrow> nat option" where
  "zombie_child q ps = find_idx (\<lambda>p. parent p = Some q \<and> pstate p = ZOMBIE) ps"

definition reap :: "nat \<Rightarrow> 'a kfile_scheme \<Rightarrow> (int \<times> 'a kfile_scheme) kres" where
  "reap i s =
     (let x = pid (ptable s ! i) in
      kbind (kfree (kstack (ptable s ! i)) s) (\<lambda>s1.
      let s2 = pupd i (\<lambda>p. p\<lparr>kstack := 0\<rparr>) s1 in
      kbind (freevm (pgdir (ptable s2 ! i)) s2) (\<lambda>s3.
      kbind (release PtableLock (pupd i (\<lambda>p. p\<lparr>pid := 0, parent := None, pname := [], killed := False, pstate := UNUSED\<rparr>) s3)) (\<lambda>s4.
      Inr (x, s4)))))"

primrec wait_loop :: "('a kfile_scheme) fsenv \<Rightarrow> nat \<Rightarrow> nat \<Rightarrow> 'a kfile_scheme \<Rightarrow> (int \<times> 'a kfile_scheme) kres" where
  "wait_loop E q 0 s =
     (case zombie_child q (ptable s) of
        Some i \<Rightarrow> reap i s
      | None \<Rightarrow>
          if \<not> (\<exists>p \<in> set (ptable s). parent p = Some q) \<or> killed (ptable s ! q)
          then kbind (release PtableLock s) (\<lambda>s1. Inr (-1, s1))
          else Inl (Sleeps (ProcChan q)))"
| "wait_loop E q (Suc n) s =
     (case zombie_child q (ptable s) of
        Some i \<Rightarrow> reap i s
      | None \<Rightarrow>
          if \<not> (\<exists>p \<in> set (ptable s). parent p = Some q) \<or> killed (ptable s ! q)
          then kbind (release PtableLock s) (\<lambda>s1. Inr (-1, s1))
          else kbind (sleep (fsw E) (ProcChan q) (Some PtableLock) s) (wait_loop E q n))"

definition kwait :: "('a kfile_scheme) fsenv \<Rightarrow> 'a kfile_scheme \<Rightarrow> (int \<times> 'a kfile_scheme) kres" where
  "kwait E s =
     kbind (myproc s) (\<lambda>(p, s1).
     kbind (acquire PtableLock s1) (\<lambda>s2.
     kbind (the_proc p) (\<lambda>q. wait_loop E q (tries E) s2)))"

text \<open>\<open>is_first\<close> is the static variable \<^verbatim>\<open>first\<close>; the result is its new value.\<close>

definition forkret :: "('a kfile_scheme) fsenv \<Rightarrow> bool \<Rightarrow> 'a kfile_scheme \<Rightarrow> (bool \<times> 'a kfile_scheme) kres" where
  "forkret E is_first s =
     kbind (release PtableLock s) (\<lambda>s1.
     if is_first then kbind (iinit E ROOTDEV s1) (\<lambda>s2. kbind (initlog E ROOTDEV s2) (\<lambda>s3. Inr (False, s3)))
     else Inr (False, s1))"

end
