(* ===== verification/ProcInfo.thy ===== *)
theory ProcInfo
  imports Sched
begin

text \<open>
  Listings of the process table (\<^verbatim>\<open>print_processes_infos\<close>, \<^verbatim>\<open>procdump\<close> and their helpers in \<^verbatim>\<open>proc.c\<close>), and
  that the width computed for a column entry is the width printed.
\<close>

section \<open>Operations\<close>

primrec printspaces_loop :: "nat \<Rightarrow> 'a kcons_scheme \<Rightarrow> ('a kcons_scheme) kres" where
  "printspaces_loop 0 s = Inr s"
| "printspaces_loop (Suc n) s = kbind (cprintf '' '' [] s) (printspaces_loop n)"

definition printspaces :: "int \<Rightarrow> 'a kcons_scheme \<Rightarrow> ('a kcons_scheme) kres" where
  "printspaces count s = printspaces_loop (nat count) s"

text \<open>C division rounds towards zero, so the loop ends at 0 for either sign.\<close>

definition cdiv10 :: "int \<Rightarrow> int" where
  "cdiv10 n = (if n \<ge> 0 then n div 10 else - ((- n) div 10))"

function digitcount_loop :: "int \<Rightarrow> int \<Rightarrow> int" where
  "digitcount_loop num count = (if num \<noteq> 0 then digitcount_loop (cdiv10 num) (count + 1) else count)"
  by pat_completeness auto
termination
  by (relation "measure (\<lambda>(num, count). nat \<bar>num\<bar>)") (auto simp: cdiv10_def)

declare digitcount_loop.simps [simp del]

definition digitcount :: "int \<Rightarrow> int" where
  "digitcount num = (if num = 0 then 1 else digitcount_loop num 0)"

definition state_name :: "procstate \<Rightarrow> string" where
  "state_name st =
     (case st of UNUSED \<Rightarrow> ''unused'' | EMBRYO \<Rightarrow> ''embryo'' | SLEEPING \<Rightarrow> ''sleeping''
      | RUNNABLE \<Rightarrow> ''runnable'' | RUNNING \<Rightarrow> ''running'' | ZOMBIE \<Rightarrow> ''zombie'')"

definition dump_name :: "procstate \<Rightarrow> string" where
  "dump_name st =
     (case st of UNUSED \<Rightarrow> ''unused'' | EMBRYO \<Rightarrow> ''embryo'' | SLEEPING \<Rightarrow> ''sleep ''
      | RUNNABLE \<Rightarrow> ''runble'' | RUNNING \<Rightarrow> ''run   '' | ZOMBIE \<Rightarrow> ''zombie'')"

text \<open>A text or number and the spaces up to the next column.\<close>

definition str_column :: "string \<Rightarrow> int \<Rightarrow> 'a kcons_scheme \<Rightarrow> ('a kcons_scheme) kres" where
  "str_column x w s = kbind (cprintf ''%s'' [AStr (Some x)] s) (printspaces (w - int (length x)))"

definition int_column :: "int \<Rightarrow> int \<Rightarrow> 'a kcons_scheme \<Rightarrow> ('a kcons_scheme) kres" where
  "int_column x w s = kbind (cprintf ''%d'' [AInt (of_int x)] s) (printspaces (w - digitcount x))"

fun columns_out :: "(int \<times> int) list \<Rightarrow> 'a kcons_scheme \<Rightarrow> ('a kcons_scheme) kres" where
  "columns_out [] s = Inr s"
| "columns_out ((x, w) # xs) s = kbind (int_column x w s) (columns_out xs)"

definition print_process :: "('x, 'b) fpu_scheme \<Rightarrow> proc \<Rightarrow> 'a kcons_scheme \<Rightarrow> ('a kcons_scheme) kres" where
  "print_process F p s =
     (let b = bjf (psched p); toint = (\<lambda>x. fist F (fld F x)) in
      kbind (str_column (pname p) 16 s) (\<lambda>s1.
      kbind (int_column (pid p) 8 s1) (\<lambda>s2.
      kbind (str_column (state_name (pstate p)) 12 s2) (\<lambda>s3.
      kbind (columns_out
        [(queue (psched p), 8), (toint (executed_cycle b), 8), (arrival_time b, 8), (priority b, 8),
         (process_size b, 8), (toint (priority_ratio b), 8), (toint (arrival_time_ratio b), 8),
         (toint (executed_cycle_ratio b), 8), (toint (process_size_ratio b), 8)] s3) (\<lambda>s4.
      kbind (cprintf ''%d'' [AInt (of_int (toint (procrank F b)))] s4) (cprintf [CHR 0x0A] []))))))"

fun print_processes_loop :: "('x, 'b) fpu_scheme \<Rightarrow> proc list \<Rightarrow> 'a kcons_scheme \<Rightarrow> ('a kcons_scheme) kres" where
  "print_processes_loop F [] s = Inr s"
| "print_processes_loop F (p # ps) s =
     kbind (if pstate p = UNUSED then Inr s else print_process F p s) (print_processes_loop F ps)"

definition infos_header :: string where
  "infos_header =
     ''Process_Name    PID     State     Queue   Cycle   Arrival  Priority  Size  R_Prty  R_Arvl  R_Exec  R_Size  Rank''
     @ [CHR 0x0A] @ replicate 111 (CHR ''-'') @ [CHR 0x0A]"

definition print_processes_infos :: "('x, 'b) fpu_scheme \<Rightarrow> 'a pbase_scheme \<Rightarrow> (int \<times> 'a pbase_scheme) kres" where
  "print_processes_infos F s =
     kbind (cprintf infos_header [] s) (\<lambda>s1.
     kbind (print_processes_loop F (ptable s1) s1) (\<lambda>s2. Inr (0, s2)))"

fun print_pcs :: "u32 list \<Rightarrow> 'a kcons_scheme \<Rightarrow> ('a kcons_scheme) kres" where
  "print_pcs [] s = Inr s"
| "print_pcs (a # as) s = (if a = 0 then Inr s else kbind (cprintf '' %p'' [AInt a] s) (print_pcs as))"

fun procdump_loop :: "proc list \<Rightarrow> 'a kcons_scheme \<Rightarrow> ('a kcons_scheme) kres" where
  "procdump_loop [] s = Inr s"
| "procdump_loop (p # ps) s =
     kbind (if pstate p = UNUSED then Inr s
            else
              kbind (cprintf ''%d %s %s'' [AInt (of_int (pid p)), AStr (Some (dump_name (pstate p))), AStr (Some (pname p))] s) (\<lambda>s1.
              kbind (if pstate p = SLEEPING
                     then print_pcs (getcallerpcs (mem s1) (read32 (mem s1) (pcontext p + 12) + 8)) s1
                     else Inr s1) (cprintf [CHR 0x0A] []))) (procdump_loop ps)"

definition procdump :: "'a pbase_scheme \<Rightarrow> ('a pbase_scheme) kres" where
  "procdump s = procdump_loop (ptable s) s"

end
