(* ===== verification/Syscall.thy ===== *)
theory Syscall
  imports Lifecycle ProcInfo
begin

text \<open>
  System call arguments (\<^verbatim>\<open>syscall.c\<close>) and the system calls on processes (\<^verbatim>\<open>sysproc.c\<close>). The kernel
  reads and writes user memory through the page table of the running process; an access to a
  page that is not mapped traps in the kernel, and \<^verbatim>\<open>trap\<close> panics.
\<close>

section \<open>User memory\<close>

text \<open>
  The address in the kernel's part of the address space at which the page table in use puts a
  virtual address. Kernel code may write only where both entries have \<^verbatim>\<open>PTE_W\<close>, because the
  kernel runs with \<^verbatim>\<open>CR0_WP\<close> set.
\<close>

definition translate :: "bool \<Rightarrow> 'a pbase_scheme \<Rightarrow> u32 \<Rightarrow> u32 option" where
  "translate wr s a =
     (if a \<ge> KERNBASE then Some a
      else
        let e = read32 (mem s) (P2V (cr3 s (lapicid s)) + 4 * PDX a);
            t = read32 (mem s) (P2V (PTE_ADDR e) + 4 * PTX a)
        in if \<not> present e \<or> \<not> present t \<or> wr \<and> (e AND PTE_W = 0 \<or> t AND PTE_W = 0) then None
           else Some (P2V (PTE_ADDR t) + (a AND 0xFFF)))"

definition uload :: "u32 \<Rightarrow> 'a pbase_scheme \<Rightarrow> u8 kres" where
  "uload a s = (case translate False s a of None \<Rightarrow> Inl (Panic ''trap'') | Some k \<Rightarrow> Inr (mem s k))"

definition ustore :: "u32 \<Rightarrow> u8 \<Rightarrow> 'a pbase_scheme \<Rightarrow> ('a pbase_scheme) kres" where
  "ustore a v s = (case translate True s a of None \<Rightarrow> Inl (Panic ''trap'') | Some k \<Rightarrow> Inr (s\<lparr>mem := (mem s)(k := v)\<rparr>))"

primrec uloads :: "nat \<Rightarrow> u32 \<Rightarrow> 'a pbase_scheme \<Rightarrow> (u8 list) kres" where
  "uloads 0 a s = Inr []"
| "uloads (Suc n) a s = kbind (uload a s) (\<lambda>c. kbind (uloads n (a + 1) s) (\<lambda>cs. Inr (c # cs)))"

primrec ustores :: "u8 list \<Rightarrow> u32 \<Rightarrow> 'a pbase_scheme \<Rightarrow> ('a pbase_scheme) kres" where
  "ustores [] a s = Inr s"
| "ustores (c # cs) a s = kbind (ustore a c s) (ustores cs (a + 1))"

definition uload32 :: "u32 \<Rightarrow> 'a pbase_scheme \<Rightarrow> u32 kres" where
  "uload32 a s = kbind (uloads 4 a s) (\<lambda>cs. Inr (get32 cs 0))"

definition ustore32 :: "u32 \<Rightarrow> u32 \<Rightarrow> 'a pbase_scheme \<Rightarrow> ('a pbase_scheme) kres" where
  "ustore32 a v s = ustores (put32 (replicate 4 0) 0 v) a s"

definition ustore16 :: "u32 \<Rightarrow> u16 \<Rightarrow> 'a pbase_scheme \<Rightarrow> ('a pbase_scheme) kres" where
  "ustore16 a v s = ustores (put16 (replicate 2 0) 0 v) a s"

text \<open>
  The bytes of a string in user memory up to its NUL. \<^verbatim>\<open>argstr\<close> has looked that there is one
  within the process; \<open>n\<close> is the distance to the end of its memory.
\<close>

primrec ustring :: "nat \<Rightarrow> u32 \<Rightarrow> 'a pbase_scheme \<Rightarrow> (u8 list) kres" where
  "ustring 0 a s = Inl (Fault ''string'')"
| "ustring (Suc n) a s =
     kbind (uload a s) (\<lambda>c. if c = 0 then Inr [] else kbind (ustring n (a + 1) s) (\<lambda>cs. Inr (c # cs)))"

section \<open>Arguments\<close>

definition curproc :: "'a pbase_scheme \<Rightarrow> (nat \<times> 'a pbase_scheme) kres" where
  "curproc s = kbind (myproc s) (\<lambda>(p, s1). kbind (the_proc p) (\<lambda>q. Inr (q, s1)))"

definition fetchint :: "u32 \<Rightarrow> 'a pbase_scheme \<Rightarrow> (u32 option \<times> 'a pbase_scheme) kres" where
  "fetchint addr s =
     kbind (curproc s) (\<lambda>(q, s1).
     let z = sz (ptable s1 ! q) in
     if addr \<ge> z \<or> addr + 4 > z then Inr (None, s1)
     else kbind (uload32 addr s1) (\<lambda>v. Inr (Some v, s1)))"

definition fetchfloat :: "u32 \<Rightarrow> 'a pbase_scheme \<Rightarrow> (float32 option \<times> 'a pbase_scheme) kres" where
  "fetchfloat addr s =
     kbind (curproc s) (\<lambda>(q, s1).
     let z = sz (ptable s1 ! q) in
     if addr \<ge> z \<or> addr + 4 > z then Inr (None, s1)
     else kbind (uload32 addr s1) (\<lambda>v. Inr (Some v, s1)))"

text \<open>The distance to the first NUL, if there is one in the next \<open>n\<close> bytes.\<close>

primrec fetchstr_loop :: "nat \<Rightarrow> nat \<Rightarrow> u32 \<Rightarrow> 'a pbase_scheme \<Rightarrow> (nat option) kres" where
  "fetchstr_loop 0 k a s = Inr None"
| "fetchstr_loop (Suc n) k a s =
     kbind (uload a s) (\<lambda>c. if c = 0 then Inr (Some k) else fetchstr_loop n (k + 1) (a + 1) s)"

text \<open>The address and length of the string, or \<open>None\<close> for the result -1.\<close>

definition fetchstr :: "u32 \<Rightarrow> 'a pbase_scheme \<Rightarrow> ((u32 \<times> nat) option \<times> 'a pbase_scheme) kres" where
  "fetchstr addr s =
     kbind (curproc s) (\<lambda>(q, s1).
     let z = sz (ptable s1 ! q) in
     if addr \<ge> z then Inr (None, s1)
     else kbind (fetchstr_loop (unat (z - addr)) 0 addr s1) (\<lambda>r. Inr (map_option (Pair addr) r, s1)))"

definition user_esp :: "nat \<Rightarrow> 'a pbase_scheme \<Rightarrow> u32" where
  "user_esp q s = read32 (mem s) (tf (ptable s ! q) + 68)"

definition argint :: "nat \<Rightarrow> 'a pbase_scheme \<Rightarrow> (u32 option \<times> 'a pbase_scheme) kres" where
  "argint n s = kbind (curproc s) (\<lambda>(q, s1). fetchint (user_esp q s1 + 4 + 4 * of_nat n) s1)"

definition argfloat :: "nat \<Rightarrow> 'a pbase_scheme \<Rightarrow> (float32 option \<times> 'a pbase_scheme) kres" where
  "argfloat n s = kbind (curproc s) (\<lambda>(q, s1). fetchfloat (user_esp q s1 + 4 + 4 * of_nat n) s1)"

definition argptr :: "nat \<Rightarrow> int \<Rightarrow> 'a pbase_scheme \<Rightarrow> (u32 option \<times> 'a pbase_scheme) kres" where
  "argptr n k s =
     kbind (curproc s) (\<lambda>(q, s1).
     kbind (argint n s1) (\<lambda>(r, s2).
     case r of None \<Rightarrow> Inr (None, s2)
     | Some i \<Rightarrow>
         let z = sz (ptable s2 ! q) in
         if k < 0 \<or> i \<ge> z \<or> i + of_int k > z then Inr (None, s2) else Inr (Some i, s2)))"

definition argstr :: "nat \<Rightarrow> 'a pbase_scheme \<Rightarrow> ((u32 \<times> nat) option \<times> 'a pbase_scheme) kres" where
  "argstr n s =
     kbind (argint n s) (\<lambda>(r, s1).
     case r of None \<Rightarrow> Inr (None, s1) | Some a \<Rightarrow> fetchstr a s1)"

text \<open>An argument that is needed, and the result -1 where it cannot be fetched.\<close>

definition with_arg :: "('v option \<times> 's) kres \<Rightarrow> ('v \<Rightarrow> 's \<Rightarrow> (int \<times> 's) kres) \<Rightarrow> (int \<times> 's) kres" where
  "with_arg r f = kbind r (\<lambda>(x, s1). case x of None \<Rightarrow> Inr (-1, s1) | Some v \<Rightarrow> f v s1)"

section \<open>System calls on processes\<close>

record ksys = kfile +
  nsys :: int

definition sys_fork :: "u32 \<Rightarrow> 'a kfile_scheme \<Rightarrow> (int \<times> 'a kfile_scheme) kres" where
  "sys_fork kdata s = fork kdata s"

definition sys_exit :: "('a kfile_scheme) fsenv \<Rightarrow> 'a kfile_scheme \<Rightarrow> (int \<times> 'a kfile_scheme) kres" where
  "sys_exit E s = kbind (kexit E s) (\<lambda>s1. Inr (0, s1))"

definition sys_wait :: "('a kfile_scheme) fsenv \<Rightarrow> 'a kfile_scheme \<Rightarrow> (int \<times> 'a kfile_scheme) kres" where
  "sys_wait E s = kwait E s"

definition sys_kill :: "'a pbase_scheme \<Rightarrow> (int \<times> 'a pbase_scheme) kres" where
  "sys_kill s = with_arg (argint 0 s) (\<lambda>x s1. kill (sint x) s1)"

definition sys_getpid :: "'a pbase_scheme \<Rightarrow> (int \<times> 'a pbase_scheme) kres" where
  "sys_getpid s = kbind (curproc s) (\<lambda>(q, s1). Inr (pid (ptable s1 ! q), s1))"

definition sys_sbrk :: "'a kfile_scheme \<Rightarrow> (int \<times> 'a kfile_scheme) kres" where
  "sys_sbrk s =
     with_arg (argint 0 s) (\<lambda>n s1.
     kbind (curproc s1) (\<lambda>(q, s2).
     let addr = sint (sz (ptable s2 ! q)) in
     kbind (growproc (sint n) s2) (\<lambda>(r, s3). Inr (if r < 0 then -1 else addr, s3))))"

text \<open>
  The comparison \<^verbatim>\<open>ticks - ticks0 < n\<close> is unsigned. \<open>fuel\<close> is how often the caller is woken before
  the time is over.
\<close>

primrec sys_sleep_loop ::
  "('a pbase_scheme \<Rightarrow> ('a pbase_scheme) kres) \<Rightarrow> nat \<Rightarrow> u32 \<Rightarrow> u32 \<Rightarrow> 'a pbase_scheme \<Rightarrow> (int \<times> 'a pbase_scheme) kres" where
  "sys_sleep_loop sw 0 ticks0 n s =
     (if ticks s - ticks0 < n then
        kbind (curproc s) (\<lambda>(q, s1).
        if killed (ptable s1 ! q) then kbind (release TicksLock s1) (\<lambda>s2. Inr (-1, s2))
        else Inl (Sleeps TicksChan))
      else kbind (release TicksLock s) (\<lambda>s1. Inr (0, s1)))"
| "sys_sleep_loop sw (Suc fuel) ticks0 n s =
     (if ticks s - ticks0 < n then
        kbind (curproc s) (\<lambda>(q, s1).
        if killed (ptable s1 ! q) then kbind (release TicksLock s1) (\<lambda>s2. Inr (-1, s2))
        else kbind (sleep sw TicksChan (Some TicksLock) s1) (sys_sleep_loop sw fuel ticks0 n))
      else kbind (release TicksLock s) (\<lambda>s1. Inr (0, s1)))"

definition sys_sleep ::
  "('a pbase_scheme \<Rightarrow> ('a pbase_scheme) kres) \<Rightarrow> nat \<Rightarrow> 'a pbase_scheme \<Rightarrow> (int \<times> 'a pbase_scheme) kres" where
  "sys_sleep sw fuel s =
     with_arg (argint 0 s) (\<lambda>n s1.
     kbind (acquire TicksLock s1) (\<lambda>s2. sys_sleep_loop sw fuel (ticks s2) n s2))"

definition sys_uptime :: "'a pbase_scheme \<Rightarrow> (int \<times> 'a pbase_scheme) kres" where
  "sys_uptime s =
     kbind (acquire TicksLock s) (\<lambda>s1.
     let x = ticks s1 in kbind (release TicksLock s1) (\<lambda>s2. Inr (sint x, s2)))"

definition sys_nuncle :: "'a pbase_scheme \<Rightarrow> (int \<times> 'a pbase_scheme) kres" where
  "sys_nuncle s = nuncle s"

definition sys_ptime :: "'a pbase_scheme \<Rightarrow> (int \<times> 'a pbase_scheme) kres" where
  "sys_ptime s = ptime s"

definition sys_droot :: "'a pbase_scheme \<Rightarrow> (int \<times> 'a pbase_scheme) kres" where
  "sys_droot s =
     kbind (curproc s) (\<lambda>(q, s1). Inr (droot (sint (read32 (mem s1) (tf (ptable s1 ! q) + 16))), s1))"

definition sys_chqueue :: "'a pbase_scheme \<Rightarrow> (int \<times> 'a pbase_scheme) kres" where
  "sys_chqueue s =
     with_arg (argint 0 s) (\<lambda>x s1. with_arg (argint 1 s1) (\<lambda>q s2. change_queue (sint x) (sint q) s2))"

definition sys_bjsproc :: "'a pbase_scheme \<Rightarrow> (int \<times> 'a pbase_scheme) kres" where
  "sys_bjsproc s =
     with_arg (argint 0 s) (\<lambda>x s1.
     with_arg (argfloat 1 s1) (\<lambda>pr s2. with_arg (argfloat 2 s2) (\<lambda>ar s3.
     with_arg (argfloat 3 s3) (\<lambda>er s4. with_arg (argfloat 4 s4) (\<lambda>sr s5.
     set_bjs_proc (sint x) pr ar er sr s5)))))"

definition sys_bjssys :: "'a pbase_scheme \<Rightarrow> (int \<times> 'a pbase_scheme) kres" where
  "sys_bjssys s =
     with_arg (argfloat 0 s) (\<lambda>pr s1. with_arg (argfloat 1 s1) (\<lambda>ar s2.
     with_arg (argfloat 2 s2) (\<lambda>er s3. with_arg (argfloat 3 s3) (\<lambda>sr s4.
     set_bjs_sys pr ar er sr s4))))"

definition sys_procinfo :: "('x, 'b) fpu_scheme \<Rightarrow> 'a pbase_scheme \<Rightarrow> (int \<times> 'a pbase_scheme) kres" where
  "sys_procinfo F s = print_processes_infos F s"

definition sys_pacquire :: "'a pbase_scheme \<Rightarrow> (int \<times> 'a pbase_scheme) kres" where
  "sys_pacquire s = pacquire s"

definition sys_prelease :: "'a pbase_scheme \<Rightarrow> (int \<times> 'a pbase_scheme) kres" where
  "sys_prelease s = prelease s"

definition sys_pqueue :: "'a pbase_scheme \<Rightarrow> (int \<times> 'a pbase_scheme) kres" where
  "sys_pqueue s = pqueue s"

text \<open>\<^verbatim>\<open>getnsyscall\<close> reads the counters of four CPUs; entries of \<open>cpus\<close> beyond those found read as zero.\<close>

definition cpu_count :: "'a kbase_scheme \<Rightarrow> nat \<Rightarrow> int" where
  "cpu_count s i = (if i < length (cpus s) then nsyscall (cpus s ! i) else 0)"

definition getnsyscall :: "'a ksys_scheme \<Rightarrow> ('a ksys_scheme) kres" where
  "getnsyscall s =
     kbind (cprintf ''%d, %d, %d, %d, '' (map (\<lambda>i. AInt (of_int (cpu_count s i))) [0..<4]) s) (\<lambda>s1.
     kbind (acquire NsysLock s1) (\<lambda>s2.
     kbind (cprintf (''%d'' @ [CHR 0x0A]) [AInt (of_int (nsys s2))] s2) (release NsysLock)))"

definition nsyscalls :: "'a ksys_scheme \<Rightarrow> (int \<times> 'a ksys_scheme) kres" where
  "nsyscalls s = kbind (getnsyscall s) (\<lambda>s1. Inr (0, s1))"

definition sys_nsyscalls :: "'a ksys_scheme \<Rightarrow> (int \<times> 'a ksys_scheme) kres" where
  "sys_nsyscalls s = nsyscalls s"

definition sys_openshmem :: "'a kshm_scheme \<Rightarrow> (int \<times> 'a kshm_scheme) kres" where
  "sys_openshmem s =
     with_arg (argint 0 s) (\<lambda>x s1. kbind (openshmem (sint x) s1) (\<lambda>(a, s2). Inr (sint a, s2)))"

definition sys_closeshmem :: "'a kshm_scheme \<Rightarrow> (int \<times> 'a kshm_scheme) kres" where
  "sys_closeshmem s = with_arg (argint 0 s) (\<lambda>x s1. closeshmem (sint x) s1)"

end
