(* ===== verification/SysFile.thy ===== *)
theory SysFile
  imports Syscall
begin

text \<open>
  The system calls on files (\<^verbatim>\<open>sysfile.c\<close>), on the operations of the file table, directories and
  inodes. A path argument is read from user memory where the code hands it to \<^verbatim>\<open>namei\<close>.
\<close>

section \<open>Descriptors\<close>

definition argfd :: "nat \<Rightarrow> 'a kfile_scheme \<Rightarrow> ((nat \<times> nat) option \<times> 'a kfile_scheme) kres" where
  "argfd n s =
     kbind (argint n s) (\<lambda>(r, s1).
     case r of None \<Rightarrow> Inr (None, s1)
     | Some w \<Rightarrow>
         let fd = sint w in
         if fd < 0 \<or> fd \<ge> int NOFILE then Inr (None, s1)
         else kbind (curproc s1) (\<lambda>(q, s2).
           Inr (map_option (Pair (nat fd)) (ofile (ptable s2 ! q) ! nat fd), s2)))"

definition set_ofile :: "nat \<Rightarrow> nat \<Rightarrow> nat option \<Rightarrow> 'a pbase_scheme \<Rightarrow> 'a pbase_scheme" where
  "set_ofile q fd f s = pupd q (\<lambda>x. x\<lparr>ofile := (ofile x)[fd := f]\<rparr>) s"

definition fdalloc :: "nat \<Rightarrow> 'a kfile_scheme \<Rightarrow> (nat option \<times> 'a kfile_scheme) kres" where
  "fdalloc f s =
     kbind (curproc s) (\<lambda>(q, s1).
     case find_idx (\<lambda>x. x = None) (take NOFILE (ofile (ptable s1 ! q))) of
       Some fd \<Rightarrow> Inr (Some fd, set_ofile q fd (Some f) s1)
     | None \<Rightarrow> Inr (None, s1))"

definition sys_dup :: "'a kfile_scheme \<Rightarrow> (int \<times> 'a kfile_scheme) kres" where
  "sys_dup s =
     with_arg (argfd 0 s) (\<lambda>(_, f) s1.
     with_arg (fdalloc f s1) (\<lambda>fd s2.
     kbind (filedup f s2) (\<lambda>(_, s3). Inr (int fd, s3))))"

definition sys_read :: "('a kfile_scheme) fsenv \<Rightarrow> 'a kfile_scheme \<Rightarrow> (int \<times> 'a kfile_scheme) kres" where
  "sys_read E s =
     with_arg (argfd 0 s) (\<lambda>(_, f) s1.
     with_arg (argint 2 s1) (\<lambda>n s2.
     with_arg (argptr 1 (sint n) s2) (\<lambda>p s3.
     kbind (fileread E f (sint n) s3) (\<lambda>(r, s4).
     case r of None \<Rightarrow> Inr (-1, s4)
     | Some x \<Rightarrow> kbind (ustores x p s4) (\<lambda>s5. Inr (int (length x), s5))))))"

definition sys_write :: "('a kfile_scheme) fsenv \<Rightarrow> 'a kfile_scheme \<Rightarrow> (int \<times> 'a kfile_scheme) kres" where
  "sys_write E s =
     with_arg (argfd 0 s) (\<lambda>(_, f) s1.
     with_arg (argint 2 s1) (\<lambda>n s2.
     with_arg (argptr 1 (sint n) s2) (\<lambda>p s3.
     kbind (uloads (nat (sint n)) p s3) (\<lambda>x. filewrite E f x s3))))"

definition sys_close :: "('a kfile_scheme) fsenv \<Rightarrow> 'a kfile_scheme \<Rightarrow> (int \<times> 'a kfile_scheme) kres" where
  "sys_close E s =
     with_arg (argfd 0 s) (\<lambda>(fd, f) s1.
     kbind (curproc s1) (\<lambda>(q, s2).
     kbind (fileclose E f (set_ofile q fd None s2)) (\<lambda>s3. Inr (0, s3))))"

text \<open>The fields of \<^verbatim>\<open>struct stat\<close>, which is 20 bytes long; its padding is not written.\<close>

definition ustore_stat :: "stat \<Rightarrow> u32 \<Rightarrow> 'a pbase_scheme \<Rightarrow> ('a pbase_scheme) kres" where
  "ustore_stat st a s =
     kbind (ustore32 (a + 4) (of_int (st_dev st)) s) (\<lambda>s1.
     kbind (ustore32 (a + 8) (st_ino st) s1) (\<lambda>s2.
     kbind (ustore16 a (of_int (st_type st)) s2) (\<lambda>s3.
     kbind (ustore16 (a + 12) (of_int (st_nlink st)) s3) (\<lambda>s4.
     ustore32 (a + 16) (st_size st) s4))))"

definition sys_fstat :: "('a kfile_scheme) fsenv \<Rightarrow> 'a kfile_scheme \<Rightarrow> (int \<times> 'a kfile_scheme) kres" where
  "sys_fstat E s =
     with_arg (argfd 0 s) (\<lambda>(_, f) s1.
     with_arg (argptr 1 20 s1) (\<lambda>p s2.
     kbind (filestat E f s2) (\<lambda>(r, s3).
     case r of None \<Rightarrow> Inr (-1, s3) | Some st \<Rightarrow> kbind (ustore_stat st p s3) (\<lambda>s4. Inr (0, s4)))))"

section \<open>Links\<close>

text \<open>The path at an address that \<^verbatim>\<open>argstr\<close> has returned.\<close>

definition upath :: "u32 \<times> nat \<Rightarrow> 'a pbase_scheme \<Rightarrow> (u8 list \<times> 'a pbase_scheme) kres" where
  "upath pl s =
     kbind (curproc s) (\<lambda>(q, s1).
     kbind (ustring (unat (sz (ptable s1 ! q) - fst pl)) (fst pl) s1) (\<lambda>cs. Inr (cs, s1)))"

definition fail_op :: "('a kfile_scheme) fsenv \<Rightarrow> 'a kfile_scheme \<Rightarrow> (int \<times> 'a kfile_scheme) kres" where
  "fail_op E s = kbind (end_op E s) (\<lambda>s1. Inr (-1, s1))"

definition nlink_add :: "int \<Rightarrow> nat \<Rightarrow> 'a kfs_scheme \<Rightarrow> 'a kfs_scheme" where
  "nlink_add d i s = inode_upd i (\<lambda>x. x\<lparr>inlink := signed_take_bit 15 (inlink x + d)\<rparr>) s"

definition link_bad :: "('a kfile_scheme) fsenv \<Rightarrow> nat \<Rightarrow> 'a kfile_scheme \<Rightarrow> (int \<times> 'a kfile_scheme) kres" where
  "link_bad E ip s =
     kbind (ilock E (Some ip) s) (\<lambda>s1.
     kbind (iupdate E ip (nlink_add (-1) ip s1)) (\<lambda>s2.
     kbind (iunlockput E ip s2) (fail_op E)))"

definition sys_link :: "('a kfile_scheme) fsenv \<Rightarrow> 'a kfile_scheme \<Rightarrow> (int \<times> 'a kfile_scheme) kres" where
  "sys_link E s =
     with_arg (argstr 0 s) (\<lambda>old s1.
     with_arg (argstr 1 s1) (\<lambda>new s2.
     kbind (begin_op E s2) (\<lambda>s3.
     kbind (upath old s3) (\<lambda>(opath, s4).
     kbind (namei E opath s4) (\<lambda>(r, s5).
     case r of None \<Rightarrow> fail_op E s5
     | Some ip \<Rightarrow>
       kbind (ilock E (Some ip) s5) (\<lambda>s6.
       if itype (icache s6 ! ip) = T_DIR then kbind (iunlockput E ip s6) (fail_op E)
       else
         kbind (iupdate E ip (nlink_add 1 ip s6)) (\<lambda>s7.
         kbind (iunlock (Some ip) s7) (\<lambda>s8.
         kbind (upath new s8) (\<lambda>(npath, s9).
         kbind (nameiparent E npath s9) (\<lambda>(d, s10).
         case d of None \<Rightarrow> link_bad E ip s10
         | Some (dp, nm) \<Rightarrow>
           kbind (ilock E (Some dp) s10) (\<lambda>s11.
           if idev (icache s11 ! dp) \<noteq> idev (icache s11 ! ip)
           then kbind (iunlockput E dp s11) (link_bad E ip)
           else
             kbind (dirlink E dp nm (inum (icache s11 ! ip)) s11) (\<lambda>(r, s12).
             if r < 0 then kbind (iunlockput E dp s12) (link_bad E ip)
             else
               kbind (iunlockput E dp s12) (\<lambda>s13.
               kbind (iput E ip s13) (\<lambda>s14.
               kbind (end_op E s14) (\<lambda>s15. Inr (0, s15))))))))))))))))"

primrec isdirempty_loop :: "('a kfs_scheme) fsenv \<Rightarrow> nat \<Rightarrow> nat \<Rightarrow> u32 \<Rightarrow> 'a kfs_scheme \<Rightarrow> (bool \<times> 'a kfs_scheme) kres" where
  "isdirempty_loop E dp 0 off s = Inr (True, s)"
| "isdirempty_loop E dp (Suc n) off s =
     (if off < isize (icache s ! dp) then
        kbind (readi E dp off (of_nat DIRENT) s) (\<lambda>(r, s1).
        case r of None \<Rightarrow> Inl (Panic ''isdirempty: readi'')
        | Some de \<Rightarrow>
            if length de \<noteq> DIRENT then Inl (Panic ''isdirempty: readi'')
            else if get16 de 0 \<noteq> 0 then Inr (False, s1)
            else isdirempty_loop E dp n (off + of_nat DIRENT) s1)
      else Inr (True, s))"

text \<open>One pass for every entry that fits in the directory.\<close>

definition isdirempty :: "('a kfs_scheme) fsenv \<Rightarrow> nat \<Rightarrow> 'a kfs_scheme \<Rightarrow> (bool \<times> 'a kfs_scheme) kres" where
  "isdirempty E dp s =
     isdirempty_loop E dp (unat (isize (icache s ! dp)) div DIRENT + 1) (of_nat (2 * DIRENT)) s"

definition unlink_bad :: "('a kfile_scheme) fsenv \<Rightarrow> nat \<Rightarrow> 'a kfile_scheme \<Rightarrow> (int \<times> 'a kfile_scheme) kres" where
  "unlink_bad E dp s = kbind (iunlockput E dp s) (fail_op E)"

definition unlink_entry :: "('a kfile_scheme) fsenv \<Rightarrow> nat \<Rightarrow> nat \<Rightarrow> u32 \<Rightarrow> 'a kfile_scheme \<Rightarrow> (int \<times> 'a kfile_scheme) kres" where
  "unlink_entry E dp ip off s =
     kbind (writei E dp (replicate DIRENT 0) off s) (\<lambda>(w, s1).
     if w \<noteq> int DIRENT then Inl (Panic ''unlink: writei'')
     else
       kbind (if itype (icache s1 ! ip) = T_DIR then iupdate E dp (nlink_add (-1) dp s1) else Inr s1) (\<lambda>s2.
       kbind (iunlockput E dp s2) (\<lambda>s3.
       kbind (iupdate E ip (nlink_add (-1) ip s3)) (\<lambda>s4.
       kbind (iunlockput E ip s4) (\<lambda>s5.
       kbind (end_op E s5) (\<lambda>s6. Inr (0, s6)))))))"

definition sys_unlink :: "('a kfile_scheme) fsenv \<Rightarrow> 'a kfile_scheme \<Rightarrow> (int \<times> 'a kfile_scheme) kres" where
  "sys_unlink E s =
     with_arg (argstr 0 s) (\<lambda>pl s1.
     kbind (begin_op E s1) (\<lambda>s2.
     kbind (upath pl s2) (\<lambda>(path, s3).
     kbind (nameiparent E path s3) (\<lambda>(d, s4).
     case d of None \<Rightarrow> fail_op E s4
     | Some (dp, nm) \<Rightarrow>
       kbind (ilock E (Some dp) s4) (\<lambda>s5.
       if namecmp nm [46] = 0 \<or> namecmp nm [46, 46] = 0 then unlink_bad E dp s5
       else
         kbind (dirlookup E dp nm s5) (\<lambda>(r, s6).
         case r of None \<Rightarrow> unlink_bad E dp s6
         | Some (ip, off) \<Rightarrow>
           kbind (ilock E (Some ip) s6) (\<lambda>s7.
           if inlink (icache s7 ! ip) < 1 then Inl (Panic ''unlink: nlink < 1'')
           else
             kbind (if itype (icache s7 ! ip) = T_DIR then isdirempty E ip s7 else Inr (True, s7)) (\<lambda>(emp, s8).
             if \<not> emp then kbind (iunlockput E ip s8) (unlink_bad E dp)
             else unlink_entry E dp ip off s8))))))))"

section \<open>Creating and opening\<close>

definition create :: "('a kfile_scheme) fsenv \<Rightarrow> u8 list \<Rightarrow> int \<Rightarrow> int \<Rightarrow> int \<Rightarrow> 'a kfile_scheme \<Rightarrow> (nat option \<times> 'a kfile_scheme) kres" where
  "create E path ty mj mn s =
     kbind (nameiparent E path s) (\<lambda>(d, s1).
     case d of None \<Rightarrow> Inr (None, s1)
     | Some (dp, nm) \<Rightarrow>
       kbind (ilock E (Some dp) s1) (\<lambda>s2.
       kbind (dirlookup E dp nm s2) (\<lambda>(r, s3).
       case r of
         Some (ip, _) \<Rightarrow>
           kbind (iunlockput E dp s3) (\<lambda>s4.
           kbind (ilock E (Some ip) s4) (\<lambda>s5.
           if ty = T_FILE \<and> itype (icache s5 ! ip) = T_FILE then Inr (Some ip, s5)
           else kbind (iunlockput E ip s5) (\<lambda>s6. Inr (None, s6))))
       | None \<Rightarrow>
           kbind (ialloc E (idev (icache s3 ! dp)) ty s3) (\<lambda>(ip, s4).
           kbind (ilock E (Some ip) s4) (\<lambda>s5.
           kbind (iupdate E ip (inode_upd ip (\<lambda>x. x\<lparr>imajor := mj, iminor := mn, inlink := 1\<rparr>) s5)) (\<lambda>s6.
           kbind (if ty = T_DIR then
                    kbind (iupdate E dp (nlink_add 1 dp s6)) (\<lambda>s7.
                    kbind (dirlink E ip [46] (inum (icache s7 ! ip)) s7) (\<lambda>(r1, s8).
                    if r1 < 0 then Inl (Panic ''create dots'')
                    else
                      kbind (dirlink E ip [46, 46] (inum (icache s8 ! dp)) s8) (\<lambda>(r2, s9).
                      if r2 < 0 then Inl (Panic ''create dots'') else Inr s9)))
                  else Inr s6) (\<lambda>s10.
           kbind (dirlink E dp nm (inum (icache s10 ! ip)) s10) (\<lambda>(r3, s11).
           if r3 < 0 then Inl (Panic ''create: dirlink'')
           else kbind (iunlockput E dp s11) (\<lambda>s12. Inr (Some ip, s12))))))))))"

definition O_WRONLY :: u32 where "O_WRONLY = 0x001"

definition O_RDWR :: u32 where "O_RDWR = 0x002"

definition O_CREATE :: u32 where "O_CREATE = 0x200"

text \<open>The locked inode to open, or \<open>None\<close> where the call fails.\<close>

definition open_inode :: "('a kfile_scheme) fsenv \<Rightarrow> u32 \<Rightarrow> u8 list \<Rightarrow> 'a kfile_scheme \<Rightarrow> (nat option \<times> 'a kfile_scheme) kres" where
  "open_inode E omode path s =
     (if omode AND O_CREATE \<noteq> 0 then create E path T_FILE 0 0 s
      else
        kbind (namei E path s) (\<lambda>(r, s1).
        case r of None \<Rightarrow> Inr (None, s1)
        | Some ip \<Rightarrow>
          kbind (ilock E (Some ip) s1) (\<lambda>s2.
          if itype (icache s2 ! ip) = T_DIR \<and> omode \<noteq> 0
          then kbind (iunlockput E ip s2) (\<lambda>s3. Inr (None, s3))
          else Inr (Some ip, s2))))"

definition sys_open :: "('a kfile_scheme) fsenv \<Rightarrow> 'a kfile_scheme \<Rightarrow> (int \<times> 'a kfile_scheme) kres" where
  "sys_open E s =
     with_arg (argstr 0 s) (\<lambda>pl s1.
     with_arg (argint 1 s1) (\<lambda>omode s2.
     kbind (begin_op E s2) (\<lambda>s3.
     kbind (upath pl s3) (\<lambda>(path, s4).
     kbind (open_inode E omode path s4) (\<lambda>(r, s5).
     case r of None \<Rightarrow> fail_op E s5
     | Some ip \<Rightarrow>
       kbind (filealloc s5) (\<lambda>(f, s6).
       case f of None \<Rightarrow> kbind (iunlockput E ip s6) (fail_op E)
       | Some f \<Rightarrow>
         kbind (fdalloc f s6) (\<lambda>(fd, s7).
         case fd of
           None \<Rightarrow> kbind (fileclose E f s7) (\<lambda>s8. kbind (iunlockput E ip s8) (fail_op E))
         | Some fd \<Rightarrow>
             kbind (iunlock (Some ip) s7) (\<lambda>s8.
             kbind (end_op E s8) (\<lambda>s9.
             Inr (int fd, file_upd f (\<lambda>x. x\<lparr>ftype := FD_INODE, fip := Some ip, foff := 0,
                    readable := (omode AND O_WRONLY = 0),
                    writable := (omode AND O_WRONLY \<noteq> 0 \<or> omode AND O_RDWR \<noteq> 0)\<rparr>) s9))))))))))"

text \<open>
  \<^verbatim>\<open>sys_mkdir\<close>, \<^verbatim>\<open>sys_mknod\<close> and \<^verbatim>\<open>sys_chdir\<close> begin the operation before they fetch their arguments.
\<close>

definition with_op_arg ::
  "('a kfile_scheme) fsenv \<Rightarrow> ('v option \<times> 'a kfile_scheme) kres \<Rightarrow> ('v \<Rightarrow> 'a kfile_scheme \<Rightarrow> (int \<times> 'a kfile_scheme) kres) \<Rightarrow> (int \<times> 'a kfile_scheme) kres" where
  "with_op_arg E r f = kbind r (\<lambda>(x, s1). case x of None \<Rightarrow> fail_op E s1 | Some v \<Rightarrow> f v s1)"

definition end_put :: "('a kfile_scheme) fsenv \<Rightarrow> nat \<Rightarrow> 'a kfile_scheme \<Rightarrow> (int \<times> 'a kfile_scheme) kres" where
  "end_put E ip s = kbind (iunlockput E ip s) (\<lambda>s1. kbind (end_op E s1) (\<lambda>s2. Inr (0, s2)))"

definition sys_mkdir :: "('a kfile_scheme) fsenv \<Rightarrow> 'a kfile_scheme \<Rightarrow> (int \<times> 'a kfile_scheme) kres" where
  "sys_mkdir E s =
     kbind (begin_op E s) (\<lambda>s1.
     with_op_arg E (argstr 0 s1) (\<lambda>pl s2.
     kbind (upath pl s2) (\<lambda>(path, s3).
     with_op_arg E (create E path T_DIR 0 0 s3) (end_put E))))"

definition short_arg :: "u32 \<Rightarrow> int" where
  "short_arg w = sint (ucast w :: u16)"

definition sys_mknod :: "('a kfile_scheme) fsenv \<Rightarrow> 'a kfile_scheme \<Rightarrow> (int \<times> 'a kfile_scheme) kres" where
  "sys_mknod E s =
     kbind (begin_op E s) (\<lambda>s1.
     with_op_arg E (argstr 0 s1) (\<lambda>pl s2.
     with_op_arg E (argint 1 s2) (\<lambda>mj s3.
     with_op_arg E (argint 2 s3) (\<lambda>mn s4.
     kbind (upath pl s4) (\<lambda>(path, s5).
     with_op_arg E (create E path T_DEV (short_arg mj) (short_arg mn) s5) (end_put E))))))"

definition sys_chdir :: "('a kfile_scheme) fsenv \<Rightarrow> 'a kfile_scheme \<Rightarrow> (int \<times> 'a kfile_scheme) kres" where
  "sys_chdir E s =
     kbind (curproc s) (\<lambda>(q, s1).
     kbind (begin_op E s1) (\<lambda>s2.
     with_op_arg E (argstr 0 s2) (\<lambda>pl s3.
     kbind (upath pl s3) (\<lambda>(path, s4).
     with_op_arg E (namei E path s4) (\<lambda>ip s5.
     kbind (ilock E (Some ip) s5) (\<lambda>s6.
     if itype (icache s6 ! ip) \<noteq> T_DIR then kbind (iunlockput E ip s6) (fail_op E)
     else
       kbind (iunlock (Some ip) s6) (\<lambda>s7.
       kbind (case cwd (ptable s7 ! q) of None \<Rightarrow> Inl (Fault ''null inode'') | Some c \<Rightarrow> iput E c s7) (\<lambda>s8.
       kbind (end_op E s8) (\<lambda>s9. Inr (0, pupd q (\<lambda>x. x\<lparr>cwd := Some ip\<rparr>) s9))))))))))"

section \<open>Pipes and copying\<close>

definition sys_pipe :: "('a kfile_scheme) fsenv \<Rightarrow> 'a kfile_scheme \<Rightarrow> (int \<times> 'a kfile_scheme) kres" where
  "sys_pipe E s =
     with_arg (argptr 0 8 s) (\<lambda>p s1.
     with_arg (pipealloc E s1) (\<lambda>(rf, wf) s2.
     kbind (fdalloc rf s2) (\<lambda>(fd0, s3).
     case fd0 of
       None \<Rightarrow> kbind (fileclose E rf s3) (\<lambda>s4. kbind (fileclose E wf s4) (\<lambda>s5. Inr (-1, s5)))
     | Some a \<Rightarrow>
         kbind (fdalloc wf s3) (\<lambda>(fd1, s4).
         case fd1 of
           None \<Rightarrow>
             kbind (curproc s4) (\<lambda>(q, s5).
             kbind (fileclose E rf (set_ofile q a None s5)) (\<lambda>s6.
             kbind (fileclose E wf s6) (\<lambda>s7. Inr (-1, s7))))
         | Some b \<Rightarrow>
             kbind (ustore32 p (of_nat a) s4) (\<lambda>s5.
             kbind (ustore32 (p + 4) (of_nat b) s5) (\<lambda>s6. Inr (0, s6)))))))"

text \<open>
  \<^verbatim>\<open>sys_fcopy\<close> leaves its operation open when the source does not exist, and when it has created the
  destination; \<^verbatim>\<open>iunlock\<close> is called before the result of \<^verbatim>\<open>create\<close> is looked at.
\<close>

definition sys_fcopy :: "('a kfile_scheme) fsenv \<Rightarrow> nat \<Rightarrow> 'a kfile_scheme \<Rightarrow> (int \<times> 'a kfile_scheme) kres" where
  "sys_fcopy E fuel s =
     with_arg (argstr 0 s) (\<lambda>sp s1.
     with_arg (argstr 1 s1) (\<lambda>dpl s2.
     kbind (begin_op E s2) (\<lambda>s3.
     kbind (upath sp s3) (\<lambda>(spath, s4).
     kbind (namei E spath s4) (\<lambda>(src, s5).
     kbind (upath dpl s5) (\<lambda>(dpath, s6).
     kbind (namei E dpath s6) (\<lambda>(dest, s7).
     case src of
       None \<Rightarrow> kbind (cprintf (''source file does not exist!'' @ [CHR 0x0A]) [] s7) (\<lambda>s8. Inr (-1, s8))
     | Some i \<Rightarrow>
         if dest = Some i then kbind (cprintf (''a file can not be copy at itself!'' @ [CHR 0x0A]) [] s7) (fail_op E)
         else case dest of
           None \<Rightarrow>
             kbind (upath dpl s7) (\<lambda>(dpath2, s8).
             kbind (create E dpath2 T_FILE 0 0 s8) (\<lambda>(r, s9).
             kbind (iunlock r s9) (\<lambda>s10.
             case r of None \<Rightarrow> fail_op E s10 | Some j \<Rightarrow> filecopy E fuel i j s10)))
         | Some j \<Rightarrow>
             kbind (cprintf (''[WARNING] destination file exists, it will be overwriten!'' @ [CHR 0x0A]) [] s7) (\<lambda>s8.
             kbind (end_op E s8) (\<lambda>s9. filecopy E fuel i j s9)))))))))"

end
