(* ===== verification/Exec.thy ===== *)
theory Exec
  imports SysFile
begin

text \<open>
  Loading programs (\<^verbatim>\<open>exec.c\<close>, \<^verbatim>\<open>elf.h\<close> and \<^verbatim>\<open>loaduvm\<close> of \<^verbatim>\<open>vm.c\<close>), the dispatch of system calls
  (\<^verbatim>\<open>syscall\<close> of \<^verbatim>\<open>syscall.c\<close>) and of traps (\<^verbatim>\<open>trap.c\<close>). The interrupt handlers of the devices and the
  end-of-interrupt write to the local APIC are parameters.
\<close>

section \<open>ELF files\<close>

definition ELF_MAGIC :: u32 where "ELF_MAGIC = 0x464C457F"

definition ELF_PROG_LOAD :: u32 where "ELF_PROG_LOAD = 1"

definition MAXARG :: nat where "MAXARG = 32"

record elfhdr =
  magic :: u32
  elf_entry :: u32
  phoff :: u32
  phnum :: u16

record proghdr =
  ph_type :: u32
  ph_off :: u32
  ph_vaddr :: u32
  ph_filesz :: u32
  ph_memsz :: u32

text \<open>The fields of the two headers that \<^verbatim>\<open>exec\<close> reads, at their offsets; 52 and 32 are their sizes.\<close>

definition get_elfhdr :: "u8 list \<Rightarrow> elfhdr" where
  "get_elfhdr d = \<lparr>magic = get32 d 0, elf_entry = get32 d 24, phoff = get32 d 28, phnum = get16 d 44\<rparr>"

definition get_proghdr :: "u8 list \<Rightarrow> proghdr" where
  "get_proghdr d =
     \<lparr>ph_type = get32 d 0, ph_off = get32 d 4, ph_vaddr = get32 d 8, ph_filesz = get32 d 16, ph_memsz = get32 d 20\<rparr>"

definition read_exact :: "('a kfs_scheme) fsenv \<Rightarrow> nat \<Rightarrow> u32 \<Rightarrow> nat \<Rightarrow> 'a kfs_scheme \<Rightarrow> (u8 list option \<times> 'a kfs_scheme) kres" where
  "read_exact E ip off n s =
     kbind (readi E ip off (of_nat n) s) (\<lambda>(r, s1).
     Inr (case r of None \<Rightarrow> None | Some d \<Rightarrow> if length d = n then Some d else None, s1))"

section \<open>Loading\<close>

fun loaduvm_loop :: "('a kfs_scheme) fsenv \<Rightarrow> nat \<Rightarrow> u32 \<Rightarrow> u32 \<Rightarrow> nat \<Rightarrow> u32 \<Rightarrow> u32 \<Rightarrow> u32 \<Rightarrow> 'a kfs_scheme \<Rightarrow> (int \<times> 'a kfs_scheme) kres" where
  "loaduvm_loop E fuel pd addr ip off k i s =
     (if i < k then
        kbind (walkpgdir pd (addr + i) False s) (\<lambda>(pte, s1).
        if pte = 0 then Inl (Panic ''loaduvm: address should exist'')
        else
          let pa = PTE_ADDR (read32 (mem s1) pte); n = (if k - i < PGSIZE then k - i else PGSIZE) in
          kbind (read_exact E ip (off + i) (unat n) s1) (\<lambda>(r, s2).
          case r of None \<Rightarrow> Inr (-1, s2)
          | Some d \<Rightarrow>
            case fuel of 0 \<Rightarrow> Inl (Fault ''loaduvm'')
            | Suc f \<Rightarrow> loaduvm_loop E f pd addr ip off k (i + PGSIZE) (s2\<lparr>mem := store_bytes (mem s2) (P2V pa) d\<rparr>)))
      else Inr (0, s))"

declare loaduvm_loop.simps [simp del]

text \<open>
  The loop counter is a \<^verbatim>\<open>uint\<close>: with a size in the last page of the address range it would wrap
  and the loop not end. The passes allowed are those of a size below that.
\<close>

definition loaduvm :: "('a kfs_scheme) fsenv \<Rightarrow> u32 \<Rightarrow> u32 \<Rightarrow> nat \<Rightarrow> u32 \<Rightarrow> u32 \<Rightarrow> 'a kfs_scheme \<Rightarrow> (int \<times> 'a kfs_scheme) kres" where
  "loaduvm E pd addr ip off k s =
     (if addr AND 0xFFF \<noteq> 0 then Inl (Panic ''loaduvm: addr must be page aligned'')
      else loaduvm_loop E (unat k div 4096 + 1) pd addr ip off k 0 s)"

text \<open>The size of the image after the program headers, or \<open>None\<close> for \<^verbatim>\<open>goto bad\<close>.\<close>

primrec exec_load :: "('a kfs_scheme) fsenv \<Rightarrow> nat \<Rightarrow> u32 \<Rightarrow> nat \<Rightarrow> u32 \<Rightarrow> u32 \<Rightarrow> 'a kfs_scheme \<Rightarrow> (u32 option \<times> 'a kfs_scheme) kres" where
  "exec_load E ip pd 0 off k s = Inr (Some k, s)"
| "exec_load E ip pd (Suc n) off k s =
     kbind (read_exact E ip off 32 s) (\<lambda>(r, s1).
     case r of None \<Rightarrow> Inr (None, s1)
     | Some d \<Rightarrow>
       let ph = get_proghdr d in
       if ph_type ph \<noteq> ELF_PROG_LOAD then exec_load E ip pd n (off + 32) k s1
       else if ph_memsz ph < ph_filesz ph then Inr (None, s1)
       else if ph_vaddr ph + ph_memsz ph < ph_vaddr ph then Inr (None, s1)
       else
         kbind (allocuvm pd k (ph_vaddr ph + ph_memsz ph) s1) (\<lambda>(k1, s2).
         if k1 = 0 then Inr (None, s2)
         else if ph_vaddr ph AND 0xFFF \<noteq> 0 then Inr (None, s2)
         else
           kbind (loaduvm E pd (ph_vaddr ph) ip (ph_off ph) (ph_filesz ph) s2) (\<lambda>(l, s3).
           if l < 0 then Inr (None, s3) else exec_load E ip pd n (off + 32) k1 s3)))"

definition exec_bad :: "('a kfile_scheme) fsenv \<Rightarrow> u32 \<Rightarrow> nat option \<Rightarrow> 'a kfile_scheme \<Rightarrow> (int \<times> 'a kfile_scheme) kres" where
  "exec_bad E pd ip s =
     kbind (if pd \<noteq> 0 then freevm pd s else Inr s) (\<lambda>s1.
     case ip of None \<Rightarrow> Inr (-1, s1) | Some i \<Rightarrow> kbind (iunlockput E i s1) (fail_op E))"

text \<open>
  The arguments: each string goes below the last one, at a multiple of four, and its address is
  collected. The result is the stack pointer and the addresses.
\<close>

fun exec_push :: "u32 \<Rightarrow> u32 list \<Rightarrow> u32 list \<Rightarrow> u32 \<Rightarrow> 'a pbase_scheme \<Rightarrow> ((u32 \<times> u32 list) option \<times> 'a pbase_scheme) kres" where
  "exec_push pd [] acc sp s = Inr (Some (sp, acc), s)"
| "exec_push pd (a # as) acc sp s =
     (if length acc \<ge> MAXARG then Inr (None, s)
      else
        kbind (curproc s) (\<lambda>(q, s0).
        kbind (ustring (unat (sz (ptable s0 ! q) - a)) a s) (\<lambda>cs.
        let sp1 = (sp - (of_nat (length cs) + 1)) AND NOT 3 in
        kbind (copyout pd sp1 (cs @ [0]) s) (\<lambda>(r, s1).
        if r < 0 then Inr (None, s1) else exec_push pd as (acc @ [sp1]) sp1 s1))))"

definition bytes32 :: "u32 \<Rightarrow> u8 list" where
  "bytes32 v = put32 (replicate 4 0) 0 v"

definition ustack :: "u32 \<Rightarrow> u32 list \<Rightarrow> u32 list" where
  "ustack sp args =
     [0xffffffff, of_nat (length args), sp - (of_nat (length args) + 1) * 4] @ args @ [0]"

text \<open>The part of the path behind its last slash, cut to what \<^verbatim>\<open>p->name\<close> holds.\<close>

definition path_last :: "u8 list \<Rightarrow> u8 list" where
  "path_last path = rev (takeWhile (\<lambda>c. c \<noteq> slash) (rev path))"

definition reset_counts :: "'a ksys_scheme \<Rightarrow> 'a ksys_scheme" where
  "reset_counts s = s\<lparr>cpus := map (\<lambda>k. k\<lparr>nsyscall := 0\<rparr>) (take 4 (cpus s)) @ drop 4 (cpus s)\<rparr>"

definition exec_commit :: "nat \<Rightarrow> u8 list \<Rightarrow> u32 \<Rightarrow> u32 \<Rightarrow> u32 \<Rightarrow> u32 \<Rightarrow> 'a ksys_scheme \<Rightarrow> (int \<times> 'a ksys_scheme) kres" where
  "exec_commit q path pgdir_new k entry sp s =
     (let oldpgdir = pgdir (ptable s ! q);
          s1 = pupd q (\<lambda>x. x\<lparr>pname := take 15 (map (\<lambda>c. char_of (unat c)) (path_last path)), pgdir := pgdir_new, sz := k\<rparr>) s;
          t = tf (ptable s1 ! q);
          s2 = s1\<lparr>mem := write32 (write32 (mem s1) (t + 56) entry) (t + 68) sp\<rparr>
      in kbind (switchuvm (ptable s2 ! q) s2) (\<lambda>s3.
         kbind (freevm oldpgdir s3) (\<lambda>s4.
         kbind (acquire NsysLock s4) (\<lambda>s5.
         kbind (release NsysLock (s5\<lparr>nsys := 0\<rparr>)) (\<lambda>s6. Inr (0, reset_counts s6))))))"

definition exec_stack :: "('a ksys_scheme) fsenv \<Rightarrow> nat \<Rightarrow> u32 \<times> nat \<Rightarrow> u32 list \<Rightarrow> u32 \<Rightarrow> u32 \<Rightarrow> u32 \<Rightarrow> 'a ksys_scheme \<Rightarrow> (int \<times> 'a ksys_scheme) kres" where
  "exec_stack E q pl argv pd entry k s =
     kbind (allocuvm pd (PGROUNDUP k) (PGROUNDUP k + 2 * PGSIZE) s) (\<lambda>(k1, s1).
     if k1 = 0 then exec_bad E pd None s1
     else
       kbind (clearpteu pd (k1 - 2 * PGSIZE) s1) (\<lambda>s2.
       kbind (exec_push pd argv [] k1 s2) (\<lambda>(r, s3).
       case r of None \<Rightarrow> exec_bad E pd None s3
       | Some (sp, args) \<Rightarrow>
         let us = ustack sp args; sp1 = sp - of_nat (4 * length us) in
         kbind (copyout pd sp1 (concat (map bytes32 us)) s3) (\<lambda>(w, s4).
         if w < 0 then exec_bad E pd None s4
         else
           kbind (upath pl s4) (\<lambda>(path, s5). exec_commit q path pd k1 entry sp1 s5)))))"

definition exec :: "('a ksys_scheme) fsenv \<Rightarrow> u32 \<Rightarrow> u32 \<times> nat \<Rightarrow> u32 list \<Rightarrow> 'a ksys_scheme \<Rightarrow> (int \<times> 'a ksys_scheme) kres" where
  "exec E kdata pl argv s =
     kbind (curproc s) (\<lambda>(q, s0).
     kbind (begin_op E s0) (\<lambda>s1.
     kbind (upath pl s1) (\<lambda>(path, s2).
     kbind (namei E path s2) (\<lambda>(r, s3).
     case r of
       None \<Rightarrow> kbind (end_op E s3) (\<lambda>s4. kbind (cprintf (''exec: fail'' @ [CHR 0x0A]) [] s4) (\<lambda>s5. Inr (-1, s5)))
     | Some ip \<Rightarrow>
       kbind (ilock E (Some ip) s3) (\<lambda>s4.
       kbind (read_exact E ip 0 52 s4) (\<lambda>(h, s5).
       case h of None \<Rightarrow> exec_bad E 0 (Some ip) s5
       | Some d \<Rightarrow>
         let elf = get_elfhdr d in
         if magic elf \<noteq> ELF_MAGIC then exec_bad E 0 (Some ip) s5
         else
           kbind (setupkvm kdata s5) (\<lambda>(pd, s6).
           if pd = 0 then exec_bad E 0 (Some ip) s6
           else
             kbind (exec_load E ip pd (unat (phnum elf)) (phoff elf) 0 s6) (\<lambda>(k, s7).
             case k of None \<Rightarrow> exec_bad E pd (Some ip) s7
             | Some k \<Rightarrow>
               kbind (iunlockput E ip s7) (\<lambda>s8.
               kbind (end_op E s8) (\<lambda>s9. exec_stack E q pl argv pd (elf_entry elf) k s9))))))))))"

section \<open>Dispatch of system calls\<close>

primrec sys_exec_args :: "nat \<Rightarrow> u32 \<Rightarrow> 'a pbase_scheme \<Rightarrow> (u32 list option \<times> 'a pbase_scheme) kres" where
  "sys_exec_args 0 a s = Inr (None, s)"
| "sys_exec_args (Suc n) a s =
     kbind (fetchint a s) (\<lambda>(r, s1).
     case r of None \<Rightarrow> Inr (None, s1)
     | Some uarg \<Rightarrow>
         if uarg = 0 then Inr (Some [], s1)
         else
           kbind (fetchstr uarg s1) (\<lambda>(x, s2).
           case x of None \<Rightarrow> Inr (None, s2)
           | Some _ \<Rightarrow>
               kbind (sys_exec_args n (a + 4) s2) (\<lambda>(rest, s3). Inr (map_option (Cons uarg) rest, s3))))"

definition sys_exec :: "('a ksys_scheme) fsenv \<Rightarrow> u32 \<Rightarrow> 'a ksys_scheme \<Rightarrow> (int \<times> 'a ksys_scheme) kres" where
  "sys_exec E kdata s =
     with_arg (argstr 0 s) (\<lambda>pl s1.
     with_arg (argint 1 s1) (\<lambda>uargv s2.
     with_arg (sys_exec_args MAXARG uargv s2) (\<lambda>argv s3. exec E kdata pl argv s3)))"

definition syscalls ::
  "('a ksys_scheme) fsenv \<Rightarrow> ('x, 'b) fpu_scheme \<Rightarrow> u32 \<Rightarrow> nat \<Rightarrow> ('a ksys_scheme \<Rightarrow> (int \<times> 'a ksys_scheme) kres) list" where
  "syscalls E F kdata fuel =
     [sys_fork kdata, sys_exit E, sys_wait E, sys_pipe E, sys_read E, sys_kill, sys_exec E kdata, sys_fstat E,
      sys_chdir E, sys_dup, sys_getpid, sys_sbrk, sys_sleep (fsw E) (tries E), sys_uptime, sys_open E, sys_write E,
      sys_mknod E, sys_unlink E, sys_link E, sys_mkdir E, sys_close E, sys_nuncle, sys_ptime, sys_fcopy E fuel,
      sys_droot, sys_chqueue, sys_bjsproc, sys_bjssys, sys_procinfo F, sys_pacquire, sys_prelease, sys_pqueue,
      sys_nsyscalls, sys_openshmem, sys_closeshmem]"

definition tf_eax :: "nat \<Rightarrow> 'a pbase_scheme \<Rightarrow> u32" where
  "tf_eax q s = read32 (mem s) (tf (ptable s ! q) + 28)"

definition set_eax :: "nat \<Rightarrow> u32 \<Rightarrow> 'a pbase_scheme \<Rightarrow> 'a pbase_scheme" where
  "set_eax q v s = s\<lparr>mem := write32 (mem s) (tf (ptable s ! q) + 28) v\<rparr>"

definition count_syscall :: "'a ksys_scheme \<Rightarrow> ('a ksys_scheme) kres" where
  "count_syscall s =
     (let s1 = cli s in
      kbind (cpuid s1) (\<lambda>c.
      let s2 = sti s1; s3 = s2\<lparr>cpus := (cpus s2)[c := (cpus s2 ! c)\<lparr>nsyscall := nsyscall (cpus s2 ! c) + 1\<rparr>]\<rparr> in
      kbind (acquire NsysLock s3) (\<lambda>s4. release NsysLock (s4\<lparr>nsys := nsys s4 + 1\<rparr>))))"

definition syscall ::
  "('a ksys_scheme) fsenv \<Rightarrow> ('x, 'b) fpu_scheme \<Rightarrow> u32 \<Rightarrow> nat \<Rightarrow> 'a ksys_scheme \<Rightarrow> ('a ksys_scheme) kres" where
  "syscall E F kdata fuel s =
     kbind (curproc s) (\<lambda>(q, s1).
     let num = sint (tf_eax q s1) in
     kbind (if num > 0 \<and> num \<le> int (length (syscalls E F kdata fuel))
            then kbind ((syscalls E F kdata fuel ! nat (num - 1)) s1) (\<lambda>(r, s2). Inr (set_eax q (of_int r) s2))
            else
              kbind (cprintf (''%d %s: unknown sys call %d'' @ [CHR 0x0A])
                [AInt (of_int (pid (ptable s1 ! q))), AStr (Some (pname (ptable s1 ! q))), AInt (of_int num)] s1) (\<lambda>s2.
              Inr (set_eax q (-1) s2))) count_syscall)"

section \<open>Traps\<close>

record 'x handlers =
  lapiceoi :: "'x \<Rightarrow> 'x kres"
  ideintr :: "'x \<Rightarrow> 'x kres"
  kbdintr :: "'x \<Rightarrow> 'x kres"
  uartintr :: "'x \<Rightarrow> 'x kres"
  rcr2 :: u32

definition T_SYSCALL :: u32 where "T_SYSCALL = 64"

definition T_IRQ0 :: u32 where "T_IRQ0 = 32"

definition trap_timer :: "('a ksys_scheme) handlers \<Rightarrow> 'a ksys_scheme \<Rightarrow> ('a ksys_scheme) kres" where
  "trap_timer H s =
     kbind (cpuid s) (\<lambda>c.
     kbind (if c = 0 then
              kbind (acquire TicksLock s) (\<lambda>s1.
              let s2 = s1\<lparr>ticks := ticks s1 + 1\<rparr> in
              kbind (aging (sint (ticks s2)) s2) (\<lambda>s3.
              kbind (wakeup TicksChan s3) (release TicksLock)))
            else Inr s) (lapiceoi H))"

text \<open>The code segment in the trap frame has the privilege level of the interrupted code.\<close>

definition from_user :: "u32 \<Rightarrow> 'a kbase_scheme \<Rightarrow> bool" where
  "from_user t s \<longleftrightarrow> read32 (mem s) (t + 60) AND 3 = 3"

definition from_kernel :: "u32 \<Rightarrow> 'a kbase_scheme \<Rightarrow> bool" where
  "from_kernel t s \<longleftrightarrow> read32 (mem s) (t + 60) AND 3 = 0"

definition trap_other :: "('a ksys_scheme) handlers \<Rightarrow> u32 \<Rightarrow> 'a ksys_scheme \<Rightarrow> ('a ksys_scheme) kres" where
  "trap_other H t s =
     kbind (myproc s) (\<lambda>(p, s1).
     case p of None \<Rightarrow> Inl (Panic ''trap'')
     | Some q \<Rightarrow>
       if from_kernel t s1 then Inl (Panic ''trap'')
       else
         kbind (cpuid s1) (\<lambda>c.
         kbind (cprintf (''pid %d %s: trap %d err %d on cpu %d eip 0x%x addr 0x%x--kill proc'' @ [CHR 0x0A])
           [AInt (of_int (pid (ptable s1 ! q))), AStr (Some (pname (ptable s1 ! q))), AInt (read32 (mem s1) (t + 48)),
            AInt (read32 (mem s1) (t + 52)), AInt (of_nat c), AInt (read32 (mem s1) (t + 56)), AInt (rcr2 H)] s1) (\<lambda>s2.
         Inr (pupd q (\<lambda>x. x\<lparr>killed := True\<rparr>) s2))))"

definition exit_if_killed :: "('a ksys_scheme) fsenv \<Rightarrow> u32 \<Rightarrow> 'a ksys_scheme \<Rightarrow> ('a ksys_scheme) kres" where
  "exit_if_killed E t s =
     kbind (myproc s) (\<lambda>(p, s1).
     case p of None \<Rightarrow> Inr s1
     | Some q \<Rightarrow> if killed (ptable s1 ! q) \<and> from_user t s1 then kexit E s1 else Inr s1)"

definition kill_check :: "('a ksys_scheme) fsenv \<Rightarrow> 'a ksys_scheme \<Rightarrow> ('a ksys_scheme) kres" where
  "kill_check E s = kbind (curproc s) (\<lambda>(q, s1). if killed (ptable s1 ! q) then kexit E s1 else Inr s1)"

definition trap_dispatch :: "('a ksys_scheme) handlers \<Rightarrow> u32 \<Rightarrow> 'a ksys_scheme \<Rightarrow> ('a ksys_scheme) kres" where
  "trap_dispatch H t s =
     (let n = read32 (mem s) (t + 48) in
      if n = T_IRQ0 then trap_timer H s
      else if n = T_IRQ0 + 14 then kbind (ideintr H s) (lapiceoi H)
      else if n = T_IRQ0 + 15 then Inr s
      else if n = T_IRQ0 + 1 then kbind (kbdintr H s) (lapiceoi H)
      else if n = T_IRQ0 + 4 then kbind (uartintr H s) (lapiceoi H)
      else if n = T_IRQ0 + 7 \<or> n = T_IRQ0 + 31 then
        kbind (cpuid s) (\<lambda>c.
        kbind (cprintf (''cpu%d: spurious interrupt at %x:%x'' @ [CHR 0x0A])
          [AInt (of_nat c), AInt (read32 (mem s) (t + 60) AND 0xFFFF), AInt (read32 (mem s) (t + 56))] s) (lapiceoi H))
      else trap_other H t s)"

definition trap ::
  "('a ksys_scheme) fsenv \<Rightarrow> ('a ksys_scheme) handlers \<Rightarrow> ('x, 'b) fpu_scheme \<Rightarrow> u32 \<Rightarrow> nat \<Rightarrow> u32 \<Rightarrow> 'a ksys_scheme \<Rightarrow> ('a ksys_scheme) kres" where
  "trap E H F kdata fuel t s =
     (if read32 (mem s) (t + 48) = T_SYSCALL then
        kbind (kill_check E s) (\<lambda>s1.
        kbind (curproc s1) (\<lambda>(q, s2).
        kbind (syscall E F kdata fuel (pupd q (\<lambda>x. x\<lparr>tf := t\<rparr>) s2)) (kill_check E)))
      else
        kbind (trap_dispatch H t s) (\<lambda>s1.
        kbind (exit_if_killed E t s1) (\<lambda>s2.
        kbind (myproc s2) (\<lambda>(p, s3).
        kbind (case p of None \<Rightarrow> Inr s3
               | Some q \<Rightarrow> if pstate (ptable s3 ! q) = RUNNING \<and> read32 (mem s3) (t + 48) = T_IRQ0
                           then yield (fsw E) s3 else Inr s3) (exit_if_killed E t)))))"

end
