(* ===== verification/BufCache.thy ===== *)
theory BufCache
  imports Bio
begin

text \<open>
  What the buffer cache promises to the file system: its list stays a doubly linked ring in order
  of last use, a locked buffer holds the current contents of its block, and reading, writing and
  releasing blocks through the cache is reading and writing one array of blocks.
\<close>

lemma find_in: "find P xs = Some x \<Longrightarrow> x \<in> set xs \<and> P x"
  by (induction xs) (auto split: if_splits)

section \<open>The ring\<close>

text \<open>Each element leads to the next one along \<open>n\<close>, and back along \<open>p\<close>.\<close>

fun linked :: "(nat \<Rightarrow> nat) \<Rightarrow> (nat \<Rightarrow> nat) \<Rightarrow> nat list \<Rightarrow> bool" where
  "linked n p (a # b # xs) \<longleftrightarrow> n a = b \<and> p b = a \<and> linked n p (b # xs)"
| "linked n p xs \<longleftrightarrow> True"

lemma linked_append: "linked n p (us @ x # vs) \<longleftrightarrow> linked n p (us @ [x]) \<and> linked n p (x # vs)"
proof (induction us)
  case (Cons u us)
  then show ?case by (cases us) auto
qed simp

lemma linked_cong:
  "(\<And>a. a \<in> set (butlast xs) \<Longrightarrow> n' a = n a) \<Longrightarrow> (\<And>b. b \<in> set (tl xs) \<Longrightarrow> p' b = p b) \<Longrightarrow>
   linked n' p' xs \<longleftrightarrow> linked n p xs"
proof (induction xs)
  case (Cons a xs)
  show ?case
  proof (cases xs)
    case (Cons b ys)
    have "linked n' p' xs \<longleftrightarrow> linked n p xs"
      using Cons.prems Cons by (intro Cons.IH) (auto split: if_splits)
    then show ?thesis using Cons.prems Cons by auto
  qed simp
qed simp

lemma linked_remove:
  assumes "linked n p (us @ q # b # v # vs)" "distinct (us @ [q])" "distinct (v # vs)"
    and "v \<notin> set (tl (us @ [q]))" "q \<notin> set (butlast (v # vs))"
  shows "linked (n(q := v)) (p(v := q)) (us @ q # v # vs)" "p b = q" "n b = v"
proof -
  have l: "linked n p (us @ [q])" "n q = b" "p b = q" "n b = v" "p v = b" "linked n p (v # vs)"
    using assms(1) linked_append[of n p us q "b # v # vs"] by auto
  have "linked (n(q := v)) (p(v := q)) (us @ [q])"
    using l(1) assms(2,4) by (subst linked_cong[of _ _ n _ p]) (auto simp: butlast_append)
  moreover have "linked (n(q := v)) (p(v := q)) (v # vs)"
    using l(6) assms(3,5) by (subst linked_cong[of _ _ n _ p]) auto
  ultimately show "linked (n(q := v)) (p(v := q)) (us @ q # v # vs)"
    using linked_append[of "n(q := v)" "p(v := q)" us q "v # vs"] by simp
  show "p b = q" "n b = v" by fact+
qed

text \<open>A ring through the head \<open>N\<close>.\<close>

definition ringf :: "nat \<Rightarrow> (nat \<Rightarrow> nat) \<Rightarrow> (nat \<Rightarrow> nat) \<Rightarrow> nat list \<Rightarrow> bool" where
  "ringf N n p xs \<longleftrightarrow> distinct (N # xs) \<and> linked n p (N # xs @ [N])"

lemma ringf_remove:
  assumes "ringf N n p (ys @ b # zs)"
  shows "ringf N (n(p b := n b)) (p(n b := p b)) (ys @ zs)"
proof -
  obtain us q where us: "N # ys = us @ [q]" by (metis append_butlast_last_id list.discI)
  obtain v vs where v: "zs @ [N] = v # vs" by (cases "zs @ [N]") auto
  have d: "distinct (N # ys @ b # zs)" and l: "linked n p (N # (ys @ b # zs) @ [N])"
    using assms by (auto simp: ringf_def)
  have e: "N # (ys @ b # zs) @ [N] = us @ q # b # v # vs" "N # (ys @ zs) @ [N] = us @ q # v # vs"
    using arg_cong[OF us, of "\<lambda>l. l @ b # zs @ [N]"] arg_cong[OF us, of "\<lambda>l. l @ zs @ [N]"] by (simp_all add: v)
  have "tl (us @ [q]) = ys" "butlast (v # vs) = zs" by (simp_all flip: us v)
  moreover have "v \<in> set (zs @ [N])" "q \<in> set (N # ys)" by (simp_all only: us v) simp_all
  moreover have "distinct (us @ [q])" "distinct (v # vs)" using d by (simp_all flip: us v)
  ultimately have c: "v \<notin> set (tl (us @ [q]))" "q \<notin> set (butlast (v # vs))" using d by auto
  note R = linked_remove[OF l[unfolded e] \<open>distinct (us @ [q])\<close> \<open>distinct (v # vs)\<close> c]
  show ?thesis unfolding ringf_def e R(2,3) using R(1) d by auto
qed

lemma ringf_insert:
  assumes "ringf N n p xs" "b \<notin> set xs" "b \<noteq> N"
  shows "ringf N (n(b := n N, N := b)) (p(b := N, n N := b)) (b # xs)"
proof -
  obtain v vs where v: "xs @ [N] = v # vs" by (cases "xs @ [N]") auto
  have "linked n p (N # v # vs)" "distinct (N # xs)" using assms(1) by (simp_all add: ringf_def v)
  then have l: "n N = v" "linked n p (v # vs)" and d: "distinct (N # xs)" by simp_all
  have dv: "distinct (v # vs)" using d by (simp flip: v)
  have "set (butlast (v # vs)) = set xs" "set (v # vs) = insert N (set xs)" by (simp_all flip: v)
  then have "linked (n(b := v, N := b)) (p(b := N, v := b)) (v # vs)"
    using l(2) assms(2,3) d dv by (subst linked_cong[of _ _ n _ p]) auto
  moreover have "b \<noteq> v" using assms(2,3) v by (cases xs) auto
  ultimately show ?thesis using assms(2,3) d by (auto simp: ringf_def v l(1))
qed

text \<open>The search of \<^verbatim>\<open>bget\<close> along a ring, in either direction.\<close>

lemma bscan_next:
  assumes "linked nx pv (a # xs @ [NBUF])" "NBUF \<notin> set xs" "length xs \<le> n"
    and "\<And>b. nx b = bnext (bs ! b)"
  shows "bscan P bnext bs n (nx a) = Inr (find (\<lambda>b. P (bs ! b)) xs)"
  using assms(1-3)
proof (induction xs arbitrary: a n)
  case Nil
  then show ?case by (cases n) auto
next
  case (Cons b xs)
  then obtain m where "n = Suc m" by (cases n) auto
  then show ?case using Cons.prems Cons.IH[of b m] by (auto simp: assms(4))
qed

lemma bscan_prev:
  assumes "linked nx pv (NBUF # xs @ [a])" "NBUF \<notin> set xs" "length xs \<le> n"
    and "\<And>b. pv b = bprev (bs ! b)"
  shows "bscan P bprev bs n (pv a) = Inr (find (\<lambda>b. P (bs ! b)) (rev xs))"
  using assms(1-3)
proof (induction xs arbitrary: a n rule: rev_induct)
  case Nil
  then show ?case by (cases n) auto
next
  case (snoc b xs)
  then obtain m where "n = Suc m" by (cases n) auto
  have "linked nx pv ((NBUF # xs) @ b # [a])" using snoc.prems(1) by simp
  then have "linked nx pv (NBUF # xs @ [b])" "pv a = b" by (subst (asm) linked_append, simp)+
  then have "bscan P bprev bs m (pv b) = Inr (find (\<lambda>b. P (bs ! b)) (rev xs))"
    using snoc.prems \<open>n = Suc m\<close> by (intro snoc.IH) simp_all
  then show ?case using snoc.prems \<open>n = Suc m\<close> \<open>pv a = b\<close> by (simp add: assms(4))
qed

section \<open>Frames\<close>

lemma buf_upd_simps [simp]:
  "core (buf_upd b f s) = core s" "ptable (buf_upd b f s) = ptable s" "slocks (buf_upd b f s) = slocks s"
  "mem (buf_upd b f s) = mem s" "disk (buf_upd b f s) = disk s" "disksize (buf_upd b f s) = disksize s"
  "diskw (buf_upd b f s) = diskw s" "kbio.more (buf_upd b f s) = kbio.more s"
  "bcache (buf_upd b f s) = (bcache s)[b := f (bcache s ! b)]"
  by (simp_all add: buf_upd_def core_def)

lemma disk_write_simps [simp]:
  "core (disk_write n d s) = core s" "ptable (disk_write n d s) = ptable s" "slocks (disk_write n d s) = slocks s"
  "mem (disk_write n d s) = mem s" "disksize (disk_write n d s) = disksize s" "bcache (disk_write n d s) = bcache s"
  "kbio.more (disk_write n d s) = kbio.more s" "disk (disk_write n d s) = (disk s)(n := d)"
  "diskw (disk_write n d s) = diskw s @ [(n, d)]"
  by (simp_all add: disk_write_def core_def)

definition nxt :: "'a kbio_scheme \<Rightarrow> nat \<Rightarrow> nat" where "nxt s b = bnext (bufat s b)"

definition prv :: "'a kbio_scheme \<Rightarrow> nat \<Rightarrow> nat" where "prv s b = bprev (bufat s b)"

definition ring :: "'a kbio_scheme \<Rightarrow> nat list \<Rightarrow> bool" where
  "ring s xs \<longleftrightarrow> length (bcache s) = NBUF + 1 \<and> set xs = {..<NBUF} \<and> ringf NBUF (nxt s) (prv s) xs"

lemma nxt_upd:
  "b < length (bcache s) \<Longrightarrow> nxt (buf_upd b f s) = (nxt s)(b := bnext (f (bufat s b)))"
  "b < length (bcache s) \<Longrightarrow> prv (buf_upd b f s) = (prv s)(b := bprev (f (bufat s b)))"
  by (auto simp: nxt_def prv_def bufat_def nth_list_update)

lemma bufat_upd: "b < length (bcache s) \<Longrightarrow> bufat (buf_upd b f s) a = (if a = b then f (bufat s b) else bufat s a)"
  by (auto simp: bufat_def nth_list_update)

lemma ringD:
  assumes "ring s xs"
  shows "length (bcache s) = NBUF + 1" "set xs = {..<NBUF}" "distinct xs" "ringf NBUF (nxt s) (prv s) xs"
    "linked (nxt s) (prv s) (NBUF # xs @ [NBUF])" "length xs = NBUF"
proof -
  show r: "length (bcache s) = NBUF + 1" "set xs = {..<NBUF}" "ringf NBUF (nxt s) (prv s) xs"
    using assms by (simp_all add: ring_def)
  then show "distinct xs" "linked (nxt s) (prv s) (NBUF # xs @ [NBUF])" by (simp_all add: ringf_def)
  then show "length xs = NBUF" using r(2) distinct_card[of xs] by simp
qed

lemma ring_same: "bcache t = bcache s \<Longrightarrow> ring t xs = ring s xs"
  by (simp add: ring_def nxt_def[abs_def] prv_def[abs_def] bufat_def)

lemma ring_links:
  "ring s xs \<Longrightarrow> x \<in> set (NBUF # xs) \<Longrightarrow> nxt s x \<in> set (NBUF # xs) \<and> prv s x \<in> set (NBUF # xs)"
proof -
  assume r: "ring s xs" and x: "x \<in> set (NBUF # xs)"
  have "a \<in> set (butlast ys) \<Longrightarrow> linked n p ys \<Longrightarrow> n a \<in> set (tl ys)" for n p ys and a :: nat
    by (induction n p ys rule: linked.induct) (auto split: if_splits)
  from this[of x "NBUF # xs @ [NBUF]"] x ringD(5)[OF r] have "nxt s x \<in> set (NBUF # xs)" by (auto simp: butlast_append)
  moreover have "a \<in> set (tl ys) \<Longrightarrow> linked n p ys \<Longrightarrow> p a \<in> set (butlast ys)" for n p ys and a :: nat
    by (induction n p ys rule: linked.induct) auto
  from this[of x "NBUF # xs @ [NBUF]"] x ringD(5)[OF r] have "prv s x \<in> set (NBUF # xs)" by (auto simp: butlast_append)
  ultimately show ?thesis by blast
qed

lemma bmove_ring:
  assumes "ring s (ys @ b # zs)"
  shows "ring (bmove b s) (b # ys @ zs)"
proof -
  note D = ringD[OF assms]
  have in_range: "x \<in> set (NBUF # ys @ b # zs) \<longleftrightarrow> x \<le> NBUF" for x
    unfolding list.set(2)[of NBUF] D(2) by auto
  have "b \<in> set (ys @ b # zs)" by simp
  then have b: "b < NBUF" "b < length (bcache s)" "NBUF < length (bcache s)" unfolding D(1,2) by simp_all
  have l: "nxt s b < length (bcache s)" "prv s b < length (bcache s)"
    using ring_links[OF assms, of b] in_range[of "nxt s b"] in_range[of "prv s b"] D(1) by auto
  let ?n = "(nxt s)(prv s b := nxt s b)" and ?p = "(prv s)(nxt s b := prv s b)"
  have h: "?n NBUF < length (bcache s)"
    using l ring_links[OF assms, of NBUF] in_range[of "nxt s NBUF"] D(1) by auto
  define s1 where "s1 = buf_upd (nxt s b) (\<lambda>x. x\<lparr>bprev := prv s b\<rparr>) s"
  define s2 where "s2 = buf_upd (prv s1 b) (\<lambda>x. x\<lparr>bnext := nxt s1 b\<rparr>) s1"
  define s3 where "s3 = buf_upd b (\<lambda>x. x\<lparr>bnext := nxt s2 NBUF\<rparr>) s2"
  define s4 where "s4 = buf_upd b (\<lambda>x. x\<lparr>bprev := NBUF\<rparr>) s3"
  define s5 where "s5 = buf_upd (nxt s4 NBUF) (\<lambda>x. x\<lparr>bprev := b\<rparr>) s4"
  have m: "bmove b s = buf_upd NBUF (\<lambda>x. x\<lparr>bnext := b\<rparr>) s5"
    unfolding bmove_def Let_def s5_def s4_def s3_def s2_def s1_def nxt_def prv_def ..
  have 1: "nxt s1 = nxt s" "prv s1 = ?p" "length (bcache s1) = length (bcache s)"
    using l by (auto simp: s1_def nxt_upd simp flip: nxt_def)
  have 2: "nxt s2 = ?n" "prv s2 = ?p" "length (bcache s2) = length (bcache s)"
    using l 1 by (auto simp: s2_def nxt_upd simp flip: prv_def)
  have 3: "nxt s3 = ?n(b := ?n NBUF)" "prv s3 = ?p" "length (bcache s3) = length (bcache s)"
    using b 2 by (auto simp: s3_def nxt_upd simp flip: prv_def)
  have 4: "nxt s4 = nxt s3" "prv s4 = ?p(b := NBUF)" "length (bcache s4) = length (bcache s)"
    using b 3 by (auto simp: s4_def nxt_upd simp flip: nxt_def)
  have 5: "nxt s5 = nxt s4" "prv s5 = ?p(b := NBUF, ?n NBUF := b)" "length (bcache s5) = length (bcache s)"
    using b h 3 4 by (auto simp: s5_def nxt_upd simp flip: nxt_def)
  have links: "nxt (bmove b s) = ?n(b := ?n NBUF, NBUF := b)" "prv (bmove b s) = ?p(b := NBUF, ?n NBUF := b)"
    using b 3 4 5 by (auto simp: m nxt_upd simp flip: prv_def)
  have "length (bcache (bmove b s)) = NBUF + 1" using 5 D(1) by (simp add: m)
  moreover have "b \<notin> set (ys @ zs)" using D(3) by simp
  ultimately show ?thesis
    using ringf_insert[OF ringf_remove[OF D(4)], of b] b(1)
    by (simp add: ring_def links flip: D(2))
qed

lemma binit_loop_ring:
  assumes "length (bcache s) = NBUF + 1" "ringf NBUF (nxt s) (prv s) (rev [0..<b])" "b + n = NBUF"
  shows "ring (binit_loop n b s) (rev [0..<NBUF])"
  using assms
proof (induction n arbitrary: b s)
  case 0
  then show ?case by (auto simp: ring_def)
next
  case (Suc n)
  define s1 where "s1 = buf_upd b (\<lambda>x. x\<lparr>bnext := nxt s NBUF, bprev := NBUF\<rparr>) s"
  define s2 where "s2 = initsleeplock (BufSl b) ''buffer'' s1"
  define s3 where "s3 = buf_upd (nxt s2 NBUF) (\<lambda>x. x\<lparr>bprev := b\<rparr>) s2"
  define s4 where "s4 = buf_upd NBUF (\<lambda>x. x\<lparr>bnext := b\<rparr>) s3"
  have e: "binit_loop (Suc n) b s = binit_loop n (b + 1) s4"
    unfolding binit_loop.simps Let_def s4_def s3_def s2_def s1_def nxt_def ..
  have b: "b < NBUF" "b < length (bcache s)" "NBUF < length (bcache s)" using Suc.prems by simp_all
  have "nxt s NBUF \<in> set (rev [0..<b] @ [NBUF])"
    using Suc.prems(2) by (cases "rev [0..<b] @ [NBUF]") (auto simp: ringf_def)
  then have h: "nxt s NBUF < length (bcache s)" using b by auto
  have 1: "nxt s1 = (nxt s)(b := nxt s NBUF)" "prv s1 = (prv s)(b := NBUF)" "length (bcache s1) = length (bcache s)"
    using b by (simp_all add: s1_def nxt_upd)
  have bc: "bcache s2 = bcache s1" by (simp add: s2_def initsleeplock_def sl_upd_def initlock_def)
  then have 2: "nxt s2 = nxt s1" "prv s2 = prv s1" "length (bcache s2) = length (bcache s)"
    using 1 by (simp_all add: nxt_def[abs_def] prv_def[abs_def] bufat_def)
  have 3: "nxt s3 = nxt s1" "prv s3 = (prv s)(b := NBUF, nxt s NBUF := b)" "length (bcache s3) = length (bcache s)"
    using b h 1 2 by (auto simp: s3_def nxt_upd simp flip: nxt_def)
  have 4: "nxt s4 = (nxt s)(b := nxt s NBUF, NBUF := b)" "prv s4 = (prv s)(b := NBUF, nxt s NBUF := b)"
    "length (bcache s4) = NBUF + 1"
    using b 1 3 Suc.prems(1) by (auto simp: s4_def nxt_upd simp flip: prv_def)
  have "ringf NBUF (nxt s4) (prv s4) (b # rev [0..<b])"
    unfolding 4 using b by (intro ringf_insert Suc.prems(2)) auto
  then show ?case unfolding e using 4(3) Suc.prems(3) by (intro Suc.IH) auto
qed

lemma binit_ring: "length (bcache s) = NBUF + 1 \<Longrightarrow> ring (binit s) (rev [0..<NBUF])"
  unfolding binit_def
  by (rule binit_loop_ring) (auto simp: ringf_def nxt_upd initlock_def)

section \<open>Locking\<close>

lemma kbio_frame [simp]:
  "bcache (acquired l c s) = bcache s" "bcache (released l c s) = bcache s" "bcache (touched c s) = bcache s"
  "disk (acquired l c s) = disk s" "disk (released l c s) = disk s" "disk (touched c s) = disk s"
  "diskw (acquired l c s) = diskw s" "diskw (released l c s) = diskw s" "diskw (touched c s) = diskw s"
  "disksize (acquired l c s) = disksize s" "disksize (released l c s) = disksize s" "disksize (touched c s) = disksize s"
  "kbio.more (acquired l c s) = kbio.more s" "kbio.more (released l c s) = kbio.more s" "kbio.more (touched c s) = kbio.more s"
  by (simp_all add: acquired_def released_def touched_def)

lemma more_bio:
  assumes "ksleep.more t = ksleep.more s"
  shows "bcache t = bcache s" "disk t = disk s" "disksize t = disksize s" "diskw t = diskw s" "kbio.more t = kbio.more s"
  using assms by (cases s; cases t; simp)+

text \<open>The code runs in process \<open>i\<close> on CPU \<open>c\<close>, and the spin locks the cache uses are free.\<close>

definition bio_idle :: "nat \<Rightarrow> nat \<Rightarrow> 'a kbio_scheme \<Rightarrow> bool" where
  "bio_idle c i s \<longleftrightarrow> cpu_ok c (core s) \<and> cur c (core s) = Some i \<and> i < length (ptable s) \<and>
     lock_free PtableLock (core s) \<and> lock_free BcacheLock (core s) \<and> (\<forall>b. lock_free (SleepLk (BufSl b)) (core s))"

text \<open>What no operation of the cache changes.\<close>

definition bio_frame :: "'a kbio_scheme \<Rightarrow> 'a kbio_scheme \<Rightarrow> bool" where
  "bio_frame s t \<longleftrightarrow> core t = core s \<and> map pid (ptable t) = map pid (ptable s) \<and> mem t = mem s \<and>
     disksize t = disksize s \<and> kbio.more t = kbio.more s"

lemma bio_frame_refl [simp]: "bio_frame s s" by (simp add: bio_frame_def)

lemma bio_frame_trans: "bio_frame s t \<Longrightarrow> bio_frame t u \<Longrightarrow> bio_frame s u" by (simp add: bio_frame_def)

lemma bio_idle_frame:
  assumes "bio_frame s t" "bio_idle c i s"
  shows "bio_idle c i t" "pid (ptable t ! i) = pid (ptable s ! i)"
proof -
  have l: "length (ptable t) = length (ptable s)" using assms(1) by (metis bio_frame_def length_map)
  then show "bio_idle c i t" using assms by (simp add: bio_frame_def bio_idle_def)
  have "map pid (ptable t) ! i = map pid (ptable s) ! i" using assms(1) by (simp add: bio_frame_def)
  moreover have "i < length (ptable s)" using assms(2) by (simp add: bio_idle_def)
  ultimately show "pid (ptable t ! i) = pid (ptable s ! i)" using l by simp
qed

lemma bcache_acquire:
  assumes "bio_idle c i s"
  shows "acquire BcacheLock s = Inr (acquired BcacheLock c s)"
    "core (acquired BcacheLock c s) = take_lock BcacheLock c (core s)"
  using assms by (simp_all add: bio_idle_def acquire_ok[of c])

lemma bcache_release:
  assumes "bio_idle c i s" "core t = take_lock BcacheLock c (core s)"
  shows "release BcacheLock t = Inr (released BcacheLock c t)" "core (released BcacheLock c t) = core s"
  using assms by (auto simp: bio_idle_def intro!: release_ok)

lemma idle_sl: "bio_idle c i s \<Longrightarrow> sl_ready c i (BufSl b) s"
  by (simp add: bio_idle_def sl_ready_def)

definition slock_taken :: "int \<Rightarrow> sleeplock \<Rightarrow> sleeplock" where
  "slock_taken x k = k\<lparr>slocked := True, slpid := x\<rparr>"

lemma bio_acquiresleep:
  assumes "bio_idle c i s" "\<not> slocked (slocks s (BufSl b))"
  obtains t where "acquiresleep sw n (BufSl b) s = Inr t" "bio_frame s t" "bcache t = bcache s" "disk t = disk s"
    "diskw t = diskw s" "slocks t = (slocks s)(BufSl b := slock_taken (pid (ptable s ! i)) (slocks s (BufSl b)))"
proof -
  obtain t where t: "acquiresleep sw n (BufSl b) s = Inr t" "core t = core s" "ptable t = ptable s" "mem t = mem s"
    "ksleep.more t = ksleep.more s"
    "slocks t = (slocks s)(BufSl b := (slocks s (BufSl b))\<lparr>slocked := True, slpid := pid (ptable s ! i)\<rparr>)"
    using acquiresleep_free[OF idle_sl[OF assms(1)] assms(2), of sw n] by blast
  show thesis using t(2-4,6) more_bio[OF t(5)] by (intro that[OF t(1)]) (simp_all add: bio_frame_def slock_taken_def)
qed

lemma holdingsleep_ok:
  assumes "bio_idle c i s"
  obtains t where "holdingsleep (BufSl b) s = Inr (slocked (slocks s (BufSl b)) \<and> slpid (slocks s (BufSl b)) = pid (ptable s ! i), t)"
    "bio_frame s t" "bcache t = bcache s" "disk t = disk s" "diskw t = diskw s" "slocks t = slocks s"
proof -
  note A = sl_acquire[OF idle_sl[OF assms], of b]
  note R = sl_release[OF idle_sl[OF assms], where b1 = b]
  let ?a = "acquired (SleepLk (BufSl b)) c s"
  have r: "core (touched c ?a) = take_lock (SleepLk (BufSl b)) c (core s)" using A by simp
  show thesis
  proof (cases "slocked (slocks s (BufSl b))")
    case True
    show thesis
      by (rule that[of "released (SleepLk (BufSl b)) c (touched c ?a)"])
        (use True A R(1)[OF r] R(2)[OF r] in \<open>simp_all add: holdingsleep_def cur_pid_ok[of c _ i] bio_frame_def\<close>)
  next
    case False
    show thesis
      by (rule that[of "released (SleepLk (BufSl b)) c ?a"])
        (use False A R(1)[OF A(2)] R(2)[OF A(2)] in \<open>simp_all add: holdingsleep_def bio_frame_def\<close>)
  qed
qed

lemma bio_releasesleep:
  assumes "bio_idle c i s" "slocked (slocks s (BufSl b))" "slpid (slocks s (BufSl b)) = pid (ptable s ! i)"
  obtains t where "releasesleep (BufSl b) s = Inr t" "bio_frame s t" "bcache t = bcache s" "disk t = disk s"
    "diskw t = diskw s" "slocks t = (slocks s)(BufSl b := (slocks s (BufSl b))\<lparr>slocked := False, slpid := 0\<rparr>)"
proof -
  have "lock_free PtableLock (core s)" using assms(1) by (simp add: bio_idle_def)
  from releasesleep_owner[OF idle_sl[OF assms(1)] this assms(2,3)] obtain t where
    t: "releasesleep (BufSl b) s = Inr t" "core t = core s" "mem t = mem s" "ksleep.more t = ksleep.more s"
      "slocks t = (slocks s)(BufSl b := (slocks s (BufSl b))\<lparr>slocked := False, slpid := 0\<rparr>)"
      "ptable t = map (\<lambda>p. if pstate p = SLEEPING \<and> pchan p = SleepChan (BufSl b) then p\<lparr>pstate := RUNNABLE\<rparr> else p) (ptable s)"
    by blast
  have "map pid (ptable t) = map pid (ptable s)" by (simp add: t(6))
  with t(2,3,5) more_bio[OF t(4)] show thesis by (intro that[OF t(1)]) (simp_all add: bio_frame_def)
qed

section \<open>Finding a buffer\<close>

lemma bget_scan:
  assumes "ring s xs" "bcache t = bcache s"
  shows "bscan P bnext (bcache t) NBUF (bnext (bufat t NBUF)) = Inr (find (\<lambda>b. P (bufat s b)) xs)"
    "bscan P bprev (bcache t) NBUF (bprev (bufat t NBUF)) = Inr (find (\<lambda>b. P (bufat s b)) (rev xs))"
proof -
  note D = ringD[OF assms(1)]
  have n: "NBUF \<notin> set xs" using D(2) by simp
  show "bscan P bnext (bcache t) NBUF (bnext (bufat t NBUF)) = Inr (find (\<lambda>b. P (bufat s b)) xs)"
    using bscan_next[OF D(5) n, of NBUF "bcache s" P] D(6) assms(2) by (simp add: nxt_def bufat_def)
  show "bscan P bprev (bcache t) NBUF (bprev (bufat t NBUF)) = Inr (find (\<lambda>b. P (bufat s b)) (rev xs))"
    using bscan_prev[OF D(5) n, of NBUF "bcache s" P] D(6) assms(2) by (simp add: prv_def bufat_def)
qed

definition matches :: "u32 \<Rightarrow> u32 \<Rightarrow> buf \<Rightarrow> bool" where
  "matches dev n k \<longleftrightarrow> bdev k = dev \<and> blockno k = n"

definition unused :: "buf \<Rightarrow> bool" where
  "unused k \<longleftrightarrow> refcnt k = 0 \<and> \<not> is_dirty k"

text \<open>The buffer that \<^verbatim>\<open>bget\<close> returns, with its new contents before it is locked.\<close>

definition bget_pick :: "'a kbio_scheme \<Rightarrow> nat list \<Rightarrow> u32 \<Rightarrow> u32 \<Rightarrow> (nat \<times> buf) option" where
  "bget_pick s xs dev n =
     (case find (\<lambda>b. matches dev n (bufat s b)) xs of
        Some b \<Rightarrow> Some (b, (bufat s b)\<lparr>refcnt := refcnt (bufat s b) + 1\<rparr>)
      | None \<Rightarrow> map_option (\<lambda>b. (b, (bufat s b)\<lparr>bdev := dev, blockno := n, bflags := 0, refcnt := 1\<rparr>))
          (find (\<lambda>b. unused (bufat s b)) (rev xs)))"

lemma bget_ok:
  assumes "bio_idle c i s" "ring s xs" "bget_pick s xs dev n = Some (b, k)" "\<not> slocked (slocks s (BufSl b))"
  obtains t where "bget E dev n s = Inr (b, t)" "bio_frame s t" "bcache t = (bcache s)[b := k]" "disk t = disk s"
    "diskw t = diskw s" "slocks t = (slocks s)(BufSl b := slock_taken (pid (ptable s ! i)) (slocks s (BufSl b)))"
proof -
  let ?a = "acquired BcacheLock c s"
  note A = bcache_acquire[OF assms(1)]
  note S = bget_scan[OF assms(2), of ?a, simplified]
  have fin: "\<exists>t. kbind (release BcacheLock (buf_upd b f ?a)) (\<lambda>s2. kbind (acquiresleep (fsw E) (tries E) (BufSl b) s2) (\<lambda>s3. Inr (b, s3))) = Inr (b, t) \<and>
      bio_frame s t \<and> bcache t = (bcache s)[b := k] \<and> disk t = disk s \<and> diskw t = diskw s \<and>
      slocks t = (slocks s)(BufSl b := slock_taken (pid (ptable s ! i)) (slocks s (BufSl b)))"
    if f: "f (bufat s b) = k" for f
  proof -
    let ?u = "buf_upd b f ?a"
    have cu: "core ?u = take_lock BcacheLock c (core s)" using A(2) by simp
    note R = bcache_release[OF assms(1) cu]
    have fr: "bio_frame s (released BcacheLock c ?u)" using R(2) by (simp add: bio_frame_def)
    have ns: "\<not> slocked (slocks (released BcacheLock c ?u) (BufSl b))" using assms(4) by simp
    from bio_acquiresleep[OF bio_idle_frame(1)[OF fr assms(1)] ns, of "fsw E" "tries E"] obtain t where
      t: "acquiresleep (fsw E) (tries E) (BufSl b) (released BcacheLock c ?u) = Inr t" "bio_frame (released BcacheLock c ?u) t"
        "bcache t = bcache (released BcacheLock c ?u)" "disk t = disk (released BcacheLock c ?u)" "diskw t = diskw (released BcacheLock c ?u)"
        "slocks t = (slocks (released BcacheLock c ?u))(BufSl b := slock_taken (pid (ptable (released BcacheLock c ?u) ! i)) (slocks (released BcacheLock c ?u) (BufSl b)))" .
    have "bio_frame s t" using fr t(2) by (rule bio_frame_trans)
    then show ?thesis using R(1) t f by (simp add: bufat_def)
  qed
  have "\<exists>t. bget E dev n s = Inr (b, t) \<and> bio_frame s t \<and> bcache t = (bcache s)[b := k] \<and> disk t = disk s \<and> diskw t = diskw s \<and>
      slocks t = (slocks s)(BufSl b := slock_taken (pid (ptable s ! i)) (slocks s (BufSl b)))"
  proof (cases "find (\<lambda>b. matches dev n (bufat s b)) xs")
    case (Some b')
    then have "b' = b" "(bufat s b)\<lparr>refcnt := refcnt (bufat s b) + 1\<rparr> = k" using assms(3) by (auto simp: bget_pick_def)
    with Some fin[of "\<lambda>x. x\<lparr>refcnt := refcnt x + 1\<rparr>"] show ?thesis
      by (simp add: bget_def A(1) S matches_def)
  next
    case None
    then obtain f: "find (\<lambda>b. unused (bufat s b)) (rev xs) = Some b"
      and k: "(bufat s b)\<lparr>bdev := dev, blockno := n, bflags := 0, refcnt := 1\<rparr> = k"
      using assms(3) by (auto simp: bget_pick_def)
    from None f fin[of "\<lambda>x. x\<lparr>bdev := dev, blockno := n, bflags := 0, refcnt := 1\<rparr>"] k show ?thesis
      by (simp add: bget_def A(1) S matches_def unused_def is_dirty_def)
  qed
  then show thesis using that by blast
qed

section \<open>The driver\<close>

lemma flag_bits:
  "is_valid k \<longleftrightarrow> bit (bflags k) 1" "is_dirty k \<longleftrightarrow> bit (bflags k) 2"
  "bit B_VALID j \<longleftrightarrow> j = 1" "bit B_DIRTY j \<longleftrightarrow> j = 2"
proof -
  have e: "B_VALID = 2 ^ 1" "B_DIRTY = 2 ^ 2" by (simp_all add: B_VALID_def B_DIRTY_def)
  show "is_valid k \<longleftrightarrow> bit (bflags k) 1" "is_dirty k \<longleftrightarrow> bit (bflags k) 2"
    unfolding is_valid_def is_dirty_def e by (simp_all only: and_exp_eq_0_iff_not_bit not_not)
  show "bit B_VALID j \<longleftrightarrow> j = 1" "bit B_DIRTY j \<longleftrightarrow> j = 2"
    unfolding e bit_exp_iff by auto
qed

lemma iderw_guard: "is_dirty k \<Longrightarrow> bflags k AND (B_VALID OR B_DIRTY) \<noteq> B_VALID"
proof
  assume d: "is_dirty k" and e: "bflags k AND (B_VALID OR B_DIRTY) = B_VALID"
  from d have "bit (bflags k AND (B_VALID OR B_DIRTY)) 2" by (simp add: flag_bits bit_simps)
  then show False unfolding e by (simp add: flag_bits)
qed

definition owned :: "nat \<Rightarrow> nat \<Rightarrow> 'a kbio_scheme \<Rightarrow> bool" where
  "owned i b s \<longleftrightarrow> slocked (slocks s (BufSl b)) \<and> slpid (slocks s (BufSl b)) = pid (ptable s ! i)"

lemma iderw_read:
  assumes "bio_idle c i s" "owned i b s" "b < length (bcache s)" "bflags (bufat s b) = 0"
    and "bdev (bufat s b) = 1" "blockno (bufat s b) < of_int (disksize s)"
  obtains t where "iderw b s = Inr t" "bio_frame s t" "slocks t = slocks s" "disk t = disk s" "diskw t = diskw s"
    "bcache t = (bcache s)[b := (bufat s b)\<lparr>bdata := disk s (blockno (bufat s b)), bflags := B_VALID\<rparr>]"
proof -
  obtain u where u: "holdingsleep (BufSl b) s = Inr (slocked (slocks s (BufSl b)) \<and> slpid (slocks s (BufSl b)) = pid (ptable s ! i), u)"
    "bio_frame s u" "bcache u = bcache s" "disk u = disk s" "diskw u = diskw s" "slocks u = slocks s"
    by (rule holdingsleep_ok[OF assms(1)])
  have k: "bufat u b = bufat s b" "disksize u = disksize s" using u(2,3) by (simp_all add: bufat_def bio_frame_def)
  have nd: "\<not> is_dirty (bufat s b)" by (simp add: is_dirty_def assms(4))
  have v: "(0 :: u32) \<noteq> B_VALID" by (simp add: B_VALID_def)
  let ?t = "buf_upd b (\<lambda>x. x\<lparr>bflags := bflags x OR B_VALID\<rparr>) (buf_upd b (\<lambda>x. x\<lparr>bdata := disk u (blockno (bufat s b))\<rparr>) u)"
  have "iderw b s = Inr ?t"
    using assms(2,4-6) v nd unfolding owned_def
    by (simp add: iderw_def u(1) k not_le Let_def)
  moreover have "bcache ?t = (bcache s)[b := (bufat s b)\<lparr>bdata := disk s (blockno (bufat s b)), bflags := B_VALID\<rparr>]"
    using assms(3,4) u(3,4) by (simp add: bufat_def)
  ultimately show thesis using u(2,4-6) by (intro that[of ?t]) (simp_all add: bio_frame_def)
qed

lemma iderw_write:
  assumes "bio_idle c i s" "owned i b s" "b < length (bcache s)" "is_dirty (bufat s b)"
    and "bdev (bufat s b) = 1" "blockno (bufat s b) < of_int (disksize s)"
  obtains t where "iderw b s = Inr t" "bio_frame s t" "slocks t = slocks s"
    "disk t = (disk s)(blockno (bufat s b) := bdata (bufat s b))" "diskw t = diskw s @ [(blockno (bufat s b), bdata (bufat s b))]"
    "bcache t = (bcache s)[b := (bufat s b)\<lparr>bflags := (bflags (bufat s b) AND NOT B_DIRTY) OR B_VALID\<rparr>]"
proof -
  obtain u where u: "holdingsleep (BufSl b) s = Inr (slocked (slocks s (BufSl b)) \<and> slpid (slocks s (BufSl b)) = pid (ptable s ! i), u)"
    "bio_frame s u" "bcache u = bcache s" "disk u = disk s" "diskw u = diskw s" "slocks u = slocks s"
    by (rule holdingsleep_ok[OF assms(1)])
  have k: "bufat u b = bufat s b" "disksize u = disksize s" using u(2,3) by (simp_all add: bufat_def bio_frame_def)
  let ?t = "buf_upd b (\<lambda>x. x\<lparr>bflags := bflags x OR B_VALID\<rparr>)
     (disk_write (blockno (bufat s b)) (bdata (bufat s b)) (buf_upd b (\<lambda>x. x\<lparr>bflags := bflags x AND NOT B_DIRTY\<rparr>) u))"
  have "iderw b s = Inr ?t"
    using assms(2,4-6) iderw_guard[OF assms(4)] unfolding owned_def
    by (simp add: iderw_def u(1) k not_le Let_def)
  moreover have "bcache ?t = (bcache s)[b := (bufat s b)\<lparr>bflags := (bflags (bufat s b) AND NOT B_DIRTY) OR B_VALID\<rparr>]"
    using assms(3) u(3) by (simp add: bufat_def)
  moreover have "bio_frame s ?t" using u(2) by (simp add: bio_frame_def)
  ultimately show thesis using u(4-6) by (intro that[of ?t]) simp_all
qed

section \<open>Contents\<close>

text \<open>
  A buffer without its links and reference count. The block numbered \<open>n\<close> of disk 1 is held by at
  most one buffer; the contents of the block are those of the buffer, or else those on the disk.
\<close>

definition bc :: "'a kbio_scheme \<Rightarrow> nat \<Rightarrow> buf" where
  "bc s b = (bufat s b)\<lparr>refcnt := 0, bprev := 0, bnext := 0\<rparr>"

lemma bc_simps [simp]:
  "bflags (bc s b) = bflags (bufat s b)" "bdev (bc s b) = bdev (bufat s b)"
  "blockno (bc s b) = blockno (bufat s b)" "bdata (bc s b) = bdata (bufat s b)"
  "is_dirty (bc s b) = is_dirty (bufat s b)" "is_valid (bc s b) = is_valid (bufat s b)"
  by (simp_all add: bc_def is_dirty_def is_valid_def)

definition holds :: "(nat \<Rightarrow> buf) \<Rightarrow> nat \<Rightarrow> u32 \<Rightarrow> bool" where
  "holds f b n \<longleftrightarrow> b < NBUF \<and> bdev (f b) = 1 \<and> blockno (f b) = n"

definition view :: "(nat \<Rightarrow> buf) \<Rightarrow> (u32 \<Rightarrow> block) \<Rightarrow> u32 \<Rightarrow> block" where
  "view f d n = (case find (\<lambda>b. holds f b n) [0..<NBUF] of Some b \<Rightarrow> bdata (f b) | None \<Rightarrow> d n)"

definition dirty_blocks :: "(nat \<Rightarrow> buf) \<Rightarrow> u32 set" where
  "dirty_blocks f = {n. \<exists>b. holds f b n \<and> is_dirty (f b)}"

text \<open>\<open>H\<close> are the buffers that the running process has locked; only they may differ from the disk and be clean.\<close>

definition contents_ok :: "nat set \<Rightarrow> (nat \<Rightarrow> buf) \<Rightarrow> (u32 \<Rightarrow> block) \<Rightarrow> int \<Rightarrow> bool" where
  "contents_ok H f d z \<longleftrightarrow> (\<forall>b < NBUF. (b \<in> H \<or> is_dirty (f b) \<longrightarrow> bdev (f b) = 1) \<and>
     (bdev (f b) = 1 \<longrightarrow> is_valid (f b) \<and> blockno (f b) < of_int z \<and>
        (\<not> is_dirty (f b) \<and> b \<notin> H \<longrightarrow> bdata (f b) = d (blockno (f b))))) \<and>
     (\<forall>b b' n. holds f b n \<longrightarrow> holds f b' n \<longrightarrow> b = b')"

lemma view_held:
  assumes "contents_ok H f d z" "holds f b n"
  shows "view f d n = bdata (f b)"
proof -
  have u: "holds f b' n \<Longrightarrow> b' = b" for b' using assms by (auto simp: contents_ok_def)
  have "find (\<lambda>b. holds f b n) [0..<NBUF] = Some b"
  proof (cases "find (\<lambda>b. holds f b n) [0..<NBUF]")
    case None
    then show ?thesis using assms(2) by (auto simp: find_None_iff holds_def)
  next
    case (Some b')
    then show ?thesis using u by (auto simp: find_Some_iff)
  qed
  then show ?thesis by (simp add: view_def)
qed

lemma view_none: "(\<And>b. \<not> holds f b n) \<Longrightarrow> view f d n = d n"
proof -
  assume "\<And>b. \<not> holds f b n"
  then have "find (\<lambda>b. holds f b n) [0..<NBUF] = None" by (simp add: find_None_iff)
  then show ?thesis by (simp add: view_def)
qed

definition bio_inv :: "nat \<Rightarrow> nat \<Rightarrow> nat set \<Rightarrow> 'a kbio_scheme \<Rightarrow> bool" where
  "bio_inv c i H s \<longleftrightarrow> bio_idle c i s \<and> (\<exists>xs. ring s xs) \<and> H \<subseteq> {..<NBUF} \<and>
     (\<forall>b < NBUF. slocked (slocks s (BufSl b)) = (b \<in> H) \<and> refcnt (bufat s b) = (if b \<in> H then 1 else 0)) \<and>
     (\<forall>b \<in> H. owned i b s) \<and> contents_ok H (bc s) (disk s) (disksize s)"

lemma bio_invD:
  assumes "bio_inv c i H s"
  shows "bio_idle c i s" "H \<subseteq> {..<NBUF}" "contents_ok H (bc s) (disk s) (disksize s)"
    "length (bcache s) = NBUF + 1" "b < NBUF \<Longrightarrow> slocked (slocks s (BufSl b)) = (b \<in> H)"
    "b < NBUF \<Longrightarrow> refcnt (bufat s b) = (if b \<in> H then 1 else 0)" "b \<in> H \<Longrightarrow> owned i b s"
    "b \<in> H \<Longrightarrow> b < NBUF"
  using assms by (auto simp: bio_inv_def ring_def)

lemma contents_load:
  assumes "contents_ok H f d z" "\<And>b. \<not> holds f b n" "b < NBUF" "b \<notin> H" "\<not> is_dirty (f b)" "n < of_int z"
    and x: "bdev x = 1" "blockno x = n" "is_valid x" "\<not> is_dirty x" "bdata x = d n"
  shows "contents_ok (insert b H) (f(b := x)) d z" "view (f(b := x)) d = view f d"
    "dirty_blocks (f(b := x)) = dirty_blocks f"
proof -
  have h: "holds (f(b := x)) b' m \<longleftrightarrow> (if b' = b then m = n else holds f b' m)" for b' m
    using assms(3) x by (auto simp: holds_def)
  show ok: "contents_ok (insert b H) (f(b := x)) d z"
    using assms unfolding contents_ok_def h by auto
  show "view (f(b := x)) d = view f d"
  proof
    fix m
    consider "m = n" | b' where "b' \<noteq> b" "holds f b' m" | "m \<noteq> n" "holds f b m" | "m \<noteq> n" "\<forall>b'. \<not> holds f b' m"
      by metis
    then show "view (f(b := x)) d m = view f d m"
    proof cases
      case 1
      then have "holds (f(b := x)) b m" by (simp add: h)
      from view_held[OF ok this] view_none[of f m d] assms(2) x(5) 1 show ?thesis by simp
    next
      case 2
      then have "holds (f(b := x)) b' m" by (simp add: h)
      from view_held[OF ok this] view_held[OF assms(1) 2(2)] 2(1) show ?thesis by simp
    next
      case 3
      then have "\<not> holds (f(b := x)) b' m" for b' using assms(1) by (auto simp: h contents_ok_def)
      moreover have "bdata (f b) = d m" using 3 assms(1,4,5) by (auto simp: contents_ok_def holds_def)
      ultimately show ?thesis using view_held[OF assms(1) 3(2)] by (simp add: view_none)
    next
      case 4
      then have "\<not> holds (f(b := x)) b' m" for b' by (simp add: h)
      with 4 show ?thesis by (simp add: view_none)
    qed
  qed
  show "dirty_blocks (f(b := x)) = dirty_blocks f"
    unfolding dirty_blocks_def h using assms(5) x(4) by (auto split: if_splits)
qed

lemma contents_lock: "contents_ok H f d z \<Longrightarrow> holds f b n \<Longrightarrow> contents_ok (insert b H) f d z"
  by (auto simp: contents_ok_def holds_def)

lemma buf_set:
  assumes "bcache t = (bcache s)[b := k]" "b < length (bcache s)"
  shows "bufat t a = (if a = b then k else bufat s a)" "bc t = (bc s)(b := k\<lparr>refcnt := 0, bprev := 0, bnext := 0\<rparr>)"
  using assms by (auto simp: bufat_def bc_def nth_list_update)

lemma ring_set:
  assumes "ring s xs" "bcache t = (bcache s)[b := k]" "b < length (bcache s)" "bnext k = bnext (bufat s b)" "bprev k = bprev (bufat s b)"
  shows "ring t xs"
proof -
  have "nxt t = nxt s" "prv t = prv s" using assms(4,5) by (auto simp: nxt_def prv_def buf_set(1)[OF assms(2,3)])
  then show ?thesis using assms(1,2) by (simp add: ring_def)
qed

text \<open>Taking a further buffer into the hands of the running process.\<close>

lemma bio_inv_take:
  assumes "bio_inv c i H s" "bio_frame s t" "b < NBUF" "b \<notin> H" "bcache t = (bcache s)[b := k]"
    and "slocks t = (slocks s)(BufSl b := slock_taken (pid (ptable s ! i)) (slocks s (BufSl b)))"
    and "refcnt k = 1" "bnext k = bnext (bufat s b)" "bprev k = bprev (bufat s b)"
    and "contents_ok (insert b H) (bc t) (disk t) (disksize t)"
  shows "bio_inv c i (insert b H) t"
proof -
  note D = bio_invD[OF assms(1)]
  have l: "b < length (bcache s)" using D(4) assms(3) by simp
  note P = bio_idle_frame[OF assms(2) D(1)]
  obtain xs where "ring s xs" using assms(1) by (auto simp: bio_inv_def)
  then have "ring t xs" by (rule ring_set[OF _ assms(5) l assms(8,9)])
  moreover have "\<forall>b' \<in> insert b H. owned i b' t"
    using D(7) assms(6) P(2) by (auto simp: owned_def slock_taken_def)
  moreover have "\<forall>b' < NBUF. slocked (slocks t (BufSl b')) = (b' \<in> insert b H) \<and>
      refcnt (bufat t b') = (if b' \<in> insert b H then 1 else 0)"
    using D(5,6) assms(6,7) by (auto simp: buf_set(1)[OF assms(5) l] slock_taken_def)
  ultimately show ?thesis using P(1) D(2) assms(3,10) unfolding bio_inv_def by auto
qed

definition bread_result :: "nat \<Rightarrow> nat \<Rightarrow> nat set \<Rightarrow> u32 \<Rightarrow> 'a kbio_scheme \<Rightarrow> nat \<Rightarrow> 'a kbio_scheme \<Rightarrow> bool" where
  "bread_result c i H n s b t \<longleftrightarrow> b \<notin> H \<and> bio_inv c i (insert b H) t \<and> bio_frame s t \<and> disk t = disk s \<and> diskw t = diskw s \<and>
     holds (bc t) b n \<and> bdata (bufat t b) = view (bc s) (disk s) n \<and>
     (is_dirty (bufat t b) \<or> bdata (bufat t b) = disk t n) \<and> (\<forall>a. a \<noteq> b \<longrightarrow> bc t a = bc s a) \<and>
     view (bc t) (disk t) = view (bc s) (disk s) \<and> dirty_blocks (bc t) = dirty_blocks (bc s)"

lemma bread_hit:
  assumes inv: "bio_inv c i H s" and h: "holds (bc s) b n" and bH: "b \<notin> H"
  shows "\<exists>t. bread E 1 n s = Inr (b, t) \<and> bread_result c i H n s b t"
proof -
  note D = bio_invD[OF inv]
  have b: "b < NBUF" "b < length (bcache s)" "bdev (bufat s b) = 1" "blockno (bufat s b) = n"
    using h D(4) by (simp_all add: holds_def)
  have uniq: "matches 1 n (bufat s a) \<Longrightarrow> a < NBUF \<Longrightarrow> a = b" for a
    using h D(3) by (auto simp: contents_ok_def holds_def matches_def)
  obtain xs where xs: "ring s xs" using inv by (auto simp: bio_inv_def)
  have "find (\<lambda>a. matches 1 n (bufat s a)) xs = Some b"
  proof (cases "find (\<lambda>a. matches 1 n (bufat s a)) xs")
    case None
    then show ?thesis using b ringD(2)[OF xs] by (auto simp: find_None_iff matches_def)
  next
    case (Some a)
    then have "a \<in> set xs" "matches 1 n (bufat s a)" by (auto simp: find_Some_iff)
    then show ?thesis using Some uniq ringD(2)[OF xs] by auto
  qed
  then have pick: "bget_pick s xs 1 n = Some (b, (bufat s b)\<lparr>refcnt := refcnt (bufat s b) + 1\<rparr>)" by (simp add: bget_pick_def)
  have ns: "\<not> slocked (slocks s (BufSl b))" using D(5)[OF b(1)] bH by simp
  obtain t where t: "bget E 1 n s = Inr (b, t)" "bio_frame s t" "bcache t = (bcache s)[b := (bufat s b)\<lparr>refcnt := refcnt (bufat s b) + 1\<rparr>]"
    "disk t = disk s" "diskw t = diskw s" "slocks t = (slocks s)(BufSl b := slock_taken (pid (ptable s ! i)) (slocks s (BufSl b)))"
    by (rule bget_ok[OF D(1) xs pick ns])
  note B = buf_set[OF t(3) b(2)]
  have bc: "bc t = bc s" by (simp add: B(2)) (simp add: bc_def fun_eq_iff)
  have "is_valid (bufat t b)" using h D(3) by (simp flip: bc_simps(6) add: bc) (auto simp: contents_ok_def holds_def)
  then have r: "bread E 1 n s = Inr (b, t)" by (simp add: bread_def t(1) is_valid_def)
  have ok: "contents_ok (insert b H) (bc t) (disk t) (disksize t)"
    using contents_lock[OF D(3) h] t(2,4) by (simp add: bc bio_frame_def)
  have "bio_inv c i (insert b H) t"
    using D(6)[OF b(1)] bH by (intro bio_inv_take[OF inv t(2) b(1) bH t(3,6) _ _ _ ok]) simp_all
  moreover have "bdata (bufat t b) = view (bc s) (disk s) n"
    using view_held[OF D(3) h] bc_simps(4)[of t b] bc_simps(4)[of s b] bc by simp
  moreover have "is_dirty (bc t b) \<or> bdata (bc t b) = disk t n"
    using D(3) bH h t(4) unfolding bc by (auto simp: contents_ok_def holds_def simp del: bc_simps)
  then have "is_dirty (bufat t b) \<or> bdata (bufat t b) = disk t n" by (simp only: bc_simps)
  ultimately show ?thesis using r bH t h by (intro exI[of _ t]) (simp add: bread_result_def bc)
qed

lemma bread_miss:
  assumes inv: "bio_inv c i H s" and "drv E = iderw" and no: "\<And>b. \<not> holds (bc s) b n" and n: "n < of_int (disksize s)"
    and room: "\<exists>b < NBUF. b \<notin> H \<and> \<not> is_dirty (bufat s b)"
  shows "\<exists>b t. bread E 1 n s = Inr (b, t) \<and> bread_result c i H n s b t"
proof -
  note D = bio_invD[OF inv]
  obtain xs where xs: "ring s xs" using inv by (auto simp: bio_inv_def)
  note X = ringD(2)[OF xs]
  have m: "find (\<lambda>b. matches 1 n (bufat s b)) xs = None"
    using no X by (auto simp: find_None_iff matches_def holds_def)
  have "find (\<lambda>b. unused (bufat s b)) (rev xs) \<noteq> None"
    using room D(6) X by (auto simp: find_None_iff unused_def)
  then obtain b where f: "find (\<lambda>b. unused (bufat s b)) (rev xs) = Some b" by blast
  then have b: "b < NBUF" "unused (bufat s b)" using X find_in[OF f] by auto
  have bH: "b \<notin> H" and nd: "\<not> is_dirty (bufat s b)" using b D(6)[OF b(1)] by (auto simp: unused_def split: if_splits)
  have l: "b < length (bcache s)" using D(4) b(1) by simp
  let ?k = "(bufat s b)\<lparr>bdev := 1, blockno := n, bflags := 0, refcnt := 1\<rparr>"
  have pick: "bget_pick s xs 1 n = Some (b, ?k)" by (simp add: bget_pick_def m f)
  have ns: "\<not> slocked (slocks s (BufSl b))" using D(5)[OF b(1)] bH by simp
  obtain t where t: "bget E 1 n s = Inr (b, t)" "bio_frame s t" "bcache t = (bcache s)[b := ?k]"
    "disk t = disk s" "diskw t = diskw s" "slocks t = (slocks s)(BufSl b := slock_taken (pid (ptable s ! i)) (slocks s (BufSl b)))"
    by (rule bget_ok[OF D(1) xs pick ns])
  note P = bio_idle_frame[OF t(2) D(1)]
  have lt: "b < length (bcache t)" using t(3) l by simp
  have bt: "bufat t b = ?k" using buf_set(1)[OF t(3) l] by simp
  have ow: "owned i b t" using t(6) P(2) by (simp add: owned_def slock_taken_def)
  have g: "bflags (bufat t b) = 0" "bdev (bufat t b) = 1" "blockno (bufat t b) < of_int (disksize t)"
    using n t(2) by (simp_all add: bt bio_frame_def)
  let ?x = "(bufat s b)\<lparr>bdev := 1, blockno := n, refcnt := 1, bdata := disk s n, bflags := B_VALID\<rparr>"
  obtain u where u: "iderw b t = Inr u" "bio_frame t u" "slocks u = slocks t" "disk u = disk t" "diskw u = diskw t"
    "bcache u = (bcache t)[b := (bufat t b)\<lparr>bdata := disk t (blockno (bufat t b)), bflags := B_VALID\<rparr>]"
    by (rule iderw_read[OF P(1) ow lt g])
  have bu: "bcache u = (bcache s)[b := ?x]" using u(6) t(3,4) by (simp add: bt)
  note B = buf_set[OF bu l]
  have fr: "bio_frame s u" using t(2) u(2) by (rule bio_frame_trans)
  have r: "bread E 1 n s = Inr (b, u)" using assms(2) g(1) u(1) by (simp add: bread_def t(1))
  have xf: "is_valid ?x" "\<not> is_dirty ?x" by (simp_all add: flag_bits)
  let ?y = "?x\<lparr>refcnt := 0, bprev := 0, bnext := 0\<rparr>"
  have "is_valid ?y" "\<not> is_dirty ?y" using xf by (simp_all add: is_valid_def is_dirty_def)
  with contents_load[OF D(3) no b(1) bH _ n, of ?y] nd have C: "contents_ok (insert b H) (bc u) (disk s) (disksize s)"
     "view (bc u) (disk s) = view (bc s) (disk s)" "dirty_blocks (bc u) = dirty_blocks (bc s)"
    unfolding B(2) by simp_all
  have e: "disk u = disk s" "diskw u = diskw s" "disksize u = disksize s"
    using t(4,5) u(4,5) fr by (simp_all add: bio_frame_def)
  have "bio_inv c i (insert b H) u"
    using t(6) u(3) C(1) by (intro bio_inv_take[OF inv fr b(1) bH bu]) (simp_all add: e)
  then show ?thesis
    using r bH fr C(2,3) e b(1) no
    by (intro exI[of _ b] exI[of _ u]) (simp add: bread_result_def B holds_def view_none)
qed

lemma bread_ok:
  assumes "bio_inv c i H s" "drv E = iderw" "n < of_int (disksize s)" "\<forall>b \<in> H. blockno (bufat s b) \<noteq> n"
    and "(\<exists>b. holds (bc s) b n) \<or> (\<exists>b < NBUF. b \<notin> H \<and> \<not> is_dirty (bufat s b))"
  obtains b t where "bread E 1 n s = Inr (b, t)" "bread_result c i H n s b t"
proof (cases "\<exists>b. holds (bc s) b n")
  case True
  then obtain b where b: "holds (bc s) b n" by blast
  then have "b \<notin> H" using assms(4) by (auto simp: holds_def)
  from bread_hit[OF assms(1) b this, of E] that show thesis by blast
next
  case False
  from bread_miss[OF assms(1,2) _ assms(3)] False assms(5) that show thesis by blast
qed

section \<open>Changing, writing and releasing a buffer\<close>

lemma contents_set:
  assumes "contents_ok H f d z" "b \<in> H" "holds f b n"
    and x: "bdev x = 1" "blockno x = n" "is_valid x"
  shows "contents_ok H (f(b := x)) d z" "view (f(b := x)) d = (view f d)(n := bdata x)"
    "\<not> is_dirty x \<Longrightarrow> contents_ok H (f(b := x)) (d(n := bdata x)) z"
    "\<not> is_dirty x \<Longrightarrow> view (f(b := x)) (d(n := bdata x)) = (view f d)(n := bdata x)"
    "dirty_blocks (f(b := x)) = (if is_dirty x then insert n (dirty_blocks f) else dirty_blocks f - {n})"
proof -
  have h: "holds (f(b := x)) b' m \<longleftrightarrow> holds f b' m" for b' m using assms(3) x by (auto simp: holds_def)
  have u: "holds f b' n \<Longrightarrow> b' = b" for b' using assms(1,3) by (auto simp: contents_ok_def)
  have z: "n < of_int z" using assms(1,3) by (auto simp: contents_ok_def holds_def)
  show ok: "contents_ok H (f(b := x)) d z" using assms z unfolding contents_ok_def h by auto
  show ok2: "contents_ok H (f(b := x)) (d(n := bdata x)) z" if "\<not> is_dirty x"
    unfolding contents_ok_def h
  proof (intro conjI allI impI)
    fix b' assume b': "b' < NBUF" "bdev ((f(b := x)) b') = 1" "\<not> is_dirty ((f(b := x)) b') \<and> b' \<notin> H"
    then have "b' \<noteq> b" using assms(2) by auto
    then have "blockno (f b') \<noteq> n" using u[of b'] b' by (auto simp: holds_def)
    then show "bdata ((f(b := x)) b') = (d(n := bdata x)) (blockno ((f(b := x)) b'))"
      using b' \<open>b' \<noteq> b\<close> assms(1) by (auto simp: contents_ok_def)
  qed (use ok in \<open>auto simp: contents_ok_def h\<close>)
  have hb: "holds (f(b := x)) b n" using assms(3) by (simp add: h)
  have v: "view (f(b := x)) e m = ((view f d)(n := bdata x)) m"
    if o: "contents_ok H (f(b := x)) e z" and e: "\<And>m. m \<noteq> n \<Longrightarrow> e m = d m" for e m
  proof (cases "\<exists>b'. holds f b' m")
    case True
    then obtain b' where b': "holds f b' m" by blast
    then have "holds (f(b := x)) b' m" by (simp add: h)
    from view_held[OF o this] view_held[OF assms(1) b'] b' u[of b'] assms(3) show ?thesis
      by (cases "b' = b") (auto simp: holds_def)
  next
    case False
    then have "m \<noteq> n" using assms(3) by blast
    moreover have "view (f(b := x)) e m = e m" "view f d m = d m" using False by (auto intro!: view_none simp: h)
    ultimately show ?thesis using e by simp
  qed
  show "view (f(b := x)) d = (view f d)(n := bdata x)" using v[OF ok] by auto
  show "view (f(b := x)) (d(n := bdata x)) = (view f d)(n := bdata x)" if "\<not> is_dirty x"
    using v[OF ok2[OF that]] by auto
  show "dirty_blocks (f(b := x)) = (if is_dirty x then insert n (dirty_blocks f) else dirty_blocks f - {n})"
  proof (rule set_eqI)
    fix m
    have e: "m \<in> dirty_blocks (f(b := x)) \<longleftrightarrow> (\<exists>b'. holds f b' m \<and> is_dirty (if b' = b then x else f b'))"
      by (simp add: dirty_blocks_def h)
    show "m \<in> dirty_blocks (f(b := x)) \<longleftrightarrow> m \<in> (if is_dirty x then insert n (dirty_blocks f) else dirty_blocks f - {n})"
    proof (cases "m = n")
      case True
      have "(\<exists>b'. holds f b' n \<and> is_dirty (if b' = b then x else f b')) \<longleftrightarrow> is_dirty x"
        using u assms(3) by metis
      with True e show ?thesis by simp
    next
      case False
      have "\<not> holds f b m" using False assms(3) by (simp add: holds_def)
      then have "(\<exists>b'. holds f b' m \<and> is_dirty (if b' = b then x else f b')) \<longleftrightarrow> m \<in> dirty_blocks f"
        unfolding dirty_blocks_def by auto
      with False e show ?thesis by simp
    qed
  qed
qed

text \<open>A change of the contents or the flags of a locked buffer, and of its block on the disk.\<close>

lemma bio_inv_set:
  assumes "bio_inv c i H s" "bio_frame s t" "b \<in> H" "bcache t = (bcache s)[b := k]" "slocks t = slocks s"
    and "refcnt k = refcnt (bufat s b)" "bnext k = bnext (bufat s b)" "bprev k = bprev (bufat s b)"
    and "contents_ok H (bc t) (disk t) (disksize t)"
  shows "bio_inv c i H t"
proof -
  note D = bio_invD[OF assms(1)]
  have l: "b < length (bcache s)" using D(4) D(8)[OF assms(3)] by simp
  note P = bio_idle_frame[OF assms(2) D(1)]
  obtain xs where "ring s xs" using assms(1) by (auto simp: bio_inv_def)
  then have "ring t xs" by (rule ring_set[OF _ assms(4) l assms(7,8)])
  moreover have "\<forall>b' \<in> H. owned i b' t" using D(7) assms(5) P(2) by (auto simp: owned_def)
  moreover have "\<forall>b' < NBUF. slocked (slocks t (BufSl b')) = (b' \<in> H) \<and> refcnt (bufat t b') = (if b' \<in> H then 1 else 0)"
    using D(5,6) assms(5,6) by (auto simp: buf_set(1)[OF assms(4) l])
  ultimately show ?thesis using P(1) D(2) assms(9) unfolding bio_inv_def by auto
qed

lemma buf_modify:
  assumes "bio_inv c i H s" "b \<in> H" "holds (bc s) b n"
    and t_def: "t = buf_upd b (\<lambda>x. x\<lparr>bdata := d\<rparr>) s"
  shows "bio_inv c i H t" "bio_frame s t" "disk t = disk s" "diskw t = diskw s" "holds (bc t) b n" "bdata (bufat t b) = d"
    "\<And>a. a \<noteq> b \<Longrightarrow> bc t a = bc s a" "is_dirty (bufat t b) = is_dirty (bufat s b)"
    "view (bc t) (disk t) = (view (bc s) (disk s))(n := d)" "dirty_blocks (bc t) = dirty_blocks (bc s)"
proof -
  note D = bio_invD[OF assms(1)]
  have l: "b < length (bcache s)" using D(4) D(8)[OF assms(2)] by simp
  have bt: "bcache t = (bcache s)[b := (bufat s b)\<lparr>bdata := d\<rparr>]" by (simp add: t_def bufat_def)
  note B = buf_set[OF bt l]
  let ?y = "(bufat s b)\<lparr>bdata := d, refcnt := 0, bprev := 0, bnext := 0\<rparr>"
  have bct: "bc t = (bc s)(b := ?y)" using B(2) by simp
  have y: "bdev ?y = 1" "blockno ?y = n" "is_valid ?y" "bdata ?y = d" "is_dirty ?y = is_dirty (bufat s b)"
    using assms(3) D(3) by (auto simp: holds_def contents_ok_def is_valid_def is_dirty_def)
  note C = contents_set[OF D(3) assms(2,3) y(1-3)]
  have sl: "slocks t = slocks s" "disksize t = disksize s" by (simp_all add: t_def)
  show f: "bio_frame s t" "disk t = disk s" "diskw t = diskw s" by (simp_all add: t_def bio_frame_def)
  show "bio_inv c i H t"
    using C(1) by (intro bio_inv_set[OF assms(1) f(1) assms(2) bt sl(1)]) (simp_all add: bct f sl)
  show "holds (bc t) b n" using assms(3) y by (simp add: holds_def bct)
  show "bdata (bufat t b) = d" "is_dirty (bufat t b) = is_dirty (bufat s b)" by (simp_all add: B(1) is_dirty_def)
  show "bc t a = bc s a" if "a \<noteq> b" for a using that by (simp add: bct)
  show "view (bc t) (disk t) = (view (bc s) (disk s))(n := d)" using C(2) y(4) f by (simp add: bct)
  have "is_dirty (bufat s b) \<longleftrightarrow> n \<in> dirty_blocks (bc s)"
    using assms(3) D(3) by (auto simp: dirty_blocks_def contents_ok_def)
  then show "dirty_blocks (bc t) = dirty_blocks (bc s)" using C(5) y(5) by (auto simp: bct)
qed

lemma bwrite_ok:
  assumes "bio_inv c i H s" "drv E = iderw" "b \<in> H" "holds (bc s) b n"
  obtains t where "bwrite E b s = Inr t" "bio_inv c i H t" "bio_frame s t" "disk t = (disk s)(n := bdata (bufat s b))"
    "diskw t = diskw s @ [(n, bdata (bufat s b))]" "holds (bc t) b n" "bdata (bufat t b) = bdata (bufat s b)"
    "\<not> is_dirty (bufat t b)" "\<forall>a. a \<noteq> b \<longrightarrow> bc t a = bc s a"
    "view (bc t) (disk t) = view (bc s) (disk s)" "dirty_blocks (bc t) = dirty_blocks (bc s) - {n}"
proof -
  note D = bio_invD[OF assms(1)]
  have l: "b < length (bcache s)" using D(4) D(8)[OF assms(3)] by simp
  have g: "bdev (bufat s b) = 1" "blockno (bufat s b) = n" "n < of_int (disksize s)"
    using assms(4) D(3) by (auto simp: holds_def contents_ok_def)
  obtain u where u: "holdingsleep (BufSl b) s = Inr (slocked (slocks s (BufSl b)) \<and> slpid (slocks s (BufSl b)) = pid (ptable s ! i), u)"
    "bio_frame s u" "bcache u = bcache s" "disk u = disk s" "diskw u = diskw s" "slocks u = slocks s"
    by (rule holdingsleep_ok[OF D(1)])
  let ?v = "buf_upd b (\<lambda>x. x\<lparr>bflags := bflags x OR B_DIRTY\<rparr>) u"
  have fv: "bio_frame s ?v" using u(2) by (simp add: bio_frame_def)
  have bv: "bcache ?v = (bcache s)[b := (bufat s b)\<lparr>bflags := bflags (bufat s b) OR B_DIRTY\<rparr>]"
    using u(3) by (simp add: bufat_def)
  note V = buf_set(1)[OF bv l]
  note P = bio_idle_frame[OF fv D(1)]
  have ow: "owned i b ?v" using D(7)[OF assms(3)] P(2) u(6) by (simp add: owned_def)
  have h: "is_dirty (bufat ?v b)" "bdev (bufat ?v b) = 1" "blockno (bufat ?v b) < of_int (disksize ?v)" "b < length (bcache ?v)"
    using g l fv u(3) by (simp_all add: V flag_bits bit_simps bio_frame_def)
  obtain t where t: "iderw b ?v = Inr t" "bio_frame ?v t" "slocks t = slocks ?v"
    "disk t = (disk ?v)(blockno (bufat ?v b) := bdata (bufat ?v b))" "diskw t = diskw ?v @ [(blockno (bufat ?v b), bdata (bufat ?v b))]"
    "bcache t = (bcache ?v)[b := (bufat ?v b)\<lparr>bflags := (bflags (bufat ?v b) AND NOT B_DIRTY) OR B_VALID\<rparr>]"
    by (rule iderw_write[OF P(1) ow h(4,1-3)])
  let ?k = "(bufat s b)\<lparr>bflags := ((bflags (bufat s b) OR B_DIRTY) AND NOT B_DIRTY) OR B_VALID\<rparr>"
  have bt: "bcache t = (bcache s)[b := ?k]" using t(6) u(3) by (simp add: V)
  note B = buf_set[OF bt l]
  have ft: "bio_frame s t" using fv t(2) by (rule bio_frame_trans)
  let ?y = "?k\<lparr>refcnt := 0, bprev := 0, bnext := 0\<rparr>"
  have y: "bdev ?y = 1" "blockno ?y = n" "is_valid ?y" "\<not> is_dirty ?y" "bdata ?y = bdata (bufat s b)" "\<not> is_dirty ?k"
    using g by (simp_all add: flag_bits bit_simps)
  note C = contents_set[OF D(3) assms(3,4) y(1-3)]
  have dt: "disk t = (disk s)(n := bdata (bufat s b))" "diskw t = diskw s @ [(n, bdata (bufat s b))]" "disksize t = disksize s"
    using t(4,5) u(4,5) g ft by (simp_all add: V bio_frame_def)
  show thesis
  proof (rule that[of t])
    show "bwrite E b s = Inr t"
      using D(7)[OF assms(3)] assms(2) t(1) by (simp add: bwrite_def u(1) owned_def)
    show "bio_inv c i H t"
      using C(3)[OF y(4)] y(5) t(3) u(6) by (intro bio_inv_set[OF assms(1) ft assms(3) bt]) (simp_all add: dt B(2))
    show "holds (bc t) b n" using assms(4) by (simp add: holds_def B(1))
    have "view (bc s) (disk s) n = bdata (bufat s b)" using view_held[OF D(3) assms(4)] by simp
    then show "view (bc t) (disk t) = view (bc s) (disk s)"
      using C(4)[OF y(4)] y(5) by (simp add: dt B(2) fun_upd_idem)
    show "dirty_blocks (bc t) = dirty_blocks (bc s) - {n}" using C(5) y(4) by (simp add: B(2))
  qed (use ft dt y in \<open>simp_all add: B\<close>)
qed

definition nolinks :: "buf \<Rightarrow> buf" where
  "nolinks k = k\<lparr>bprev := 0, bnext := 0\<rparr>"

lemma bc_nolinks: "bc s b = (nolinks (bufat s b))\<lparr>refcnt := 0\<rparr>"
  by (cases "bufat s b") (simp add: bc_def nolinks_def)

lemma nolinks_refcnt: "refcnt (nolinks k) = refcnt k" "(nolinks (k\<lparr>refcnt := x\<rparr>))\<lparr>refcnt := 0\<rparr> = (nolinks k)\<lparr>refcnt := 0\<rparr>"
  by (cases k; simp add: nolinks_def)+

lemma nolinks_upd:
  assumes "\<And>x. nolinks (f x) = nolinks x"
  shows "map nolinks (bcache (buf_upd j f s)) = map nolinks (bcache s)"
  using assms by (cases "j < length (bcache s)") (auto simp: map_update intro!: nth_equalityI simp: nth_list_update)

lemma nolinks_links [simp]: "nolinks (x\<lparr>bprev := v\<rparr>) = nolinks x" "nolinks (x\<lparr>bnext := v\<rparr>) = nolinks x"
  by (cases x; simp add: nolinks_def)+

lemma bmove_frame:
  "map nolinks (bcache (bmove b s)) = map nolinks (bcache s)" "core (bmove b s) = core s" "ptable (bmove b s) = ptable s"
  "slocks (bmove b s) = slocks s" "mem (bmove b s) = mem s" "disk (bmove b s) = disk s" "diskw (bmove b s) = diskw s"
  "disksize (bmove b s) = disksize s" "kbio.more (bmove b s) = kbio.more s"
  unfolding bmove_def Let_def by (simp_all only: nolinks_upd nolinks_links) (simp_all only: buf_upd_simps)

lemma bmove_bufat: "length (bcache s) = NBUF + 1 \<Longrightarrow> a \<le> NBUF \<Longrightarrow> nolinks (bufat (bmove b s) a) = nolinks (bufat s a)"
proof -
  assume l: "length (bcache s) = NBUF + 1" "a \<le> NBUF"
  have "length (bcache (bmove b s)) = length (bcache s)" using bmove_frame(1)[of b s] by (metis length_map)
  moreover have "map nolinks (bcache (bmove b s)) ! a = map nolinks (bcache s) ! a" by (simp only: bmove_frame(1))
  ultimately show ?thesis using l by (simp add: bufat_def)
qed

lemma brelse_ok:
  assumes "bio_inv c i H s" "b \<in> H" "is_dirty (bufat s b) \<or> bdata (bufat s b) = disk s (blockno (bufat s b))"
  obtains t where "brelse b s = Inr t" "bio_inv c i (H - {b}) t" "bio_frame s t" "disk t = disk s" "diskw t = diskw s"
    "\<forall>a < NBUF. bc t a = bc s a"
proof -
  note D = bio_invD[OF assms(1)]
  note bN = D(8)[OF assms(2)]
  have l: "b < length (bcache s)" using D(4) bN by simp
  obtain u where u: "holdingsleep (BufSl b) s = Inr (slocked (slocks s (BufSl b)) \<and> slpid (slocks s (BufSl b)) = pid (ptable s ! i), u)"
    "bio_frame s u" "bcache u = bcache s" "disk u = disk s" "diskw u = diskw s" "slocks u = slocks s"
    by (rule holdingsleep_ok[OF D(1)])
  note U = bio_idle_frame[OF u(2) D(1)]
  have ow: "slocked (slocks u (BufSl b))" "slpid (slocks u (BufSl b)) = pid (ptable u ! i)"
    using D(7)[OF assms(2)] U(2) u(6) by (simp_all add: owned_def)
  obtain v where v: "releasesleep (BufSl b) u = Inr v" "bio_frame u v" "bcache v = bcache u" "disk v = disk u" "diskw v = diskw u"
    "slocks v = (slocks u)(BufSl b := (slocks u (BufSl b))\<lparr>slocked := False, slpid := 0\<rparr>)"
    by (rule bio_releasesleep[OF U(1) ow])
  note V = bio_idle_frame[OF v(2) U(1)]
  note A = bcache_acquire[OF V(1)]
  let ?a = "acquired BcacheLock c v"
  let ?w = "buf_upd b (\<lambda>x. x\<lparr>refcnt := refcnt x - 1\<rparr>) ?a"
  have bw: "bcache ?w = (bcache s)[b := (bufat s b)\<lparr>refcnt := 0\<rparr>]"
    using D(6)[OF bN] assms(2) u(3) v(3) by (simp add: bufat_def)
  note W = buf_set(1)[OF bw l]
  obtain xs where xs: "ring s xs" using assms(1) by (auto simp: bio_inv_def)
  then have rw: "ring ?w xs" by (rule ring_set[OF _ bw l]) simp_all
  obtain ys zs where yz: "xs = ys @ b # zs" using ringD(2)[OF xs] bN by (metis lessThan_iff split_list)
  let ?m = "bmove b ?w"
  have rm: "ring ?m (b # ys @ zs)" using bmove_ring rw yz by blast
  have cm: "core ?m = take_lock BcacheLock c (core v)" using A(2) by (simp add: bmove_frame)
  note R = bcache_release[OF V(1) cm]
  let ?t = "released BcacheLock c ?m"
  have fr: "bio_frame s ?t"
    using R(2) u(2) v(2) by (simp add: bio_frame_def bmove_frame)
  have nl: "nolinks (bufat ?t a) = nolinks (if a = b then (bufat s b)\<lparr>refcnt := 0\<rparr> else bufat s a)" if "a < NBUF" for a
  proof -
    have "length (bcache ?w) = NBUF + 1" unfolding bw using D(4) by simp
    moreover have "bufat ?t a = bufat ?m a" by (simp add: bufat_def)
    ultimately show ?thesis using bmove_bufat[of ?w a b] that W[of a] by simp
  qed
  have same: "refcnt (bufat ?t a) = (if a = b then 0 else refcnt (bufat s a))" "bc ?t a = bc s a" if "a < NBUF" for a
    using arg_cong[OF nl[OF that], of refcnt] arg_cong[OF nl[OF that], of "\<lambda>k. k\<lparr>refcnt := 0\<rparr>"]
    by (auto simp: bc_nolinks nolinks_refcnt)
  have e: "disk ?t = disk s" "diskw ?t = diskw s" "disksize ?t = disksize s"
    using u(4,5) v(4,5) fr by (simp_all add: bmove_frame bio_frame_def)
  show thesis
  proof (rule that[of ?t])
    have rc: "refcnt (bufat ?w b) = 0" by (simp add: W)
    show "brelse b s = Inr ?t"
      using D(7)[OF assms(2)] v(1) A(1) R(1) rc unfolding owned_def brelse_def u(1)
      by (simp add: Let_def)
    have "holds (bc ?t) a n \<longleftrightarrow> holds (bc s) a n" for a n using same(2)[of a] by (auto simp: holds_def simp del: bc_simps)
    moreover have "is_dirty (bc s b) \<or> bdata (bc s b) = disk s (blockno (bc s b))" using assms(3) by simp
    ultimately have "contents_ok (H - {b}) (bc ?t) (disk ?t) (disksize ?t)"
      using D(3) same(2) unfolding contents_ok_def e by (auto simp del: bc_simps)
    moreover have "\<forall>a < NBUF. slocked (slocks ?t (BufSl a)) = (a \<in> H - {b}) \<and> refcnt (bufat ?t a) = (if a \<in> H - {b} then 1 else 0)"
      using D(5,6) same(1) u(6) v(6) by (auto simp: bmove_frame)
    moreover have "\<forall>a \<in> H - {b}. owned i a ?t"
      using D(7) u(6) v(6) bio_idle_frame(2)[OF fr D(1)] by (auto simp: owned_def bmove_frame)
    moreover have "ring ?t (b # ys @ zs)" using rm by (simp add: ring_same[of ?t ?m])
    ultimately show "bio_inv c i (H - {b}) ?t"
      using bio_idle_frame(1)[OF fr D(1)] D(2) unfolding bio_inv_def by blast
  qed (use fr e same(2) in auto)
qed

lemma same_contents:
  assumes "\<And>a. a < NBUF \<Longrightarrow> f a = g a"
  shows "view f d = view g d" "dirty_blocks f = dirty_blocks g" "holds f b n = holds g b n"
proof -
  show h: "holds f b n = holds g b n" for b n using assms by (auto simp: holds_def)
  have "b < NBUF \<Longrightarrow> f b = g b" for b by fact
  then show "dirty_blocks f = dirty_blocks g" unfolding dirty_blocks_def h by (auto simp: holds_def)
  show "view f d = view g d"
  proof
    fix n
    show "view f d n = view g d n"
      unfolding view_def h using assms by (auto split: option.splits dest!: find_in)
  qed
qed

text \<open>Fewer dirty blocks and locked buffers than buffers: one can be recycled.\<close>

lemma room_left:
  assumes "contents_ok H f d z" "finite H" "card (dirty_blocks f) + card H < NBUF"
  shows "\<exists>b < NBUF. b \<notin> H \<and> \<not> is_dirty (f b)"
proof (rule ccontr)
  assume no: "\<not> (\<exists>b < NBUF. b \<notin> H \<and> \<not> is_dirty (f b))"
  let ?D = "{b. b < NBUF \<and> is_dirty (f b)}"
  have "{..<NBUF} \<subseteq> ?D \<union> H" using no by auto
  then have "NBUF \<le> card (?D \<union> H)" using card_mono[of "?D \<union> H" "{..<NBUF}"] assms(2) by simp
  also have "\<dots> \<le> card ?D + card H" by (rule card_Un_le)
  also have "card ?D \<le> card (dirty_blocks f)"
  proof (rule card_inj_on_le[of "\<lambda>b. blockno (f b)"])
    show "inj_on (\<lambda>b. blockno (f b)) ?D" using assms(1) by (auto simp: inj_on_def contents_ok_def holds_def)
    show "(\<lambda>b. blockno (f b)) ` ?D \<subseteq> dirty_blocks f"
      using assms(1) by (auto simp: dirty_blocks_def contents_ok_def holds_def)
  qed simp
  finally show False using assms(3) by simp
qed

lemma bread_room:
  assumes "bio_inv c i H s" "drv E = iderw" "n < of_int (disksize s)" "\<forall>b \<in> H. blockno (bufat s b) \<noteq> n"
    and "n \<in> dirty_blocks (bc s) \<or> card (dirty_blocks (bc s)) + card H < NBUF"
  obtains b t where "bread E 1 n s = Inr (b, t)" "bread_result c i H n s b t"
proof -
  note D = bio_invD[OF assms(1)]
  have "finite H" using D(2) finite_subset by blast
  then have "(\<exists>b. holds (bc s) b n) \<or> (\<exists>b < NBUF. b \<notin> H \<and> \<not> is_dirty (bufat s b))"
    using assms(5) room_left[OF D(3)] by (auto simp: dirty_blocks_def)
  from bread_ok[OF assms(1-4) this] show thesis using that .
qed

section \<open>Sequences of writes\<close>

definition apply_writes :: "(u32 \<times> block) list \<Rightarrow> (u32 \<Rightarrow> block) \<Rightarrow> u32 \<Rightarrow> block" where
  "apply_writes ws d = fold (\<lambda>(n, x) f. f(n := x)) ws d"

lemma apply_writes_simps [simp]:
  "apply_writes [] d = d" "apply_writes ((n, x) # ws) d = apply_writes ws (d(n := x))"
  "apply_writes (ws @ ws') d = apply_writes ws' (apply_writes ws d)"
  by (simp_all add: apply_writes_def)

lemma apply_writes_other: "n \<notin> fst ` set ws \<Longrightarrow> apply_writes ws d n = d n"
  by (induction ws arbitrary: d) auto

text \<open>Writes that all go to the same place with the same contents, or one write of its place.\<close>

lemma apply_writes_map:
  assumes "j \<in> set js" "\<And>k. k \<in> set js \<Longrightarrow> f k = f j \<Longrightarrow> g k = g j"
  shows "apply_writes (map (\<lambda>k. (f k, g k)) js) d (f j) = g j"
  using assms
proof (induction js arbitrary: d j)
  case (Cons k js)
  show ?case
  proof (cases "\<exists>k' \<in> set js. f k' = f j")
    case True
    then obtain k' where k': "k' \<in> set js" "f k' = f j" by blast
    then have "g k' = g j" using Cons.prems(2) by simp
    have "apply_writes (map (\<lambda>k. (f k, g k)) js) (d(f k := g k)) (f k') = g k'"
      using k' Cons.prems(2) \<open>g k' = g j\<close> by (intro Cons.IH) auto
    then show ?thesis using k' \<open>g k' = g j\<close> by simp
  next
    case False
    then have "j \<notin> set js" by blast
    then have "k = j" using Cons.prems(1) by simp
    moreover have "f j \<notin> fst ` set (map (\<lambda>k. (f k, g k)) js)" using False by force
    ultimately show ?thesis by (simp add: apply_writes_other)
  qed
qed simp

definition wrote :: "nat \<Rightarrow> nat \<Rightarrow> (u32 \<times> block) list \<Rightarrow> 'a kbio_scheme \<Rightarrow> 'a kbio_scheme \<Rightarrow> bool" where
  "wrote c i ws s t \<longleftrightarrow> bio_inv c i {} t \<and> bio_frame s t \<and> disk t = apply_writes ws (disk s) \<and> diskw t = diskw s @ ws \<and>
     view (bc t) (disk t) = apply_writes ws (view (bc s) (disk s)) \<and> dirty_blocks (bc t) = dirty_blocks (bc s) - fst ` set ws"

lemma wrote_trans: "wrote c i ws s t \<Longrightarrow> wrote c i ws' t u \<Longrightarrow> wrote c i (ws @ ws') s u"
  using bio_frame_trans[of s t u] by (auto simp: wrote_def image_Un)

lemma wrote_nil: "bio_inv c i {} s \<Longrightarrow> wrote c i [] s s"
  by (simp add: wrote_def)

lemma wroteD:
  assumes "wrote c i ws s t"
  shows "bio_inv c i {} t" "disksize t = disksize s" "disk t = apply_writes ws (disk s)" "diskw t = diskw s @ ws"
    "view (bc t) (disk t) = apply_writes ws (view (bc s) (disk s))" "dirty_blocks (bc t) = dirty_blocks (bc s) - fst ` set ws"
    "card (dirty_blocks (bc t)) \<le> card (dirty_blocks (bc s))" "core t = core s"
  using assms by (auto simp: wrote_def bio_frame_def intro: card_mono)

text \<open>Reading a block, changing it and writing it to the disk at once.\<close>

lemma update_step:
  assumes "bio_inv c i {} s" "drv E = iderw" "n < of_int (disksize s)" "card (dirty_blocks (bc s)) < NBUF"
  obtains b s1 u t where "bread E 1 n s = Inr (b, s1)" "bio_frame s s1"
    "bwrite E b (buf_upd b (\<lambda>x. x\<lparr>bdata := g (bdata x)\<rparr>) s1) = Inr u" "brelse b u = Inr t"
    "wrote c i [(n, g (view (bc s) (disk s) n))] s t"
proof -
  have "n \<in> dirty_blocks (bc s) \<or> card (dirty_blocks (bc s)) + card ({} :: nat set) < NBUF" using assms(4) by simp
  from bread_room[OF assms(1-3) _ this] obtain b s1 where b: "bread E 1 n s = Inr (b, s1)" "bread_result c i {} n s b s1"
    by blast
  note R = b(2)[unfolded bread_result_def]
  define m where "m = buf_upd b (\<lambda>x. x\<lparr>bdata := g (bdata (bufat s1 b))\<rparr>) s1"
  have me: "buf_upd b (\<lambda>x. x\<lparr>bdata := g (bdata x)\<rparr>) s1 = m" by (simp add: m_def buf_upd_def bufat_def)
  have inv: "bio_inv c i {b} s1" and h: "holds (bc s1) b n" "b \<in> {b}" using R by auto
  note M = buf_modify[OF inv h(2,1) m_def]
  obtain u where u: "bwrite E b m = Inr u" "bio_inv c i {b} u" "bio_frame m u" "disk u = (disk m)(n := bdata (bufat m b))"
    "diskw u = diskw m @ [(n, bdata (bufat m b))]" "holds (bc u) b n" "bdata (bufat u b) = bdata (bufat m b)"
    "\<not> is_dirty (bufat u b)" "\<forall>z. z \<noteq> b \<longrightarrow> bc u z = bc m z"
    "view (bc u) (disk u) = view (bc m) (disk m)" "dirty_blocks (bc u) = dirty_blocks (bc m) - {n}"
    by (rule bwrite_ok[OF M(1) assms(2) h(2) M(5)])
  have rb: "is_dirty (bufat u b) \<or> bdata (bufat u b) = disk u (blockno (bufat u b))"
    using u(4,6,7) by (simp add: holds_def)
  obtain t where t: "brelse b u = Inr t" "bio_inv c i ({b} - {b}) t" "bio_frame u t" "disk t = disk u" "diskw t = diskw u"
    "\<forall>z < NBUF. bc t z = bc u z"
    by (rule brelse_ok[OF u(2) h(2) rb])
  note S = same_contents[of "bc t" "bc u", OF t(6)[rule_format]]
  have ds: "disk s1 = disk s" "view (bc s1) (disk s1) = view (bc s) (disk s)" using R by blast+
  have R1: "disk s1 = disk s" "view (bc s1) (disk s) = view (bc s) (disk s)" "diskw s1 = diskw s"
    "dirty_blocks (bc s1) = dirty_blocks (bc s)" "bdata (bufat s1 b) = view (bc s) (disk s) n"
    using R ds(2)[unfolded ds(1)] by auto
  have "bio_frame s t" using R M(2) u(3) t(3) bio_frame_trans by blast
  then have "wrote c i [(n, g (view (bc s) (disk s) n))] s t"
    using t(2,4,5) u(4,5,10,11) M(3,4,6,9,10) R1 by (simp add: wrote_def S(1,2))
  then show thesis using R u(1) t(1) by (intro that[OF b(1)]) (simp_all add: me)
qed

section \<open>The start\<close>

lemma initsleeplock_simps [simp]:
  "cpus (initsleeplock k nm s) = cpus s" "lapicid (initsleeplock k nm s) = lapicid s" "eflags_if (initsleeplock k nm s) = eflags_if s"
  "ptable (initsleeplock k nm s) = ptable s" "bcache (initsleeplock k nm s) = bcache s" "disk (initsleeplock k nm s) = disk s"
  "disksize (initsleeplock k nm s) = disksize s" "diskw (initsleeplock k nm s) = diskw s" "kbio.more (initsleeplock k nm s) = kbio.more s"
  "locked (locks (initsleeplock k nm s) l) \<longleftrightarrow> l \<noteq> SleepLk k \<and> locked (locks s l)"
  "slocked (slocks (initsleeplock k nm s) k') \<longleftrightarrow> k' \<noteq> k \<and> slocked (slocks s k')"
  by (simp_all add: initsleeplock_def sl_upd_def initlock_def)

lemma buf_upd_base [simp]:
  "cpus (buf_upd b f s) = cpus s" "lapicid (buf_upd b f s) = lapicid s" "eflags_if (buf_upd b f s) = eflags_if s" "locks (buf_upd b f s) = locks s"
  by (simp_all add: buf_upd_def)

definition boot_frame :: "'a kbio_scheme \<Rightarrow> 'a kbio_scheme \<Rightarrow> bool" where
  "boot_frame s t \<longleftrightarrow> cpus t = cpus s \<and> lapicid t = lapicid s \<and> eflags_if t = eflags_if s \<and> ptable t = ptable s \<and>
     map nolinks (bcache t) = map nolinks (bcache s) \<and> disk t = disk s \<and> disksize t = disksize s \<and> diskw t = diskw s \<and>
     kbio.more t = kbio.more s \<and> (\<forall>l. locked (locks t l) \<longrightarrow> locked (locks s l)) \<and>
     (\<forall>k. slocked (slocks t k) \<longrightarrow> slocked (slocks s k))"

lemma boot_frame_trans: "boot_frame s t \<Longrightarrow> boot_frame t u \<Longrightarrow> boot_frame s u"
  by (simp add: boot_frame_def)

lemma boot_frame_upd: "(\<And>x. nolinks (f x) = nolinks x) \<Longrightarrow> boot_frame s (buf_upd j f s)"
  by (simp add: boot_frame_def nolinks_upd del: buf_upd_simps(9))

lemma boot_frame_sl: "boot_frame s (initsleeplock k nm s)"
  by (simp add: boot_frame_def)

lemma binit_loop_frame:
  "boot_frame s (binit_loop n b s) \<and> (\<forall>k. b \<le> k \<and> k < b + n \<longrightarrow> \<not> slocked (slocks (binit_loop n b s) (BufSl k)))"
proof (induction n arbitrary: b s)
  case 0
  show ?case by (auto simp: boot_frame_def)
next
  case (Suc n)
  define s1 where "s1 = buf_upd b (\<lambda>x. x\<lparr>bnext := bnext (bufat s NBUF), bprev := NBUF\<rparr>) s"
  define s2 where "s2 = initsleeplock (BufSl b) ''buffer'' s1"
  define s3 where "s3 = buf_upd (bnext (bufat s2 NBUF)) (\<lambda>x. x\<lparr>bprev := b\<rparr>) s2"
  define s4 where "s4 = buf_upd NBUF (\<lambda>x. x\<lparr>bnext := b\<rparr>) s3"
  have e: "binit_loop (Suc n) b s = binit_loop n (b + 1) s4"
    unfolding binit_loop.simps Let_def s4_def s3_def s2_def s1_def ..
  have "boot_frame s s1" unfolding s1_def by (rule boot_frame_upd) simp
  moreover have "boot_frame s1 s2" unfolding s2_def by (rule boot_frame_sl)
  moreover have "boot_frame s2 s3" unfolding s3_def by (rule boot_frame_upd) simp
  moreover have "boot_frame s3 s4" unfolding s4_def by (rule boot_frame_upd) simp
  ultimately have f: "boot_frame s s4" using boot_frame_trans by blast
  have sl: "\<not> slocked (slocks s4 (BufSl b))" by (simp add: s4_def s3_def s2_def)
  from Suc.IH[of s4 "b + 1"] have I: "boot_frame s4 (binit_loop n (b + 1) s4)"
    "\<And>k. b + 1 \<le> k \<Longrightarrow> k < b + 1 + n \<Longrightarrow> \<not> slocked (slocks (binit_loop n (b + 1) s4) (BufSl k))" by auto
  have "\<not> slocked (slocks (binit_loop n (b + 1) s4) (BufSl k))" if "b \<le> k" "k < b + Suc n" for k
    using that I(2)[of k] I(1) sl by (cases "k = b") (auto simp: boot_frame_def)
  then show ?case unfolding e using boot_frame_trans[OF f I(1)] by blast
qed

lemma binit_inv:
  assumes "cpu_ok c (core s)" "cur c (core s) = Some i" "i < length (ptable s)" "\<forall>l. lock_free l (core s)"
    and "length (bcache s) = NBUF + 1" "\<forall>b < NBUF. bflags (bufat s b) = 0 \<and> bdev (bufat s b) = 0 \<and> refcnt (bufat s b) = 0"
  shows "bio_inv c i {} (binit s)" "dirty_blocks (bc (binit s)) = {}" "boot_frame s (binit s)"
proof -
  let ?t = "binit s" and ?u = "buf_upd NBUF (\<lambda>x. x\<lparr>bprev := NBUF, bnext := NBUF\<rparr>) (initlock BcacheLock ''bcache'' s)"
  have "boot_frame s (initlock BcacheLock ''bcache'' s)" by (simp add: boot_frame_def initlock_def)
  then have "boot_frame s ?u" by (rule boot_frame_trans) (rule boot_frame_upd, simp)
  then show f: "boot_frame s ?t" using binit_loop_frame[of ?u NBUF 0] boot_frame_trans unfolding binit_def by blast
  have sl: "\<And>k. k < NBUF \<Longrightarrow> \<not> slocked (slocks ?t (BufSl k))" using binit_loop_frame[of ?u NBUF 0] unfolding binit_def by auto
  have k: "cpus ?t = cpus s" "lapicid ?t = lapicid s" "eflags_if ?t = eflags_if s" "ptable ?t = ptable s"
    "map nolinks (bcache ?t) = map nolinks (bcache s)"
    using f by (simp_all add: boot_frame_def)
  have free: "lock_free l (core ?t)" for l using assms(4) f by (auto simp: lock_free_def boot_frame_def)
  have "cpu_ok c (core ?t)" "cur c (core ?t) = Some i" using assms(1,2) k by (simp_all add: cpu_ok_def cur_def)
  then have idle: "bio_idle c i ?t" using assms(3) k free by (simp add: bio_idle_def)
  note ring0 = binit_ring[OF assms(5)]
  have z: "bflags (bufat ?t b) = 0 \<and> bdev (bufat ?t b) = 0 \<and> refcnt (bufat ?t b) = 0" if "b < NBUF" for b
  proof -
    have "map nolinks (bcache ?t) ! b = map nolinks (bcache s) ! b" using k(5) by simp
    then have "nolinks (bufat ?t b) = nolinks (bufat s b)" using ringD(1)[OF ring0] assms(5) that by (simp add: bufat_def)
    then have "bflags (nolinks (bufat ?t b)) = bflags (nolinks (bufat s b))" "bdev (nolinks (bufat ?t b)) = bdev (nolinks (bufat s b))"
      "refcnt (nolinks (bufat ?t b)) = refcnt (nolinks (bufat s b))" by simp_all
    then show ?thesis using assms(6) that by (simp add: nolinks_def)
  qed
  show "dirty_blocks (bc ?t) = {}" using z by (auto simp: dirty_blocks_def holds_def)
  have "contents_ok {} (bc ?t) (disk ?t) (disksize ?t)"
    using z by (auto simp: contents_ok_def holds_def is_dirty_def)
  then show "bio_inv c i {} ?t" using idle ring0 z sl unfolding bio_inv_def by auto
qed

lemma fold_bmove_ring:
  "ring s xs \<Longrightarrow> set bs \<subseteq> {..<NBUF} \<Longrightarrow> ring (fold bmove bs s) (fold (\<lambda>b xs. b # remove1 b xs) bs xs)"
proof (induction bs arbitrary: s xs)
  case (Cons b bs)
  then have "b \<in> set xs" using ringD(2)[OF Cons.prems(1)] by auto
  then obtain ys zs where yz: "xs = ys @ b # zs" by (meson split_list)
  then have "b \<notin> set ys" using ringD(3)[OF Cons.prems(1)] by simp
  then have "remove1 b xs = ys @ zs" by (simp add: yz remove1_append)
  moreover have "ring (bmove b s) (b # ys @ zs)" using bmove_ring Cons.prems(1) yz by blast
  ultimately show ?case using Cons.IH[of "bmove b s" "b # remove1 b xs"] Cons.prems(2) by simp
qed simp

section \<open>Properties\<close>

text \<open>
  The cache at boot. On the zeroed buffers \<^verbatim>\<open>binit\<close> builds the list of all \<^verbatim>\<open>NBUF\<close> buffers and
  establishes the invariant that \<^verbatim>\<open>bread\<close>, \<^verbatim>\<open>bwrite\<close> and \<^verbatim>\<open>brelse\<close> rely on; and any sequence of moves to
  the front keeps the doubly linked list a permutation of the buffers, in order of last use.
\<close>

theorem binit_cache:
  assumes "cpu_ok c (core s)" "cur c (core s) = Some i" "i < length (ptable s)" "\<forall>l. lock_free l (core s)"
    and "length (bcache s) = NBUF + 1" "\<forall>b < NBUF. bflags (bufat s b) = 0 \<and> bdev (bufat s b) = 0 \<and> refcnt (bufat s b) = 0"
    and "set bs \<subseteq> {..<NBUF}"
  shows "bio_inv c i {} (binit s) \<and> dirty_blocks (bc (binit s)) = {} \<and> disk (binit s) = disk s \<and>
     ring (fold bmove bs (binit s)) (fold (\<lambda>b xs. b # remove1 b xs) bs (rev [0..<NBUF]))"
  using binit_inv[OF assms(1-6)] fold_bmove_ring[OF binit_ring[OF assms(5)] assms(7)] by (simp add: boot_frame_def)

text \<open>
  C5. Blocks can be read back. With a buffer to spare, a block of the disk can be read, changed,
  written and released, all four calls returning; the disk then holds the new contents, and a later
  \<^verbatim>\<open>bread\<close> of any block returns the new contents of this block and the unchanged contents of the others.
\<close>

theorem cache_read_after_write:
  assumes "bio_inv c i {} s" "drv E = iderw" "n < of_int (disksize s)" "m < of_int (disksize s)" "card (dirty_blocks (bc s)) < NBUF"
  shows "\<exists>b s1 s2 s3 b' s4. bread E 1 n s = Inr (b, s1) \<and> bwrite E b (buf_upd b (\<lambda>x. x\<lparr>bdata := d\<rparr>) s1) = Inr s2 \<and>
     brelse b s2 = Inr s3 \<and> disk s3 = (disk s)(n := d) \<and> bio_inv c i {} s3 \<and> bread E 1 m s3 = Inr (b', s4) \<and>
     bdata (bufat s4 b') = (if m = n then d else view (bc s) (disk s) m)"
proof -
  obtain b s1 s2 s3 where R: "bread E 1 n s = Inr (b, s1)" "bio_frame s s1"
    "bwrite E b (buf_upd b (\<lambda>x. x\<lparr>bdata := d\<rparr>) s1) = Inr s2" "brelse b s2 = Inr s3" "wrote c i [(n, d)] s s3"
    by (rule update_step[OF assms(1-3,5), where g = "\<lambda>_. d"])
  note D = wroteD[OF R(5)]
  have "m \<in> dirty_blocks (bc s3) \<or> card (dirty_blocks (bc s3)) + card ({} :: nat set) < NBUF" using D(7) assms(5) by simp
  from bread_room[OF D(1) assms(2) _ _ this] assms(4) D(2)
  obtain b' s4 where "bread E 1 m s3 = Inr (b', s4)" "bread_result c i {} m s3 b' s4" by auto
  then show ?thesis using R D(1,3,5) by (auto simp: bread_result_def)
qed

section \<open>Examples\<close>

definition zero_buf :: buf where
  "zero_buf = \<lparr>bflags = 0, bdev = 0, blockno = 0, refcnt = 0, bprev = 0, bnext = 0, bdata = replicate BSIZE 0\<rparr>"

definition demo_kbio :: "(u32 \<Rightarrow> block) \<Rightarrow> 'a \<Rightarrow> 'a kbio_scheme" where
  "demo_kbio d x = kshm.extend (demo_kshm 0x80303000 0 0)
     \<lparr>bcache = replicate (NBUF + 1) zero_buf, disk = d, disksize = 1000, diskw = [], \<dots> = x\<rparr>"

lemma demo_kbio_ok:
  "cpu_ok 0 (core (demo_kbio d x))" "cur 0 (core (demo_kbio d x)) = Some 1" "1 < length (ptable (demo_kbio d x))" "\<forall>l. lock_free l (core (demo_kbio d x))"
  "length (bcache (demo_kbio d x)) = NBUF + 1" "disk (demo_kbio d x) = d" "disksize (demo_kbio d x) = 1000" "diskw (demo_kbio d x) = []" "kbio.more (demo_kbio d x) = x"
  "\<forall>b < NBUF. bflags (bufat (demo_kbio d x) b) = 0 \<and> bdev (bufat (demo_kbio d x) b) = 0 \<and> refcnt (bufat (demo_kbio d x) b) = 0"
proof -
  have c: "core (demo_kbio d x) = core demo_pbase"
    by (simp add: core_def demo_kbio_def kshm.defs demo_kshm_def kconsole.defs ksleep.defs demo_ksleep_def pbase.defs demo_pbase_def)
  show "cpu_ok 0 (core (demo_kbio d x))" "\<forall>l. lock_free l (core (demo_kbio d x))" "cur 0 (core (demo_kbio d x)) = Some 1"
    unfolding c using demo_ready by (simp_all add: proc_ready_def) (simp add: cur_def demo_pbase_def)
  have "ptable (demo_kbio d x) = ptable (demo_kshm 0x80303000 0 0)" by (simp add: demo_kbio_def kshm.defs)
  then show "1 < length (ptable (demo_kbio d x))" using demo_kshm_simps(2) by simp
  show "length (bcache (demo_kbio d x)) = NBUF + 1" "disk (demo_kbio d x) = d" "disksize (demo_kbio d x) = 1000" "diskw (demo_kbio d x) = []" "kbio.more (demo_kbio d x) = x"
    "\<forall>b < NBUF. bflags (bufat (demo_kbio d x) b) = 0 \<and> bdev (bufat (demo_kbio d x) b) = 0 \<and> refcnt (bufat (demo_kbio d x) b) = 0"
    by (simp_all add: demo_kbio_def kshm.defs bufat_def zero_buf_def nth_Cons split: nat.split)
qed

definition demo_fsenv :: "('a kbio_scheme) fsenv" where
  "demo_fsenv = \<lparr>fsw = Inr, tries = 0, drv = iderw, devread = (\<lambda>_. None), devwrite = (\<lambda>_. None)\<rparr>"

theorem binit_cache_witness:
  "ring (fold bmove [3, 5, 3] (binit (demo_kbio (\<lambda>_. []) ()))) ([3, 5] @ rev [6..<30] @ [4, 2, 1, 0])"
proof -
  have "set [3, 5, 3] \<subseteq> {..<NBUF}" by (simp add: NBUF_def)
  moreover have "fold (\<lambda>b xs. b # remove1 b xs) [3, 5, 3] (rev [0..<NBUF]) = [3, 5] @ rev [6..<30] @ [4, 2, 1, 0]" by code_simp
  ultimately show ?thesis using binit_cache[OF demo_kbio_ok(1-5,10), of "[3, 5, 3]" "\<lambda>_. []" "()"] by presburger
qed

theorem cache_read_after_write_witness:
  "\<exists>b s1 s2 s3 b' s4. bread demo_fsenv 1 7 (binit (demo_kbio (\<lambda>_. [9]) ())) = Inr (b, s1) \<and>
     bwrite demo_fsenv b (buf_upd b (\<lambda>x. x\<lparr>bdata := [4]\<rparr>) s1) = Inr s2 \<and> brelse b s2 = Inr s3 \<and>
     bread demo_fsenv 1 7 s3 = Inr (b', s4) \<and> bdata (bufat s4 b') = [4]"
proof -
  let ?s = "binit (demo_kbio (\<lambda>_. [9]) ())"
  note I = binit_inv[OF demo_kbio_ok(1-5,10), of "\<lambda>_. [9]" "()"]
  have z: "disksize ?s = 1000" using I(3) demo_kbio_ok(7) by (simp add: boot_frame_def)
  have "(7 :: u32) < of_int (disksize ?s)" "card (dirty_blocks (bc ?s)) < NBUF" by (simp_all add: z I(2) NBUF_def)
  from cache_read_after_write[OF I(1) _ this(1) this(1) this(2), of demo_fsenv "[4]"] show ?thesis
    by (auto simp: demo_fsenv_def)
qed

end
