(* ===== verification/LogSafe.thy ===== *)
theory LogSafe
  imports BufCache Log
begin

text \<open>
  Crash safety of the redo log: what \<^verbatim>\<open>commit\<close> writes to the disk and in which order, and that
  \<^verbatim>\<open>recover_from_log\<close>, run on the disk after any prefix of these writes, gives the disk of before the
  transaction or the disk of after it, outside the log.
\<close>

section \<open>Numbers in blocks\<close>

lemma put32_length [simp]: "length (put32 d i v) = length d"
  by (simp add: put32_def)

lemma put16_length [simp]: "length (put16 d i v) = length d"
  by (simp add: put16_def)

lemma get32_put32 [simp]:
  assumes "i + 3 < length d"
  shows "get32 (put32 d i v) i = v"
proof -
  have "ucast (ucast v :: u8) OR push_bit 8 (ucast (ucast (drop_bit 8 v) :: u8)) OR push_bit 16 (ucast (ucast (drop_bit 16 v) :: u8)) OR
      push_bit 24 (ucast (ucast (drop_bit 24 v) :: u8)) = (v :: u32)" (is "?w = v")
  proof (rule bit_word_eqI)
    fix n assume "n < LENGTH(32)"
    then show "bit ?w n = bit v n"
      by (cases "24 \<le> n"; cases "16 \<le> n"; cases "8 \<le> n")
         (auto simp: bit_or_iff bit_push_bit_iff bit_ucast_iff bit_drop_bit_eq)
  qed
  then show ?thesis using assms by (simp add: get32_def put32_def)
qed

lemma get32_put32_other: "j + 4 \<le> i \<or> i + 4 \<le> j \<Longrightarrow> get32 (put32 d i v) j = get32 d j"
  by (auto simp: get32_def put32_def)

lemma get16_put16 [simp]: "i + 1 < length d \<Longrightarrow> get16 (put16 d i v) i = v"
proof -
  have "ucast (ucast v :: u8) OR push_bit 8 (ucast (ucast (drop_bit 8 v) :: u8)) = (v :: u16)"
    by (rule bit_word_eqI) (auto simp: bit_simps)
  then show "i + 1 < length d \<Longrightarrow> get16 (put16 d i v) i = v" by (simp add: get16_def put16_def)
qed

text \<open>The header block: what \<^verbatim>\<open>write_head\<close> stores is what \<^verbatim>\<open>read_head\<close> finds.\<close>

lemma put_head_length [simp]: "length (put_head l d) = length d"
proof -
  have "length (fold (\<lambda>i d. put32 d (4 + 4 * i) (f i)) xs e) = length e" for f xs e
    by (induction xs arbitrary: e) auto
  then show ?thesis by (simp add: put_head_def)
qed

lemma fold_put32:
  assumes "4 + 4 * n \<le> length d"
  shows "get32 (fold (\<lambda>i d. put32 d (4 + 4 * i) (f i)) [0..<n] d) 0 = get32 d 0"
    "k < n \<Longrightarrow> get32 (fold (\<lambda>i d. put32 d (4 + 4 * i) (f i)) [0..<n] d) (4 + 4 * k) = f k"
proof -
  have len: "length (fold (\<lambda>i d. put32 d (4 + 4 * i) (f i)) xs e) = length e" for xs e
    by (induction xs arbitrary: e) auto
  show "get32 (fold (\<lambda>i d. put32 d (4 + 4 * i) (f i)) [0..<n] d) 0 = get32 d 0"
    using assms by (induction n) (auto simp: get32_put32_other)
  show "k < n \<Longrightarrow> get32 (fold (\<lambda>i d. put32 d (4 + 4 * i) (f i)) [0..<n] d) (4 + 4 * k) = f k"
    using assms
  proof (induction n)
    case (Suc n)
    then show ?case by (cases "k = n") (auto simp: get32_put32_other len)
  qed simp
qed

lemma put_head_get:
  assumes "0 \<le> lhn l" "lhn l \<le> int LOGSIZE" "length d = BSIZE"
  shows "get32 (put_head l d) 0 = of_int (lhn l)"
    "k < nat (lhn l) \<Longrightarrow> get32 (put_head l d) (4 + 4 * k) = of_int (lhblock l ! k)"
proof -
  let ?d = "put32 d 0 (of_int (lhn l))"
  have n: "4 + 4 * nat (lhn l) \<le> length ?d" using assms by (simp add: LOGSIZE_def BSIZE_def)
  show "get32 (put_head l d) 0 = of_int (lhn l)"
    using fold_put32(1)[OF n] assms by (simp add: put_head_def BSIZE_def)
  show "k < nat (lhn l) \<Longrightarrow> get32 (put_head l d) (4 + 4 * k) = of_int (lhblock l ! k)"
    using fold_put32(2)[OF n] by (simp add: put_head_def)
qed

section \<open>Copying a block through the cache\<close>

lemma klog_frame: "bio_frame s t \<Longrightarrow> lg t = lg s"
  by (cases s; cases t) (simp add: bio_frame_def)

lemma lg_upd_simps [simp]:
  "core (lg_upd f s) = core s" "ptable (lg_upd f s) = ptable s" "slocks (lg_upd f s) = slocks s" "mem (lg_upd f s) = mem s"
  "bcache (lg_upd f s) = bcache s" "disk (lg_upd f s) = disk s" "diskw (lg_upd f s) = diskw s" "disksize (lg_upd f s) = disksize s"
  "lg (lg_upd f s) = f (lg s)"
  by (simp_all add: lg_upd_def core_def)

lemma lg_upd_bio [simp]: "bc (lg_upd f s) = bc s" "bufat (lg_upd f s) = bufat s" "bio_inv c i H (lg_upd f s) = bio_inv c i H s"
proof -
  show b: "bufat (lg_upd f s) = bufat s" by (simp add: bufat_def fun_eq_iff)
  show c: "bc (lg_upd f s) = bc s" by (simp add: bc_def b fun_eq_iff)
  have "nxt (lg_upd f s) = nxt s" "prv (lg_upd f s) = prv s" by (simp_all add: nxt_def prv_def b fun_eq_iff)
  then show "bio_inv c i H (lg_upd f s) = bio_inv c i H s"
    by (simp add: bio_inv_def bio_idle_def ring_def owned_def b c)
qed

text \<open>The block \<open>y\<close> becomes a copy of the block \<open>x\<close>, in the cache and on the disk.\<close>

lemma copy_held:
  assumes "bio_inv c i {a, b} s" "drv E = iderw" "a \<noteq> b" "holds (bc s) a x" "holds (bc s) b y" "x \<noteq> y"
    and "is_dirty (bufat s a) \<or> bdata (bufat s a) = disk s x"
  obtains u v t where "bwrite E b (buf_upd b (\<lambda>k. k\<lparr>bdata := bdata (bufat s a)\<rparr>) s) = Inr u"
    "brelse a u = Inr v" "brelse b v = Inr t" "wrote c i [(y, (bdata (bufat s a)))] s t"
proof -
  let ?d = "bdata (bufat s a)"
  define m where "m = buf_upd b (\<lambda>k. k\<lparr>bdata := ?d\<rparr>) s"
  have "b \<in> {a, b}" by simp
  note M = buf_modify[OF assms(1) this assms(5) m_def]
  obtain u where u: "bwrite E b m = Inr u" "bio_inv c i {a, b} u" "bio_frame m u" "disk u = (disk m)(y := bdata (bufat m b))"
    "diskw u = diskw m @ [(y, bdata (bufat m b))]" "holds (bc u) b y" "bdata (bufat u b) = bdata (bufat m b)"
    "\<not> is_dirty (bufat u b)" "\<forall>z. z \<noteq> b \<longrightarrow> bc u z = bc m z"
    "view (bc u) (disk u) = view (bc m) (disk m)" "dirty_blocks (bc u) = dirty_blocks (bc m) - {y}"
    by (rule bwrite_ok[OF M(1) assms(2) \<open>b \<in> {a, b}\<close> M(5)])
  have "bc u a = bc s a" using u(9) assms(3) M(7)[OF assms(3)] by simp
  then have ua: "is_dirty (bufat u a) = is_dirty (bufat s a)" "bdata (bufat u a) = ?d" "blockno (bufat u a) = x"
    using assms(4) bc_simps[of u a] bc_simps[of s a] by (simp_all add: holds_def)
  have ra: "is_dirty (bufat u a) \<or> bdata (bufat u a) = disk u (blockno (bufat u a))"
    using assms(6,7) ua u(4) M(3) by simp
  obtain v where v: "brelse a u = Inr v" "bio_inv c i ({a, b} - {a}) v" "bio_frame u v" "disk v = disk u" "diskw v = diskw u"
    "\<forall>z < NBUF. bc v z = bc u z"
    by (rule brelse_ok[OF u(2) _ ra]) simp_all
  have iv: "bio_inv c i {b} v" using v(2) assms(3) by (simp add: insert_Diff_if)
  have "bc v b = bc u b" using u(6) v(6) by (simp add: holds_def)
  then have vb: "bdata (bufat v b) = ?d" "blockno (bufat v b) = y"
    using u(6,7) M(6) bc_simps[of u b] bc_simps[of v b] by (simp_all add: holds_def)
  have rb: "is_dirty (bufat v b) \<or> bdata (bufat v b) = disk v (blockno (bufat v b))"
    using vb v(4) u(4) M(6) by simp
  obtain t where t: "brelse b v = Inr t" "bio_inv c i ({b} - {b}) t" "bio_frame v t" "disk t = disk v" "diskw t = diskw v"
    "\<forall>z < NBUF. bc t z = bc v z"
    by (rule brelse_ok[OF iv _ rb]) simp_all
  have "z < NBUF \<Longrightarrow> bc t z = bc u z" for z using t(6) v(6) by simp
  note S = same_contents[of "bc t" "bc u", OF this]
  have "bio_frame s t" using M(2) u(3) v(3) t(3) bio_frame_trans by blast
  then have "wrote c i [(y, ?d)] s t"
    using t(2,4,5) v(4,5) u(4,5,10,11) M(3,4,6,9,10) by (simp add: wrote_def S(1,2))
  with u(1) v(1) t(1) show thesis using that unfolding m_def by blast
qed

text \<open>Two blocks read one after the other.\<close>

lemma bread_two:
  assumes "bio_inv c i {} s" "drv E = iderw" "x \<noteq> y" "x < of_int (disksize s)" "y < of_int (disksize s)"
    and "x \<in> dirty_blocks (bc s) \<or> card (dirty_blocks (bc s)) < NBUF"
    and "y \<in> dirty_blocks (bc s) \<or> card (dirty_blocks (bc s)) + 1 < NBUF"
  obtains a s1 b s2 where "bread E 1 x s = Inr (a, s1)" "bread E 1 y s1 = Inr (b, s2)" "a \<noteq> b" "bio_inv c i {a, b} s2"
    "bio_frame s s1" "bio_frame s s2" "disk s2 = disk s" "diskw s2 = diskw s" "holds (bc s2) a x" "holds (bc s2) b y"
    "bdata (bufat s2 a) = view (bc s) (disk s) x" "bdata (bufat s2 b) = view (bc s) (disk s) y"
    "is_dirty (bufat s2 a) \<or> bdata (bufat s2 a) = disk s2 x" "is_dirty (bufat s2 b) \<or> bdata (bufat s2 b) = disk s2 y"
    "view (bc s2) (disk s2) = view (bc s) (disk s)" "dirty_blocks (bc s2) = dirty_blocks (bc s)"
proof -
  have "x \<in> dirty_blocks (bc s) \<or> card (dirty_blocks (bc s)) + card ({} :: nat set) < NBUF" using assms(6) by simp
  from bread_room[OF assms(1,2,4) _ this] obtain a s1 where a: "bread E 1 x s = Inr (a, s1)" "bread_result c i {} x s a s1"
    by blast
  note R = a(2)[unfolded bread_result_def]
  have dz: "disksize s1 = disksize s" using R by (simp add: bio_frame_def)
  have bl: "\<forall>b \<in> {a}. blockno (bufat s1 b) \<noteq> y" using R assms(3) by (simp add: holds_def)
  have "y \<in> dirty_blocks (bc s1) \<or> card (dirty_blocks (bc s1)) + card {a} < NBUF" using assms(7) R by simp
  with bread_room[of c i "{a}" s1 E y] R assms(2,5) dz bl
  obtain b s2 where b: "bread E 1 y s1 = Inr (b, s2)" "bread_result c i {a} y s1 b s2" by auto
  note Q = b(2)[unfolded bread_result_def]
  have ab: "a \<noteq> b" using Q by auto
  then have "bc s2 a = bc s1 a" using Q by blast
  then have sa: "holds (bc s2) a x" "bdata (bufat s2 a) = bdata (bufat s1 a)" "is_dirty (bufat s2 a) = is_dirty (bufat s1 a)"
    using R bc_simps[of s1 a] bc_simps[of s2 a] by (simp_all add: holds_def)
  show thesis
  proof (rule that[OF a(1) b(1) ab])
    show "bio_inv c i {a, b} s2" using Q by (simp add: insert_commute)
    show "bio_frame s s2" using R Q bio_frame_trans by blast
  qed (use R Q sa in auto)
qed

lemma wrote_from:
  assumes "wrote c i [(y, d)] s2 t" "bio_frame s s2" "disk s2 = disk s" "diskw s2 = diskw s"
    "view (bc s2) (disk s2) = view (bc s) (disk s)" "dirty_blocks (bc s2) = dirty_blocks (bc s)"
  shows "wrote c i [(y, d)] s t"
  using assms bio_frame_trans[OF assms(2), of t] by (auto simp: wrote_def)

lemma install_step:
  assumes "bio_inv c i {} s" "drv E = iderw" "x \<noteq> y" "x < of_int (disksize s)" "y < of_int (disksize s)"
    and "card (dirty_blocks (bc s)) < NBUF" "y \<in> dirty_blocks (bc s) \<or> card (dirty_blocks (bc s)) + 1 < NBUF"
  obtains a s1 b s2 u v t where "bread E 1 x s = Inr (a, s1)" "lg s1 = lg s" "bread E 1 y s1 = Inr (b, s2)"
    "bwrite E b (buf_upd b (\<lambda>k. k\<lparr>bdata := bdata (bufat s2 a)\<rparr>) s2) = Inr u" "brelse a u = Inr v" "brelse b v = Inr t"
    "wrote c i [(y, (view (bc s) (disk s) x))] s t"
proof -
  obtain a s1 b s2 where R: "bread E 1 x s = Inr (a, s1)" "bread E 1 y s1 = Inr (b, s2)" "a \<noteq> b" "bio_inv c i {a, b} s2"
    "bio_frame s s1" "bio_frame s s2" "disk s2 = disk s" "diskw s2 = diskw s" "holds (bc s2) a x" "holds (bc s2) b y"
    "bdata (bufat s2 a) = view (bc s) (disk s) x" "bdata (bufat s2 b) = view (bc s) (disk s) y"
    "is_dirty (bufat s2 a) \<or> bdata (bufat s2 a) = disk s2 x" "is_dirty (bufat s2 b) \<or> bdata (bufat s2 b) = disk s2 y"
    "view (bc s2) (disk s2) = view (bc s) (disk s)" "dirty_blocks (bc s2) = dirty_blocks (bc s)"
    by (rule bread_two[OF assms(1-5) _ assms(7)]) (use assms(6) in auto)
  obtain u v t where C: "bwrite E b (buf_upd b (\<lambda>k. k\<lparr>bdata := bdata (bufat s2 a)\<rparr>) s2) = Inr u"
    "brelse a u = Inr v" "brelse b v = Inr t" "wrote c i [(y, (bdata (bufat s2 a)))] s2 t"
    by (rule copy_held[OF R(4) assms(2) R(3,9,10) assms(3) R(13)])
  show thesis
    using wrote_from[OF C(4) R(6-8,15,16)] R(11) by (intro that[OF R(1) klog_frame[OF R(5)] R(2) C(1-3)]) simp
qed

lemma write_step:
  assumes "bio_inv c i {} s" "drv E = iderw" "x \<noteq> y" "x < of_int (disksize s)" "y < of_int (disksize s)"
    and "card (dirty_blocks (bc s)) < NBUF" "x \<in> dirty_blocks (bc s)"
  obtains a s1 b s2 u v t where "bread E 1 y s = Inr (a, s1)" "lg s1 = lg s" "bread E 1 x s1 = Inr (b, s2)"
    "bwrite E a (buf_upd a (\<lambda>k. k\<lparr>bdata := bdata (bufat s2 b)\<rparr>) s2) = Inr u" "brelse b u = Inr v" "brelse a v = Inr t"
    "wrote c i [(y, (view (bc s) (disk s) x))] s t"
proof -
  obtain a s1 b s2 where R: "bread E 1 y s = Inr (a, s1)" "bread E 1 x s1 = Inr (b, s2)" "a \<noteq> b" "bio_inv c i {a, b} s2"
    "bio_frame s s1" "bio_frame s s2" "disk s2 = disk s" "diskw s2 = diskw s" "holds (bc s2) a y" "holds (bc s2) b x"
    "bdata (bufat s2 a) = view (bc s) (disk s) y" "bdata (bufat s2 b) = view (bc s) (disk s) x"
    "is_dirty (bufat s2 a) \<or> bdata (bufat s2 a) = disk s2 y" "is_dirty (bufat s2 b) \<or> bdata (bufat s2 b) = disk s2 x"
    "view (bc s2) (disk s2) = view (bc s) (disk s)" "dirty_blocks (bc s2) = dirty_blocks (bc s)"
    by (rule bread_two[OF assms(1,2) assms(3)[symmetric] assms(5,4)]) (use assms(6,7) in auto)
  have "bio_inv c i {b, a} s2" using R(4) by (simp add: insert_commute)
  obtain u v t where C: "bwrite E a (buf_upd a (\<lambda>k. k\<lparr>bdata := bdata (bufat s2 b)\<rparr>) s2) = Inr u"
    "brelse b u = Inr v" "brelse a v = Inr t" "wrote c i [(y, (bdata (bufat s2 b)))] s2 t"
    by (rule copy_held[OF \<open>bio_inv c i {b, a} s2\<close> assms(2) R(3)[symmetric] R(10,9) assms(3) R(14)])
  show thesis
    using wrote_from[OF C(4) R(6-8,15,16)] R(12) by (intro that[OF R(1) klog_frame[OF R(5)] R(2) C(1-3)]) simp
qed

lemma wrote_lg: "wrote c i ws (s :: 'a klog_scheme) t \<Longrightarrow> lg t = lg s"
  by (simp add: wrote_def klog_frame)

section \<open>The parts of a commit\<close>

definition head_blk :: "logst \<Rightarrow> u32" where "head_blk l = of_int (lstart l)"

definition log_blk :: "logst \<Rightarrow> nat \<Rightarrow> u32" where "log_blk l k = of_int (lstart l + int k + 1)"

definition home_blk :: "logst \<Rightarrow> nat \<Rightarrow> u32" where "home_blk l k = of_int (lhblock l ! k)"

text \<open>The log and the home blocks of \<open>n\<close> entries are different blocks of disk 1.\<close>

definition layout :: "logst \<Rightarrow> nat \<Rightarrow> int \<Rightarrow> bool" where
  "layout l n z \<longleftrightarrow> ldev l = 1 \<and> head_blk l < of_int z \<and>
     (\<forall>j < n. log_blk l j < of_int z \<and> home_blk l j < of_int z \<and> log_blk l j \<noteq> head_blk l \<and> home_blk l j \<noteq> head_blk l \<and>
        (\<forall>k < n. log_blk l j \<noteq> home_blk l k \<and> (j \<noteq> k \<longrightarrow> log_blk l j \<noteq> log_blk l k)))"

lemma layoutD:
  assumes "layout l n z" "j < n"
  shows "log_blk l j < of_int z" "home_blk l j < of_int z" "log_blk l j \<noteq> head_blk l" "home_blk l j \<noteq> head_blk l"
    "k < n \<Longrightarrow> log_blk l j \<noteq> home_blk l k" "k < n \<Longrightarrow> home_blk l k \<noteq> log_blk l j"
    "k < n \<Longrightarrow> log_blk l j = log_blk l k \<Longrightarrow> j = k" "ldev l = 1" "head_blk l < of_int z"
  using assms unfolding layout_def by (auto, (metis+)?)

lemma install_loop_ok:
  assumes "bio_inv c i {} s" "drv E = iderw" "layout (lg s) n (disksize s)" "k + m = n" "card (dirty_blocks (bc s)) < NBUF"
    and "0 < m \<Longrightarrow> home_blk (lg s) k \<in> dirty_blocks (bc s) \<or> card (dirty_blocks (bc s)) + 1 < NBUF"
  shows "\<exists>t. install_loop E m (int k) s = Inr t \<and>
     wrote c i (map (\<lambda>j. (home_blk (lg s) j, view (bc s) (disk s) (log_blk (lg s) j))) [k..<n]) s t"
  using assms
proof (induction m arbitrary: k s)
  case 0
  then show ?case by (auto intro: wrote_nil)
next
  case (Suc m)
  let ?x = "log_blk (lg s) k" and ?y = "home_blk (lg s) k"
  have kn: "k < n" and L: "?x \<noteq> ?y" "?x < of_int (disksize s)" "?y < of_int (disksize s)" "ldev (lg s) = 1"
    using Suc.prems(3,4) by (auto simp: layout_def)
  obtain a s1 b s2 u v s' where S: "bread E 1 ?x s = Inr (a, s1)" "lg s1 = lg s" "bread E 1 ?y s1 = Inr (b, s2)"
    "bwrite E b (buf_upd b (\<lambda>k. k\<lparr>bdata := bdata (bufat s2 a)\<rparr>) s2) = Inr u" "brelse a u = Inr v" "brelse b v = Inr s'"
    "wrote c i [(?y, (view (bc s) (disk s) ?x))] s s'"
    by (rule install_step[OF Suc.prems(1,2) L(1-3) Suc.prems(5)]) (use Suc.prems(6) in auto)
  note W = S(7)
  note D = wroteD[OF W]
  have lg': "lg s' = lg s" using W by (rule wrote_lg)
  have step: "install_loop E (Suc m) (int k) s = install_loop E m (int (k + 1)) s'"
    using S L(4) by (simp add: log_blk_def home_blk_def add.commute add.left_commute)
  have room: "card (dirty_blocks (bc s')) + 1 < NBUF"
  proof (cases "?y \<in> dirty_blocks (bc s)")
    case True
    then have "card (dirty_blocks (bc s')) < card (dirty_blocks (bc s))"
      using D(6) card_Diff1_less[of "dirty_blocks (bc s)" ?y] by simp
    then show ?thesis using Suc.prems(5) by linarith
  next
    case False
    then show ?thesis using Suc.prems(6) D(6) by simp
  qed
  have "\<exists>t. install_loop E m (int (k + 1)) s' = Inr t \<and>
     wrote c i (map (\<lambda>j. (home_blk (lg s') j, view (bc s') (disk s') (log_blk (lg s') j))) [k + 1..<n]) s' t"
    using Suc.prems(2-4) room D(1,2) lg' by (intro Suc.IH) auto
  then obtain t where t: "install_loop E m (int (k + 1)) s' = Inr t"
    "wrote c i (map (\<lambda>j. (home_blk (lg s') j, view (bc s') (disk s') (log_blk (lg s') j))) [k + 1..<n]) s' t" by blast
  have "view (bc s') (disk s') (log_blk (lg s) j) = view (bc s) (disk s) (log_blk (lg s) j)" if "j \<in> set [k + 1..<n]" for j
    using that kn Suc.prems(3) D(5) by (auto simp: layout_def)
  then have e: "map (\<lambda>j. (home_blk (lg s') j, view (bc s') (disk s') (log_blk (lg s') j))) [k + 1..<n] =
      map (\<lambda>j. (home_blk (lg s) j, view (bc s) (disk s) (log_blk (lg s) j))) [k + 1..<n]"
    by (intro map_cong) (auto simp: lg')
  from wrote_trans[OF W t(2)[unfolded e]] t(1) kn show ?case unfolding step by (auto simp: upt_conv_Cons)
qed

lemma write_log_loop_ok:
  assumes "bio_inv c i {} s" "drv E = iderw" "layout (lg s) n (disksize s)" "k + m = n" "card (dirty_blocks (bc s)) < NBUF"
    and "\<forall>j < n. home_blk (lg s) j \<in> dirty_blocks (bc s)"
  shows "\<exists>t. write_log_loop E m (int k) s = Inr t \<and>
     wrote c i (map (\<lambda>j. (log_blk (lg s) j, view (bc s) (disk s) (home_blk (lg s) j))) [k..<n]) s t"
  using assms
proof (induction m arbitrary: k s)
  case 0
  then show ?case by (auto intro: wrote_nil)
next
  case (Suc m)
  let ?y = "log_blk (lg s) k" and ?x = "home_blk (lg s) k"
  have kn: "k < n" using Suc.prems(4) by simp
  have L: "?x \<noteq> ?y" "?x < of_int (disksize s)" "?y < of_int (disksize s)" "ldev (lg s) = 1"
    using layoutD[OF Suc.prems(3) kn] kn by auto
  have xd: "?x \<in> dirty_blocks (bc s)" using kn Suc.prems(6) by simp
  obtain a s1 b s2 u v s' where S: "bread E 1 ?y s = Inr (a, s1)" "lg s1 = lg s" "bread E 1 ?x s1 = Inr (b, s2)"
    "bwrite E a (buf_upd a (\<lambda>k. k\<lparr>bdata := bdata (bufat s2 b)\<rparr>) s2) = Inr u" "brelse b u = Inr v" "brelse a v = Inr s'"
    "wrote c i [(?y, (view (bc s) (disk s) ?x))] s s'"
    by (rule write_step[OF Suc.prems(1,2) L(1-3) Suc.prems(5) xd])
  note W = S(7)
  note D = wroteD[OF W]
  have lg': "lg s' = lg s" using W by (rule wrote_lg)
  have step: "write_log_loop E (Suc m) (int k) s = write_log_loop E m (int (k + 1)) s'"
    using S L(4) by (simp add: log_blk_def home_blk_def add.commute add.left_commute)
  have sep: "j < n \<Longrightarrow> home_blk (lg s) j \<noteq> ?y" for j using layoutD(6)[OF Suc.prems(3) kn] by simp
  have "\<exists>t. write_log_loop E m (int (k + 1)) s' = Inr t \<and>
     wrote c i (map (\<lambda>j. (log_blk (lg s') j, view (bc s') (disk s') (home_blk (lg s') j))) [k + 1..<n]) s' t"
    using Suc.prems(2-6) D lg' sep by (intro Suc.IH) auto
  then obtain t where t: "write_log_loop E m (int (k + 1)) s' = Inr t"
    "wrote c i (map (\<lambda>j. (log_blk (lg s') j, view (bc s') (disk s') (home_blk (lg s') j))) [k + 1..<n]) s' t" by blast
  have "view (bc s') (disk s') (home_blk (lg s) j) = view (bc s) (disk s) (home_blk (lg s) j)" if "j \<in> set [k + 1..<n]" for j
    using that sep D(5) by auto
  then have e: "map (\<lambda>j. (log_blk (lg s') j, view (bc s') (disk s') (home_blk (lg s') j))) [k + 1..<n] =
      map (\<lambda>j. (log_blk (lg s) j, view (bc s) (disk s) (home_blk (lg s) j))) [k + 1..<n]"
    by (intro map_cong) (auto simp: lg')
  from wrote_trans[OF W t(2)[unfolded e]] t(1) kn show ?case unfolding step by (auto simp: upt_conv_Cons)
qed

lemma write_head_ok:
  assumes "bio_inv c i {} s" "drv E = iderw" "head_blk (lg s) < of_int (disksize s)" "ldev (lg s) = 1" "card (dirty_blocks (bc s)) < NBUF"
  shows "\<exists>t. write_head E s = Inr t \<and>
     wrote c i [(head_blk (lg s), put_head (lg s) (view (bc s) (disk s) (head_blk (lg s))))] s t"
proof -
  obtain b s1 u t where R: "bread E 1 (head_blk (lg s)) s = Inr (b, s1)" "bio_frame s s1"
    "bwrite E b (buf_upd b (\<lambda>x. x\<lparr>bdata := put_head (lg s) (bdata x)\<rparr>) s1) = Inr u" "brelse b u = Inr t"
    "wrote c i [(head_blk (lg s), put_head (lg s) (view (bc s) (disk s) (head_blk (lg s))))] s t"
    by (rule update_step[OF assms(1-3,5)])
  have "write_head E s = Inr t"
    using R assms(4) klog_frame[OF R(2)] by (simp add: write_head_def head_blk_def)
  with R(5) show ?thesis by blast
qed

section \<open>Commit and recovery\<close>

text \<open>The writes of the second half of a commit, which recovery repeats: the blocks of the log go home, and the header is cleared.\<close>

definition install_writes :: "logst \<Rightarrow> (u32 \<Rightarrow> block) \<Rightarrow> (u32 \<times> block) list" where
  "install_writes l v =
     map (\<lambda>j. (home_blk l j, v (log_blk l j))) [0..<nat (lhn l)] @ [(head_blk l, put_head (l\<lparr>lhn := 0\<rparr>) (v (head_blk l)))]"

definition commit_writes :: "logst \<Rightarrow> (u32 \<Rightarrow> block) \<Rightarrow> (u32 \<times> block) list" where
  "commit_writes l v =
     (let n = nat (lhn l); h1 = put_head l (v (head_blk l)) in
      map (\<lambda>j. (log_blk l j, v (home_blk l j))) [0..<n] @ [(head_blk l, h1)] @
      map (\<lambda>j. (home_blk l j, v (home_blk l j))) [0..<n] @ [(head_blk l, put_head (l\<lparr>lhn := 0\<rparr>) h1)])"

definition cleared :: "nat \<Rightarrow> nat \<Rightarrow> (u32 \<times> block) list \<Rightarrow> 'a klog_scheme \<Rightarrow> 'a klog_scheme \<Rightarrow> bool" where
  "cleared c i ws s t \<longleftrightarrow> lg t = (lg s)\<lparr>lhn := 0\<rparr> \<and> core t = core s \<and> bio_inv c i {} t \<and> disksize t = disksize s \<and>
     disk t = apply_writes ws (disk s) \<and> diskw t = diskw s @ ws \<and> dirty_blocks (bc t) = dirty_blocks (bc s) - fst ` set ws"

lemma blk_lhn [simp]: "head_blk (l\<lparr>lhn := n\<rparr>) = head_blk l" "log_blk (l\<lparr>lhn := n\<rparr>) j = log_blk l j" "home_blk (l\<lparr>lhn := n\<rparr>) j = home_blk l j"
  by (simp_all add: head_blk_def log_blk_def home_blk_def)

lemma home_writes_head:
  "layout l n z \<Longrightarrow> apply_writes (map (\<lambda>j. (home_blk l j, g j)) [0..<n]) d (head_blk l) = d (head_blk l)"
  by (rule apply_writes_other) (force dest: layoutD(4))

lemma log_writes_head:
  "layout l n z \<Longrightarrow> apply_writes (map (\<lambda>j. (log_blk l j, g j)) [0..<n]) d (head_blk l) = d (head_blk l)"
  by (rule apply_writes_other) (force dest: layoutD(3))

lemma install_clear_ok:
  assumes "bio_inv c i {} s" "drv E = iderw" "layout (lg s) (nat (lhn (lg s))) (disksize s)" "card (dirty_blocks (bc s)) < NBUF"
    and "0 < lhn (lg s) \<Longrightarrow> home_blk (lg s) 0 \<in> dirty_blocks (bc s) \<or> card (dirty_blocks (bc s)) + 1 < NBUF"
  shows "\<exists>t. kbind (install_trans E s) (\<lambda>s3. write_head E (lg_upd (\<lambda>l. l\<lparr>lhn := 0\<rparr>) s3)) = Inr t \<and>
     cleared c i (install_writes (lg s) (view (bc s) (disk s))) s t"
proof -
  let ?l = "lg s" and ?n = "nat (lhn (lg s))" and ?v = "view (bc s) (disk s)" and ?h = "head_blk (lg s)"
  let ?w = "map (\<lambda>j. (home_blk ?l j, ?v (log_blk ?l j))) [0..<?n]"
  have "\<exists>t. install_loop E ?n (int 0) s = Inr t \<and> wrote c i ?w s t"
    using assms by (intro install_loop_ok) auto
  then obtain s3 where s3: "install_trans E s = Inr s3" "wrote c i ?w s s3" by (auto simp: install_trans_def)
  note D3 = wroteD[OF s3(2)] and l3 = wrote_lg[OF s3(2)]
  let ?u = "lg_upd (\<lambda>l. l\<lparr>lhn := 0\<rparr>) s3"
  have hv: "view (bc s3) (disk s3) ?h = ?v ?h" using home_writes_head[OF assms(3)] by (simp add: D3(5))
  have hz: "ldev ?l = 1" "?h < of_int (disksize s)" using assms(3) by (simp_all add: layout_def)
  have "\<exists>t. write_head E ?u = Inr t \<and> wrote c i [(head_blk (lg ?u), put_head (lg ?u) (view (bc ?u) (disk ?u) (head_blk (lg ?u))))] ?u t"
    by (rule write_head_ok) (use D3(1,2,7) assms(2,4) hz in \<open>simp_all add: l3\<close>)
  then obtain t where t: "write_head E ?u = Inr t" "wrote c i [(?h, put_head (?l\<lparr>lhn := 0\<rparr>) (?v ?h))] ?u t"
    by (auto simp: l3 hv)
  note D4 = wroteD[OF t(2)] and l4 = wrote_lg[OF t(2)]
  have "cleared c i (install_writes ?l ?v) s t"
    using D4(1,2,8) D3(2,8)
    by (auto simp: cleared_def install_writes_def l3 l4 D4(3,4,6) D3(3,4,6) image_Un)
  with s3(1) t(1) show ?thesis by simp
qed

text \<open>A transaction that is ready to be committed: every block it has logged is pinned in the cache.\<close>

definition log_ready :: "nat \<Rightarrow> nat \<Rightarrow> 'a klog_scheme \<Rightarrow> bool" where
  "log_ready c i s \<longleftrightarrow> bio_inv c i {} s \<and> 0 < lhn (lg s) \<and> layout (lg s) (nat (lhn (lg s))) (disksize s) \<and>
     card (dirty_blocks (bc s)) < NBUF \<and> (\<forall>j < nat (lhn (lg s)). home_blk (lg s) j \<in> dirty_blocks (bc s))"

lemma commit_ok:
  assumes "log_ready c i s" "drv E = iderw"
  shows "\<exists>t. commit E s = Inr t \<and> cleared c i (commit_writes (lg s) (view (bc s) (disk s))) s t"
proof -
  let ?l = "lg s" and ?n = "nat (lhn (lg s))" and ?v = "view (bc s) (disk s)" and ?h = "head_blk (lg s)"
  have inv: "bio_inv c i {} s" and L: "layout ?l ?n (disksize s)" and card: "card (dirty_blocks (bc s)) < NBUF"
    and n: "0 < lhn ?l" and pin: "\<forall>j < ?n. home_blk ?l j \<in> dirty_blocks (bc s)"
    using assms(1) by (simp_all add: log_ready_def)
  note LD = layoutD[OF L]
  have n0: "0 < ?n" using n by simp
  let ?w1 = "map (\<lambda>j. (log_blk ?l j, ?v (home_blk ?l j))) [0..<?n]" and ?h1 = "put_head ?l (?v ?h)"
  obtain s1 where s1: "write_log E s = Inr s1" "wrote c i ?w1 s s1"
    using write_log_loop_ok[OF inv assms(2) L _ card pin, of 0 ?n] by (auto simp: write_log_def)
  note D1 = wroteD[OF s1(2)] and l1 = wrote_lg[OF s1(2)]
  have "\<exists>t. write_head E s1 = Inr t \<and> wrote c i [(head_blk (lg s1), put_head (lg s1) (view (bc s1) (disk s1) (head_blk (lg s1))))] s1 t"
    using D1 card LD(8,9)[OF n0] by (intro write_head_ok assms(2)) (simp_all add: l1)
  then obtain s2 where s2: "write_head E s1 = Inr s2" "wrote c i [(?h, ?h1)] s1 s2"
    by (auto simp: l1 D1(5) log_writes_head[OF L])
  note D2 = wroteD[OF s2(2)] and l2 = wrote_lg[OF s2(2)]
  have logv: "view (bc s2) (disk s2) (log_blk ?l j) = ?v (home_blk ?l j)" if "j < ?n" for j
  proof -
    have "apply_writes ?w1 ?v (log_blk ?l j) = ?v (home_blk ?l j)"
      using that LD(7) by (intro apply_writes_map) auto
    then show ?thesis using LD(3)[OF that] by (simp add: D2(5) D1(5))
  qed
  have pin2: "home_blk ?l 0 \<in> dirty_blocks (bc s2)"
    using pin n0 LD(4)[OF n0] LD(5) by (fastforce simp: D1(6) D2(6))
  have "\<exists>t. kbind (install_trans E s2) (\<lambda>s3. write_head E (lg_upd (\<lambda>l. l\<lparr>lhn := 0\<rparr>) s3)) = Inr t \<and>
      cleared c i (install_writes (lg s2) (view (bc s2) (disk s2))) s2 t"
    using D1(2,7) D2(1,2,7) L card pin2 by (intro install_clear_ok assms(2)) (simp_all add: l1 l2)
  moreover have hv2: "view (bc s2) (disk s2) ?h = ?h1" by (simp add: D2(5))
  then have "install_writes (lg s2) (view (bc s2) (disk s2)) =
      map (\<lambda>j. (home_blk ?l j, ?v (home_blk ?l j))) [0..<?n] @ [(?h, put_head (?l\<lparr>lhn := 0\<rparr>) ?h1)]"
    by (simp add: install_writes_def l1 l2 logv)
  ultimately obtain t where t: "kbind (install_trans E s2) (\<lambda>s3. write_head E (lg_upd (\<lambda>l. l\<lparr>lhn := 0\<rparr>) s3)) = Inr t"
    "cleared c i (map (\<lambda>j. (home_blk ?l j, ?v (home_blk ?l j))) [0..<?n] @ [(?h, put_head (?l\<lparr>lhn := 0\<rparr>) ?h1)]) s2 t" by auto
  have "commit E s = Inr t" using n s1(1) s2(1) t(1) by (simp add: commit_def)
  moreover have "cleared c i (commit_writes ?l ?v) s t"
    using t(2) D1(2,8) D2(2,8)
    by (auto simp: cleared_def commit_writes_def Let_def l1 l2 D2(3,4,6) D1(3,4,6) image_Un)
  ultimately show ?thesis by blast
qed

text \<open>Recovery, on a cache that holds nothing newer than the disk.\<close>

lemma view_undirty: "contents_ok {} f d z \<Longrightarrow> n \<notin> dirty_blocks f \<Longrightarrow> view f d n = d n"
proof (cases "\<exists>b. holds f b n")
  case True
  assume a: "contents_ok {} f d z" "n \<notin> dirty_blocks f"
  from True obtain b where b: "holds f b n" by blast
  then have "bdata (f b) = d n" using a by (auto simp: contents_ok_def holds_def dirty_blocks_def)
  then show ?thesis using view_held[OF a(1) b] by simp
next
  case False
  then show ?thesis by (simp add: view_none)
qed

lemma view_clean: "contents_ok {} f d z \<Longrightarrow> dirty_blocks f = {} \<Longrightarrow> view f d = d"
  using view_undirty by (intro ext) blast

definition head_of :: "logst \<Rightarrow> block \<Rightarrow> logst" where
  "head_of l d = (let n = sint (get32 d 0) in
     l\<lparr>lhn := n, lhblock := map (\<lambda>j. sint (get32 d (4 + 4 * j))) [0..<nat n] @ drop (nat n) (lhblock l)\<rparr>)"

lemma bio_frame_lg: "bio_frame s t \<Longrightarrow> bio_frame (lg_upd f s) (lg_upd f t)"
proof -
  assume "bio_frame s t"
  moreover have "kbio.more t = kbio.more s \<Longrightarrow> kbio.more (lg_upd f t) = kbio.more (lg_upd f s)"
    by (cases s; cases t) (simp add: lg_upd_def)
  ultimately show ?thesis by (simp add: bio_frame_def)
qed

lemma read_head_ok:
  assumes "bio_inv c i {} s" "drv E = iderw" "ldev (lg s) = 1" "head_blk (lg s) < of_int (disksize s)"
    and "dirty_blocks (bc s) = {}" "sint (get32 (disk s (head_blk (lg s))) 0) \<le> int LOGSIZE"
  shows "\<exists>t. read_head E s = Inr t \<and> lg t = head_of (lg s) (disk s (head_blk (lg s))) \<and> bio_inv c i {} t \<and>
     disksize t = disksize s \<and> disk t = disk s \<and> diskw t = diskw s \<and> dirty_blocks (bc t) = {}"
proof -
  let ?h = "head_blk (lg s)"
  have "?h \<in> dirty_blocks (bc s) \<or> card (dirty_blocks (bc s)) + card ({} :: nat set) < NBUF" using assms(5) by (simp add: NBUF_def)
  from bread_room[OF assms(1,2,4) _ this] obtain b s1 where b: "bread E 1 ?h s = Inr (b, s1)" "bread_result c i {} ?h s b s1"
    by blast
  note R = b(2)[unfolded bread_result_def]
  have d: "bdata (bufat s1 b) = disk s ?h" using R view_clean[OF bio_invD(3)[OF assms(1)] assms(5)] by simp
  let ?f = "\<lambda>_. head_of (lg s) (disk s ?h)"
  have inv: "bio_inv c i {b} (lg_upd ?f s1)" using R by simp
  have rb: "is_dirty (bufat (lg_upd ?f s1) b) \<or> bdata (bufat (lg_upd ?f s1) b) = disk (lg_upd ?f s1) (blockno (bufat (lg_upd ?f s1) b))"
  proof -
    have "blockno (bufat s1 b) = ?h" "disk s1 = disk s" using R by (simp_all add: holds_def)
    then show ?thesis using d by simp
  qed
  obtain t where t: "brelse b (lg_upd ?f s1) = Inr t" "bio_inv c i ({b} - {b}) t" "bio_frame (lg_upd ?f s1) t"
    "disk t = disk (lg_upd ?f s1)" "diskw t = diskw (lg_upd ?f s1)" "\<forall>z < NBUF. bc t z = bc (lg_upd ?f s1) z"
    by (rule brelse_ok[OF inv _ rb]) simp
  have l1: "lg s1 = lg s" using R by (intro klog_frame) simp
  have e: "lg_upd (\<lambda>l. l\<lparr>lhn := sint (get32 (disk s ?h) 0), lhblock := map (\<lambda>i. sint (get32 (disk s ?h) (4 + 4 * i))) [0..<nat (sint (get32 (disk s ?h) 0))] @
      drop (nat (sint (get32 (disk s ?h) 0))) (lhblock l)\<rparr>) s1 = lg_upd ?f s1"
    by (simp add: lg_upd_def head_of_def l1 Let_def)
  have "read_head E s = Inr t"
    using b(1) assms(3,6) t(1) d by (simp add: read_head_def head_blk_def Let_def not_less e[unfolded head_blk_def])
  moreover have "lg t = head_of (lg s) (disk s ?h)" using klog_frame[OF t(3)] by simp
  moreover have "dirty_blocks (bc t) = {}" using same_contents(2)[of "bc t" "bc s1"] t(6) R assms(5) by simp
  ultimately show ?thesis using t(2-5) R by (simp add: bio_frame_def)
qed

lemma recover_ok:
  assumes "bio_inv c i {} s" "drv E = iderw" "dirty_blocks (bc s) = {}"
    and "l = head_of (lg s) (disk s (head_blk (lg s)))" "layout l (nat (lhn l)) (disksize s)" "lhn l \<le> int LOGSIZE"
  shows "\<exists>t. recover_from_log E s = Inr t \<and> bio_inv c i {} t \<and> dirty_blocks (bc t) = {} \<and> lg t = l\<lparr>lhn := 0\<rparr> \<and>
     disksize t = disksize s \<and> disk t = apply_writes (install_writes l (disk s)) (disk s) \<and>
     diskw t = diskw s @ install_writes l (disk s)"
proof -
  have hl: "head_blk (lg s) = head_blk l" "ldev (lg s) = ldev l"
    by (simp_all add: assms(4) head_of_def head_blk_def Let_def)
  have le: "head_of (lg s) (disk s (head_blk l)) = l" unfolding hl(1)[symmetric] assms(4)[symmetric] ..
  have hz: "ldev l = 1" "head_blk l < of_int (disksize s)" using assms(5) by (simp_all add: layout_def)
  have "sint (get32 (disk s (head_blk (lg s))) 0) \<le> int LOGSIZE" using assms(4,6) by (simp add: head_of_def Let_def)
  with read_head_ok[OF assms(1,2) _ _ assms(3)] hz obtain u where
    u: "read_head E s = Inr u" "lg u = l" "bio_inv c i {} u" "disksize u = disksize s" "disk u = disk s" "diskw u = diskw s"
      "dirty_blocks (bc u) = {}" by (auto simp: hl le)
  have v: "view (bc u) (disk u) = disk s" using view_clean[OF bio_invD(3)[OF u(3)] u(7)] u(5) by simp
  have "\<exists>t. kbind (install_trans E u) (\<lambda>s3. write_head E (lg_upd (\<lambda>l. l\<lparr>lhn := 0\<rparr>) s3)) = Inr t \<and>
      cleared c i (install_writes (lg u) (view (bc u) (disk u))) u t"
    using u assms(5) by (intro install_clear_ok assms(2)) (simp_all add: NBUF_def)
  then obtain t where t: "kbind (install_trans E u) (\<lambda>s3. write_head E (lg_upd (\<lambda>l. l\<lparr>lhn := 0\<rparr>) s3)) = Inr t"
    "cleared c i (install_writes l (disk s)) u t" unfolding v u(2) by blast
  then have "recover_from_log E s = Inr t" using u(1) by (simp add: recover_from_log_def)
  then show ?thesis using t(2) u by (auto simp: cleared_def)
qed

section \<open>Crashes\<close>

lemma apply_writes_cong: "x \<in> fst ` set ws \<Longrightarrow> apply_writes ws d x = apply_writes ws d' x"
proof (induction ws arbitrary: d d')
  case (Cons w ws)
  show ?case
  proof (cases "x \<in> fst ` set ws")
    case True
    then show ?thesis using Cons.IH by (cases w) auto
  next
    case False
    then show ?thesis using Cons.prems by (cases w) (auto simp: apply_writes_other)
  qed
qed simp

lemma apply_writes_prefix: "apply_writes ws (apply_writes (take k ws) d) = apply_writes ws d"
proof
  fix x
  show "apply_writes ws (apply_writes (take k ws) d) x = apply_writes ws d x"
  proof (cases "x \<in> fst ` set ws")
    case True
    then show ?thesis by (rule apply_writes_cong)
  next
    case False
    then have "x \<notin> fst ` set (take k ws)" by (auto dest: in_set_takeD)
    with False show ?thesis by (simp add: apply_writes_other)
  qed
qed

text \<open>
  The machine after a crash and a new start: an unused cache, and the log located as before. The
  block number is outside the log if it is neither the header nor one of the first \<open>n\<close> log blocks.
\<close>

definition rebooted :: "nat \<Rightarrow> nat \<Rightarrow> logst \<Rightarrow> int \<Rightarrow> (u32 \<Rightarrow> block) \<Rightarrow> 'a klog_scheme \<Rightarrow> bool" where
  "rebooted c i l z d s \<longleftrightarrow> bio_inv c i {} s \<and> dirty_blocks (bc s) = {} \<and> disk s = d \<and> disksize s = z \<and>
     lstart (lg s) = lstart l \<and> ldev (lg s) = 1"

definition outside_log :: "logst \<Rightarrow> nat \<Rightarrow> u32 \<Rightarrow> bool" where
  "outside_log l n x \<longleftrightarrow> x \<noteq> head_blk l \<and> (\<forall>j < n. x \<noteq> log_blk l j)"

lemma head_of_simps:
  "head_blk (head_of l d) = head_blk l" "log_blk (head_of l d) j = log_blk l j" "ldev (head_of l d) = ldev l"
  "lhn (head_of l d) = sint (get32 d 0)"
  "j < nat (sint (get32 d 0)) \<Longrightarrow> home_blk (head_of l d) j = get32 d (4 + 4 * j)"
  by (simp_all add: head_of_def head_blk_def log_blk_def home_blk_def Let_def nth_append)

lemma small_word: "0 \<le> n \<Longrightarrow> n \<le> int LOGSIZE \<Longrightarrow> sint (of_int n :: u32) = n"
  by (simp add: signed_of_int signed_take_bit_int_eq_self LOGSIZE_def)

lemma layout_head_of:
  assumes "layout l (nat (lhn l)) z" "0 \<le> lhn l" "lhn l \<le> int LOGSIZE" "length d = BSIZE" "lstart l' = lstart l" "ldev l' = 1"
    and "l0 = head_of l' (put_head l d)"
  shows "lhn l0 = lhn l" "head_blk l0 = head_blk l" "log_blk l0 j = log_blk l j"
    "j < nat (lhn l) \<Longrightarrow> home_blk l0 j = home_blk l j" "layout l0 (nat (lhn l0)) z"
proof -
  note P = put_head_get[OF assms(2-4)]
  show n: "lhn l0 = lhn l" using assms(2,3) by (simp add: assms(7) head_of_simps P(1) small_word)
  show h: "head_blk l0 = head_blk l" "log_blk l0 j = log_blk l j" for j
    using assms(5) by (simp_all add: assms(7) head_of_simps) (simp_all add: head_blk_def log_blk_def)
  show b: "j < nat (lhn l) \<Longrightarrow> home_blk l0 j = home_blk l j" for j
    using assms(2,3) by (simp add: assms(7) head_of_simps P small_word) (simp add: home_blk_def)
  have "ldev l0 = 1" using assms(6) by (simp add: assms(7) head_of_simps)
  then show "layout l0 (nat (lhn l0)) z" using assms(1) b unfolding layout_def n h by auto
qed

lemma put_head_0: "put_head (l\<lparr>lhn := 0\<rparr>) e = put32 e 0 0"
  by (simp add: put_head_def)

lemma head_of_cong:
  assumes "lstart l' = lstart l" "ldev l' = ldev l"
  shows "lhn (head_of l' d) = lhn (head_of l d)" "head_blk (head_of l' d) = head_blk (head_of l d)" "log_blk (head_of l' d) j = log_blk (head_of l d) j"
    "j < nat (lhn (head_of l d)) \<Longrightarrow> home_blk (head_of l' d) j = home_blk (head_of l d) j"
    "layout (head_of l' d) (nat (lhn (head_of l d))) z = layout (head_of l d) (nat (lhn (head_of l d))) z"
proof -
  show h: "lhn (head_of l' d) = lhn (head_of l d)" "head_blk (head_of l' d) = head_blk (head_of l d)" "log_blk (head_of l' d) j = log_blk (head_of l d) j"
    "j < nat (lhn (head_of l d)) \<Longrightarrow> home_blk (head_of l' d) j = home_blk (head_of l d) j" for j
    using assms by (simp_all add: head_of_simps) (simp_all add: head_blk_def log_blk_def)
  have "ldev (head_of l' d) = ldev (head_of l d)" using assms by (simp add: head_of_simps)
  then show "layout (head_of l' d) (nat (lhn (head_of l d))) z = layout (head_of l d) (nat (lhn (head_of l d))) z"
    unfolding layout_def using h by auto
qed

text \<open>Recovery after a new start, in terms of the disk alone.\<close>

definition recovery_writes :: "logst \<Rightarrow> (u32 \<Rightarrow> block) \<Rightarrow> (u32 \<times> block) list" where
  "recovery_writes l d =
     (let l0 = head_of l (d (head_blk l)) in
      map (\<lambda>j. (home_blk l0 j, d (log_blk l j))) [0..<nat (lhn l0)] @ [(head_blk l, put32 (d (head_blk l)) 0 0)])"

lemma recover_rebooted:
  assumes "rebooted c i l z d s" "drv E = iderw" "ldev l = 1" "l0 = head_of l (d (head_blk l))"
    and "layout l0 (nat (lhn l0)) z" "lhn l0 \<le> int LOGSIZE"
  shows "\<exists>t. recover_from_log E s = Inr t \<and> disk t = apply_writes (recovery_writes l d) d \<and> diskw t = diskw s @ recovery_writes l d"
proof -
  have r: "bio_inv c i {} s" "dirty_blocks (bc s) = {}" "disk s = d" "disksize s = z" "ldev (lg s) = ldev l" "head_blk (lg s) = head_blk l"
    "lstart (lg s) = lstart l"
    using assms(1,3) by (simp_all add: rebooted_def head_blk_def)
  let ?l = "head_of (lg s) (disk s (head_blk (lg s)))"
  note C = head_of_cong[OF r(7,5), where d = "d (head_blk l)", folded assms(4)]
  have l: "?l = head_of (lg s) (d (head_blk l))" using r by simp
  have "layout ?l (nat (lhn ?l)) (disksize s)" "lhn ?l \<le> int LOGSIZE" unfolding l r(4) using C assms(5,6) by simp_all
  from recover_ok[OF r(1) assms(2) r(2) refl this] obtain t where
    t: "recover_from_log E s = Inr t" "disk t = apply_writes (install_writes ?l (disk s)) (disk s)"
      "diskw t = diskw s @ install_writes ?l (disk s)" by auto
  have "install_writes ?l (disk s) = recovery_writes l d"
    unfolding l install_writes_def recovery_writes_def Let_def assms(4)[symmetric] r(3) put_head_0
    using C(1-4) by (simp add: assms(4) head_of_simps(1,2))
  with t r(3) show ?thesis by auto
qed

lemma recover_empty:
  assumes "rebooted c i l z d s" "drv E = iderw" "ldev l = 1" "head_blk l < of_int z" "get32 (d (head_blk l)) 0 = 0"
  shows "\<exists>t. recover_from_log E s = Inr t \<and> (\<forall>x. x \<noteq> head_blk l \<longrightarrow> disk t x = d x)"
proof -
  have n: "lhn (head_of l (d (head_blk l))) = 0" using assms(5) by (simp add: head_of_simps)
  have "layout (head_of l (d (head_blk l))) (nat (lhn (head_of l (d (head_blk l))))) z"
    using assms(3-5) by (simp add: layout_def head_of_simps)
  from recover_rebooted[OF assms(1-3) refl this] n show ?thesis by (auto simp: recovery_writes_def)
qed

lemma recover_committed:
  assumes "rebooted c i l z d s" "drv E = iderw" "layout l n z" "lhn l = int n" "lhn l \<le> int LOGSIZE"
    and "d (head_blk l) = put_head l e" "length e = BSIZE"
  shows "\<exists>t. recover_from_log E s = Inr t \<and>
     (\<forall>x. x \<noteq> head_blk l \<longrightarrow> disk t x = apply_writes (map (\<lambda>j. (home_blk l j, d (log_blk l j))) [0..<n]) d x)"
proof -
  define l0 where "l0 = head_of l (d (head_blk l))"
  have l0: "l0 = head_of l (put_head l e)" by (simp add: l0_def assms(6))
  have L: "layout l (nat (lhn l)) z" "0 \<le> lhn l" "ldev l = 1" using assms(3,4) by (simp_all add: layout_def)
  note H = layout_head_of[OF L(1,2) assms(5,7) refl L(3) l0]
  have "lhn l0 \<le> int LOGSIZE" using H(1) assms(5) by simp
  from recover_rebooted[OF assms(1,2) L(3) l0_def H(5) this] obtain t where
    t: "recover_from_log E s = Inr t" "disk t = apply_writes (recovery_writes l d) d" by blast
  have "recovery_writes l d = map (\<lambda>j. (home_blk l j, d (log_blk l j))) [0..<n] @ [(head_blk l, put32 (d (head_blk l)) 0 0)]"
    unfolding recovery_writes_def Let_def l0_def[symmetric] using H(1,4) assms(4) by simp
  then show ?thesis using t by auto
qed

text \<open>The disk after the first \<open>m\<close> writes of a commit, by how far it got.\<close>

lemma take_map_keys: "\<forall>j < n. y \<noteq> f j \<Longrightarrow> y \<notin> fst ` set (take k (map (\<lambda>j. (f j, g j)) [0..<n]))"
proof -
  have "fst ` set (take k (map (\<lambda>j. (f j, g j)) [0..<n])) \<subseteq> f ` {..<n}" by (auto dest!: in_set_takeD)
  then show "\<forall>j < n. y \<noteq> f j \<Longrightarrow> ?thesis" by auto
qed

lemma commit_prefix:
  assumes "layout l n z" "lhn l = int n" and d: "d = apply_writes (take m (commit_writes l v)) d0"
  shows "m \<le> n \<Longrightarrow> d (head_blk l) = d0 (head_blk l)"
    "m \<le> n \<Longrightarrow> outside_log l n x \<Longrightarrow> d x = d0 x"
    "n < m \<Longrightarrow> m \<le> 2 * n + 1 \<Longrightarrow> d (head_blk l) = put_head l (v (head_blk l))"
    "n < m \<Longrightarrow> m \<le> 2 * n + 1 \<Longrightarrow> j < n \<Longrightarrow> d (log_blk l j) = v (home_blk l j)"
    "n < m \<Longrightarrow> m \<le> 2 * n + 1 \<Longrightarrow> outside_log l n x \<Longrightarrow>
       apply_writes (map (\<lambda>j. (home_blk l j, v (home_blk l j))) [0..<n]) d x = apply_writes (commit_writes l v) d0 x"
proof -
  let ?wl = "map (\<lambda>j. (log_blk l j, v (home_blk l j))) [0..<n]" and ?wb = "map (\<lambda>j. (home_blk l j, v (home_blk l j))) [0..<n]"
  let ?h = "head_blk l" and ?h1 = "put_head l (v (head_blk l))"
  note LD = layoutD[OF assms(1)]
  have W: "commit_writes l v = ?wl @ [(?h, ?h1)] @ ?wb @ [(?h, put_head (l\<lparr>lhn := 0\<rparr>) ?h1)]"
    using assms(2) by (simp add: commit_writes_def Let_def)
  show "d ?h = d0 ?h" "outside_log l n x \<Longrightarrow> d x = d0 x" if "m \<le> n"
  proof -
    have "d = apply_writes (take m ?wl) d0" using that by (simp add: d W)
    then have dy: "d y = d0 y" if "\<forall>j < n. y \<noteq> log_blk l j" for y
      using apply_writes_other[OF take_map_keys[OF that]] by simp
    show "d ?h = d0 ?h" by (rule dy) (metis LD(3))
    show "outside_log l n x \<Longrightarrow> d x = d0 x" using dy[of x] by (simp add: outside_log_def)
  qed
  assume m: "n < m" "m \<le> 2 * n + 1"
  define k where "k = m - n - 1"
  have m': "m = n + 1 + k" "k \<le> n" using m by (simp_all add: k_def)
  define d1 where "d1 = (apply_writes ?wl d0)(?h := ?h1)"
  have dk: "d = apply_writes (take k ?wb) d1" using m' by (simp add: d W d1_def take_Cons')
  have dy: "d y = d1 y" if "\<forall>j < n. y \<noteq> home_blk l j" for y
    unfolding dk by (rule apply_writes_other[OF take_map_keys[OF that]])
  have "d ?h = d1 ?h" by (rule dy) (metis LD(4))
  then show "d ?h = ?h1" by (simp add: d1_def)
  show "d (log_blk l j) = v (home_blk l j)" if j: "j < n"
  proof -
    have "d (log_blk l j) = d1 (log_blk l j)" by (rule dy) (use LD(5)[OF j] in auto)
    moreover have "apply_writes ?wl d0 (log_blk l j) = v (home_blk l j)"
      using j LD(7) by (intro apply_writes_map) auto
    ultimately show ?thesis using LD(3)[OF j] by (simp add: d1_def)
  qed
  show "apply_writes ?wb d x = apply_writes (commit_writes l v) d0 x" if "outside_log l n x"
    using that by (simp add: dk apply_writes_prefix W d1_def outside_log_def)
qed

text \<open>A commit that is cut off after \<open>m\<close> disk writes: recovery gives all of it or none of it.\<close>

lemma commit_crash:
  assumes "log_ready c i s" "drv E = iderw" "lhn (lg s) \<le> int LOGSIZE"
    and "get32 (disk s (head_blk (lg s))) 0 = 0" "length (view (bc s) (disk s) (head_blk (lg s))) = BSIZE"
  shows "\<exists>t. commit E s = Inr t \<and>
     (\<forall>m c' i' s'. rebooted c' i' (lg s) (disksize s) (apply_writes (take m (drop (length (diskw s)) (diskw t))) (disk s)) s' \<longrightarrow>
        (\<exists>u. recover_from_log E s' = Inr u \<and>
          (\<forall>x. outside_log (lg s) (nat (lhn (lg s))) x \<longrightarrow> disk u x = (if m \<le> nat (lhn (lg s)) then disk s x else disk t x))))"
proof -
  let ?l = "lg s" and ?n = "nat (lhn (lg s))" and ?v = "view (bc s) (disk s)" and ?h = "head_blk (lg s)"
  have L: "layout ?l ?n (disksize s)" and n: "lhn ?l = int ?n" using assms(1) by (auto simp: log_ready_def)
  obtain t where t: "commit E s = Inr t" "cleared c i (commit_writes ?l ?v) s t" using commit_ok[OF assms(1,2)] by blast
  have dt: "disk t = apply_writes (commit_writes ?l ?v) (disk s)" "drop (length (diskw s)) (diskw t) = commit_writes ?l ?v"
    using t(2) by (simp_all add: cleared_def)
  have "\<exists>u. recover_from_log E s' = Inr u \<and> (\<forall>x. outside_log ?l ?n x \<longrightarrow> disk u x = (if m \<le> ?n then disk s x else disk t x))"
    if r: "rebooted c' i' ?l (disksize s) (apply_writes (take m (commit_writes ?l ?v)) (disk s)) s'" for m c' i' s'
  proof -
    define d where "d = apply_writes (take m (commit_writes ?l ?v)) (disk s)"
    note r = r[folded d_def] and P = commit_prefix[OF L n d_def]
    have hz: "?h < of_int (disksize s)" "ldev ?l = 1" using L by (simp_all add: layout_def)
    consider "m \<le> ?n" | "?n < m" "m \<le> 2 * ?n + 1" | "2 * ?n + 2 \<le> m" by linarith
    then show ?thesis
    proof cases
      case 1
      then show ?thesis
        using recover_empty[OF r assms(2) hz(2,1)] P(1,2) assms(4) by (auto simp: outside_log_def)
    next
      case 2
      have e: "map (\<lambda>j. (home_blk ?l j, d (log_blk ?l j))) [0..<?n] = map (\<lambda>j. (home_blk ?l j, ?v (home_blk ?l j))) [0..<?n]"
        using P(4)[OF 2] by simp
      from recover_committed[OF r assms(2) L n assms(3) P(3)[OF 2] assms(5), unfolded e] P(5)[OF 2] 2(1) show ?thesis
        by (auto simp: outside_log_def dt)
    next
      case 3
      have "length (commit_writes ?l ?v) = 2 * ?n + 2" by (simp add: commit_writes_def Let_def)
      then have d: "d = disk t" using 3 by (simp add: d_def dt)
      have "get32 (put_head (?l\<lparr>lhn := 0\<rparr>) (put_head ?l (?v ?h))) 0 = 0" using assms(5) by (simp add: put_head_get(1))
      then have "get32 (d ?h) 0 = 0" by (simp add: d dt commit_writes_def Let_def)
      from recover_empty[OF r assms(2) hz(2,1) this] 3 show ?thesis by (auto simp: outside_log_def d)
    qed
  qed
  with t(1) show ?thesis by (intro exI[of _ t]) (simp add: dt(2))
qed

text \<open>
  C4. Recovery may itself be interrupted. Let the machine crash after the first \<open>k\<close> disk writes of
  \<^verbatim>\<open>recover_from_log\<close> and start again: running it once more returns, and the disk outside the header
  is what the first run would have made it.
\<close>

theorem recovery_restartable:
  assumes "rebooted c i l z d s" "drv E = iderw" "ldev l = 1" "l0 = head_of l (d (head_blk l))"
    and "layout l0 (nat (lhn l0)) z" "lhn l0 \<le> int LOGSIZE" "length (d (head_blk l)) = BSIZE"
  shows "\<exists>t. recover_from_log E s = Inr t \<and>
     (\<forall>k c' i' s'. rebooted c' i' l z (apply_writes (take k (drop (length (diskw s)) (diskw t))) d) s' \<longrightarrow>
        (\<exists>u. recover_from_log E s' = Inr u \<and> (\<forall>x. x \<noteq> head_blk l \<longrightarrow> disk u x = disk t x)))"
proof -
  let ?n = "nat (lhn l0)" and ?h = "head_blk l"
  let ?wb = "map (\<lambda>j. (home_blk l0 j, d (log_blk l j))) [0..<?n]"
  obtain t where t: "recover_from_log E s = Inr t" "disk t = apply_writes (recovery_writes l d) d" "diskw t = diskw s @ recovery_writes l d"
    using recover_rebooted[OF assms(1-6)] by blast
  have W: "recovery_writes l d = ?wb @ [(?h, put32 (d ?h) 0 0)]"
    by (simp add: recovery_writes_def Let_def flip: assms(4))
  note LD = layoutD[OF assms(5)]
  have hl: "head_blk l0 = ?h" "log_blk l0 j = log_blk l j" for j by (simp_all add: assms(4) head_of_simps)
  have "\<exists>u. recover_from_log E s' = Inr u \<and> (\<forall>x. x \<noteq> ?h \<longrightarrow> disk u x = disk t x)"
    if r: "rebooted c' i' l z (apply_writes (take k (recovery_writes l d)) d) s'" for k c' i' s'
  proof (cases "k \<le> ?n")
    case True
    define d' where "d' = apply_writes (take k ?wb) d"
    have r': "rebooted c' i' l z d' s'" using r True by (simp add: W d'_def)
    have dy: "d' y = d y" if "\<forall>j < ?n. y \<noteq> home_blk l0 j" for y
      unfolding d'_def by (rule apply_writes_other[OF take_map_keys[OF that]])
    have dh: "d' ?h = d ?h" by (rule dy) (metis LD(4) hl(1))
    have dl: "d' (log_blk l j) = d (log_blk l j)" if "j < ?n" for j by (rule dy) (metis LD(5) hl(2) that)
    have W': "recovery_writes l d' = recovery_writes l d"
      by (simp add: recovery_writes_def Let_def dh dl flip: assms(4))
    from recover_rebooted[OF r' assms(2,3) _ assms(5,6)] assms(4) obtain u where
      "recover_from_log E s' = Inr u" "disk u = apply_writes (recovery_writes l d) d'" by (auto simp: dh W')
    moreover have "apply_writes ?wb d' = apply_writes ?wb d" unfolding d'_def by (rule apply_writes_prefix)
    ultimately show ?thesis by (auto simp: t(2) W)
  next
    case False
    then have "take k (recovery_writes l d) = recovery_writes l d" by (simp add: W)
    then have r': "rebooted c' i' l z (disk t) s'" using r by (simp add: t(2))
    have "disk t ?h = put32 (d ?h) 0 0" by (simp add: t(2) W)
    then have "get32 (disk t ?h) 0 = 0" using assms(7) by (simp add: BSIZE_def)
    moreover have "?h < of_int z" using assms(5) by (simp add: layout_def hl)
    ultimately show ?thesis using recover_empty[OF r' assms(2,3)] by blast
  qed
  with t show ?thesis by (intro exI[of _ t]) simp
qed

section \<open>Examples\<close>

definition demo_lg :: logst where
  "demo_lg = \<lparr>lstart = 2, lsize = 31, outstanding = 0, committing = False, ldev = 1, lhn = 0, lhblock = replicate LOGSIZE 0\<rparr>"

text \<open>A machine that has just run \<^verbatim>\<open>binit\<close> on the disk \<open>d\<close>.\<close>

definition demo_klog :: "(u32 \<Rightarrow> block) \<Rightarrow> klog" where
  "demo_klog d = binit (demo_kbio d \<lparr>lg = demo_lg\<rparr>)"

lemma demo_klog_ok:
  "bio_inv 0 1 {} (demo_klog d)" "dirty_blocks (bc (demo_klog d)) = {}" "disk (demo_klog d) = d" "disksize (demo_klog d) = 1000"
  "diskw (demo_klog d) = []" "lg (demo_klog d) = demo_lg" "lock_free l (core (demo_klog d))" "rebooted 0 1 demo_lg 1000 d (demo_klog d)"
proof -
  let ?s = "demo_kbio d \<lparr>lg = demo_lg\<rparr>"
  note I = binit_inv[OF demo_kbio_ok(1-5,10), of d "\<lparr>lg = demo_lg\<rparr>"]
  show a: "bio_inv 0 1 {} (demo_klog d)" "dirty_blocks (bc (demo_klog d)) = {}" unfolding demo_klog_def by (fact I)+
  show b: "disk (demo_klog d) = d" "disksize (demo_klog d) = 1000" "diskw (demo_klog d) = []"
    using I(3) by (simp_all add: boot_frame_def demo_klog_def demo_kbio_ok)
  have "kbio.more (demo_klog d) = \<lparr>lg = demo_lg\<rparr>" using I(3) by (simp add: boot_frame_def demo_klog_def demo_kbio_ok)
  then show c: "lg (demo_klog d) = demo_lg" by (cases "demo_klog d") simp
  show "lock_free l (core (demo_klog d))"
    using I(3) demo_kbio_ok(4)[of d "\<lparr>lg = demo_lg\<rparr>"] by (auto simp: boot_frame_def demo_klog_def lock_free_def)
  show "rebooted 0 1 demo_lg 1000 d (demo_klog d)" using a b c by (simp add: rebooted_def demo_lg_def)
qed

text \<open>A disk whose log holds one committed block, to be installed as block 50.\<close>

definition demo_disk :: "u32 \<Rightarrow> block" where
  "demo_disk = (\<lambda>_. replicate BSIZE 0)(2 := put32 (put32 (replicate BSIZE 0) 0 1) 4 50, 3 := [9])"

theorem recovery_restartable_witness:
  "\<exists>t u. recover_from_log demo_fsenv (demo_klog demo_disk) = Inr t \<and>
     recover_from_log demo_fsenv (demo_klog (apply_writes (take 1 (diskw t)) demo_disk)) = Inr u \<and> disk u 50 = disk t 50"
proof -
  let ?l = "head_of demo_lg (demo_disk (head_blk demo_lg))"
  have h: "head_blk demo_lg = 2" "demo_disk 2 = put32 (put32 (replicate BSIZE 0) 0 1) 4 50"
    by (simp_all add: head_blk_def demo_lg_def demo_disk_def)
  have g: "get32 (demo_disk 2) 0 = 1" "get32 (demo_disk 2) 4 = 50" "length (demo_disk 2) = BSIZE"
    unfolding h(2) by (simp_all add: get32_put32_other BSIZE_def)
  have n: "lhn ?l = 1" "lhblock ?l ! 0 = 50" "lstart ?l = 2" "ldev ?l = 1"
    unfolding h(1) head_of_def Let_def g by (simp_all add: demo_lg_def g)
  then have "layout ?l (nat (lhn ?l)) 1000"
    by (simp add: layout_def head_blk_def log_blk_def home_blk_def)
  moreover have "ldev demo_lg = 1" "drv (demo_fsenv :: klog fsenv) = iderw" by (simp_all add: demo_lg_def demo_fsenv_def)
  moreover have "lhn ?l \<le> int LOGSIZE" "length (demo_disk (head_blk demo_lg)) = BSIZE" using n(1) g(3) h(1) by (simp_all add: LOGSIZE_def)
  ultimately obtain t where
    t: "recover_from_log demo_fsenv (demo_klog demo_disk) = Inr t"
      "\<forall>k c' i' (s' :: klog). rebooted c' i' demo_lg 1000 (apply_writes (take k (drop (length (diskw (demo_klog demo_disk))) (diskw t))) demo_disk) s' \<longrightarrow>
        (\<exists>u. recover_from_log demo_fsenv s' = Inr u \<and> (\<forall>x. x \<noteq> head_blk demo_lg \<longrightarrow> disk u x = disk t x))"
    using recovery_restartable[OF demo_klog_ok(8) _ _ refl, of demo_fsenv demo_disk] by blast
  let ?d = "apply_writes (take 1 (diskw t)) demo_disk"
  have "rebooted 0 1 demo_lg 1000 (apply_writes (take 1 (drop (length (diskw (demo_klog demo_disk))) (diskw t))) demo_disk) (demo_klog ?d)"
    using demo_klog_ok(8)[of ?d] unfolding demo_klog_ok(5) by simp
  with t(2) obtain u where "recover_from_log demo_fsenv (demo_klog ?d) = Inr u" "\<forall>x. x \<noteq> head_blk demo_lg \<longrightarrow> disk u x = disk t x"
    by blast
  then show ?thesis using t(1) by (intro exI[of _ t] exI[of _ u]) (simp add: h)
qed

end
