(* ===== verification/LogTrans.thy ===== *)
theory LogTrans
  imports LogSafe
begin

text \<open>
  Transactions (\<^verbatim>\<open>begin_op\<close>, \<^verbatim>\<open>log_write\<close>, \<^verbatim>\<open>end_op\<close> of log.c) as the callers see them: the blocks written between
  \<^verbatim>\<open>begin_op\<close> and \<^verbatim>\<open>end_op\<close> reach the disk all together or not at all, whenever the machine stops.
\<close>

section \<open>The lock of the log\<close>

lemma log_acquire:
  assumes "bio_idle c i s" "lock_free LogLock (core s)"
  shows "acquire LogLock s = Inr (acquired LogLock c s)"
    "core (acquired LogLock c s) = take_lock LogLock c (core s)"
  using assms by (simp_all add: bio_idle_def acquire_ok[of c])

lemma log_release:
  assumes "bio_idle c i s" "lock_free LogLock (core s)" "core t = take_lock LogLock c (core s)"
  shows "release LogLock t = Inr (released LogLock c t)" "core (released LogLock c t) = core s"
  using assms by (auto simp: bio_idle_def intro!: release_ok)

lemma lg_frame [simp]: "lg (acquired l c s) = lg s" "lg (released l c s) = lg s" "lg (buf_upd b f s) = lg s"
  "klog.more (acquired l c s) = klog.more s" "klog.more (released l c s) = klog.more s" "klog.more (lg_upd g s) = klog.more s"
  by (simp_all add: acquired_def released_def buf_upd_def lg_upd_def)

lemma bio_inv_same:
  assumes "bio_inv c i H s" "core t = core s" "map pid (ptable t) = map pid (ptable s)" "slocks t = slocks s" "bcache t = bcache s"
    "disk t = disk s" "disksize t = disksize s"
  shows "bio_inv c i H t"
proof -
  have b: "bufat t = bufat s" "bc t = bc s" using assms(5) by (simp_all add: bufat_def bc_def fun_eq_iff)
  then have n: "nxt t = nxt s" "prv t = prv s" by (simp_all add: nxt_def prv_def fun_eq_iff)
  have l: "length (ptable t) = length (ptable s)" using assms(3) by (metis length_map)
  have i: "i < length (ptable s)" using assms(1) by (simp add: bio_inv_def bio_idle_def)
  have "map pid (ptable t) ! i = map pid (ptable s) ! i" using assms(3) by simp
  then have "pid (ptable t ! i) = pid (ptable s ! i)" using i l by simp
  then show ?thesis using assms(1,2,4-7) l unfolding bio_inv_def bio_idle_def ring_def owned_def b n by simp
qed

text \<open>\<open>t\<close> is \<open>s\<close> with the state of the log changed.\<close>

definition log_only :: "(logst \<Rightarrow> logst) \<Rightarrow> 'a klog_scheme \<Rightarrow> 'a klog_scheme \<Rightarrow> bool" where
  "log_only f s t \<longleftrightarrow> core t = core s \<and> map pid (ptable t) = map pid (ptable s) \<and> slocks t = slocks s \<and> bcache t = bcache s \<and>
     disk t = disk s \<and> diskw t = diskw s \<and> disksize t = disksize s \<and> lg t = f (lg s) \<and> klog.more t = klog.more s"

lemma log_onlyD:
  assumes "log_only f s t"
  shows "core t = core s" "disk t = disk s" "diskw t = diskw s" "disksize t = disksize s" "lg t = f (lg s)" "bc t = bc s" "bufat t = bufat s"
    "bio_inv c i H s \<Longrightarrow> bio_inv c i H t" "klog.more t = klog.more s"
  using assms by (simp_all add: log_only_def bufat_def bc_def fun_eq_iff) (blast intro: bio_inv_same)

lemma begin_op_ok:
  assumes "bio_idle c i s" "lock_free LogLock (core s)" "\<not> committing (lg s)"
    and "lhn (lg s) + (outstanding (lg s) + 1) * MAXOPBLOCKS \<le> int LOGSIZE"
  shows "\<exists>t. begin_op E s = Inr t \<and> log_only (\<lambda>l. l\<lparr>outstanding := outstanding l + 1\<rparr>) s t"
proof -
  let ?u = "lg_upd (\<lambda>l. l\<lparr>outstanding := outstanding l + 1\<rparr>) (acquired LogLock c s)"
  note A = log_acquire[OF assms(1,2)]
  have "core ?u = take_lock LogLock c (core s)" using A(2) by simp
  note R = log_release[OF assms(1,2) this]
  have "begin_op E s = Inr (released LogLock c ?u)"
    using assms(3,4) A(1) R(1) by (cases "tries E") (simp_all add: begin_op_def)
  then show ?thesis using R(2) by (simp add: log_only_def)
qed

section \<open>Logging a block\<close>

text \<open>What \<^verbatim>\<open>log_write\<close> does to the header in memory: a block that is logged already is absorbed.\<close>

definition log_add :: "u32 \<Rightarrow> logst \<Rightarrow> logst" where
  "log_add n l =
     (let i = (case find_idx (\<lambda>x. of_int x = n) (take (nat (lhn l)) (lhblock l)) of Some i \<Rightarrow> i | None \<Rightarrow> nat (lhn l))
      in (if int i = lhn l then l\<lparr>lhblock := (lhblock l)[i := sint n], lhn := lhn l + 1\<rparr> else l\<lparr>lhblock := (lhblock l)[i := sint n]\<rparr>))"

lemma buf_dirty:
  assumes "bio_inv c i H s" "b \<in> H" "holds (bc s) b n"
    and t_def: "t = buf_upd b (\<lambda>x. x\<lparr>bflags := bflags x OR B_DIRTY\<rparr>) s"
  shows "bio_inv c i H t" "bufat t b = (bufat s b)\<lparr>bflags := bflags (bufat s b) OR B_DIRTY\<rparr>" "is_dirty (bufat t b)"
    "view (bc t) (disk s) = view (bc s) (disk s)" "dirty_blocks (bc t) = insert n (dirty_blocks (bc s))"
proof -
  note D = bio_invD[OF assms(1)]
  have l: "b < length (bcache s)" using D(4) D(8)[OF assms(2)] by simp
  let ?k = "(bufat s b)\<lparr>bflags := bflags (bufat s b) OR B_DIRTY\<rparr>"
  have bt: "bcache t = (bcache s)[b := ?k]" by (simp add: t_def bufat_def)
  note B = buf_set[OF bt l]
  let ?y = "?k\<lparr>refcnt := 0, bprev := 0, bnext := 0\<rparr>"
  have y: "bdev ?y = 1" "blockno ?y = n" "is_valid ?y" "bdata ?y = bdata (bufat s b)" "is_dirty ?y"
    using assms(3) D(3) by (auto simp: holds_def contents_ok_def flag_bits bit_or_iff)
  note C = contents_set[OF D(3) assms(2,3) y(1-3)]
  have f: "bio_frame s t" "disk t = disk s" "slocks t = slocks s" "disksize t = disksize s" by (simp_all add: t_def bio_frame_def)
  show "bio_inv c i H t"
    using C(1) by (intro bio_inv_set[OF assms(1) f(1) assms(2) bt f(3)]) (simp_all add: B(2) f)
  show "bufat t b = ?k" by (simp add: B(1))
  then show "is_dirty (bufat t b)" using y(5) by (simp add: is_dirty_def)
  have "view (bc s) (disk s) n = bdata (bc s b)" by (rule view_held[OF D(3) assms(3)])
  then show "view (bc t) (disk s) = view (bc s) (disk s)" using C(2) y(4) by (simp add: B(2) fun_upd_idem)
  show "dirty_blocks (bc t) = insert n (dirty_blocks (bc s))" using C(5) y(5) by (simp add: B(2))
qed

lemma log_write_ok:
  assumes "bio_inv c i H s" "b \<in> H" "holds (bc s) b n" "lock_free LogLock (core s)"
    and "lhn (lg s) < int LOGSIZE" "lhn (lg s) < lsize (lg s) - 1" "1 \<le> outstanding (lg s)"
  obtains t where "log_write b s = Inr t" "bio_inv c i H t" "core t = core s" "disk t = disk s" "diskw t = diskw s"
    "disksize t = disksize s" "lg t = log_add n (lg s)" "is_dirty (bufat t b)"
    "view (bc t) (disk t) = view (bc s) (disk s)" "dirty_blocks (bc t) = insert n (dirty_blocks (bc s))"
    "klog.more t = klog.more s" "bufat t b = (bufat s b)\<lparr>bflags := bflags (bufat s b) OR B_DIRTY\<rparr>" "\<forall>a. a \<noteq> b \<longrightarrow> bc t a = bc s a"
proof -
  note D = bio_invD[OF assms(1)]
  define w where "w = buf_upd b (\<lambda>x. x\<lparr>bflags := bflags x OR B_DIRTY\<rparr>) s"
  note W = buf_dirty[OF assms(1-3) w_def]
  let ?a = "acquired LogLock c s"
  let ?u = "buf_upd b (\<lambda>x. x\<lparr>bflags := bflags x OR B_DIRTY\<rparr>) (lg_upd (log_add n) ?a)"
  let ?t = "released LogLock c ?u"
  note A = log_acquire[OF D(1) assms(4)]
  have "core ?u = take_lock LogLock c (core s)" using A(2) by simp
  note R = log_release[OF D(1) assms(4) this]
  have bn: "blockno (bufat s b) = n" using assms(3) by (simp add: holds_def)
  obtain j where j: "(case find_idx (\<lambda>x. of_int x = n) (take (nat (lhn (lg s))) (lhblock (lg s))) of Some i \<Rightarrow> i | None \<Rightarrow> nat (lhn (lg s))) = j"
    by blast
  have ja: "(case find_idx (\<lambda>x. of_int x = n) (take (nat (lhn (lg s))) (lhblock (lg s))) of Some i \<Rightarrow> i | None \<Rightarrow> nat (lhn (lg ?a))) = j"
    using j unfolding lg_frame .
  have e: "int j = lhn (lg s) \<Longrightarrow>
      lg_upd (\<lambda>l. l\<lparr>lhn := lhn l + 1\<rparr>) (lg_upd (\<lambda>l. l\<lparr>lhblock := (lhblock l)[j := sint n]\<rparr>) ?a) = lg_upd (log_add n) ?a"
    "int j \<noteq> lhn (lg s) \<Longrightarrow> lg_upd (\<lambda>l. l\<lparr>lhblock := (lhblock l)[j := sint n]\<rparr>) ?a = lg_upd (log_add n) ?a"
    by (simp_all add: lg_upd_def log_add_def j)
  have ba: "bufat ?a = bufat s" by (simp add: bufat_def fun_eq_iff)
  have "log_write b s = Inr ?t"
    using assms(5-7) A(1) R(1) by (simp add: log_write_def Let_def ba bn ja e)
  moreover have q: "bcache ?t = bcache w" "disk ?t = disk w" "disksize ?t = disksize w" "slocks ?t = slocks w" "ptable ?t = ptable w" "core ?t = core w"
    using R(2) by (simp_all add: w_def)
  moreover from q(1) have "bufat ?t = bufat w" "bc ?t = bc w" by (simp_all add: bufat_def bc_def fun_eq_iff)
  moreover have "bc w a = bc s a" if "a \<noteq> b" for a using that by (simp add: w_def bc_def bufat_def)
  moreover have "klog.more ?t = klog.more s" by (simp add: acquired_def released_def lg_upd_def buf_upd_def)
  ultimately show thesis
    using W R(2) bio_inv_same[OF W(1), of ?t] by (intro that[of ?t]) (simp_all add: w_def)
qed

definition entries :: "logst \<Rightarrow> u32 list" where
  "entries l = map of_int (take (nat (lhn l)) (lhblock l))"

lemma log_add_fields [simp]:
  "lstart (log_add n l) = lstart l" "lsize (log_add n l) = lsize l" "outstanding (log_add n l) = outstanding l"
  "committing (log_add n l) = committing l" "ldev (log_add n l) = ldev l" "length (lhblock (log_add n l)) = length (lhblock l)"
  by (simp_all add: log_add_def Let_def)

lemma log_add_entries:
  assumes "0 \<le> lhn l" "lhn l < int (length (lhblock l))"
  shows "entries (log_add n l) = (if n \<in> set (entries l) then entries l else entries l @ [n])"
    "lhn (log_add n l) = int (length (entries (log_add n l)))"
proof -
  let ?k = "nat (lhn l)"
  let ?es = "take ?k (lhblock l)"
  have k: "?k < length (lhblock l)" "int ?k = lhn l" using assms by auto
  have "entries (log_add n l) = (if n \<in> set (entries l) then entries l else entries l @ [n]) \<and>
      lhn (log_add n l) = int (length (entries (log_add n l)))"
  proof (cases "find_idx (\<lambda>x. of_int x = n) ?es")
    case None
    then have "n \<notin> set (entries l)" by (auto simp: entries_def find_idx_None_iff)
    moreover have "lhn (log_add n l) = lhn l + 1" "lhblock (log_add n l) = (lhblock l)[?k := sint n]"
      using None k by (simp_all add: log_add_def)
    moreover have "nat (lhn l + 1) = Suc ?k" using assms by simp
    ultimately show ?thesis using k by (simp add: entries_def take_Suc_conv_app_nth)
  next
    case (Some j)
    note F = find_idx_SomeD[OF Some]
    have j: "j < ?k" "j < length (lhblock l)" "of_int (lhblock l ! j) = n" using F k by auto
    have "?es ! j \<in> set ?es" using F(1) by (rule nth_mem)
    then have "n \<in> set (entries l)" using F(2) by (auto simp: entries_def)
    moreover have "lhn (log_add n l) = lhn l" "lhblock (log_add n l) = (lhblock l)[j := sint n]"
      using Some j k by (auto simp: log_add_def)
    moreover have "(map of_int ?es)[j := n] = map (of_int :: int \<Rightarrow> u32) ?es" using j F(1) by (intro list_update_same_conv[THEN iffD2]) auto
    ultimately show ?thesis using k by (simp add: entries_def take_update_swap map_update)
  qed
  then show "entries (log_add n l) = (if n \<in> set (entries l) then entries l else entries l @ [n])"
    "lhn (log_add n l) = int (length (entries (log_add n l)))" by blast+
qed

text \<open>A process in its transaction: the dirty blocks of the cache are exactly the logged ones.\<close>

definition tx_data :: "nat \<Rightarrow> nat \<Rightarrow> 'a klog_scheme \<Rightarrow> bool" where
  "tx_data c i s \<longleftrightarrow> bio_inv c i {} s \<and> ldev (lg s) = 1 \<and> MAXOPBLOCKS + 1 < lsize (lg s) \<and> length (lhblock (lg s)) = LOGSIZE \<and>
     lhn (lg s) = int (length (entries (lg s))) \<and> lhn (lg s) \<le> MAXOPBLOCKS \<and> distinct (entries (lg s)) \<and>
     dirty_blocks (bc s) = set (entries (lg s))"

definition tx_inv :: "nat \<Rightarrow> nat \<Rightarrow> 'a klog_scheme \<Rightarrow> bool" where
  "tx_inv c i s \<longleftrightarrow> tx_data c i s \<and> lock_free LogLock (core s) \<and> \<not> committing (lg s) \<and> outstanding (lg s) = 1"

text \<open>What the file system does with a block: read it, change it, log it and release it.\<close>

primrec write_all :: "('a klog_scheme) fsenv \<Rightarrow> (u32 \<times> block) list \<Rightarrow> 'a klog_scheme \<Rightarrow> ('a klog_scheme) kres" where
  "write_all E [] s = Inr s"
| "write_all E (w # ws) s =
     kbind (bread E 1 (fst w) s) (\<lambda>(b, s1).
     kbind (log_write b (buf_upd b (\<lambda>x. x\<lparr>bdata := snd w\<rparr>) s1)) (\<lambda>s2.
     kbind (brelse b s2) (write_all E ws)))"

text \<open>\<open>t\<close> is \<open>s\<close> after the writes \<open>ws\<close> have been made in the cache.\<close>

definition pending :: "(u32 \<times> block) list \<Rightarrow> 'a klog_scheme \<Rightarrow> 'a klog_scheme \<Rightarrow> bool" where
  "pending ws s t \<longleftrightarrow> core t = core s \<and> disk t = disk s \<and> diskw t = diskw s \<and> disksize t = disksize s \<and>
     lstart (lg t) = lstart (lg s) \<and> lsize (lg t) = lsize (lg s) \<and>
     view (bc t) (disk t) = apply_writes ws (view (bc s) (disk s)) \<and> dirty_blocks (bc t) = dirty_blocks (bc s) \<union> fst ` set ws"

lemma log_step:
  assumes "tx_inv c i s" "drv E = iderw" "n < of_int (disksize s)" "card (insert n (dirty_blocks (bc s))) \<le> nat MAXOPBLOCKS"
  obtains b s1 s2 t where "bread E 1 n s = Inr (b, s1)" "log_write b (buf_upd b (\<lambda>x. x\<lparr>bdata := d\<rparr>) s1) = Inr s2"
    "brelse b s2 = Inr t" "tx_inv c i t" "pending [(n, d)] s t"
proof -
  have T: "bio_inv c i {} s" "lock_free LogLock (core s)" "\<not> committing (lg s)" "outstanding (lg s) = 1" "ldev (lg s) = 1"
    "MAXOPBLOCKS + 1 < lsize (lg s)" "length (lhblock (lg s)) = LOGSIZE" "lhn (lg s) = int (length (entries (lg s)))"
    "lhn (lg s) \<le> MAXOPBLOCKS" "distinct (entries (lg s))" "dirty_blocks (bc s) = set (entries (lg s))"
    using assms(1) by (simp_all add: tx_inv_def tx_data_def)
  have "card (dirty_blocks (bc s)) \<le> card (insert n (dirty_blocks (bc s)))" by (intro card_mono) (auto simp: T(11))
  then have "n \<in> dirty_blocks (bc s) \<or> card (dirty_blocks (bc s)) + card ({} :: nat set) < NBUF"
    using assms(4) by (simp add: NBUF_def MAXOPBLOCKS_def)
  from bread_room[OF T(1) assms(2,3) _ this] obtain b s1 where b: "bread E 1 n s = Inr (b, s1)" "bread_result c i {} n s b s1"
    by blast
  note R = b(2)[unfolded bread_result_def]
  define m where "m = buf_upd b (\<lambda>x. x\<lparr>bdata := d\<rparr>) s1"
  have inv: "bio_inv c i {b} s1" and h: "holds (bc s1) b n" "b \<in> {b}" using R by auto
  note M = buf_modify[OF inv h(2,1) m_def]
  have f: "bio_frame s m" using R M(2) bio_frame_trans by blast
  then have lgm: "lg m = lg s" "core m = core s" "disksize m = disksize s" by (simp_all add: klog_frame) (simp_all add: bio_frame_def)
  have lim: "lhn (lg m) < int LOGSIZE" "lhn (lg m) < lsize (lg m) - 1" "1 \<le> outstanding (lg m)" "lock_free LogLock (core m)"
    using T by (simp_all add: lgm LOGSIZE_def MAXOPBLOCKS_def)
  obtain s2 where u: "log_write b m = Inr s2" "bio_inv c i {b} s2" "core s2 = core m" "disk s2 = disk m" "diskw s2 = diskw m"
    "disksize s2 = disksize m" "lg s2 = log_add n (lg m)" "is_dirty (bufat s2 b)"
    "view (bc s2) (disk s2) = view (bc m) (disk m)" "dirty_blocks (bc s2) = insert n (dirty_blocks (bc m))"
    by (rule log_write_ok[OF M(1) h(2) M(5) lim(4,1-3)])
  obtain t where t: "brelse b s2 = Inr t" "bio_inv c i ({b} - {b}) t" "bio_frame s2 t" "disk t = disk s2" "diskw t = diskw s2"
    "\<forall>z < NBUF. bc t z = bc s2 z"
    by (rule brelse_ok[OF u(2) h(2)]) (use u(8) in simp)
  note S = same_contents[of "bc t" "bc s2", OF t(6)[rule_format]]
  have lgt: "lg t = log_add n (lg s)" "core t = core s" "disksize t = disksize s"
    using t(3) u(3,6,7) lgm by (simp_all add: klog_frame) (simp_all add: bio_frame_def)
  have dt: "dirty_blocks (bc t) = insert n (dirty_blocks (bc s))" using S(2) u(10) M(10) R by simp
  have vs: "disk s1 = disk s" "diskw s1 = diskw s" "view (bc s1) (disk s1) = view (bc s) (disk s)" using R by blast+
  have "0 \<le> lhn (lg s)" "lhn (lg s) < int (length (lhblock (lg s)))" using T(7-9) by (simp_all add: LOGSIZE_def MAXOPBLOCKS_def)
  note N = log_add_entries[OF this, of n]
  have E: "distinct (entries (lg t))" "dirty_blocks (bc t) = set (entries (lg t))" using N(1) T(10,11) dt by (auto simp: lgt(1))
  then have "int (length (entries (lg t))) \<le> MAXOPBLOCKS" using assms(4) dt distinct_card[OF E(1)] by (simp add: MAXOPBLOCKS_def)
  then have "tx_inv c i t" using t(2) T N(2) E by (simp add: tx_inv_def tx_data_def lgt)
  moreover have "view (bc t) (disk t) = (view (bc s) (disk s))(n := d)" using S(1) t(4) u(4,9) M(9) vs(3) by simp
  then have "pending [(n, d)] s t" using t(4,5) u(4,5) M(3,4) vs(1,2) by (auto simp: pending_def lgt dt)
  ultimately show thesis using u(1) t(1) b(1) by (intro that) (simp_all add: m_def)
qed

lemma pending_Cons: "pending [w] s t \<Longrightarrow> pending ws t u \<Longrightarrow> pending (w # ws) s u"
  by (auto simp: pending_def apply_writes_def)

lemma write_all_ok:
  assumes "tx_inv c i s" "drv E = iderw" "\<forall>w \<in> set ws. fst w < of_int (disksize s)"
    and "card (dirty_blocks (bc s) \<union> fst ` set ws) \<le> nat MAXOPBLOCKS"
  shows "\<exists>t. write_all E ws s = Inr t \<and> tx_inv c i t \<and> pending ws s t"
  using assms
proof (induction ws arbitrary: s)
  case Nil
  then show ?case by (simp add: pending_def apply_writes_def)
next
  case (Cons w ws)
  have fin: "finite (dirty_blocks (bc s))" using Cons.prems(1) by (simp add: tx_inv_def tx_data_def)
  then have "card (insert (fst w) (dirty_blocks (bc s))) \<le> card (dirty_blocks (bc s) \<union> fst ` set (w # ws))"
    by (intro card_mono) auto
  then have room: "card (insert (fst w) (dirty_blocks (bc s))) \<le> nat MAXOPBLOCKS" using Cons.prems(4) by simp
  have "fst w < of_int (disksize s)" using Cons.prems(3) by simp
  note step = log_step[OF Cons.prems(1,2) this room, of "snd w", unfolded prod.collapse]
  obtain b s1 s2 u where
    S: "bread E 1 (fst w) s = Inr (b, s1)" "log_write b (buf_upd b (\<lambda>x. x\<lparr>bdata := snd w\<rparr>) s1) = Inr s2"
      "brelse b s2 = Inr u" "tx_inv c i u" "pending [w] s u" by (rule step)
  have "dirty_blocks (bc u) \<union> fst ` set ws = dirty_blocks (bc s) \<union> fst ` set (w # ws)" "disksize u = disksize s"
    using S(5) by (auto simp: pending_def)
  with Cons.IH[OF S(4) Cons.prems(2)] Cons.prems(3,4) obtain t where
    "write_all E ws u = Inr t" "tx_inv c i t" "pending ws u t" by auto
  then show ?case using S pending_Cons[OF S(5)] by auto
qed

section \<open>The end of a transaction\<close>

lemma log_wakeup:
  assumes "bio_inv c i {} s" "lock_free LogLock (core s)" "s' = lg_upd f (acquired LogLock c s)"
  shows "\<exists>t. kbind (wakeup LogChan s') (release LogLock) = Inr t \<and> log_only f s t"
proof -
  note D = bio_invD[OF assms(1)]
  note A = log_acquire[OF D(1) assms(2)]
  have c: "core s' = take_lock LogLock c (core s)" using A(2) by (simp add: assms(3))
  have "proc_ready c s'" using D(1) c by (simp add: proc_ready_def bio_idle_def)
  from wakeup_slocks[OF this, of LogChan] obtain u where u: "wakeup LogChan s' = Inr u" "core u = core s'" "slocks u = slocks s'"
    "mem u = mem s'" "ksleep.more u = ksleep.more s'"
    "ptable u = map (\<lambda>p. if pstate p = SLEEPING \<and> pchan p = LogChan then p\<lparr>pstate := RUNNABLE\<rparr> else p) (ptable s')" by blast
  have "core u = take_lock LogLock c (core s)" using u(2) c by simp
  note R = log_release[OF D(1) assms(2) this]
  have "map pid (ptable u) = map pid (ptable s')" by (simp add: u(6))
  moreover have "kbio.more u = kbio.more s'" and M: "bcache u = bcache s'" "disk u = disk s'" "diskw u = diskw s'" "disksize u = disksize s'"
    using more_bio[OF u(5)] by simp_all
  then have "lg u = lg s'" "klog.more u = klog.more s'" by (cases u; cases s'; simp)+
  ultimately show ?thesis using u(1,3) R M by (simp add: log_only_def assms(3))
qed

lemma end_op_ok:
  assumes "bio_inv c i {} s" "lock_free LogLock (core s)" "\<not> committing (lg s)" "outstanding (lg s) = 1"
    and com: "\<And>s4. log_only (\<lambda>l. l\<lparr>outstanding := 0, committing := True\<rparr>) s s4 \<Longrightarrow>
       \<exists>s5. commit E s4 = Inr s5 \<and> bio_inv c i {} s5 \<and> core s5 = core s4"
  obtains s4 s5 t where "log_only (\<lambda>l. l\<lparr>outstanding := 0, committing := True\<rparr>) s s4" "commit E s4 = Inr s5"
    "end_op E s = Inr t" "log_only (\<lambda>l. l\<lparr>committing := False\<rparr>) s5 t"
proof -
  note D = bio_invD[OF assms(1)]
  note A = log_acquire[OF D(1) assms(2)]
  let ?f = "\<lambda>l. l\<lparr>outstanding := outstanding l - 1\<rparr>" and ?g = "\<lambda>l. l\<lparr>committing := True\<rparr>"
  let ?u = "lg_upd ?g (lg_upd ?f (acquired LogLock c s))"
  have "core ?u = take_lock LogLock c (core s)" using A(2) by simp
  note R = log_release[OF D(1) assms(2) this]
  let ?s4 = "released LogLock c ?u"
  have l4: "log_only (\<lambda>l. l\<lparr>outstanding := 0, committing := True\<rparr>) s ?s4" using R(2) assms(4) by (simp add: log_only_def)
  from com[OF l4] obtain s5 where s5: "commit E ?s4 = Inr s5" "bio_inv c i {} s5" "core s5 = core ?s4" by blast
  have free: "lock_free LogLock (core s5)" using s5(3) R(2) assms(2) by simp
  note A5 = log_acquire[OF bio_invD(1)[OF s5(2)] free]
  from log_wakeup[OF s5(2) free refl, of "\<lambda>l. l\<lparr>committing := False\<rparr>"] obtain t where
    t: "kbind (wakeup LogChan (lg_upd (\<lambda>l. l\<lparr>committing := False\<rparr>) (acquired LogLock c s5))) (release LogLock) = Inr t"
      "log_only (\<lambda>l. l\<lparr>committing := False\<rparr>) s5 t" by blast
  have "end_op E s = Inr t"
    using assms(3,4) A(1) R(1) s5(1) A5(1) t(1) by (simp add: end_op_def Let_def)
  then show thesis using that[OF l4 s5(1) _ t(2)] by blast
qed

section \<open>Atomic transactions\<close>

text \<open>
  A block is in the log area if it is one of the \<^verbatim>\<open>log.size\<close> blocks from \<^verbatim>\<open>log.start\<close>. The area lies on
  the disk, and its header says that there is nothing to recover.
\<close>

definition in_log :: "logst \<Rightarrow> u32 \<Rightarrow> bool" where
  "in_log l x \<longleftrightarrow> (\<exists>j < nat (lsize l). x = of_int (lstart l + int j))"

definition log_clear :: "logst \<Rightarrow> int \<Rightarrow> (u32 \<Rightarrow> block) \<Rightarrow> bool" where
  "log_clear l z d \<longleftrightarrow> 0 \<le> lstart l \<and> lstart l + lsize l \<le> z \<and> z < 2 ^ 32 \<and>
     length (d (head_blk l)) = BSIZE \<and> get32 (d (head_blk l)) 0 = 0"

text \<open>The log between transactions.\<close>

definition log_idle :: "nat \<Rightarrow> nat \<Rightarrow> 'a klog_scheme \<Rightarrow> bool" where
  "log_idle c i s \<longleftrightarrow> tx_data c i s \<and> lock_free LogLock (core s) \<and> \<not> committing (lg s) \<and> outstanding (lg s) = 0 \<and> lhn (lg s) = 0 \<and>
     log_clear (lg s) (disksize s) (disk s)"

text \<open>
  Cut off after any number of the writes \<open>ws\<close>, the disk \<open>d\<close> is recovered as \<open>d\<close> or as \<open>d'\<close>, outside the log area.
\<close>

definition all_or_nothing ::
  "('a klog_scheme) fsenv \<Rightarrow> logst \<Rightarrow> int \<Rightarrow> (u32 \<times> block) list \<Rightarrow> (u32 \<Rightarrow> block) \<Rightarrow> (u32 \<Rightarrow> block) \<Rightarrow> bool" where
  "all_or_nothing E l z ws d d' \<longleftrightarrow> (\<forall>m c i s. rebooted c i l z (apply_writes (take m ws) d) s \<longrightarrow>
     (\<exists>u. recover_from_log E s = Inr u \<and>
        ((\<forall>x. \<not> in_log l x \<longrightarrow> disk u x = d x) \<or> (\<forall>x. \<not> in_log l x \<longrightarrow> disk u x = d' x))))"

lemma of_int_inj: "0 \<le> a \<Longrightarrow> a < 2 ^ 32 \<Longrightarrow> 0 \<le> b \<Longrightarrow> b < 2 ^ 32 \<Longrightarrow> (of_int a :: u32) = of_int b \<longleftrightarrow> a = b"
  by (simp add: word_of_int_eq_iff take_bit_int_eq_self)

lemma of_int_less: "0 \<le> a \<Longrightarrow> a < b \<Longrightarrow> b < 2 ^ 32 \<Longrightarrow> (of_int a :: u32) < of_int b"
  by (simp add: word_less_def uint_word_of_int take_bit_int_eq_self)

lemma head_in_log: "0 < lsize l \<Longrightarrow> in_log l (head_blk l)"
  unfolding in_log_def head_blk_def by (intro exI[of _ 0]) simp

lemma log_in_log: "int k + 1 < lsize l \<Longrightarrow> in_log l (log_blk l k)"
  unfolding in_log_def log_blk_def by (intro exI[of _ "k + 1"]) (simp add: ac_simps)

lemma layout_entries:
  assumes "0 \<le> lstart l" "lstart l + lsize l \<le> z" "z < 2 ^ 32" "ldev l = 1" "int n + 1 \<le> lsize l" "0 < lsize l"
    and "\<forall>k < n. home_blk l k < of_int z \<and> \<not> in_log l (home_blk l k)"
  shows "layout l n z"
proof -
  have h: "head_blk l < of_int z" unfolding head_blk_def using assms(1-3,6) by (intro of_int_less) linarith+
  have lg: "log_blk l j < of_int z" "log_blk l j \<noteq> head_blk l" if "j < n" for j
  proof -
    have "0 \<le> lstart l + int j + 1" "lstart l + int j + 1 < z" using that assms(1,2,5) by linarith+
    then show "log_blk l j < of_int z" "log_blk l j \<noteq> head_blk l"
      unfolding log_blk_def head_blk_def using assms(1,3)
      by (auto intro!: of_int_less simp del: of_int_add simp: of_int_inj)
  qed
  have inj: "log_blk l j \<noteq> log_blk l k" if "j < n" "k < n" "j \<noteq> k" for j k
    unfolding log_blk_def using that assms(1-3,5) by (simp add: of_int_inj del: of_int_add)
  have il: "in_log l (log_blk l j)" if "j < n" for j using that assms(5) by (intro log_in_log) linarith
  have ih: "in_log l (head_blk l)" using assms(6) by (rule head_in_log)
  show ?thesis unfolding layout_def using assms(4,7) h lg inj il ih by metis
qed

lemma entries_home: "k < length (entries l) \<Longrightarrow> home_blk l k = entries l ! k"
  by (simp add: entries_def home_blk_def)

lemma outside: "\<not> in_log l x \<Longrightarrow> int n < lsize l \<Longrightarrow> outside_log l n x"
  unfolding outside_log_def using head_in_log log_in_log by fastforce

lemma tx_ready:
  assumes "tx_data c i s" "0 < lhn (lg s)" "log_clear (lg s) (disksize s) d"
    and "\<forall>x \<in> dirty_blocks (bc s). x < of_int (disksize s) \<and> \<not> in_log (lg s) x"
  shows "log_ready c i s" "nat (lhn (lg s)) = length (entries (lg s))" "lhn (lg s) < lsize (lg s)"
proof -
  let ?l = "lg s" and ?n = "length (entries (lg s))"
  have T: "lhn ?l = int ?n" "lhn ?l \<le> MAXOPBLOCKS" "MAXOPBLOCKS + 1 < lsize ?l" "ldev ?l = 1" "distinct (entries ?l)"
    "dirty_blocks (bc s) = set (entries ?l)" "bio_inv c i {} s" using assms(1) by (simp_all add: tx_data_def)
  show n: "nat (lhn ?l) = ?n" using T(1) by simp
  show "lhn ?l < lsize ?l" using T(2,3) by simp
  have hm: "\<forall>k < ?n. home_blk ?l k \<in> dirty_blocks (bc s)" by (auto simp: T(6) entries_home)
  have "layout ?l ?n (disksize s)"
    using assms(3,4) T(1-4) hm by (intro layout_entries) (auto simp: log_clear_def)
  moreover have "card (dirty_blocks (bc s)) < NBUF" using T(1,2,5,6) by (simp add: distinct_card NBUF_def MAXOPBLOCKS_def)
  ultimately show "log_ready c i s" using assms(2) T(7) hm by (simp add: log_ready_def n)
qed

text \<open>What the writes of a commit amount to.\<close>

lemma commit_writes_result:
  assumes "log_ready c i s" "length (v (head_blk (lg s))) = BSIZE"
  defines "l \<equiv> lg s" and "n \<equiv> nat (lhn (lg s))"
  shows "length (apply_writes (commit_writes l v) d (head_blk l)) = BSIZE \<and> get32 (apply_writes (commit_writes l v) d (head_blk l)) 0 = 0"
    "outside_log l n x \<Longrightarrow> apply_writes (commit_writes l v) d x = (if \<exists>j < n. x = home_blk l j then v x else d x)"
    "j < n \<Longrightarrow> home_blk l j \<in> fst ` set (commit_writes l v)"
proof -
  show "length (apply_writes (commit_writes l v) d (head_blk l)) = BSIZE \<and> get32 (apply_writes (commit_writes l v) d (head_blk l)) 0 = 0"
    using assms(2) by (simp add: commit_writes_def Let_def l_def put_head_get(1))
  let ?w1 = "map (\<lambda>j. (log_blk l j, v (home_blk l j))) [0..<n]" and ?w2 = "map (\<lambda>j. (home_blk l j, v (home_blk l j))) [0..<n]"
  show "apply_writes (commit_writes l v) d x = (if \<exists>j < n. x = home_blk l j then v x else d x)" if o: "outside_log l n x"
  proof (cases "\<exists>j < n. x = home_blk l j")
    case True
    then obtain j where j: "j < n" "x = home_blk l j" by blast
    have "apply_writes ?w2 d' (home_blk l j) = v (home_blk l j)" for d' using j(1) by (intro apply_writes_map) auto
    moreover have "x \<noteq> head_blk l" using o by (simp add: outside_log_def)
    ultimately show ?thesis using j by (auto simp: commit_writes_def Let_def n_def l_def)
  next
    case False
    then have "x \<noteq> head_blk l" "x \<notin> fst ` set ?w1" "x \<notin> fst ` set ?w2" using o by (auto simp: outside_log_def)
    then show ?thesis using False by (auto simp: commit_writes_def Let_def apply_writes_other n_def l_def)
  qed
  show "home_blk l j \<in> fst ` set (commit_writes l v)" if "j < n"
    using that by (force simp: commit_writes_def Let_def l_def n_def)
qed

lemma commit_result:
  assumes "tx_data c i s" "drv E = iderw" "log_clear (lg s) (disksize s) (disk s)"
    and "\<forall>x \<in> dirty_blocks (bc s). x < of_int (disksize s) \<and> \<not> in_log (lg s) x"
  shows "\<exists>t :: 'a klog_scheme. commit E s = Inr t \<and> core t = core s \<and> bio_inv c i {} t \<and> lg t = (lg s)\<lparr>lhn := 0\<rparr> \<and> disksize t = disksize s \<and>
     dirty_blocks (bc t) = {} \<and> log_clear (lg s) (disksize s) (disk t) \<and>
     (\<forall>x. \<not> in_log (lg s) x \<longrightarrow> disk t x = view (bc s) (disk s) x) \<and>
     all_or_nothing E (lg s) (disksize s) (drop (length (diskw s)) (diskw t)) (disk s) (disk t)"
proof (cases "0 < lhn (lg s)")
  case True
  let ?l = "lg s" and ?v = "view (bc s) (disk s)" and ?h = "head_blk (lg s)"
  note R = tx_ready[OF assms(1) True assms(3,4)]
  have T: "bio_inv c i {} s" "dirty_blocks (bc s) = set (entries ?l)" "lhn ?l \<le> MAXOPBLOCKS" "MAXOPBLOCKS + 1 < lsize ?l"
    using assms(1) by (simp_all add: tx_data_def)
  have ls: "0 < lsize ?l" "lhn ?l \<le> int LOGSIZE" using T(3,4) by (simp_all add: MAXOPBLOCKS_def LOGSIZE_def)
  have "?h \<notin> dirty_blocks (bc s)" using assms(4) head_in_log[OF ls(1)] by blast
  then have hv: "?v ?h = disk s ?h" by (rule view_undirty[OF bio_invD(3)[OF T(1)]])
  have hd: "length (?v ?h) = BSIZE" "get32 (disk s ?h) 0 = 0" using assms(3) by (simp_all add: hv log_clear_def)
  obtain t where t: "commit E s = Inr t" "cleared c i (commit_writes ?l ?v) s t" using commit_ok[OF R(1) assms(2)] by blast
  note C = t(2)[unfolded cleared_def]
  have out: "outside_log ?l (nat (lhn ?l)) x" if "\<not> in_log ?l x" for x using that R(2,3) ls by (intro outside) auto
  have aon: "all_or_nothing E ?l (disksize s) (drop (length (diskw s)) (diskw t)) (disk s) (disk t)"
    unfolding all_or_nothing_def
  proof (intro allI impI)
    fix m c' i' and s' :: "'a klog_scheme"
    assume "rebooted c' i' ?l (disksize s) (apply_writes (take m (drop (length (diskw s)) (diskw t))) (disk s)) s'"
    then have "\<exists>u. recover_from_log E s' = Inr u \<and>
        (\<forall>x. outside_log ?l (nat (lhn ?l)) x \<longrightarrow> disk u x = (if m \<le> nat (lhn ?l) then disk s x else disk t x))"
      using commit_crash[OF R(1) assms(2) ls(2) hd(2,1)] t(1) by (metis Inr_inject)
    then obtain u where "recover_from_log E s' = Inr u"
      "\<forall>x. outside_log ?l (nat (lhn ?l)) x \<longrightarrow> disk u x = (if m \<le> nat (lhn ?l) then disk s x else disk t x)" by blast
    then show "\<exists>u. recover_from_log E s' = Inr u \<and>
        ((\<forall>x. \<not> in_log ?l x \<longrightarrow> disk u x = disk s x) \<or> (\<forall>x. \<not> in_log ?l x \<longrightarrow> disk u x = disk t x))"
      using out by (cases "m \<le> nat (lhn ?l)") auto
  qed
  have D: "disk t = apply_writes (commit_writes ?l ?v) (disk s)" "dirty_blocks (bc t) = dirty_blocks (bc s) - fst ` set (commit_writes ?l ?v)"
    using C by simp_all
  note cw = commit_writes_result[where v = ?v, OF R(1) hd(1)]
  have "dirty_blocks (bc t) = {}" using D(2) cw(3) T(2) by (auto simp: set_conv_nth R(2) entries_home)
  moreover have "log_clear ?l (disksize s) (disk t)" using assms(3) cw(1) by (simp add: log_clear_def D(1))
  moreover have "disk t x = ?v x" if "\<not> in_log ?l x" for x
  proof (cases "x \<in> dirty_blocks (bc s)")
    case True
    then show ?thesis using cw(2)[OF out[OF that]] T(2) by (auto simp: D(1) set_conv_nth R(2) entries_home)
  next
    case False
    moreover from this have "\<not> (\<exists>j < nat (lhn ?l). x = home_blk ?l j)" using T(2) by (auto simp: R(2) entries_home)
    ultimately show ?thesis using cw(2)[OF out[OF that]] view_undirty[OF bio_invD(3)[OF T(1)], of x] by (simp add: D(1))
  qed
  ultimately show ?thesis using t(1) C aon by blast
next
  case False
  have T: "bio_inv c i {} s" "lhn (lg s) = 0" "dirty_blocks (bc s) = {}" "ldev (lg s) = 1" "0 < lsize (lg s)"
    using assms(1) False by (auto simp: tx_data_def MAXOPBLOCKS_def)
  have hz: "head_blk (lg s) < of_int (disksize s)" "get32 (disk s (head_blk (lg s))) 0 = 0"
    unfolding head_blk_def using assms(3) T(5) by (auto intro!: of_int_less simp: log_clear_def head_blk_def)
  have "\<exists>u. recover_from_log E s' = Inr u \<and> (\<forall>x. \<not> in_log (lg s) x \<longrightarrow> disk u x = disk s x)"
    if "rebooted c' i' (lg s) (disksize s) (disk s) s'" for c' i' s'
    using recover_empty[OF that assms(2) T(4) hz] head_in_log[OF T(5)] by metis
  then have "all_or_nothing E (lg s) (disksize s) [] (disk s) (disk s)" by (simp add: all_or_nothing_def)
  then show ?thesis
    using False T assms(3) view_clean[OF bio_invD(3)[OF T(1)] T(3)] by (auto simp: commit_def intro!: exI[of _ s])
qed

lemma tx_data_only:
  assumes "log_only f s t" "tx_data c i s"
    and "\<And>l. ldev (f l) = ldev l \<and> lsize (f l) = lsize l \<and> lhblock (f l) = lhblock l \<and> lhn (f l) = lhn l"
  shows "tx_data c i t"
proof -
  have "entries (f l) = entries l" for l using assms(3) by (simp add: entries_def)
  then show ?thesis using log_onlyD[OF assms(1)] assms(2,3) by (simp add: tx_data_def)
qed

lemma same_area:
  assumes "lstart l = lstart l'" "lsize l = lsize l'"
  shows "in_log l = in_log l'" "log_clear l = log_clear l'" "head_blk l = head_blk l'" "all_or_nothing E l = all_or_nothing E l'"
proof -
  show i: "in_log l = in_log l'" and h: "head_blk l = head_blk l'" using assms by (simp_all add: in_log_def head_blk_def fun_eq_iff)
  show "log_clear l = log_clear l'" using assms h by (simp add: log_clear_def fun_eq_iff)
  show "all_or_nothing E l = all_or_nothing E l'" using i assms(1) by (simp add: all_or_nothing_def rebooted_def fun_eq_iff)
qed

lemma end_op_commits:
  assumes "tx_inv c i s" "drv E = iderw" "log_clear (lg s) (disksize s) (disk s)"
    and "\<forall>x \<in> dirty_blocks (bc s). x < of_int (disksize s) \<and> \<not> in_log (lg s) x"
  shows "\<exists>t. end_op E s = Inr t \<and> log_idle c i t \<and> (\<forall>x. \<not> in_log (lg s) x \<longrightarrow> disk t x = view (bc s) (disk s) x) \<and>
     all_or_nothing E (lg s) (disksize s) (drop (length (diskw s)) (diskw t)) (disk s) (disk t)"
proof -
  have T: "tx_data c i s" "bio_inv c i {} s" "lock_free LogLock (core s)" "\<not> committing (lg s)" "outstanding (lg s) = 1"
    using assms(1) by (simp_all add: tx_inv_def tx_data_def)
  let ?f = "\<lambda>l :: logst. l\<lparr>outstanding := 0, committing := True\<rparr>"
  have com: "\<exists>t. commit E s4 = Inr t \<and> core t = core s4 \<and> bio_inv c i {} t \<and> lg t = (lg s4)\<lparr>lhn := 0\<rparr> \<and> disksize t = disksize s4 \<and>
     dirty_blocks (bc t) = {} \<and> log_clear (lg s4) (disksize s4) (disk t) \<and>
     (\<forall>x. \<not> in_log (lg s4) x \<longrightarrow> disk t x = view (bc s4) (disk s4) x) \<and>
     all_or_nothing E (lg s4) (disksize s4) (drop (length (diskw s4)) (diskw t)) (disk s4) (disk t)"
    if o: "log_only ?f s s4" for s4
  proof (rule commit_result[OF _ assms(2)])
    note D = log_onlyD[OF o] and a = same_area[of "?f (lg s)" "lg s", simplified]
    show "tx_data c i s4" by (rule tx_data_only[OF o T(1)]) simp
    show "log_clear (lg s4) (disksize s4) (disk s4)" using assms(3) D a by simp
    show "\<forall>x \<in> dirty_blocks (bc s4). x < of_int (disksize s4) \<and> \<not> in_log (lg s4) x" using assms(4) D a by simp
  qed
  obtain s4 s5 t where S: "log_only ?f s s4" "commit E s4 = Inr s5" "end_op E s = Inr t" "log_only (\<lambda>l. l\<lparr>committing := False\<rparr>) s5 t"
    by (rule end_op_ok[OF T(2-5), of E]) (use com in blast)
  note D4 = log_onlyD[OF S(1)] and D5 = log_onlyD[OF S(4)] and a = same_area[of "?f (lg s)" "lg s", simplified]
  note C = com[OF S(1), unfolded S(2) D4(1-6) a, simplified]
  have "tx_data c i t" using T(1) C D5 by (simp add: tx_data_def entries_def MAXOPBLOCKS_def)
  then have "log_idle c i t" using C D5 T(3) same_area[of "lg t" "lg s"] D4(1) by (simp add: log_idle_def)
  then show ?thesis using S(3) C D5 by simp
qed

text \<open>
  C3. Transactions are atomic. Between transactions, let a process call \<^verbatim>\<open>begin_op\<close>, write at most
  \<^verbatim>\<open>MAXOPBLOCKS\<close> different blocks outside the log (each read with \<^verbatim>\<open>bread\<close>, changed, logged with \<^verbatim>\<open>log_write\<close> and
  released with \<^verbatim>\<open>brelse\<close>), and call \<^verbatim>\<open>end_op\<close>. All these calls return; until \<^verbatim>\<open>end_op\<close> the disk is untouched, and
  afterwards it holds the new blocks and the log is ready for the next transaction. If the
  machine stops after any number of the disk writes that \<^verbatim>\<open>end_op\<close> makes, \<^verbatim>\<open>recover_from_log\<close> at the next
  start returns and leaves, outside the log, either the disk of before the transaction or the
  disk with all its blocks written.
\<close>

theorem transaction_atomic:
  assumes "log_idle c i s" "drv E = iderw"
    and "\<forall>w \<in> set ws. fst w < of_int (disksize s) \<and> \<not> in_log (lg s) (fst w)" "card (fst ` set ws) \<le> nat MAXOPBLOCKS"
  shows "\<exists>s1 s2 t. begin_op E s = Inr s1 \<and> write_all E ws s1 = Inr s2 \<and> end_op E s2 = Inr t \<and>
     disk s2 = disk s \<and> log_idle c i t \<and> (\<forall>x. \<not> in_log (lg s) x \<longrightarrow> disk t x = apply_writes ws (disk s) x) \<and>
     all_or_nothing E (lg s) (disksize s) (drop (length (diskw s)) (diskw t)) (disk s) (disk t)"
proof -
  have I: "tx_data c i s" "bio_inv c i {} s" "lock_free LogLock (core s)" "\<not> committing (lg s)" "outstanding (lg s) = 0" "lhn (lg s) = 0"
    "log_clear (lg s) (disksize s) (disk s)" "dirty_blocks (bc s) = {}"
    using assms(1) by (auto simp: log_idle_def tx_data_def)
  have "lhn (lg s) + (outstanding (lg s) + 1) * MAXOPBLOCKS \<le> int LOGSIZE" using I(5,6) by (simp add: MAXOPBLOCKS_def LOGSIZE_def)
  from begin_op_ok[OF bio_invD(1)[OF I(2)] I(3,4) this] obtain s1 where
    s1: "begin_op E s = Inr s1" "log_only (\<lambda>l. l\<lparr>outstanding := outstanding l + 1\<rparr>) s s1" by blast
  note B = log_onlyD[OF s1(2)]
  have "tx_inv c i s1" using I B(1,5) tx_data_only[OF s1(2) I(1)] by (simp add: tx_inv_def)
  moreover have "card (dirty_blocks (bc s1) \<union> fst ` set ws) \<le> nat MAXOPBLOCKS" using assms(4) I(8) B(6) by simp
  ultimately obtain s2 where s2: "write_all E ws s1 = Inr s2" "tx_inv c i s2" "pending ws s1 s2"
    using write_all_ok[of c i s1 E ws] assms(2,3) B(4) by auto
  have P: "disk s2 = disk s" "diskw s2 = diskw s" "disksize s2 = disksize s" "lstart (lg s2) = lstart (lg s)" "lsize (lg s2) = lsize (lg s)"
    "view (bc s2) (disk s2) = apply_writes ws (disk s)" "dirty_blocks (bc s2) = fst ` set ws"
    using s2(3) B(2-6) I(8) view_clean[OF bio_invD(3)[OF I(2)] I(8)] unfolding pending_def by auto
  note geo = same_area[OF P(4,5)]
  have "\<forall>x \<in> dirty_blocks (bc s2). x < of_int (disksize s2) \<and> \<not> in_log (lg s2) x" using assms(3) by (auto simp: P geo)
  moreover have "log_clear (lg s2) (disksize s2) (disk s2)" using I(7) by (simp add: P geo)
  ultimately obtain t where t: "end_op E s2 = Inr t" "log_idle c i t" "\<forall>x. \<not> in_log (lg s2) x \<longrightarrow> disk t x = view (bc s2) (disk s2) x"
    "all_or_nothing E (lg s2) (disksize s2) (drop (length (diskw s2)) (diskw t)) (disk s2) (disk t)"
    using end_op_commits[OF s2(2) assms(2)] by blast
  show ?thesis using s1(1) s2(1) t by (intro exI[of _ s1] exI[of _ s2] exI[of _ t]) (simp add: P(2-6) geo, simp add: P(1))
qed

theorem transaction_atomic_witness:
  "\<exists>s1 s2 t. begin_op demo_fsenv (demo_klog (\<lambda>_. replicate BSIZE 0)) = Inr s1 \<and> write_all demo_fsenv [(50, [7]), (51, [8])] s1 = Inr s2 \<and>
     end_op demo_fsenv s2 = Inr t \<and> disk t 50 = [7] \<and> disk t 51 = [8]"
proof -
  let ?d = "\<lambda>_ :: u32. replicate BSIZE (0 :: u8)"
  let ?s = "demo_klog ?d"
  have f: "entries demo_lg = []" "head_blk demo_lg = 2" "get32 (replicate BSIZE 0) 0 = 0"
    by (simp_all add: entries_def demo_lg_def head_blk_def get32_def BSIZE_def)
  have "tx_data 0 1 ?s" using demo_klog_ok(1)[of ?d] unfolding tx_data_def demo_klog_ok(2,6) f by (simp add: demo_lg_def MAXOPBLOCKS_def)
  then have I: "log_idle 0 1 ?s"
    using demo_klog_ok(7)[of LogLock ?d] unfolding log_idle_def demo_klog_ok(3,4,6) log_clear_def f by (simp add: demo_lg_def)
  have out: "\<not> in_log demo_lg (of_int a)" if "33 \<le> a" "a < 1000" for a
    using that unfolding in_log_def demo_lg_def by (auto simp: of_int_inj simp del: of_int_add)
  have "drv (demo_fsenv :: klog fsenv) = iderw" by (simp add: demo_fsenv_def)
  from transaction_atomic[OF I this, of "[(50, [7]), (51, [8])]"] out[of 50] out[of 51] show ?thesis
    by (auto simp: demo_klog_ok MAXOPBLOCKS_def)
qed

end
