(* ===== verification/PipeQueue.thy ===== *)
theory PipeQueue
  imports Pipe LogTrans
begin

text \<open>
  Pipes as queues. The ring buffer of \<^verbatim>\<open>pipe.c\<close>, whose counters run through all 32-bit values and wrap,
  implements a bounded first-in first-out queue; \<^verbatim>\<open>pipewrite\<close> and \<^verbatim>\<open>piperead\<close> append to it and take from it.
\<close>

section \<open>Bounded queues as an interface\<close>

text \<open>
  A client of a queue relies on two laws: \<open>put\<close> appends while there is room, \<open>get\<close> removes the first
  element while there is one. What whole sequences of them do follows.
\<close>

locale fifo =
  fixes put :: "'a \<Rightarrow> 's \<Rightarrow> 's" and get :: "'s \<Rightarrow> 'a \<times> 's" and contents :: "'s \<Rightarrow> 'a list" and ok :: "'s \<Rightarrow> bool" and cap :: nat
  assumes put_law: "ok x \<Longrightarrow> length (contents x) < cap \<Longrightarrow> ok (put c x) \<and> contents (put c x) = contents x @ [c]"
    and get_law: "ok x \<Longrightarrow> contents x \<noteq> [] \<Longrightarrow> ok (snd (get x)) \<and> contents x = fst (get x) # contents (snd (get x))"
begin

lemma put_all:
  "ok x \<Longrightarrow> length (contents x) + length cs \<le> cap \<Longrightarrow> ok (fold put cs x) \<and> contents (fold put cs x) = contents x @ cs"
  by (induction cs arbitrary: x) (auto simp: put_law)

primrec get_many :: "nat \<Rightarrow> 's \<Rightarrow> 'a list \<times> 's" where
  "get_many 0 x = ([], x)"
| "get_many (Suc n) x =
     (if contents x = [] then ([], x) else let (c, y) = get x; (cs, z) = get_many n y in (c # cs, z))"

lemma get_many_spec:
  "ok x \<Longrightarrow> ok (snd (get_many n x)) \<and> fst (get_many n x) = take n (contents x) \<and> contents (snd (get_many n x)) = drop n (contents x)"
proof (induction n arbitrary: x)
  case (Suc n)
  show ?case
  proof (cases "contents x = []")
    case False
    note G = get_law[OF Suc.prems False]
    show ?thesis using Suc.IH[of "snd (get x)"] G False by (cases "contents x") (auto simp: Let_def split: prod.splits)
  qed (use Suc.prems in simp)
qed simp

end

section \<open>The ring buffer of a pipe\<close>

definition pipe_len :: "pipe \<Rightarrow> nat" where "pipe_len x = unat (nwrite x - nread x)"

definition pipe_ok :: "pipe \<Rightarrow> bool" where
  "pipe_ok x \<longleftrightarrow> length (pdata x) = PIPESIZE \<and> pipe_len x \<le> PIPESIZE"

definition pipe_contents :: "pipe \<Rightarrow> u8 list" where
  "pipe_contents x = map (\<lambda>k. pdata x ! (unat (nread x + of_nat k) mod PIPESIZE)) [0..<pipe_len x]"

lemma pipe_contents_length [simp]: "length (pipe_contents x) = pipe_len x"
  by (simp add: pipe_contents_def)

text \<open>The index into the buffer does not depend on whether the counter has wrapped.\<close>

lemma pipe_index: "unat (a + b :: u32) mod PIPESIZE = (unat a mod PIPESIZE + unat b mod PIPESIZE) mod PIPESIZE"
proof -
  have "unat (a + b) = (unat a + unat b) mod 2 ^ 32" by (simp add: unat_word_ariths)
  moreover have "(m :: nat) mod 2 ^ 32 mod 512 = m mod 512" for m by (simp add: mod_mod_cancel)
  ultimately show ?thesis by (simp add: PIPESIZE_def mod_add_eq)
qed

lemma pipe_slots:
  assumes "j < PIPESIZE" "k < PIPESIZE"
  shows "unat (a + of_nat j :: u32) mod PIPESIZE = unat (a + of_nat k) mod PIPESIZE \<longleftrightarrow> j = k"
proof
  assume e: "unat (a + of_nat j) mod PIPESIZE = unat (a + of_nat k) mod PIPESIZE"
  have u: "unat (of_nat m :: u32) = m" if "m < PIPESIZE" for m using that by (simp add: PIPESIZE_def unat32_of_nat)
  have "(unat a mod PIPESIZE + j) mod PIPESIZE = (unat a mod PIPESIZE + k) mod PIPESIZE"
    using e assms by (simp add: pipe_index u)
  then have "(unat a + j) mod PIPESIZE = (unat a + k) mod PIPESIZE" by (simp add: mod_simps)
  then show "j = k" using mod_shift_inj assms by blast
qed simp

lemma pipe_put_ok:
  assumes "pipe_ok x" "pipe_len x < PIPESIZE"
  shows "pipe_ok (pipe_put c x) \<and> pipe_contents (pipe_put c x) = pipe_contents x @ [c]"
proof -
  let ?n = "pipe_len x"
  have w: "nwrite x = nread x + of_nat ?n" by (simp add: pipe_len_def)
  have e: "nwrite (pipe_put c x) - nread (pipe_put c x) = (nwrite x - nread x) + 1" by (simp add: pipe_put_def algebra_simps)
  have n: "pipe_len (pipe_put c x) = Suc ?n"
    using assms(2) unat_word_ariths(1)[of "nwrite x - nread x" 1] unfolding pipe_len_def e by (simp add: PIPESIZE_def)
  have l: "length (pdata x) = PIPESIZE" and b: "unat a mod PIPESIZE < PIPESIZE" for a :: u32 using assms(1) by (auto simp: pipe_ok_def PIPESIZE_def)
  have "pipe_contents (pipe_put c x) ! k = (pipe_contents x @ [c]) ! k" if "k < Suc ?n" for k
    using that n l b[of "nwrite x"] assms(2) pipe_slots[of k ?n "nread x"]
    by (cases "k = ?n") (auto simp: pipe_contents_def pipe_put_def w[symmetric] nth_list_update nth_append simp del: upt_Suc)
  then have "pipe_contents (pipe_put c x) = pipe_contents x @ [c]" using n by (intro nth_equalityI) simp_all
  then show ?thesis using assms n by (simp add: pipe_ok_def) (simp add: pipe_put_def)
qed

lemma pipe_get_ok:
  assumes "pipe_ok x" "pipe_contents x \<noteq> []"
  shows "pipe_ok (snd (pipe_get x)) \<and> pipe_contents x = fst (pipe_get x) # pipe_contents (snd (pipe_get x))"
proof -
  let ?y = "snd (pipe_get x)"
  have "0 < pipe_len x" using assms(2) by (metis length_greater_0_conv pipe_contents_length)
  then obtain m where m: "pipe_len x = Suc m" by (cases "pipe_len x") auto
  have e: "nwrite ?y - nread ?y = (nwrite x - nread x) - 1" by (simp add: pipe_get_def algebra_simps)
  have n: "pipe_len ?y = m" using m unat_sub_if_size[of "nwrite x - nread x" 1] unfolding pipe_len_def e by simp
  have "pipe_contents x = fst (pipe_get x) # pipe_contents ?y"
    using m n by (simp add: pipe_contents_def pipe_get_def upt_conv_Cons map_Suc_upt[symmetric] ac_simps del: upt_Suc)
  then show ?thesis using assms m n by (simp add: pipe_ok_def) (simp add: pipe_get_def)
qed

interpretation pq: fifo pipe_put pipe_get pipe_contents pipe_ok PIPESIZE
  using pipe_put_ok pipe_get_ok by unfold_locales simp_all

lemma pipe_full_len: "pipe_ok x \<Longrightarrow> pipe_full x \<longleftrightarrow> pipe_len x = PIPESIZE"
proof -
  have "nwrite x = nread x + of_nat PIPESIZE \<longleftrightarrow> nwrite x - nread x = of_nat PIPESIZE" by (auto simp: algebra_simps)
  also have "\<dots> \<longleftrightarrow> unat (nwrite x - nread x) = PIPESIZE"
    using unat32_of_nat[of PIPESIZE] by (auto simp: PIPESIZE_def word_unat_eq_iff)
  finally show ?thesis by (simp add: pipe_full_def pipe_len_def)
qed

lemma pipe_empty: "pipe_contents x = [] \<longleftrightarrow> nread x = nwrite x"
  by (auto simp: pipe_contents_def pipe_len_def unat_eq_0 simp flip: length_0_conv)

lemma piperead_copy_many: "piperead_copy n x = pq.get_many n x"
  by (induction n arbitrary: x) (simp_all add: pipe_empty)

section \<open>Writing and reading\<close>

lemma kpipe_frame [simp]:
  "pipes (acquired l c s) = pipes s" "pipes (released l c s) = pipes s" "pipes (touched c s) = pipes s"
  "pipes (pipe_upd p f s) = (pipes s)(p := f (pipes s p))" "core (pipe_upd p f s) = core s" "ptable (pipe_upd p f s) = ptable s"
  by (simp_all add: acquired_def released_def touched_def pipe_upd_def core_def)

lemma pipe_upd_upd: "pipe_upd p f (pipe_upd p g s) = pipe_upd p (f \<circ> g) s"
  by (simp add: pipe_upd_def)

definition pipe_ready :: "nat \<Rightarrow> nat \<Rightarrow> u32 \<Rightarrow> 'a kpipe_scheme \<Rightarrow> bool" where
  "pipe_ready c i p s \<longleftrightarrow> cpu_ok c (core s) \<and> cur c (core s) = Some i \<and> lock_free PtableLock (core s) \<and>
     lock_free (PipeLock (unat p)) (core s)"

lemma pipe_enter:
  assumes "pipe_ready c i p s"
  shows "acquire (PipeLock (unat p)) s = Inr (acquired (PipeLock (unat p)) c s)"
    "core (acquired (PipeLock (unat p)) c s) = take_lock (PipeLock (unat p)) c (core s)"
  using assms by (simp_all add: pipe_ready_def acquire_ok[of c])

lemma pipe_leave:
  assumes "pipe_ready c i p s" "core t = take_lock (PipeLock (unat p)) c (core s)"
  shows "release (PipeLock (unat p)) t = Inr (released (PipeLock (unat p)) c t)" "core (released (PipeLock (unat p)) c t) = core s"
  using assms by (auto simp: pipe_ready_def intro!: release_ok)

definition woken :: "chan \<Rightarrow> proc list \<Rightarrow> proc list" where
  "woken ch = map (\<lambda>q. if pstate q = SLEEPING \<and> pchan q = ch then q\<lparr>pstate := RUNNABLE\<rparr> else q)"

lemma pipe_wake:
  assumes "pipe_ready c i p s" "core u = take_lock (PipeLock (unat p)) c (core s)"
  shows "\<exists>t. kbind (wakeup ch u) (\<lambda>s3. kbind (release (PipeLock (unat p)) s3) (\<lambda>s4. Inr (r, s4))) = Inr (r, t) \<and> core t = core s \<and>
     pipes t = pipes u \<and> ptable t = woken ch (ptable u)"
proof -
  have "proc_ready c u" using assms by (simp add: proc_ready_def pipe_ready_def)
  from wakeup_slocks[OF this, of ch] obtain v where v: "wakeup ch u = Inr v" "core v = core u" "ksleep.more v = ksleep.more u"
    "ptable v = woken ch (ptable u)" by (auto simp: woken_def)
  have "pipes v = pipes u" using v(3) by (cases u; cases v) simp
  moreover have "core v = take_lock (PipeLock (unat p)) c (core s)" using v(2) assms(2) by simp
  note R = pipe_leave[OF assms(1) this]
  ultimately show ?thesis using v R by simp
qed

lemma pipewrite_loop_room:
  assumes "pipe_ok (pipes s p)" "pipe_len (pipes s p) + length cs \<le> PIPESIZE"
  shows "pipewrite_loop sw p fuel cs s = Inr (True, pipe_upd p (fold pipe_put cs) s)"
  using assms
proof (induction cs arbitrary: s)
  case Nil
  then show ?case by (simp add: pipe_upd_def)
next
  case (Cons c cs)
  have "pipe_len (pipes s p) < PIPESIZE" using Cons.prems(2) by simp
  note P = pipe_put_ok[OF Cons.prems(1) this, of c]
  have "length (pipe_contents (pipe_put c (pipes s p))) = Suc (pipe_len (pipes s p))" using P by simp
  then have "pipe_len (pipe_put c (pipes s p)) = Suc (pipe_len (pipes s p))" by simp
  moreover have "\<not> pipe_full (pipes s p)" using Cons.prems by (simp add: pipe_full_len)
  ultimately show ?case using Cons.IH[of "pipe_upd p (pipe_put c) s"] Cons.prems(2) P by (simp add: pipe_upd_upd comp_def)
qed

lemma pipewrite_loop_stuck:
  assumes "pipe_ok (pipes s p)" "PIPESIZE < pipe_len (pipes s p) + length cs" "\<not> readopen (pipes s p)"
  shows "pipewrite_loop sw p fuel cs s =
     kbind (release (PipeLock (unat p)) (pipe_upd p (fold pipe_put (take (PIPESIZE - pipe_len (pipes s p)) cs)) s)) (\<lambda>t. Inr (False, t))"
  using assms
proof (induction cs arbitrary: s)
  case Nil
  then show ?case by (simp add: pipe_ok_def)
next
  case (Cons c cs)
  show ?case
  proof (cases "pipe_len (pipes s p) = PIPESIZE")
    case True
    then show ?thesis using Cons.prems by (simp add: pipe_full_len pipe_upd_def)
  next
    case False
    then have l: "pipe_len (pipes s p) < PIPESIZE" using Cons.prems(1) by (simp add: pipe_ok_def)
    note P = pipe_put_ok[OF Cons.prems(1) l, of c]
    have "length (pipe_contents (pipe_put c (pipes s p))) = Suc (pipe_len (pipes s p))" using P by simp
    then have n: "pipe_len (pipe_put c (pipes s p)) = Suc (pipe_len (pipes s p))" by simp
    moreover have "\<not> pipe_full (pipes s p)" using Cons.prems(1) False by (simp add: pipe_full_len)
    moreover have "PIPESIZE - pipe_len (pipes s p) = Suc (PIPESIZE - Suc (pipe_len (pipes s p)))" using l by simp
    moreover have "readopen (pipe_put c x) = readopen x" for x by (simp add: pipe_put_def)
    ultimately show ?thesis
      using Cons.IH[of "pipe_upd p (pipe_put c) s"] Cons.prems(2,3) P by (simp add: pipe_upd_upd comp_def)
  qed
qed

section \<open>Properties\<close>


text \<open>
  A writer whose reader has gone. When the read end is closed and the bytes do not all fit,
  \<^verbatim>\<open>pipewrite\<close> returns \<open>-1\<close>, with the bytes that fit in the pipe and the lock released.
\<close>

theorem pipewrite_broken:
  assumes "pipe_ready c i p s" "pipe_ok (pipes s p)" "PIPESIZE < pipe_len (pipes s p) + length cs" "\<not> readopen (pipes s p)"
  shows "\<exists>t. pipewrite sw f p cs s = Inr (-1, t) \<and> pipe_ok (pipes t p) \<and>
     pipe_contents (pipes t p) = take PIPESIZE (pipe_contents (pipes s p) @ cs) \<and> ptable t = ptable s \<and> core t = core s"
proof -
  let ?lk = "PipeLock (unat p)" and ?m = "PIPESIZE - pipe_len (pipes s p)"
  let ?a = "pipe_upd p (fold pipe_put (take ?m cs)) (acquired ?lk c s)"
  note A = pipe_enter[OF assms(1)]
  have "core ?a = take_lock ?lk c (core s)" using A(2) by simp
  note R = pipe_leave[OF assms(1) this]
  have l: "pipe_len (pipes s p) \<le> PIPESIZE" using assms(2) by (simp add: pipe_ok_def)
  then have "pipe_ok (fold pipe_put (take ?m cs) (pipes s p)) \<and>
      pipe_contents (fold pipe_put (take ?m cs) (pipes s p)) = pipe_contents (pipes s p) @ take ?m cs"
    using assms(2,3) by (intro pq.put_all) auto
  moreover have "pipewrite sw f p cs s = Inr (-1, released ?lk c ?a)"
    using A(1) R(1) assms(2-4) pipewrite_loop_stuck[of "acquired ?lk c s" p cs sw f] by (simp add: pipewrite_def)
  ultimately show ?thesis using R(2) l by simp
qed

section \<open>Examples\<close>

text \<open>A pipe whose counters are about to wrap, with two bytes in it.\<close>

definition demo_pipe :: "bool \<Rightarrow> pipe" where
  "demo_pipe r = \<lparr>pdata = (replicate PIPESIZE 0)[510 := 5, 511 := 6], nread = 0xFFFFFFFE, nwrite = 0, readopen = r, writeopen = True\<rparr>"

definition demo_kpipe :: "bool \<Rightarrow> kpipe" where
  "demo_kpipe r = demo_kbio (\<lambda>_. []) \<lparr>lg = demo_lg, icache = [], sb = \<lparr>sbsize = 0, nblocks = 0, ninodes = 0, nlog = 0,
      logstart = 0, inodestart = 0, bmapstart = 0\<rparr>, pipes = (\<lambda>_. demo_pipe r)\<rparr>"

lemma demo_kpipe_ok:
  "pipe_ready 0 1 0x80200000 (demo_kpipe r)" "pipes (demo_kpipe r) p = demo_pipe r"
  "pipe_ok (demo_pipe r)" "pipe_len (demo_pipe r) = 2" "pipe_contents (demo_pipe r) = [5, 6]"
proof -
  show "pipe_ready 0 1 0x80200000 (demo_kpipe r)" unfolding pipe_ready_def demo_kpipe_def
    by (intro conjI demo_kbio_ok(1,2) demo_kbio_ok(4)[rule_format])
  show "pipes (demo_kpipe r) p = demo_pipe r" by (simp add: demo_kpipe_def demo_kbio_def kshm.defs)
  show l: "pipe_len (demo_pipe r) = 2" by (simp add: pipe_len_def demo_pipe_def)
  then show "pipe_ok (demo_pipe r)" by (simp add: pipe_ok_def) (simp add: demo_pipe_def PIPESIZE_def)
  show "pipe_contents (demo_pipe r) = [5, 6]"
    unfolding pipe_contents_def l by (simp add: demo_pipe_def PIPESIZE_def upt_rec)
qed


theorem pipewrite_broken_witness:
  "\<exists>t. pipewrite (\<lambda>_. Inl (Panic [])) 0 0x80200000 (replicate 600 7) (demo_kpipe False) = Inr (-1, t) \<and>
     pipe_contents (pipes t 0x80200000) = 5 # 6 # replicate 510 7"
proof -
  let ?p = "0x80200000 :: u32" and ?cs = "replicate 600 (7 :: u8)"
  have r: "\<not> readopen (demo_pipe False)" by (simp add: demo_pipe_def)
  have e: "PIPESIZE < pipe_len (demo_pipe False) + length ?cs" by (simp add: demo_kpipe_ok(4) PIPESIZE_def)
  have "take PIPESIZE ([5, 6] @ ?cs) = 5 # 6 # replicate 510 7" by (simp add: PIPESIZE_def min_def)
  with pipewrite_broken[OF demo_kpipe_ok(1), unfolded demo_kpipe_ok(2,5), OF demo_kpipe_ok(3) e r, of "\<lambda>_. Inl (Panic [])" 0] show ?thesis
    by auto
qed

end
