(* ===== verification/SyscallArgs.thy ===== *)
theory SyscallArgs
  imports Syscall LogTrans
begin

text \<open>
  What the checks on system call arguments (\<^verbatim>\<open>syscall.c\<close>) guarantee: the kernel follows a user pointer
  only into the memory of the process.
\<close>

section \<open>Reading user memory\<close>

lemma translate_cong:
  "mem s = mem t \<Longrightarrow> cr3 s = cr3 t \<Longrightarrow> lapicid s = lapicid t \<Longrightarrow> translate w s a = translate w t a"
  by (simp add: translate_def)

lemma uload_cong: "mem s = mem t \<Longrightarrow> cr3 s = cr3 t \<Longrightarrow> lapicid s = lapicid t \<Longrightarrow> uload a s = uload a t"
  using translate_cong[of s t False a] by (simp add: uload_def split: option.split)

lemma uloads_touched [simp]: "uloads n a (touched c s) = uloads n a s"
  by (induction n arbitrary: a) (simp_all add: uload_cong[of "touched c s" s])

lemma uload_touched [simp]: "uload a (touched c s) = uload a s"
  by (rule uload_cong) simp_all

lemma uload32_touched [simp]: "uload32 a (touched c s) = uload32 a s"
  by (simp add: uload32_def)

section \<open>The checks\<close>

text \<open>The process \<open>q\<close> runs on CPU \<open>c\<close>, and its memory ends below the kernel.\<close>

definition user_running :: "nat \<Rightarrow> nat \<Rightarrow> 'a pbase_scheme \<Rightarrow> bool" where
  "user_running c q s \<longleftrightarrow> cpu_ok c (core s) \<and> cur c (core s) = Some q \<and> sz (ptable s ! q) \<le> KERNBASE"

lemma user_running_touched [simp]: "user_running c q s \<Longrightarrow> user_running c q (touched c s)"
  by (simp add: user_running_def)

lemma curproc_ok: "user_running c q s \<Longrightarrow> curproc s = Inr (q, touched c s)"
  by (simp add: user_running_def curproc_def myproc_cur[of c] the_proc_def)

lemma end_check:
  assumes "z \<le> KERNBASE" "k < 2 ^ 31"
  shows "a \<ge> z \<or> a + of_nat k > z \<longleftrightarrow> \<not> (unat a < unat z \<and> unat a + k \<le> unat (z :: u32))"
proof (cases "a < z")
  case True
  have "unat z \<le> 2 ^ 31" using assms(1) by (simp add: word_le_nat_alt KERNBASE_def)
  then have "unat (a + of_nat k) = unat a + k"
    using True assms(2) by (simp add: word_less_nat_alt unat_word_ariths unsigned_of_nat take_bit_nat_eq_self)
  then show ?thesis using True by (auto simp: word_less_nat_alt word_le_nat_alt)
next
  case False
  then show ?thesis by (auto simp: word_less_nat_alt word_le_nat_alt not_less)
qed

lemma fetchint_ok:
  assumes "user_running c q s"
  shows "fetchint a s = (if unat a + 4 \<le> unat (sz (ptable s ! q)) then kbind (uload32 a s) (\<lambda>v. Inr (Some v, touched c s))
     else Inr (None, touched c s))"
proof -
  have z: "sz (ptable s ! q) \<le> KERNBASE" using assms by (simp add: user_running_def)
  have "a \<ge> sz (ptable s ! q) \<or> a + 4 > sz (ptable s ! q) \<longleftrightarrow> \<not> (unat a + 4 \<le> unat (sz (ptable s ! q)))"
    using end_check[OF z, of 4 a] by auto
  then show ?thesis by (simp add: fetchint_def curproc_ok[OF assms])
qed

lemma argint_ok:
  assumes "user_running c q s"
  shows "argint n s = (let a = user_esp q s + 4 + 4 * of_nat n in
     if unat a + 4 \<le> unat (sz (ptable s ! q)) then kbind (uload32 a s) (\<lambda>v. Inr (Some v, touched c (touched c s)))
     else Inr (None, touched c (touched c s)))"
  using fetchint_ok[OF user_running_touched[OF assms]] by (simp add: argint_def curproc_ok[OF assms] user_esp_def Let_def)

lemma fetchstr_loop_find:
  assumes "\<forall>j < n. uload (a + of_nat j) s = Inr (f j)"
  shows "fetchstr_loop n k a s = Inr (map_option ((+) k) (find_idx (\<lambda>j. f j = 0) [0..<n]))"
  using assms
proof (induction n arbitrary: k a f)
  case (Suc n)
  have "uload (a + 1 + of_nat j) s = Inr (f (Suc j))" if "j < n" for j
    using Suc.prems[rule_format, of "Suc j"] that by (simp add: add.assoc)
  then have "fetchstr_loop n (k + 1) (a + 1) s = Inr (map_option ((+) (k + 1)) (find_idx (\<lambda>j. f (Suc j) = 0) [0..<n]))"
    by (intro Suc.IH) blast
  moreover have "uload a s = Inr (f 0)" using Suc.prems by force
  moreover have "find_idx (\<lambda>j. f j = 0) [0..<Suc n] =
      (if f 0 = 0 then Some 0 else map_option Suc (find_idx (\<lambda>j. f (Suc j) = 0) [0..<n]))"
    by (simp add: upt_conv_Cons map_Suc_upt[symmetric] find_idx_map comp_def del: upt_Suc)
  moreover have "(+) (Suc k) = (\<lambda>x. Suc (k + x))" by (simp add: fun_eq_iff)
  ultimately show ?case by (simp add: option.map_comp comp_def del: upt_Suc)
qed simp

section \<open>Properties\<close>

text \<open>
  C32. User pointers are checked. For a running process whose memory ends at or below \<^verbatim>\<open>KERNBASE\<close>, with the
  \<open>n\<close>-th argument word on its stack, \<^verbatim>\<open>argptr\<close> accepts the pointer exactly when it points into the
  memory of the process and the whole block of \<open>k\<close> bytes lies there; no addition wraps. It changes no
  memory and no process.
\<close>

theorem argptr_bounds:
  assumes "user_running c q s" "k < 2 ^ 31" "unat (user_esp q s + 4 + 4 * of_nat n) + 4 \<le> unat (sz (ptable s ! q))"
    and "uload32 (user_esp q s + 4 + 4 * of_nat n) s = Inr i"
  shows "\<exists>t. argptr n k s = Inr (if 0 \<le> k \<and> unat i < unat (sz (ptable s ! q)) \<and> unat i + nat k \<le> unat (sz (ptable s ! q))
       then Some i else None, t) \<and> core t = core s \<and> ptable t = ptable s \<and> mem t = mem s"
proof -
  let ?z = "sz (ptable s ! q)"
  have z: "?z \<le> KERNBASE" using assms(1) by (simp add: user_running_def)
  have "k < 0 \<or> i \<ge> ?z \<or> i + of_int k > ?z \<longleftrightarrow> \<not> (0 \<le> k \<and> unat i < unat ?z \<and> unat i + nat k \<le> unat ?z)"
  proof (cases "k < 0")
    case False
    then have "(of_int k :: u32) = of_nat (nat k)" "nat k < 2 ^ 31" using assms(2) by simp_all
    then show ?thesis using False end_check[OF z, of "nat k" i] by simp
  qed simp
  moreover have "argint n (touched c s) = Inr (Some i, touched c (touched c (touched c s)))"
    using assms(3,4) argint_ok[OF user_running_touched[OF assms(1)], of n] by (simp add: user_esp_def Let_def)
  ultimately show ?thesis using assms(1) by (auto simp: argptr_def curproc_ok user_running_def Let_def)
qed

text \<open>
  C33. User strings are found. If every byte from the address to the end of the process can be read,
  \<^verbatim>\<open>fetchstr\<close> returns the distance to the first NUL, and fails exactly when the address is not in the
  process or no NUL follows before its end.
\<close>

theorem fetchstr_first_nul:
  assumes "user_running c q s" "\<forall>j < unat (sz (ptable s ! q) - a). uload (a + of_nat j) s = Inr (f j)"
  shows "fetchstr a s = Inr (if a < sz (ptable s ! q)
       then map_option (Pair a) (find_idx (\<lambda>j. f j = 0) [0..<unat (sz (ptable s ! q) - a)]) else None, touched c s)"
  using assms(2) fetchstr_loop_find[of "unat (sz (ptable s ! q) - a)" a "touched c s" f 0]
  by (auto simp: fetchstr_def curproc_ok[OF assms(1)] Let_def option.map_comp comp_def)

section \<open>Examples\<close>

text \<open>
  A process with one page of memory: the page directory is the page at \<open>0x1000\<close>, its first entry
  names the page table at \<open>0x2000\<close>, whose first entry names the page at \<open>0x3000\<close>.
\<close>

definition demo_user :: pbase where
  "demo_user = demo_pbase\<lparr>mem := (\<lambda>_. 0)(0x80001000 := 7, 0x80001001 := 0x20, 0x80002000 := 7, 0x80002001 := 0x30,
       0x80004045 := 0x0F, 0x80003F05 := 1, 0x80003FFD := 0x61, 0x80003FFE := 0x62),
     cr3 := (\<lambda>_. 0x1000), ptable := (ptable demo_pbase)[1 := (ptable demo_pbase ! 1)\<lparr>sz := 4096, tf := 0x80004000\<rparr>]\<rparr>"

lemma demo_user_ok:
  "user_running 0 1 demo_user" "sz (ptable demo_user ! 1) = 4096" "user_esp 1 demo_user = 0xF00" "uload32 0xF04 demo_user = Inr 0x100"
  "uload 0xFFD demo_user = Inr 0x61" "uload 0xFFE demo_user = Inr 0x62" "uload 0xFFF demo_user = Inr 0"
proof -
  have l: "1 < length (ptable demo_pbase)" by (simp add: demo_pbase_def demo_table_def)
  have "core demo_user = core demo_pbase" by (simp add: demo_user_def)
  then show "user_running 0 1 demo_user"
    using demo_ready l by (simp add: user_running_def proc_ready_def demo_user_def KERNBASE_def) (simp add: cur_def demo_pbase_def)
  show "sz (ptable demo_user ! 1) = 4096" "user_esp 1 demo_user = 0xF00" using l
    by (simp_all add: demo_user_def user_esp_def read32_def)
  show "uload32 0xF04 demo_user = Inr 0x100" "uload 0xFFD demo_user = Inr 0x61" "uload 0xFFE demo_user = Inr 0x62" "uload 0xFFF demo_user = Inr 0"
    by code_simp+
qed

theorem argptr_bounds_witness:
  "\<exists>t u. argptr 0 0xF00 demo_user = Inr (Some 0x100, t) \<and> argptr 0 0xF01 demo_user = Inr (None, u)"
proof -
  have e: "unat (user_esp 1 demo_user + 4 + 4 * of_nat 0) + 4 \<le> unat (sz (ptable demo_user ! 1))"
    "uload32 (user_esp 1 demo_user + 4 + 4 * of_nat 0) demo_user = Inr 0x100"
    unfolding demo_user_ok(2,3) using demo_user_ok(4) by simp_all
  show ?thesis
    using argptr_bounds[OF demo_user_ok(1) _ e, of "0xF00"] argptr_bounds[OF demo_user_ok(1) _ e, of "0xF01"]
    unfolding demo_user_ok(2) by auto
qed

theorem fetchstr_first_nul_witness: "fetchstr 0xFFD demo_user = Inr (Some (0xFFD, 2), touched 0 demo_user)"
proof -
  have n: "unat (sz (ptable demo_user ! 1) - 0xFFD) = Suc (Suc (Suc 0))" unfolding demo_user_ok(2) by simp
  have "\<forall>j < unat (sz (ptable demo_user ! 1) - 0xFFD). uload (0xFFD + of_nat j) demo_user = Inr ([0x61, 0x62, 0 :: u8] ! j)"
    unfolding n using demo_user_ok(5-7) by (auto simp: less_Suc_eq)
  from fetchstr_first_nul[OF demo_user_ok(1) this] show ?thesis
    unfolding n by (simp add: demo_user_ok(2)[simplified])
qed

end
