(* ===== verification/Grep.thy ===== *)
theory Grep
  imports Prelude
begin

text \<open>
  The pattern matcher and the line filter of \<^verbatim>\<open>grep.c\<close>. Strings are the lists of their bytes before the
  NUL. The matcher decides the language of the pattern; the filter prints the matching lines of a
  file that is read in full blocks, and loses lines when the reads are short.
\<close>

section \<open>The matcher\<close>

text \<open>The bytes of \<^verbatim>\<open>'^'\<close>, \<^verbatim>\<open>'$'\<close>, \<^verbatim>\<open>'.'\<close>, \<^verbatim>\<open>'*'\<close> and the newline.\<close>

definition caret :: u8 where "caret = 94"
definition dollar :: u8 where "dollar = 36"
definition dot :: u8 where "dot = 46"
definition star :: u8 where "star = 42"
definition newline :: u8 where "newline = 10"

fun matchhere :: "u8 list \<Rightarrow> u8 list \<Rightarrow> bool" and matchstar :: "u8 \<Rightarrow> u8 list \<Rightarrow> u8 list \<Rightarrow> bool" where
  "matchhere re ts =
     (case re of
        [] \<Rightarrow> True
      | r0 # re1 \<Rightarrow>
          (case re1 of
             r1 # re2 \<Rightarrow>
               if r1 = star then matchstar r0 re2 ts
               else (case ts of [] \<Rightarrow> False | c # ts1 \<Rightarrow> (r0 = dot \<or> r0 = c) \<and> matchhere re1 ts1)
           | [] \<Rightarrow>
               if r0 = dollar then ts = []
               else (case ts of [] \<Rightarrow> False | c # ts1 \<Rightarrow> (r0 = dot \<or> r0 = c) \<and> matchhere re1 ts1)))"
| "matchstar c re ts =
     (matchhere re ts \<or> (case ts of [] \<Rightarrow> False | x # ts1 \<Rightarrow> (x = c \<or> c = dot) \<and> matchstar c re ts1))"

declare matchhere.simps [simp del] matchstar.simps [simp del]

primrec match_from :: "u8 list \<Rightarrow> u8 list \<Rightarrow> bool" where
  "match_from re [] = matchhere re []"
| "match_from re (x # ts) = (matchhere re (x # ts) \<or> match_from re ts)"

definition match :: "u8 list \<Rightarrow> u8 list \<Rightarrow> bool" where
  "match re ts = (case re of r0 # re1 \<Rightarrow> if r0 = caret then matchhere re1 ts else match_from re ts | [] \<Rightarrow> match_from re ts)"

section \<open>The language of a pattern\<close>

datatype item = One u8 | Star u8

fun items :: "u8 list \<Rightarrow> item list \<times> bool" where
  "items [] = ([], False)"
| "items [r] = (if r = dollar then ([], True) else ([One r], False))"
| "items (r # r1 # re) =
     (if r1 = star then apfst (Cons (Star r)) (items re) else apfst (Cons (One r)) (items (r1 # re)))"

definition byte_ok :: "u8 \<Rightarrow> u8 \<Rightarrow> bool" where "byte_ok r c \<longleftrightarrow> r = dot \<or> r = c"

primrec lang :: "item list \<Rightarrow> u8 list set" where
  "lang [] = {[]}"
| "lang (k # ks) =
     (case k of One r \<Rightarrow> {c # w |c w. byte_ok r c \<and> w \<in> lang ks}
      | Star r \<Rightarrow> {u @ w |u w. list_all (byte_ok r) u \<and> w \<in> lang ks})"

text \<open>A prefix of the text is in the language, the whole text if the pattern ends with \<^verbatim>\<open>'$'\<close>.\<close>

definition prefix_in :: "item list \<times> bool \<Rightarrow> u8 list \<Rightarrow> bool" where
  "prefix_in k ts \<longleftrightarrow> (\<exists>w z. ts = w @ z \<and> w \<in> lang (fst k) \<and> (snd k \<longrightarrow> z = []))"

lemma prefix_inI: "ts = w @ z \<Longrightarrow> w \<in> lang (fst k) \<Longrightarrow> (snd k \<Longrightarrow> z = []) \<Longrightarrow> prefix_in k ts"
  by (auto simp: prefix_in_def)

lemma prefix_inE:
  assumes "prefix_in k ts"
  obtains w z where "ts = w @ z" "w \<in> lang (fst k)" "snd k \<longrightarrow> z = []"
  using assms by (auto simp: prefix_in_def)

lemma prefix_in_One:
  "prefix_in (apfst (Cons (One r)) k) ts \<longleftrightarrow> (case ts of [] \<Rightarrow> False | c # ts1 \<Rightarrow> (r = dot \<or> r = c) \<and> prefix_in k ts1)"
proof (cases ts)
  case (Cons c ts1)
  have "prefix_in (apfst (Cons (One r)) k) ts" if "r = dot \<or> r = c" "prefix_in k ts1"
    using that(2)
  proof (rule prefix_inE)
    fix w z assume w: "ts1 = w @ z" "w \<in> lang (fst k)" "snd k \<longrightarrow> z = []"
    show ?thesis by (rule prefix_inI[of _ "c # w" z]) (use that(1) w Cons in \<open>auto simp: byte_ok_def\<close>)
  qed
  moreover have "(r = dot \<or> r = c) \<and> prefix_in k ts1" if "prefix_in (apfst (Cons (One r)) k) ts"
    using that Cons by (elim prefix_inE) (auto simp: byte_ok_def intro: prefix_inI)
  ultimately show ?thesis using Cons by auto
qed (auto elim: prefix_inE)

lemma lang_Star: "list_all (byte_ok r) u \<Longrightarrow> w \<in> lang ks \<Longrightarrow> u @ w \<in> lang (Star r # ks)"
  by auto

lemma prefix_in_Star:
  "prefix_in (apfst (Cons (Star r)) k) ts \<longleftrightarrow>
     prefix_in k ts \<or> (case ts of [] \<Rightarrow> False | x # ts1 \<Rightarrow> (x = r \<or> r = dot) \<and> prefix_in (apfst (Cons (Star r)) k) ts1)"
  (is "?S ts \<longleftrightarrow> ?R")
proof
  assume "?S ts"
  then obtain w' z where w': "ts = w' @ z" "w' \<in> lang (fst (apfst (Cons (Star r)) k))" "snd k \<longrightarrow> z = []" by (rule prefix_inE) simp
  then obtain u w where u: "w' = u @ w" "list_all (byte_ok r) u" "w \<in> lang (fst k)" by auto
  show ?R
  proof (cases u)
    case Nil
    then show ?thesis using u w' by (auto intro: prefix_inI)
  next
    case (Cons x u')
    then have "?S ((u' @ w) @ z)" using u w'(3) by (intro prefix_inI[OF refl]) auto
    then show ?thesis using Cons u w'(1) by (auto simp: byte_ok_def)
  qed
next
  assume ?R
  then show "?S ts"
  proof
    assume "prefix_in k ts"
    then obtain w z where w: "ts = w @ z" "w \<in> lang (fst k)" "snd k \<longrightarrow> z = []" by (rule prefix_inE)
    moreover have "w \<in> lang (fst (apfst (Cons (Star r)) k))" if "w \<in> lang (fst k)" for w
      using that lang_Star[of r "[]" w "fst k"] by (simp del: lang.simps)
    ultimately show ?thesis by (intro prefix_inI[of _ w z]) (simp_all del: lang.simps)
  next
    assume a: "case ts of [] \<Rightarrow> False | x # ts1 \<Rightarrow> (x = r \<or> r = dot) \<and> ?S ts1"
    then obtain x ts1 where x: "ts = x # ts1" "byte_ok r x" "?S ts1" by (cases ts) (auto simp: byte_ok_def)
    from x(3) obtain w' z where w': "ts1 = w' @ z" "w' \<in> lang (fst (apfst (Cons (Star r)) k))" "snd k \<longrightarrow> z = []" by (rule prefix_inE) simp
    then obtain u w where u: "w' = u @ w" "list_all (byte_ok r) u" "w \<in> lang (fst k)" by auto
    then have "x # w' = (x # u) @ w" "list_all (byte_ok r) (x # u)" using x(2) by simp_all
    then have "x # w' \<in> lang (fst (apfst (Cons (Star r)) k))" using lang_Star[of r "x # u" w "fst k"] u(3) by (simp del: lang.simps)
    then show ?thesis using x(1) w' by (intro prefix_inI[of _ "x # w'" z]) auto
  qed
qed

lemma prefix_in_Nil: "prefix_in ([], b) ts \<longleftrightarrow> (b \<longrightarrow> ts = [])"
  by (auto simp: prefix_in_def)

lemma matchhere_prefix:
  "matchhere re ts = prefix_in (items re) ts"
  "matchstar c re ts = prefix_in (apfst (Cons (Star c)) (items re)) ts"
proof (induction re ts and c re ts rule: matchhere_matchstar.induct)
  case (1 re ts)
  show ?case
  proof (cases re rule: items.cases)
    case 1
    then show ?thesis by (simp add: matchhere.simps prefix_in_Nil)
  next
    case (2 r)
    then show ?thesis using 1 prefix_in_One[of r "([], False)" ts]
      by (auto simp: matchhere.simps prefix_in_Nil split: list.splits)
  next
    case (3 r r1 re')
    then show ?thesis using 1 prefix_in_One[of r "items (r1 # re')" ts]
      by (auto simp: matchhere.simps split: list.splits)
  qed
next
  case (2 c re ts)
  then show ?case using prefix_in_Star[of c "items re" ts] by (auto simp: matchstar.simps split: list.splits)
qed

lemma match_from_suffix: "match_from re ts \<longleftrightarrow> (\<exists>a b. ts = a @ b \<and> matchhere re b)"
proof (induction ts)
  case (Cons x ts)
  have "(\<exists>a b. x # ts = a @ b \<and> matchhere re b) \<longleftrightarrow> matchhere re (x # ts) \<or> (\<exists>a b. ts = a @ b \<and> matchhere re b)"
    by (auto simp: Cons_eq_append_conv)
  then show ?case using Cons by simp
qed auto

text \<open>
  C35. The matcher decides the language of the pattern: \<^verbatim>\<open>match\<close> always returns, and accepts a line exactly when
  a part of it is in the language of the pattern, where \<^verbatim>\<open>'.'\<close> stands for any byte, \<^verbatim>\<open>'*'\<close> after a byte for
  any number of repetitions, a leading \<^verbatim>\<open>'^'\<close> ties the part to the start of the line and a final \<^verbatim>\<open>'$'\<close> to
  its end.
\<close>

theorem match_language:
  "match re ts \<longleftrightarrow>
     (let anchored = (\<exists>re1. re = caret # re1); k = items (if anchored then tl re else re) in
      \<exists>a w z. ts = a @ w @ z \<and> w \<in> lang (fst k) \<and> (anchored \<longrightarrow> a = []) \<and> (snd k \<longrightarrow> z = []))"
  by (cases re) (auto simp: match_def Let_def match_from_suffix matchhere_prefix prefix_in_def)

theorem match_language_witness:
  "match [caret, 97, dot, star, 98] [97, 120, 98, 99] \<and>
   (\<exists>a w z. [97, 120, 98, 99] = a @ w @ z \<and> w \<in> lang [One 97, Star dot, One 98] \<and> a = [])"
proof -
  have m: "match [caret, 97, dot, star, 98] [97, 120, 98, 99]" by code_simp
  have i: "items [97, dot, star, 98] = ([One 97, Star dot, One 98], False)" by code_simp
  show ?thesis using m match_language[of "[caret, 97, dot, star, 98]" "[97, 120, 98, 99]"] i by auto
qed

section \<open>The line filter\<close>

text \<open>
  The inner loop on the part \<open>p\<close> of the buffer up to its NUL: what it writes, and where \<open>p\<close> is left. \<^verbatim>\<open>strchr\<close>
  looks for a newline before the first NUL.
\<close>

function scan :: "u8 list \<Rightarrow> u8 list \<Rightarrow> u8 list \<times> u8 list" where
  "scan re p =
     (case find_idx (\<lambda>c. c = newline) (takeWhile (\<lambda>c. c \<noteq> 0) p) of
        None \<Rightarrow> ([], p)
      | Some q \<Rightarrow> (let (out, r) = scan re (drop (q + 1) p) in ((if match re (take q p) then take (q + 1) p else []) @ out, r)))"
  by pat_completeness auto
termination
proof (relation "measure (length \<circ> snd)")
  fix re p :: "u8 list" and q
  assume "find_idx (\<lambda>c. c = newline) (takeWhile (\<lambda>c. c \<noteq> 0) p) = Some q"
  then have "q < length (takeWhile (\<lambda>c. c \<noteq> 0) p)" by (simp add: find_idx_Some_iff)
  then have "q < length p" using length_takeWhile_le[of "\<lambda>c. c \<noteq> 0" p] by linarith
  then show "((re, drop (q + 1) p), re, p) \<in> measure (length \<circ> snd)" by simp
qed simp

declare scan.simps [simp del]

text \<open>
  The buffer has 1024 bytes, \<open>b\<close> are those in use. The next \<^verbatim>\<open>read\<close> returns as many bytes as there is room
  for, are left in the file, and the next entry of \<open>ws\<close> allows (one more than it says).
\<close>

function grep_loop :: "u8 list \<Rightarrow> nat list \<Rightarrow> u8 list \<Rightarrow> u8 list \<Rightarrow> u8 list" where
  "grep_loop re ws b inp =
     (let n = min (min (1023 - length b) (length inp)) (case ws of [] \<Rightarrow> 1023 | w # ws1 \<Rightarrow> Suc w) in
      if n = 0 then []
      else
        let b1 = b @ take n inp; (out, p) = scan re b1 in
        out @ grep_loop re (tl ws) (if length p = length b1 then [] else p) (drop n inp))"
  by pat_completeness auto
termination by (relation "measure (\<lambda>(re, ws, b, inp). length inp)") (auto split: list.splits)

declare grep_loop.simps [simp del]

definition grep :: "u8 list \<Rightarrow> nat list \<Rightarrow> u8 list \<Rightarrow> u8 list" where
  "grep re ws inp = grep_loop re ws [] inp"

text \<open>The lines that end with a newline, and what follows the last of them.\<close>

function text_lines :: "u8 list \<Rightarrow> u8 list list \<times> u8 list" where
  "text_lines xs = (if newline \<in> set xs then apfst (Cons (takeWhile (\<lambda>c. c \<noteq> newline) xs)) (text_lines (tl (dropWhile (\<lambda>c. c \<noteq> newline) xs)))
     else ([], xs))"
  by pat_completeness auto
termination
proof (relation "measure length")
  fix xs :: "u8 list"
  assume "newline \<in> set xs"
  then have "dropWhile (\<lambda>c. c \<noteq> newline) xs \<noteq> []" by auto
  then have "length (tl (dropWhile (\<lambda>c. c \<noteq> newline) xs)) < length (dropWhile (\<lambda>c. c \<noteq> newline) xs)" by simp
  also have "\<dots> \<le> length xs" by (rule length_dropWhile_le)
  finally show "(tl (dropWhile (\<lambda>c. c \<noteq> newline) xs), xs) \<in> measure length" by simp
qed simp

declare text_lines.simps [simp del]

definition printed_lines :: "u8 list \<Rightarrow> u8 list list \<Rightarrow> u8 list" where
  "printed_lines re ls = concat (map (\<lambda>l. l @ [newline]) (filter (match re) ls))"

lemma text_lines_none: "newline \<notin> set xs \<Longrightarrow> text_lines xs = ([], xs)"
  by (simp add: text_lines.simps)

lemma while_line [simp]:
  "newline \<notin> set l \<Longrightarrow> takeWhile (\<lambda>c. c \<noteq> newline) (l @ newline # xs) = l"
  "newline \<notin> set l \<Longrightarrow> dropWhile (\<lambda>c. c \<noteq> newline) (l @ newline # xs) = newline # xs"
  by (induction l) auto

lemma text_lines_line: "newline \<notin> set l \<Longrightarrow> text_lines (l @ newline # xs) = apfst (Cons l) (text_lines xs)"
  by (subst text_lines.simps) simp

lemma text_lines_append:
  "text_lines (xs @ ys) = apfst ((@) (fst (text_lines xs))) (text_lines (snd (text_lines xs) @ ys))"
proof (induction xs rule: text_lines.induct)
  case (1 xs)
  show ?case
  proof (cases "newline \<in> set xs")
    case True
    then obtain l r where lr: "xs = l @ newline # r" "newline \<notin> set l" by (meson split_list_first)
    then have "tl (dropWhile (\<lambda>c. c \<noteq> newline) xs) = r" by simp
    then show ?thesis using 1[OF True] lr by (simp add: text_lines_line apfst_compose comp_def)
  qed (simp add: text_lines_none apfst_def map_prod_def)
qed

lemma text_lines_snd: "newline \<notin> set (snd (text_lines xs))"
  by (induction xs rule: text_lines.induct) (subst text_lines.simps, simp)

lemma text_lines_rest: "length (snd (text_lines xs)) \<le> length xs" "set (snd (text_lines xs)) \<subseteq> set xs"
proof (induction xs rule: text_lines.induct)
  case (1 xs)
  have "length (tl (dropWhile (\<lambda>c. c \<noteq> newline) xs)) \<le> length xs" "set (tl (dropWhile (\<lambda>c. c \<noteq> newline) xs)) \<subseteq> set xs"
    using length_dropWhile_le[of "\<lambda>c. c \<noteq> newline" xs] by (auto dest: list.set_sel(2)[rotated] set_dropWhileD) (metis list.set_sel(2) list.sel(2) set_dropWhileD)
  then have "newline \<in> set xs \<Longrightarrow> length (snd (text_lines xs)) \<le> length xs" "newline \<in> set xs \<Longrightarrow> set (snd (text_lines xs)) \<subseteq> set xs"
    using 1 by (auto simp: text_lines.simps[of xs])
  then show "length (snd (text_lines xs)) \<le> length xs" "set (snd (text_lines xs)) \<subseteq> set xs"
    by (cases "newline \<in> set xs"; simp add: text_lines_none)+
qed

lemma scan_lines:
  assumes "0 \<notin> set p"
  shows "scan re p = apfst (printed_lines re) (text_lines p)"
  using assms
proof (induction p rule: text_lines.induct)
  case (1 p)
  have tw: "takeWhile (\<lambda>c. c \<noteq> 0) p = p" using 1(2) by (auto simp: takeWhile_eq_all_conv)
  show ?case
  proof (cases "newline \<in> set p")
    case True
    then obtain l r where lr: "p = l @ newline # r" "newline \<notin> set l" by (meson split_list_first)
    have f: "find_idx (\<lambda>c. c = newline) p = Some (length l)"
      using lr by (intro find_idx_SomeI) (auto simp: nth_append dest: nth_mem)
    have "tl (dropWhile (\<lambda>c. c \<noteq> newline) p) = r" using lr by simp
    then have "scan re r = apfst (printed_lines re) (text_lines r)" using 1(1)[OF True] 1(2) lr by simp
    then show ?thesis unfolding scan.simps[of re p] tw f
      by (simp add: lr text_lines_line printed_lines_def apfst_def map_prod_def split_def)
  next
    case False
    then have "find_idx (\<lambda>c. c = newline) p = None" by (auto simp: find_idx_None_iff)
    then show ?thesis unfolding scan.simps[of re p] tw using False by (simp add: text_lines_none printed_lines_def)
  qed
qed

lemma grep_loop_lines:
  assumes "newline \<notin> set b" "0 \<notin> set b" "0 \<notin> set inp" "length b < 1023" "\<forall>l \<in> set (fst (text_lines (b @ inp))). length l < 1023"
  shows "grep_loop re [] b inp = printed_lines re (fst (text_lines (b @ inp)))"
  using assms
proof (induction "length inp" arbitrary: b inp rule: less_induct)
  case less
  show ?case
  proof (cases "inp = []")
    case True
    then show ?thesis using less.prems(1) by (subst grep_loop.simps) (simp add: text_lines_none printed_lines_def)
  next
    case False
    define n where "n = min (1023 - length b) (length inp)"
    define b1 where "b1 = b @ take n inp"
    have n: "min n 1023 = n" "0 < n" "n \<le> length inp" using False less.prems(4) by (auto simp: n_def)
    have s: "scan re b1 = apfst (printed_lines re) (text_lines b1)"
      using less.prems(2,3) by (intro scan_lines) (auto simp: b1_def dest: in_set_takeD)
    let ?b2 = "if length (snd (text_lines b1)) = length b1 then [] else snd (text_lines b1)"
    have step: "grep_loop re [] b inp = printed_lines re (fst (text_lines b1)) @ grep_loop re [] ?b2 (drop n inp)"
      using n by (subst grep_loop.simps) (simp add: n_def[symmetric] b1_def[symmetric] s split_def)
    have e: "b @ inp = b1 @ drop n inp" by (simp add: b1_def)
    have l1: "length b1 \<le> 1023" using less.prems(4) by (simp add: b1_def n_def)
    show ?thesis
    proof (cases "newline \<in> set b1")
      case True
      then obtain l r where lr: "b1 = l @ newline # r" "newline \<notin> set l" by (meson split_list_first)
      have "length (snd (text_lines b1)) < length b1" using text_lines_rest(1)[of r] lr by (simp add: text_lines_line)
      then have b2: "?b2 = snd (text_lines b1)" "length (snd (text_lines b1)) < 1023" using l1 by simp_all
      have t: "text_lines (b @ inp) = apfst ((@) (fst (text_lines b1))) (text_lines (?b2 @ drop n inp))"
        unfolding e b2(1) by (rule text_lines_append)
      have "0 \<notin> set b1" using less.prems(2,3) by (auto simp: b1_def dest: in_set_takeD)
      then have "grep_loop re [] ?b2 (drop n inp) = printed_lines re (fst (text_lines (?b2 @ drop n inp)))"
        using b2 n less.prems(3,5) text_lines_rest(2)[of b1] text_lines_snd[of b1] t
        by (intro less.hyps) (auto dest: in_set_dropD)
      then show ?thesis unfolding step t by (simp add: printed_lines_def)
    next
      case nl: False
      have "newline \<notin> set (drop n inp)"
      proof
        assume "newline \<in> set (drop n inp)"
        then obtain l r where lr: "drop n inp = l @ newline # r" "newline \<notin> set l" by (meson split_list_first)
        then have "b @ inp = (b1 @ l) @ newline # r" "newline \<notin> set (b1 @ l)" using e nl by simp_all
        then have "length (b1 @ l) < 1023" using less.prems(5) text_lines_line[of "b1 @ l" r] by simp
        moreover have "n = 1023 - length b" using lr(1) n by (cases "n = length inp") (auto simp: n_def)
        ultimately show False using less.prems(4) n(3) by (simp add: b1_def)
      qed
      moreover from this have "grep_loop re [] [] (drop n inp) = printed_lines re (fst (text_lines ([] @ drop n inp)))"
        using n less.prems(3) by (intro less.hyps) (auto simp: text_lines_none dest: in_set_dropD)
      ultimately show ?thesis unfolding step e using nl by (simp add: text_lines_none printed_lines_def)
    qed
  qed
qed


text \<open>
  Short reads lose text: when a \<^verbatim>\<open>read\<close> ends inside a line that has not been followed by a newline in the
  buffer, \<^verbatim>\<open>grep\<close> throws the part away that it has read and treats the rest as a line of its own.
\<close>

theorem grep_short_read_loses:
  assumes "0 \<notin> set x" "newline \<notin> set x" "x \<noteq> []" "length x \<le> 1023"
  shows "grep re ((length x - 1) # ws) (x @ inp) = grep re ws inp"
proof -
  have "scan re x = ([], x)" using assms(1,2) by (simp add: scan_lines text_lines_none printed_lines_def)
  then show ?thesis using assms(3,4) unfolding grep_def
    by (subst grep_loop.simps) (cases x; simp add: min_def Let_def)
qed


theorem grep_short_read_loses_witness: "grep [97] [0] [97, 98, 10] = [] \<and> grep [97] [] [97, 98, 10] = [97, 98, 10]"
proof
  have "grep [97] [] [98, 10] = []" by code_simp
  then show "grep [97] [0] [97, 98, 10] = []" using grep_short_read_loses[of "[97]" "[97]" "[]" "[98, 10]"] by (simp add: newline_def)
  show "grep [97] [] [97, 98, 10] = [97, 98, 10]" by code_simp
qed

end
