(* ===== verification/UserTools.thy ===== *)
theory UserTools
  imports Cprintf
begin

text \<open>
  Small user programs: \<^verbatim>\<open>wc.c\<close>, \<^verbatim>\<open>cat.c\<close>, \<^verbatim>\<open>strdiff.c\<close>, the number conversion of \<^verbatim>\<open>prio.c\<close> and the names that \<^verbatim>\<open>ls.c\<close>
  prints. What \<^verbatim>\<open>read\<close> returns is a list of blocks and whether the last call ended with the end of
  the file or an error. Strings are lists of characters without their NUL.
\<close>

section \<open>wc and cat\<close>

definition wc_space :: "char \<Rightarrow> bool" where
  "wc_space c \<longleftrightarrow> c \<in> set [CHR '' '', CHR 0x0D, CHR 0x09, CHR 0x0A, CHR 0x0B]"

record wcount =
  wl :: u32
  ww :: u32
  wch :: u32
  inword :: bool

definition wc_byte :: "char \<Rightarrow> wcount \<Rightarrow> wcount" where
  "wc_byte c s =
     (let s1 = s\<lparr>wch := wch s + 1\<rparr>;
          s2 = (if c = CHR 0x0A then s1\<lparr>wl := wl s1 + 1\<rparr> else s1)
      in if wc_space c then s2\<lparr>inword := False\<rparr>
         else if \<not> inword s2 then s2\<lparr>ww := ww s2 + 1, inword := True\<rparr> else s2)"

primrec wc_loop :: "string list \<Rightarrow> wcount \<Rightarrow> wcount" where
  "wc_loop [] s = s"
| "wc_loop (b # bs) s = wc_loop bs (fold wc_byte b s)"

definition wc :: "string list \<Rightarrow> bool \<Rightarrow> string \<Rightarrow> string kres" where
  "wc bs eof name =
     (let s = wc_loop bs \<lparr>wl = 0, ww = 0, wch = 0, inword = False\<rparr> in
      if \<not> eof then Inr (''wc: read error'' @ [CHR 0x0A])
      else uformat False (''%d %d %d %s'' @ [CHR 0x0A]) [AInt (wl s), AInt (ww s), AInt (wch s), AStr (Some name)])"

text \<open>\<open>acc\<close> says for each call of \<^verbatim>\<open>write\<close> whether it wrote the whole block.\<close>

primrec cat :: "string list \<Rightarrow> bool \<Rightarrow> bool list \<Rightarrow> string" where
  "cat [] eof acc = (if eof then [] else ''cat: read error'' @ [CHR 0x0A])"
| "cat (b # bs) eof acc =
     (if acc \<noteq> [] \<and> \<not> hd acc then ''cat: write error'' @ [CHR 0x0A] else b @ cat bs eof (tl acc))"

text \<open>The positions at which a word starts: no blank there, and the start or a blank before.\<close>

definition word_starts :: "string \<Rightarrow> nat set" where
  "word_starts xs = {k. k < length xs \<and> \<not> wc_space (xs ! k) \<and> (k = 0 \<or> wc_space (xs ! (k - 1)))}"

lemma word_starts_snoc:
  "word_starts (xs @ [c]) = (if \<not> wc_space c \<and> (xs = [] \<or> wc_space (last xs)) then insert (length xs) (word_starts xs) else word_starts xs)"
proof (cases "xs = []")
  case False
  then have "last xs = xs ! (length xs - 1)" by (rule last_conv_nth)
  moreover have "(xs @ [c]) ! (k - 1) = xs ! (k - 1)" if "k \<le> length xs" for k using that False by (cases k) (auto simp: nth_append)
  ultimately show ?thesis using False by (auto simp: word_starts_def nth_append less_Suc_eq)
qed (auto simp: word_starts_def)

lemma word_starts_finite [simp]: "finite (word_starts xs)" "length xs \<notin> word_starts xs"
  by (auto simp: word_starts_def)

lemma wc_bytes:
  "fold wc_byte xs \<lparr>wl = 0, ww = 0, wch = 0, inword = False\<rparr> =
     \<lparr>wl = of_nat (count_list xs (CHR 0x0A)), ww = of_nat (card (word_starts xs)), wch = of_nat (length xs),
      inword = (xs \<noteq> [] \<and> \<not> wc_space (last xs))\<rparr>"
proof (induction xs rule: rev_induct)
  case Nil
  then show ?case by (simp add: word_starts_def)
next
  case (snoc c xs)
  have "count_list (xs @ [c]) (CHR 0x0A) = count_list xs (CHR 0x0A) + (if c = CHR 0x0A then 1 else 0)" by simp
  moreover have "wc_space (CHR 0x0A)" by (simp add: wc_space_def)
  ultimately show ?case using snoc by (auto simp: wc_byte_def Let_def word_starts_snoc)
qed

lemma wc_loop_concat: "wc_loop bs s = fold wc_byte (concat bs) s"
  by (induction bs arbitrary: s) simp_all

text \<open>
  \<^verbatim>\<open>wc\<close> counts lines, words and bytes of its input, however \<^verbatim>\<open>read\<close> splits it: newlines, positions where a
  word starts, and length, each as a 32-bit integer.
\<close>

theorem wc_counts:
  "wc bs True name = uformat False (''%d %d %d %s'' @ [CHR 0x0A])
     [AInt (of_nat (count_list (concat bs) (CHR 0x0A))), AInt (of_nat (card (word_starts (concat bs)))),
      AInt (of_nat (length (concat bs))), AStr (Some name)]"
  by (simp add: wc_def wc_loop_concat wc_bytes)

section \<open>strdiff\<close>

definition MAX_LEN :: nat where "MAX_LEN = 15"

fun to_lower :: "string \<Rightarrow> string option" where
  "to_lower [] = Some []"
| "to_lower (c # cs) =
     (if c \<ge> CHR ''a'' \<and> c \<le> CHR ''z'' then map_option (Cons c) (to_lower cs)
      else if c \<ge> CHR ''A'' \<and> c \<le> CHR ''Z'' then map_option (Cons (char_of (of_char c + 32 :: nat))) (to_lower cs)
      else None)"

text \<open>A write into the array \<^verbatim>\<open>diff\<close>.\<close>

definition diff_set :: "nat \<Rightarrow> char \<Rightarrow> string \<Rightarrow> string kres" where
  "diff_set i c d = (if i < length d then Inr (d[i := c]) else Inl (Fault ''diff''))"

primrec strdiff_min :: "nat \<Rightarrow> nat \<Rightarrow> string \<Rightarrow> string \<Rightarrow> string \<Rightarrow> string kres" where
  "strdiff_min 0 i a b d = Inr d"
| "strdiff_min (Suc n) i a b d =
     kbind (diff_set i (if a ! i \<ge> b ! i then CHR ''0'' else CHR ''1'') d) (strdiff_min n (i + 1) a b)"

primrec strdiff_max :: "nat \<Rightarrow> nat \<Rightarrow> bool \<Rightarrow> string \<Rightarrow> string kres" where
  "strdiff_max 0 i first d = Inr d"
| "strdiff_max (Suc n) i first d = kbind (diff_set i (if \<not> first then CHR ''1'' else CHR ''0'') d) (strdiff_max n (i + 1) first)"

definition strdiff :: "string \<Rightarrow> string \<Rightarrow> string \<Rightarrow> (int \<times> string) kres" where
  "strdiff str1 str2 d =
     (case (to_lower str1, to_lower str2) of
        (Some a, Some b) \<Rightarrow>
          let first = (length a \<ge> length b); mx = max (length a) (length b); mn = min (length a) (length b) in
          kbind (strdiff_min mn 0 a b d) (\<lambda>d1.
          kbind (strdiff_max (mx - mn) mn first d1) (\<lambda>d2.
          kbind (diff_set mx (CHR 0x0A) d2) (\<lambda>d3.
          kbind (diff_set (mx + 1) (CHR 0x00) d3) (\<lambda>d4. Inr (1, d4)))))
      | _ \<Rightarrow> Inr (0, d))"

text \<open>What \<^verbatim>\<open>main\<close> prints, and the file it writes; \<open>fd_ok\<close> is whether the file could be created.\<close>

definition strdiff_main :: "string list \<Rightarrow> bool \<Rightarrow> (string \<times> string option) kres" where
  "strdiff_main argv fd_ok =
     (if length argv \<noteq> 3 then Inr (''Please enter exactly two strings!'' @ [CHR 0x0A], None)
      else if length (argv ! 1) > 15 \<or> length (argv ! 2) > 15
      then Inr (''Length of strings must be equal or less than 15!'' @ [CHR 0x0A], None)
      else if \<not> fd_ok then Inr (''Error happens when trying making file!'' @ [CHR 0x0A], None)
      else
        kbind (strdiff (argv ! 1) (argv ! 2) (replicate (MAX_LEN + 2) (CHR 0x00))) (\<lambda>(r, d).
        if r = 0 then Inr (''String must only include alphabetical characters!'' @ [CHR 0x0A], Some [])
        else Inr ([], Some (takeWhile (\<lambda>c. c \<noteq> CHR 0x00) d))))"

lemma to_lower_length: "to_lower s = Some a \<Longrightarrow> length a = length s"
  by (induction s arbitrary: a rule: to_lower.induct) (auto split: if_splits)

lemma strdiff_min_ok:
  assumes "i + n \<le> length d"
  shows "strdiff_min n i a b d = Inr (take i d @ map (\<lambda>k. if a ! k \<ge> b ! k then CHR ''0'' else CHR ''1'') [i..<i + n] @ drop (i + n) d)"
  using assms
proof (induction n arbitrary: i d)
  case (Suc n)
  let ?c = "if a ! i \<ge> b ! i then CHR ''0'' else CHR ''1''"
  have "strdiff_min n (i + 1) a b (d[i := ?c]) = Inr (take (i + 1) (d[i := ?c]) @
      map (\<lambda>k. if a ! k \<ge> b ! k then CHR ''0'' else CHR ''1'') [i + 1..<i + 1 + n] @ drop (i + 1 + n) (d[i := ?c]))"
    using Suc.prems by (intro Suc.IH) simp
  moreover have "take (i + 1) (d[i := ?c]) = take i d @ [?c]" using Suc.prems by (simp add: take_Suc_conv_app_nth)
  moreover have "[i..<i + Suc n] = i # [i + 1..<i + 1 + n]" by (simp add: upt_conv_Cons del: upt_Suc)
  ultimately show ?case using Suc.prems by (simp add: diff_set_def del: upt_Suc)
qed simp

lemma strdiff_max_ok:
  assumes "i + n \<le> length d"
  shows "strdiff_max n i first d = Inr (take i d @ replicate n (if \<not> first then CHR ''1'' else CHR ''0'') @ drop (i + n) d)"
  using assms
proof (induction n arbitrary: i d)
  case (Suc n)
  let ?c = "if \<not> first then CHR ''1'' else CHR ''0''"
  have "strdiff_max n (i + 1) first (d[i := ?c]) = Inr (take (i + 1) (d[i := ?c]) @ replicate n ?c @ drop (i + 1 + n) (d[i := ?c]))"
    using Suc.prems by (intro Suc.IH) simp
  moreover have "take (i + 1) (d[i := ?c]) = take i d @ [?c]" using Suc.prems by (simp add: take_Suc_conv_app_nth)
  ultimately show ?case using Suc.prems by (simp add: diff_set_def)
qed simp

text \<open>The result by position: a character that is missing counts as smaller.\<close>

definition diff_digits :: "string \<Rightarrow> string \<Rightarrow> string" where
  "diff_digits a b = map (\<lambda>k. if k < length a \<and> (k < length b \<longrightarrow> a ! k \<ge> b ! k) then CHR ''0'' else CHR ''1'') [0..<max (length a) (length b)]"

lemma diff_digits_split:
  "diff_digits a b = map (\<lambda>k. if a ! k \<ge> b ! k then CHR ''0'' else CHR ''1'') [0..<min (length a) (length b)] @
     replicate (max (length a) (length b) - min (length a) (length b)) (if \<not> length a \<ge> length b then CHR ''1'' else CHR ''0'')"
  by (rule nth_equalityI) (auto simp: diff_digits_def nth_append min_def max_def)

lemma drop_two: "Suc k < length d \<Longrightarrow> drop k d = d ! k # d ! Suc k # drop (k + 2) d"
  by (simp add: Cons_nth_drop_Suc)

lemma strdiff_ok:
  assumes "to_lower x = Some a" "to_lower y = Some b" "max (length a) (length b) + 1 < length d"
  shows "\<exists>d'. strdiff x y d = Inr (1, d') \<and> length d' = length d \<and>
     takeWhile (\<lambda>c. c \<noteq> CHR 0x00) d' = diff_digits a b @ [CHR 0x0A]"
proof -
  let ?mx = "max (length a) (length b)" and ?mn = "min (length a) (length b)"
  let ?d2 = "diff_digits a b @ drop ?mx d"
  have l: "length (diff_digits a b) = ?mx" by (simp add: diff_digits_def)
  have nz: "\<forall>c \<in> set (diff_digits a b). c \<noteq> CHR 0x00" by (auto simp: diff_digits_def)
  obtain d1 where d1: "strdiff_min ?mn 0 a b d = Inr d1" "strdiff_max (?mx - ?mn) ?mn (length a \<ge> length b) d1 = Inr ?d2"
    using assms(3) by (simp add: strdiff_min_ok strdiff_max_ok diff_digits_split)
  have "drop ?mx d = d ! ?mx # d ! Suc ?mx # drop (?mx + 2) d" using assms(3) by (intro drop_two) linarith
  then have d4: "?d2[?mx := CHR 0x0A, ?mx + 1 := CHR 0x00] = diff_digits a b @ CHR 0x0A # CHR 0x00 # drop (?mx + 2) d"
    using l by (simp add: list_update_append)
  have "?mx < length ?d2" "?mx + 1 < length (?d2[?mx := CHR 0x0A])" using l assms(3) by simp_all linarith+
  then have "strdiff x y d = Inr (1, ?d2[?mx := CHR 0x0A, ?mx + 1 := CHR 0x00])"
    using assms(1,2) d1 by (simp only: strdiff_def Let_def diff_set_def kbind_Inr option.case prod.case if_True)
  moreover have "length (?d2[?mx := CHR 0x0A, ?mx + 1 := CHR 0x00]) = length d" using l assms(3) by simp
  moreover have "takeWhile (\<lambda>c. c \<noteq> CHR 0x00) (?d2[?mx := CHR 0x0A, ?mx + 1 := CHR 0x00]) = diff_digits a b @ [CHR 0x0A]"
    unfolding d4 using nz by simp
  ultimately show ?thesis by blast
qed

text \<open>
  \<^verbatim>\<open>strdiff\<close> with two arguments: words that are too long are refused; for two words of letters the file
  holds one digit per position, \<^verbatim>\<open>1\<close> where the letter of the first word is missing or comes before
  the letter of the second, without regard to case; a word with another character leaves the file
  empty. No write leaves the 17 bytes of \<^verbatim>\<open>diff\<close>.
\<close>

theorem strdiff_writes_digits:
  "strdiff_main [prog, x, y] True =
     (if length x > 15 \<or> length y > 15 then Inr (''Length of strings must be equal or less than 15!'' @ [CHR 0x0A], None)
      else case (to_lower x, to_lower y) of
        (Some a, Some b) \<Rightarrow> Inr ([], Some (diff_digits a b @ [CHR 0x0A]))
      | _ \<Rightarrow> Inr (''String must only include alphabetical characters!'' @ [CHR 0x0A], Some []))"
proof (cases "length x > 15 \<or> length y > 15")
  case False
  show ?thesis
  proof (cases "\<exists>a b. to_lower x = Some a \<and> to_lower y = Some b")
    case True
    then obtain a b where ab: "to_lower x = Some a" "to_lower y = Some b" by blast
    then have "max (length a) (length b) + 1 < length (replicate (MAX_LEN + 2) (CHR 0x00))"
      using False to_lower_length[OF ab(1)] to_lower_length[OF ab(2)] by (simp add: MAX_LEN_def)
    from strdiff_ok[OF ab this] ab False show ?thesis by (auto simp: strdiff_main_def)
  next
    case no: False
    then have "strdiff x y d = Inr (0, d)" for d by (auto simp: strdiff_def split: option.splits)
    then show ?thesis using False no by (auto simp: strdiff_main_def split: option.splits)
  qed
qed (simp add: strdiff_main_def)

section \<open>Numbers in prio\<close>

text \<open>Division of C, which rounds towards zero.\<close>

definition quot10 :: "int \<Rightarrow> int" where
  "quot10 t = (if t < 0 then - ((- t) div 10) else t div 10)"

function declen :: "int \<Rightarrow> nat" where
  "declen t = (if t = 0 then 0 else Suc (declen (quot10 t)))"
  by pat_completeness auto
termination by (relation "measure (nat \<circ> abs)") (auto simp: quot10_def)

declare declen.simps [simp del]

definition str_set :: "nat \<Rightarrow> char \<Rightarrow> string \<Rightarrow> string kres" where
  "str_set i c s = (if i < length s then Inr (s[i := c]) else Inl (Fault ''string''))"

function put_digits :: "nat \<Rightarrow> int \<Rightarrow> string \<Rightarrow> string kres" where
  "put_digits i num s =
     (if num \<le> 0 then Inr s
      else kbind (str_set i (char_of (48 + nat (num mod 10))) s) (put_digits (i - 1) (num div 10)))"
  by pat_completeness auto
termination by (relation "measure (\<lambda>(i, num, s). nat num)") auto

declare put_digits.simps [simp del]

definition intToChar :: "int \<Rightarrow> string \<Rightarrow> string kres" where
  "intToChar num s =
     (if num = 0 then str_set 0 (CHR ''0'') s
      else
        let len = declen num in
        kbind (if num < 0 then str_set 0 (CHR ''-'') s else Inr s) (\<lambda>s1. put_digits (len - 1) (abs num) s1))"

lemma declen_digits: "0 < n \<Longrightarrow> declen (int n) = length (int_digits lower_digits 10 n)"
proof (induction n rule: less_induct)
  case (less n)
  have "quot10 (int n) = int (n div 10)" by (simp add: quot10_def zdiv_int)
  moreover have "declen (int (n div 10)) = (if n div 10 = 0 then 0 else length (int_digits lower_digits 10 (n div 10)))"
    using less by (auto simp: declen.simps[of 0])
  ultimately show ?case using less.prems by (subst declen.simps, subst int_digits.simps) simp
qed

lemma declen_neg: "declen (- t) = declen t"
proof (induction t rule: declen.induct)
  case (1 t)
  have "quot10 (- t) = - quot10 t" by (simp add: quot10_def)
  then show ?case using 1 by (subst (1 2) declen.simps) simp
qed

lemma put_digits_ok:
  assumes "0 < n" "length (int_digits lower_digits 10 n) \<le> length s"
  shows "put_digits (length (int_digits lower_digits 10 n) - 1) (int n) s =
     Inr (rev (int_digits lower_digits 10 n) @ drop (length (int_digits lower_digits 10 n)) s)"
  using assms
proof (induction n arbitrary: s rule: less_induct)
  case (less n)
  let ?ds = "int_digits lower_digits 10 (n div 10)" and ?c = "lower_digits ! (n mod 10)"
  have c: "char_of (48 + nat (int n mod 10)) = ?c"
    using lower_digit_decimal[of "n mod 10"] by (simp add: nat_mod_distrib)
  show ?case
  proof (cases "n div 10 = 0")
    case True
    then have d: "int_digits lower_digits 10 n = [?c]" by (subst int_digits.simps) simp
    have "0 < length s" using less.prems(2) d by (cases s) auto
    then show ?thesis using less.prems(1) True c
      by (simp add: d put_digits.simps[of 0 "int n"] str_set_def zdiv_int[symmetric] put_digits.simps[of _ 0]) (cases s; simp)
  next
    case False
    then have d: "int_digits lower_digits 10 n = ?c # ?ds" by (subst int_digits.simps) simp
    have p: "0 < length ?ds" by (subst int_digits.simps) simp
    let ?s = "s[length ?ds := ?c]"
    have "put_digits (length ?ds - 1) (int (n div 10)) ?s = Inr (rev ?ds @ drop (length ?ds) ?s)"
      using False less.prems(2) d by (intro less.IH) auto
    moreover have "drop (length ?ds) ?s = ?c # drop (Suc (length ?ds)) s"
      using less.prems(2) d Cons_nth_drop_Suc[of "length ?ds" ?s] by simp
    ultimately show ?thesis using less.prems c
      by (simp add: d put_digits.simps[of "length ?ds" "int n"] str_set_def zdiv_int)
  qed
qed

text \<open>
  \<^verbatim>\<open>intToChar\<close> writes the decimal digits of a positive number into a zeroed buffer that is large enough,
  so that \<^verbatim>\<open>atoi\<close> reads the number back; a negative number loses its sign.
\<close>

theorem intToChar_digits:
  assumes "0 < n" "n < 2 ^ 31" "length (int_digits lower_digits 10 n) \<le> k"
  shows "\<exists>s. intToChar (int n) (replicate k (CHR 0x00)) = Inr s \<and> intToChar (- int n) (replicate k (CHR 0x00)) = Inr s \<and>
     atoi (takeWhile (\<lambda>c. c \<noteq> CHR 0x00) s) = of_nat n"
proof -
  let ?ds = "int_digits lower_digits 10 n" and ?b = "replicate k (CHR 0x00)"
  have p: "0 < length ?ds" by (subst int_digits.simps) simp
  let ?s = "rev ?ds @ drop (length ?ds) ?b"
  have a: "intToChar (int n) ?b = Inr ?s"
    using assms put_digits_ok[of n ?b] by (simp add: intToChar_def declen_digits)
  have k: "0 < k" using p assms(3) by linarith
  have "put_digits (length ?ds - 1) (int n) (?b[0 := CHR ''-'']) = Inr (rev ?ds @ drop (length ?ds) (?b[0 := CHR ''-'']))"
    using assms by (intro put_digits_ok) simp_all
  then have "intToChar (- int n) ?b = Inr ?s"
    using assms(1) p k by (simp add: intToChar_def declen_neg declen_digits str_set_def)
  moreover have "\<forall>c \<in> set (rev ?ds). c \<noteq> CHR 0x00" using int_digits_are_digits[of n] by (auto simp: is_dec_digit_def)
  then have "takeWhile (\<lambda>c. c \<noteq> CHR 0x00) ?s = rev ?ds" by (simp add: takeWhile_append takeWhile_eq_Nil_iff) 
  ultimately show ?thesis using a atoi_from_int_digits[of n] by (auto simp: atoi_def)
qed

section \<open>Names in ls\<close>

primrec after_slash :: "nat \<Rightarrow> string \<Rightarrow> nat" where
  "after_slash 0 path = 0"
| "after_slash (Suc n) path = (if path ! n \<noteq> CHR ''/'' then after_slash n path else Suc n)"

definition fmtname :: "string \<Rightarrow> string" where
  "fmtname path =
     (let p = drop (after_slash (length path) path) path in
      if length p \<ge> 14 then p else p @ replicate (14 - length p) (CHR '' ''))"

lemma after_slash_le: "after_slash n path \<le> n"
  by (induction n) auto

lemma after_slash_last:
  "n \<le> length path \<Longrightarrow> drop (after_slash n path) (take n path) = rev (takeWhile (\<lambda>c. c \<noteq> CHR ''/'') (rev (take n path)))"
  by (induction n) (auto simp: take_Suc_conv_app_nth Suc_le_eq after_slash_le)

end
