(* ===== verification/Shell.thy ===== *)
theory Shell
  imports Cprintf
begin

text \<open>
  The command language of the shell (\<^verbatim>\<open>sh.c\<close>): scanner, parser, the NUL-termination of the words in the line
  buffer, and the system calls that running a command makes. A pointer into the line is kept as
  the offset from its start together with the rest of the line from there.
\<close>

section \<open>Commands\<close>

datatype 'w cmd =
  Exec "'w list"
| Redir "'w cmd" 'w nat nat
| Pipe "'w cmd" "'w cmd"
| List "'w cmd" "'w cmd"
| Back "'w cmd"

text \<open>
  The parser gives a word (\<^verbatim>\<open>argv[i]\<close> with \<^verbatim>\<open>eargv[i]\<close>, \<^verbatim>\<open>file\<close> with \<^verbatim>\<open>efile\<close>) by the offsets of its start and end in the
  line. The two numbers of \<open>Redir\<close> are the mode and the descriptor.
\<close>

type_synonym pos = "nat \<times> string"
type_synonym span = "nat \<times> nat"
type_synonym pcmd = "span cmd"

definition MAXARGS :: nat where "MAXARGS = 10"

definition O_RDONLY :: nat where "O_RDONLY = 0"

definition O_WRCREATE :: nat where "O_WRCREATE = 0x201"

section \<open>Scanner\<close>

definition whitespace :: "char \<Rightarrow> bool" where
  "whitespace c \<longleftrightarrow> c \<in> set [CHR '' '', CHR 0x09, CHR 0x0D, CHR 0x0A, CHR 0x0B]"

definition is_symbol :: "char \<Rightarrow> bool" where
  "is_symbol c \<longleftrightarrow> c \<in> set ''<|>&;()''"

definition is_word :: "char \<Rightarrow> bool" where
  "is_word c \<longleftrightarrow> \<not> whitespace c \<and> \<not> is_symbol c"

fun skip :: "(char \<Rightarrow> bool) \<Rightarrow> pos \<Rightarrow> pos" where
  "skip P (k, []) = (k, [])"
| "skip P (k, c # cs) = (if P c then skip P (k + 1, cs) else (k, c # cs))"

definition gettoken :: "pos \<Rightarrow> char \<times> nat \<times> nat \<times> pos" where
  "gettoken p =
     (let (k, xs) = skip whitespace p in
      case xs of
        [] \<Rightarrow> (CHR 0x00, k, k, (k, []))
      | c # ys \<Rightarrow>
          if c = CHR ''>'' then
            (case ys of
               d # zs \<Rightarrow> if d = CHR ''>'' then (CHR ''+'', k, k + 2, skip whitespace (k + 2, zs)) else (c, k, k + 1, skip whitespace (k + 1, ys))
             | [] \<Rightarrow> (c, k, k + 1, (k + 1, [])))
          else if is_symbol c then (c, k, k + 1, skip whitespace (k + 1, ys))
          else let (e, zs) = skip is_word (k, xs) in (CHR ''a'', k, e, skip whitespace (e, zs)))"

definition peek :: "pos \<Rightarrow> string \<Rightarrow> bool \<times> pos" where
  "peek p toks =
     (let (k, xs) = skip whitespace p in ((case xs of [] \<Rightarrow> False | c # ys \<Rightarrow> c \<in> set toks), (k, xs)))"

text \<open>The place of the pointer after a token.\<close>

definition tok_rest :: "char \<times> nat \<times> nat \<times> pos \<Rightarrow> pos" where
  "tok_rest t = snd (snd (snd t))"

lemma skip_eq: "skip P (k, xs) = (k + length (takeWhile P xs), dropWhile P xs)"
  by (induction P "(k, xs)" arbitrary: k xs rule: skip.induct) auto

lemma dropWhile_hd: "dropWhile P xs = c # ys \<Longrightarrow> \<not> P c"
  by (metis hd_dropWhile list.distinct(1) list.sel(1))

lemma gettoken_rest:
  assumes "snd (skip whitespace p) = c # ys"
  shows "length (snd (tok_rest (gettoken p))) \<le> length ys"
proof (cases p)
  case (Pair k xs)
  have d: "dropWhile whitespace xs = c # ys" using assms Pair by (simp add: skip_eq)
  have w: "\<not> whitespace c" using dropWhile_hd[OF d] .
  have ws: "length (dropWhile whitespace zs) \<le> n" if "length zs \<le> n" for zs n
    using that length_dropWhile_le[of whitespace zs] by simp
  show ?thesis
  proof (cases "is_symbol c")
    case True
    then show ?thesis using d by (cases ys) (auto simp: Pair gettoken_def tok_rest_def skip_eq ws)
  next
    case False
    then have "c \<noteq> CHR ''>''" by (auto simp: is_symbol_def)
    moreover have "length (dropWhile is_word ys) \<le> length ys" by (rule length_dropWhile_le)
    ultimately show ?thesis using d False w by (simp add: Pair gettoken_def tok_rest_def skip_eq is_word_def ws)
  qed
qed

lemma gettoken_le: "length (snd (tok_rest (gettoken p))) \<le> length (snd p)"
proof (cases "snd (skip whitespace p)")
  case Nil
  then show ?thesis by (cases p) (simp add: gettoken_def tok_rest_def skip_eq del: dropWhile_eq_Nil_conv)
next
  case (Cons c ys)
  then have "length ys < length (snd p)" using length_dropWhile_le[of whitespace "snd p"] by (cases p) (simp add: skip_eq)
  then show ?thesis using gettoken_rest[OF Cons] by simp
qed

lemma peek_skip: "snd (peek p toks) = skip whitespace p"
  by (simp add: peek_def split_def Let_def)

lemma peek_True:
  assumes "peek p toks = (True, p1)"
  obtains c ys where "p1 = skip whitespace p" "snd p1 = c # ys" "c \<in> set toks" "snd (skip whitespace p1) = c # ys" "length ys < length (snd p)"
proof -
  have p1: "p1 = skip whitespace p" using peek_skip[of p toks] assms by simp
  obtain c ys where c: "dropWhile whitespace (snd p) = c # ys" "c \<in> set toks"
    using assms by (cases p) (auto simp: peek_def skip_eq split: list.splits)
  have "length (c # ys) \<le> length (snd p)" unfolding c(1)[symmetric] by (rule length_dropWhile_le)
  then show thesis using that[of c ys] p1 c dropWhile_hd[OF c(1)] by (cases p) (simp add: skip_eq)
qed

lemma peek_le: "peek p toks = (b, p1) \<Longrightarrow> length (snd p1) \<le> length (snd p)"
  using peek_skip[of p toks] length_dropWhile_le[of whitespace "snd p"] by (cases p) (simp add: skip_eq)

text \<open>A token that \<^verbatim>\<open>peek\<close> has seen is consumed.\<close>

lemma peek_gettoken: "peek p toks = (True, p1) \<Longrightarrow> length (snd (tok_rest (gettoken p1))) < length (snd p)"
  by (elim peek_True) (metis gettoken_rest le_less_trans)

section \<open>Parser\<close>

function parseredirs :: "pcmd \<Rightarrow> pos \<Rightarrow> (pcmd \<times> pos) kres" where
  "parseredirs c p =
     (let (b, p1) = peek p ''<>'' in
      if \<not> b then Inr (c, p1)
      else
        let (tok, _, _, p2) = gettoken p1; (tok2, q, eq, p3) = gettoken p2 in
        if tok2 \<noteq> CHR ''a'' then Inl (Panic ''missing file for redirection'')
        else parseredirs (if tok = CHR ''<'' then Redir c (q, eq) O_RDONLY 0 else Redir c (q, eq) O_WRCREATE 1) p3)"
  by pat_completeness auto
termination
proof (relation "measure (\<lambda>(c, p). length (snd p))")
  fix c p t b p1 t1 tok t2 q0 t3 e0 p2 t4 tok2 t5 q t6 eq p3
  assume "t = peek p ''<>''" "(b, p1) = t" "\<not> \<not> b" and g1: "t1 = gettoken p1" "(tok, t2) = t1" "(q0, t3) = t2" "(e0, p2) = t3"
    and g2: "t4 = gettoken p2" "(tok2, t5) = t4" "(q, t6) = t5" "(eq, p3) = t6"
  then have "peek p ''<>'' = (True, p1)" by auto
  note pk = peek_gettoken[OF this]
  have t: "gettoken p1 = (tok, q0, e0, p2)" "gettoken p2 = (tok2, q, eq, p3)" using g1 g2 by simp_all
  have "length (snd p2) < length (snd p)" using pk t by (simp add: tok_rest_def)
  moreover have "length (snd p3) \<le> length (snd p2)" using gettoken_le[of p2] t by (simp add: tok_rest_def)
  ultimately show "((if tok = CHR ''<'' then Redir c (q, eq) O_RDONLY 0 else Redir c (q, eq) O_WRCREATE 1, p3), c, p) \<in> measure (\<lambda>(c, p). length (snd p))"
    by simp
qed simp

text \<open>The word goes to the innermost command, which the redirections around it point to.\<close>

fun add_arg :: "'w \<Rightarrow> 'w cmd \<Rightarrow> 'w cmd" where
  "add_arg w (Exec ws) = Exec (ws @ [w])"
| "add_arg w (Redir c f m d) = Redir (add_arg w c) f m d"
| "add_arg w c = c"

text \<open>The loop of \<^verbatim>\<open>parseexec\<close> over the words: the tenth word makes it panic.\<close>

function parseargs :: "nat \<Rightarrow> pcmd \<Rightarrow> pos \<Rightarrow> (pcmd \<times> pos) kres" where
  "parseargs argc c p =
     (let (b, p1) = peek p ''|)&;'' in
      if b then Inr (c, p1)
      else
        let (tok, q, eq, p2) = gettoken p1 in
        if tok = CHR 0x00 then Inr (c, p2)
        else if tok \<noteq> CHR ''a'' then Inl (Panic ''syntax'')
        else if argc + 1 \<ge> MAXARGS then Inl (Panic ''too many args'')
        else kbind (parseredirs (add_arg (q, eq) c) p2) (\<lambda>(c1, p3). parseargs (argc + 1) c1 p3))"
  by pat_completeness auto
termination by (relation "measure (\<lambda>(argc, c, p). MAXARGS - argc)") auto

text \<open>The loop of \<^verbatim>\<open>parseline\<close> over the ampersands.\<close>

function parsebacks :: "pcmd \<Rightarrow> pos \<Rightarrow> pcmd \<times> pos" where
  "parsebacks c p =
     (let (b, p1) = peek p ''&'' in if b then parsebacks (Back c) (tok_rest (gettoken p1)) else (c, p1))"
  by pat_completeness auto
termination by (relation "measure (\<lambda>(c, p). length (snd p))") (auto simp: peek_gettoken)

declare parseredirs.simps [simp del] parseargs.simps [simp del] parsebacks.simps [simp del]

fun parseline :: "nat \<Rightarrow> pos \<Rightarrow> (pcmd \<times> pos) kres"
and parsepipe :: "nat \<Rightarrow> pos \<Rightarrow> (pcmd \<times> pos) kres"
and parseexec :: "nat \<Rightarrow> pos \<Rightarrow> (pcmd \<times> pos) kres"
and parseblock :: "nat \<Rightarrow> pos \<Rightarrow> (pcmd \<times> pos) kres" where
  "parseline 0 p = Inl (Fault ''fuel'')"
| "parseline (Suc n) p =
     kbind (parsepipe n p) (\<lambda>(c, p1).
       let (c2, p2) = parsebacks c p1; (b, p3) = peek p2 '';'' in
       if b then kbind (parseline n (tok_rest (gettoken p3))) (\<lambda>(d, p4). Inr (List c2 d, p4))
       else Inr (c2, p3))"
| "parsepipe 0 p = Inl (Fault ''fuel'')"
| "parsepipe (Suc n) p =
     kbind (parseexec n p) (\<lambda>(c, p1).
       let (b, p2) = peek p1 ''|'' in
       if b then kbind (parsepipe n (tok_rest (gettoken p2))) (\<lambda>(d, p3). Inr (Pipe c d, p3))
       else Inr (c, p2))"
| "parseexec 0 p = Inl (Fault ''fuel'')"
| "parseexec (Suc n) p =
     (let (b, p1) = peek p ''('' in
      if b then parseblock n p1
      else kbind (parseredirs (Exec []) p1) (\<lambda>(c, p2). parseargs 0 c p2))"
| "parseblock 0 p = Inl (Fault ''fuel'')"
| "parseblock (Suc n) p =
     (let (b, p1) = peek p ''('' in
      if \<not> b then Inl (Panic ''parseblock'')
      else
        kbind (parseline n (tok_rest (gettoken p1))) (\<lambda>(c, p2).
          let (b2, p3) = peek p2 '')'' in
          if \<not> b2 then Inl (Panic ''syntax - missing )'')
          else parseredirs c (tok_rest (gettoken p3))))"

text \<open>A line of length \<open>n\<close> needs no more than \<open>4 * n + 4\<close> nested calls.\<close>

definition parse_fuel :: "string \<Rightarrow> nat" where
  "parse_fuel s = 4 * length s + 4"

text \<open>The buffer is the line with its NUL. \<^verbatim>\<open>nulterminate\<close> writes a NUL at the end of every word.\<close>

fun nulterminate :: "pcmd \<Rightarrow> string \<Rightarrow> string" where
  "nulterminate (Exec ws) buf = fold (\<lambda>w b. b[snd w := CHR 0x00]) ws buf"
| "nulterminate (Redir c f m d) buf = (nulterminate c buf)[snd f := CHR 0x00]"
| "nulterminate (Pipe l r) buf = nulterminate r (nulterminate l buf)"
| "nulterminate (List l r) buf = nulterminate r (nulterminate l buf)"
| "nulterminate (Back c) buf = nulterminate c buf"

definition parsecmd :: "string \<Rightarrow> (pcmd \<times> string) kres" where
  "parsecmd s =
     kbind (parseline (parse_fuel s) (0, s)) (\<lambda>(c, p).
       if snd (snd (peek p [])) \<noteq> [] then Inl (Panic ''syntax'')
       else Inr (c, nulterminate c (s @ [CHR 0x00])))"

text \<open>The command as \<^verbatim>\<open>runcmd\<close> sees it: each word is the C string that starts at its offset in the buffer.\<close>

definition word_at :: "string \<Rightarrow> span \<Rightarrow> string" where
  "word_at buf w = takeWhile (\<lambda>c. c \<noteq> CHR 0x00) (drop (fst w) buf)"

definition cmd_strings :: "pcmd \<times> string \<Rightarrow> string cmd" where
  "cmd_strings r = map_cmd (word_at (snd r)) (fst r)"

end
