(* ===== verification/ShellParse.thy ===== *)
theory ShellParse
  imports Shell
begin

text \<open>
  The parser of the shell: it always comes to an end, the words it returns lie in the line and are
  not cut by the NULs of the others, and it reads back every command that is written out in the
  command language.
\<close>

section \<open>Offsets\<close>

definition pos_ok :: "string \<Rightarrow> pos \<Rightarrow> bool" where
  "pos_ok s p \<longleftrightarrow> fst p \<le> length s \<and> snd p = drop (fst p) s"

definition span_ok :: "string \<Rightarrow> span \<Rightarrow> bool" where
  "span_ok s w \<longleftrightarrow> fst w < snd w \<and> snd w \<le> length s \<and> (\<forall>i. fst w \<le> i \<and> i < snd w \<longrightarrow> is_word (s ! i)) \<and>
     (snd w < length s \<longrightarrow> \<not> is_word (s ! snd w))"

definition spans_ok :: "string \<Rightarrow> pcmd \<Rightarrow> bool" where
  "spans_ok s c \<longleftrightarrow> (\<forall>w \<in> set_cmd c. span_ok s w)"

text \<open>What every routine of the parser, started at \<open>p\<close>, gives.\<close>

definition parsed :: "string \<Rightarrow> pos \<Rightarrow> (pcmd \<times> pos) kres \<Rightarrow> bool" where
  "parsed s p r \<longleftrightarrow> (\<forall>c p1. r = Inr (c, p1) \<longrightarrow> pos_ok s p1 \<and> length (snd p1) \<le> length (snd p) \<and> spans_ok s c)"

lemma spans_ok_simps [simp]:
  "spans_ok s (Exec ws) \<longleftrightarrow> (\<forall>w \<in> set ws. span_ok s w)"
  "spans_ok s (Redir c f m d) \<longleftrightarrow> spans_ok s c \<and> span_ok s f"
  "spans_ok s (Pipe l r) \<longleftrightarrow> spans_ok s l \<and> spans_ok s r"
  "spans_ok s (List l r) \<longleftrightarrow> spans_ok s l \<and> spans_ok s r"
  "spans_ok s (Back c) \<longleftrightarrow> spans_ok s c"
  by (auto simp: spans_ok_def)

lemma spans_ok_add_arg: "span_ok s w \<Longrightarrow> spans_ok s c \<Longrightarrow> spans_ok s (add_arg w c)"
  by (induction w c rule: add_arg.induct) auto

lemma parsed_Inr [simp]: "parsed s p (Inr (c, p1)) \<longleftrightarrow> pos_ok s p1 \<and> length (snd p1) \<le> length (snd p) \<and> spans_ok s c"
  unfolding parsed_def by blast

lemma parsed_Inl [simp]: "parsed s p (Inl e)"
  by (simp add: parsed_def)

lemma parsed_weaken: "parsed s p1 r \<Longrightarrow> length (snd p1) \<le> length (snd p) \<Longrightarrow> parsed s p r"
  unfolding parsed_def by (blast intro: order_trans)

lemma parsed_bind:
  assumes "parsed s p r"
    and "\<And>c p1. r = Inr (c, p1) \<Longrightarrow> pos_ok s p1 \<Longrightarrow> length (snd p1) \<le> length (snd p) \<Longrightarrow> spans_ok s c \<Longrightarrow> parsed s p (f c p1)"
  shows "parsed s p (kbind r (\<lambda>(c, p1). f c p1))"
  using assms by (cases r) auto

lemma pos_ok_skip:
  assumes "pos_ok s p"
  shows "pos_ok s (skip P p)"
proof -
  obtain k where p: "p = (k, drop k s)" and k: "k \<le> length s" using assms by (cases p) (auto simp: pos_ok_def)
  have "length (takeWhile P (drop k s)) \<le> length (drop k s)" by (rule length_takeWhile_le)
  then show ?thesis using k by (simp add: p pos_ok_def skip_eq dropWhile_eq_drop add.commute)
qed

lemma pos_ok_peek: "peek p toks = (b, p1) \<Longrightarrow> pos_ok s p \<Longrightarrow> pos_ok s p1"
  using peek_skip[of p toks] pos_ok_skip[of s p whitespace] by simp

lemma pos_ok_cons:
  assumes "pos_ok s (k, c # ys)"
  shows "pos_ok s (k + 1, ys)"
proof -
  have d: "drop k s = c # ys" using assms by (simp add: pos_ok_def)
  then have "k < length s" by (metis drop_all list.distinct(1) not_le)
  then show ?thesis using d by (simp add: pos_ok_def Cons_nth_drop_Suc[symmetric])
qed

lemma word_span:
  assumes p: "pos_ok s (k, xs)" and n: "takeWhile is_word xs \<noteq> []"
  shows "span_ok s (k, k + length (takeWhile is_word xs))"
proof -
  let ?w = "takeWhile is_word xs"
  have xs: "xs = drop k s" and k: "k \<le> length s" using p by (auto simp: pos_ok_def)
  have le: "length ?w \<le> length xs" by (rule length_takeWhile_le)
  have 1: "is_word (s ! i)" if "k \<le> i" "i < k + length ?w" for i
  proof -
    have "i - k < length ?w" using that by simp
    then have "?w ! (i - k) = xs ! (i - k)" "is_word (?w ! (i - k))"
      by (simp add: takeWhile_nth, metis nth_mem set_takeWhileD)
    then show ?thesis using that k by (simp add: xs)
  qed
  have 2: "\<not> is_word (s ! (k + length ?w))" if "k + length ?w < length s"
    using nth_length_takeWhile[of is_word xs] that k by (simp add: xs)
  show ?thesis using n le k 1 2 by (auto simp: span_ok_def xs)
qed

lemma gettoken_cases:
  assumes p: "pos_ok s p" and g: "gettoken p = (tok, q, e, p1)"
  shows "pos_ok s p1 \<and> (tok = CHR ''a'' \<longrightarrow> span_ok s (q, e))"
proof -
  obtain k xs where kx: "skip whitespace p = (k, xs)" by (cases "skip whitespace p")
  have ok: "pos_ok s (k, xs)" using pos_ok_skip[OF p, of whitespace] kx by simp
  show ?thesis
  proof (cases xs)
    case Nil
    then show ?thesis using g kx ok by (auto simp: gettoken_def)
  next
    case (Cons c ys)
    note c1 = pos_ok_cons[OF ok[unfolded Cons]]
    consider "c = CHR ''>''" | "c \<noteq> CHR ''>''" "is_symbol c" | "\<not> is_symbol c" "c \<noteq> CHR ''>''" by blast
    then show ?thesis
    proof cases
      case 1
      show ?thesis
      proof (cases ys)
        case Nil
        then show ?thesis using g kx Cons 1 c1 by (auto simp: gettoken_def)
      next
        case (Cons d zs)
        show ?thesis using g kx \<open>xs = c # ys\<close> Cons 1 c1 pos_ok_skip[OF c1, of whitespace] pos_ok_skip[OF pos_ok_cons[OF c1[unfolded Cons]], of whitespace]
          by (auto simp: gettoken_def split: if_splits)
      qed
    next
      case 2
      then show ?thesis using g kx Cons pos_ok_skip[OF c1] by (auto simp: gettoken_def is_symbol_def)
    next
      case 3
      have "is_word c" using dropWhile_hd[of whitespace "snd p" c ys] kx Cons 3 by (cases p) (simp add: skip_eq is_word_def)
      then have "takeWhile is_word xs \<noteq> []" by (simp add: Cons)
      then show ?thesis using g kx Cons 3 word_span[OF ok] pos_ok_skip[OF pos_ok_skip[OF ok], of whitespace is_word]
        by (auto simp: gettoken_def skip_eq)
    qed
  qed
qed

lemma pos_ok_gettoken: "pos_ok s p \<Longrightarrow> pos_ok s (tok_rest (gettoken p))"
  using gettoken_cases[of s p] by (cases "gettoken p") (auto simp: tok_rest_def)

lemma parsed_redirs: "pos_ok s p \<Longrightarrow> spans_ok s c \<Longrightarrow> parsed s p (parseredirs c p)"
proof (induction c p rule: parseredirs.induct)
  case (1 c p)
  obtain b p1 where pk: "peek p ''<>'' = (b, p1)" by (cases "peek p ''<>''")
  note ok1 = pos_ok_peek[OF pk 1(2)] peek_le[OF pk]
  show ?case
  proof (cases b)
    case False
    then show ?thesis using ok1 pk 1(3) by (simp add: parseredirs.simps[of c p])
  next
    case True
    obtain tok q0 e0 p2 where g1: "gettoken p1 = (tok, q0, e0, p2)" by (cases "gettoken p1")
    obtain tok2 q e p3 where g2: "gettoken p2 = (tok2, q, e, p3)" by (cases "gettoken p2")
    have o2: "pos_ok s p2" "length (snd p2) \<le> length (snd p)"
      using gettoken_cases[OF ok1(1) g1] gettoken_le[of p1] ok1(2) by (simp_all add: g1 tok_rest_def)
    have o3: "pos_ok s p3" "tok2 = CHR ''a'' \<longrightarrow> span_ok s (q, e)" "length (snd p3) \<le> length (snd p2)"
      using gettoken_cases[OF o2(1) g2] gettoken_le[of p2] by (simp_all add: g2 tok_rest_def)
    let ?c = "if tok = CHR ''<'' then Redir c (q, e) O_RDONLY 0 else Redir c (q, e) O_WRCREATE 1"
    have "parsed s p3 (parseredirs ?c p3)" if "tok2 = CHR ''a''"
      using 1(1)[OF refl pk[symmetric] _ refl g1[symmetric] refl refl refl g2[symmetric] refl refl] True that o3 1(3) by simp
    then show ?thesis using pk True g1 g2 o2 o3 parsed_weaken[of s p3 _ p] by (simp add: parseredirs.simps[of c p])
  qed
qed

lemma parsed_args: "pos_ok s p \<Longrightarrow> spans_ok s c \<Longrightarrow> parsed s p (parseargs argc c p)"
proof (induction argc c p rule: parseargs.induct)
  case (1 argc c p)
  obtain b p1 where pk: "peek p ''|)&;'' = (b, p1)" by (cases "peek p ''|)&;''")
  note ok1 = pos_ok_peek[OF pk 1(2)] peek_le[OF pk]
  obtain tok q e p2 where g: "gettoken p1 = (tok, q, e, p2)" by (cases "gettoken p1")
  have ok2: "pos_ok s p2" "tok = CHR ''a'' \<longrightarrow> span_ok s (q, e)" "length (snd p2) \<le> length (snd p)"
    using gettoken_cases[OF ok1(1) g] gettoken_le[of p1] ok1(2) by (simp_all add: g tok_rest_def)
  have "parsed s p (kbind (parseredirs (add_arg (q, e) c) p2) (\<lambda>(c1, p3). parseargs (argc + 1) c1 p3))"
    if "\<not> b" "tok = CHR ''a''" "\<not> argc + 1 \<ge> MAXARGS"
  proof (rule parsed_bind)
    show "parsed s p (parseredirs (add_arg (q, e) c) p2)"
      using parsed_redirs[OF ok2(1) spans_ok_add_arg] ok2(2,3) that(2) 1(3) by (auto intro: parsed_weaken)
    show "parsed s p (parseargs (argc + 1) c1 p3)"
      if "parseredirs (add_arg (q, e) c) p2 = Inr (c1, p3)" "pos_ok s p3" "length (snd p3) \<le> length (snd p)" "spans_ok s c1" for c1 p3
      using 1(1)[OF refl pk[symmetric] _ refl g[symmetric] refl refl _ _ _ that(1) refl] that \<open>\<not> b\<close> \<open>tok = CHR ''a''\<close> \<open>\<not> argc + 1 \<ge> MAXARGS\<close> parsed_weaken[of s p3 _ p] by auto
  qed
  then show ?case using pk g ok1 ok2 1(3) by (auto simp: parseargs.simps[of argc c p])
qed

lemma parsebacks_ok:
  assumes "pos_ok s p" "spans_ok s c" "parsebacks c p = (d, p1)"
  shows "pos_ok s p1 \<and> length (snd p1) \<le> length (snd p) \<and> spans_ok s d"
  using assms
proof (induction c p rule: parsebacks.induct)
  case (1 c p)
  obtain b p2 where pk: "peek p ''&'' = (b, p2)" by (cases "peek p ''&''")
  note ok1 = pos_ok_peek[OF pk 1(2)] peek_le[OF pk]
  show ?case
  proof (cases b)
    case True
    then show ?thesis using 1(1)[OF refl pk[symmetric] True] 1(3,4) pk pos_ok_gettoken[OF ok1(1)] peek_gettoken[of p "''&''" p2]
      by (simp add: parsebacks.simps[of c p])
  next
    case False
    then show ?thesis using pk ok1 1(3,4) by (simp add: parsebacks.simps[of c p])
  qed
qed

lemma parsed_line:
  assumes "\<And>p. pos_ok s p \<Longrightarrow> parsed s p (parsepipe n p)" "\<And>p. pos_ok s p \<Longrightarrow> parsed s p (parseline n p)" "pos_ok s p"
  shows "parsed s p (parseline (Suc n) p)"
  unfolding parseline.simps
proof (rule parsed_bind[OF assms(1)[OF assms(3)]])
  fix c r1
  assume r: "pos_ok s r1" "length (snd r1) \<le> length (snd p)" "spans_ok s c"
  obtain c2 p2 where b2: "parsebacks c r1 = (c2, p2)" by (cases "parsebacks c r1")
  note o2 = parsebacks_ok[OF r(1,3) b2]
  obtain b p3 where pk: "peek p2 '';'' = (b, p3)" by (cases "peek p2 '';''")
  note o3 = pos_ok_peek[OF pk, of s] peek_le[OF pk]
  have "parsed s p (kbind (parseline n (tok_rest (gettoken p3))) (\<lambda>(d, p4). Inr (List c2 d, p4)))"
  proof (rule parsed_bind)
    show "parsed s p (parseline n (tok_rest (gettoken p3)))"
      by (rule parsed_weaken[OF assms(2)]) (use o2 o3 r gettoken_le[of p3] in \<open>auto intro: pos_ok_gettoken\<close>)
  qed (use o2 in auto)
  then show "parsed s p (let (c2, p2) = parsebacks c r1; (b, p3) = peek p2 '';''
      in if b then kbind (parseline n (tok_rest (gettoken p3))) (\<lambda>(d, p4). Inr (List c2 d, p4)) else Inr (c2, p3))"
    using b2 pk o2 o3 r by auto
qed

lemma parsed_pipe:
  assumes "\<And>p. pos_ok s p \<Longrightarrow> parsed s p (parseexec n p)" "\<And>p. pos_ok s p \<Longrightarrow> parsed s p (parsepipe n p)" "pos_ok s p"
  shows "parsed s p (parsepipe (Suc n) p)"
  unfolding parsepipe.simps
proof (rule parsed_bind[OF assms(1)[OF assms(3)]])
  fix c r1
  assume r: "pos_ok s r1" "length (snd r1) \<le> length (snd p)" "spans_ok s c"
  obtain b p3 where pk: "peek r1 ''|'' = (b, p3)" by (cases "peek r1 ''|''")
  note o3 = pos_ok_peek[OF pk, of s] peek_le[OF pk]
  have "parsed s p (kbind (parsepipe n (tok_rest (gettoken p3))) (\<lambda>(d, p4). Inr (Pipe c d, p4)))"
  proof (rule parsed_bind)
    show "parsed s p (parsepipe n (tok_rest (gettoken p3)))"
      by (rule parsed_weaken[OF assms(2)]) (use o3 r gettoken_le[of p3] in \<open>auto intro: pos_ok_gettoken\<close>)
  qed (use r in auto)
  then show "parsed s p (let (b, p2) = peek r1 ''|''
      in if b then kbind (parsepipe n (tok_rest (gettoken p2))) (\<lambda>(d, p3). Inr (Pipe c d, p3)) else Inr (c, p2))"
    using pk o3 r by auto
qed

lemma parsed_exec:
  assumes "\<And>p. pos_ok s p \<Longrightarrow> parsed s p (parseblock n p)" "pos_ok s p"
  shows "parsed s p (parseexec (Suc n) p)"
proof -
  obtain b p1 where pk: "peek p ''('' = (b, p1)" by (cases "peek p ''(''")
  note o1 = pos_ok_peek[OF pk assms(2)] peek_le[OF pk]
  have "parsed s p (kbind (parseredirs (Exec []) p1) (\<lambda>(c, p2). parseargs 0 c p2))"
    by (rule parsed_bind[OF parsed_weaken[OF parsed_redirs[OF o1(1)]]]) (use o1 in \<open>auto intro: parsed_weaken parsed_args\<close>)
  then show ?thesis using pk parsed_weaken[OF assms(1)[OF o1(1)] o1(2)] by simp
qed

lemma parsed_block:
  assumes "\<And>p. pos_ok s p \<Longrightarrow> parsed s p (parseline n p)" "pos_ok s p"
  shows "parsed s p (parseblock (Suc n) p)"
proof -
  obtain b p1 where pk: "peek p ''('' = (b, p1)" by (cases "peek p ''(''")
  note o1 = pos_ok_peek[OF pk assms(2)] peek_le[OF pk]
  have g: "length (snd (tok_rest (gettoken p1))) \<le> length (snd p)" using gettoken_le[of p1] o1 by simp
  have "parsed s p (kbind (parseline n (tok_rest (gettoken p1))) (\<lambda>(c, p2). let (b2, p3) = peek p2 '')'' in
          if \<not> b2 then Inl (Panic ''syntax - missing )'') else parseredirs c (tok_rest (gettoken p3))))"
  proof (rule parsed_bind[OF parsed_weaken[OF assms(1)[OF pos_ok_gettoken[OF o1(1)]] g]])
    fix c r1
    assume r: "pos_ok s r1" "length (snd r1) \<le> length (snd p)" "spans_ok s c"
    obtain b2 p3 where pk: "peek r1 '')'' = (b2, p3)" by (cases "peek r1 '')''")
    note o3 = pos_ok_peek[OF pk r(1)] peek_le[OF pk]
    show "parsed s p (let (b2, p3) = peek r1 '')'' in
          if \<not> b2 then Inl (Panic ''syntax - missing )'') else parseredirs c (tok_rest (gettoken p3)))"
      using pk o3 r gettoken_le[of p3] parsed_weaken[OF parsed_redirs[OF pos_ok_gettoken[OF o3(1)] r(3)]] by simp
  qed
  then show ?thesis using pk by simp
qed

lemma parsed_all:
  "pos_ok s p \<Longrightarrow> parsed s p (parseline n p)"
  "pos_ok s p \<Longrightarrow> parsed s p (parsepipe n p)"
  "pos_ok s p \<Longrightarrow> parsed s p (parseexec n p)"
  "pos_ok s p \<Longrightarrow> parsed s p (parseblock n p)"
proof -
  have "\<forall>p. pos_ok s p \<longrightarrow> parsed s p (parseline n p) \<and> parsed s p (parsepipe n p) \<and> parsed s p (parseexec n p) \<and> parsed s p (parseblock n p)"
  proof (induction n)
    case (Suc n)
    then show ?case by (blast intro: parsed_line parsed_pipe parsed_exec parsed_block)
  qed simp
  then show "pos_ok s p \<Longrightarrow> parsed s p (parseline n p)" "pos_ok s p \<Longrightarrow> parsed s p (parsepipe n p)"
    "pos_ok s p \<Longrightarrow> parsed s p (parseexec n p)" "pos_ok s p \<Longrightarrow> parsed s p (parseblock n p)" by blast+
qed

section \<open>The fuel is enough\<close>

abbreviation no_fuel :: kerr where "no_fuel \<equiv> Fault ''fuel''"

lemma kbind_Inl_iff: "kbind r f = Inl e \<longleftrightarrow> r = Inl e \<or> (\<exists>x. r = Inr x \<and> f x = Inl e)"
  by (cases r) auto

lemma kbind_stable:
  assumes "kbind r f \<noteq> Inl e" "r \<noteq> Inl e \<Longrightarrow> r' = r" "\<And>x. r = Inr x \<Longrightarrow> f x \<noteq> Inl e \<Longrightarrow> f' x = f x"
  shows "kbind r' f' = kbind r f"
  using assms by (cases r) auto

lemma parseredirs_total: "parseredirs c p \<noteq> Inl no_fuel"
proof (induction c p rule: parseredirs.induct)
  case (1 c p)
  obtain b p1 where pk: "peek p ''<>'' = (b, p1)" by (cases "peek p ''<>''")
  obtain tok q0 e0 p2 where g1: "gettoken p1 = (tok, q0, e0, p2)" by (cases "gettoken p1")
  obtain tok2 q e p3 where g2: "gettoken p2 = (tok2, q, e, p3)" by (cases "gettoken p2")
  show ?case using 1[OF refl pk[symmetric] _ refl g1[symmetric] refl refl refl g2[symmetric] refl refl]
    by (simp add: parseredirs.simps[of c p] pk g1 g2)
qed

lemma parseargs_total: "parseargs argc c p \<noteq> Inl no_fuel"
proof (induction argc c p rule: parseargs.induct)
  case (1 argc c p)
  obtain b p1 where pk: "peek p ''|)&;'' = (b, p1)" by (cases "peek p ''|)&;''")
  obtain tok q e p2 where g: "gettoken p1 = (tok, q, e, p2)" by (cases "gettoken p1")
  show ?case using 1[OF refl pk[symmetric] _ refl g[symmetric] refl refl]
    by (auto simp: parseargs.simps[of argc c p] pk g kbind_Inl_iff parseredirs_total)
qed

lemma parse_stable:
  "(parseline n p \<noteq> Inl no_fuel \<longrightarrow> parseline (Suc n) p = parseline n p) \<and>
   (parsepipe n p \<noteq> Inl no_fuel \<longrightarrow> parsepipe (Suc n) p = parsepipe n p) \<and>
   (parseexec n p \<noteq> Inl no_fuel \<longrightarrow> parseexec (Suc n) p = parseexec n p) \<and>
   (parseblock n p \<noteq> Inl no_fuel \<longrightarrow> parseblock (Suc n) p = parseblock n p)"
proof (induction n arbitrary: p)
  case (Suc n)
  note IH = Suc.IH[THEN conjunct1, THEN mp] Suc.IH[THEN conjunct2, THEN conjunct1, THEN mp]
    Suc.IH[THEN conjunct2, THEN conjunct2, THEN conjunct1, THEN mp] Suc.IH[THEN conjunct2, THEN conjunct2, THEN conjunct2, THEN mp]
  have l: "parseline (Suc (Suc n)) p = parseline (Suc n) p" if "parseline (Suc n) p \<noteq> Inl no_fuel"
    using that unfolding parseline.simps(2)[of "Suc n"] parseline.simps(2)[of n p]
    by (rule kbind_stable) (auto simp del: parseline.simps parsepipe.simps simp: split_def Let_def intro!: kbind_stable IH)
  have p: "parsepipe (Suc (Suc n)) p = parsepipe (Suc n) p" if "parsepipe (Suc n) p \<noteq> Inl no_fuel"
    using that unfolding parsepipe.simps(2)[of "Suc n"] parsepipe.simps(2)[of n p]
    by (rule kbind_stable) (auto simp del: parseexec.simps parsepipe.simps simp: split_def Let_def intro!: kbind_stable IH)
  have e: "parseexec (Suc (Suc n)) p = parseexec (Suc n) p" if "parseexec (Suc n) p \<noteq> Inl no_fuel"
    using that unfolding parseexec.simps(2)[of "Suc n"] parseexec.simps(2)[of n p]
    by (auto simp del: parseblock.simps simp: split_def Let_def intro!: IH)
  have b: "parseblock (Suc (Suc n)) p = parseblock (Suc n) p" if "parseblock (Suc n) p \<noteq> Inl no_fuel"
    using that unfolding parseblock.simps(2)[of "Suc n"] parseblock.simps(2)[of n p]
    by (auto simp del: parseline.simps simp: split_def Let_def intro!: kbind_stable IH)
  show ?case using l p e b by blast
qed simp

lemma fuel_line:
  assumes "\<And>p. pos_ok s p \<Longrightarrow> 4 * length (snd p) + 3 \<le> n \<Longrightarrow> parsepipe n p \<noteq> Inl no_fuel"
    "\<And>p. pos_ok s p \<Longrightarrow> 4 * length (snd p) + 4 \<le> n \<Longrightarrow> parseline n p \<noteq> Inl no_fuel"
    and p: "pos_ok s p" "4 * length (snd p) + 4 \<le> Suc n"
  shows "parseline (Suc n) p \<noteq> Inl no_fuel"
proof
  assume "parseline (Suc n) p = Inl no_fuel"
  then obtain c p1 where r: "parsepipe n p = Inr (c, p1)"
    and k: "(let (c2, p2) = parsebacks c p1; (b, p3) = peek p2 '';'' in
       if b then kbind (parseline n (tok_rest (gettoken p3))) (\<lambda>(d, p4). Inr (List c2 d, p4)) else Inr (c2, p3)) = Inl no_fuel"
    using assms(1)[OF p(1)] p(2) by (auto simp: kbind_Inl_iff)
  have o1: "pos_ok s p1" "length (snd p1) \<le> length (snd p)" "spans_ok s c" using parsed_all(2)[OF p(1), of n] r by auto
  obtain c2 p2 where b2: "parsebacks c p1 = (c2, p2)" by (cases "parsebacks c p1")
  note o2 = parsebacks_ok[OF o1(1,3) b2]
  obtain p3 where pk: "peek p2 '';'' = (True, p3)" and f: "parseline n (tok_rest (gettoken p3)) = Inl no_fuel"
    using k b2 by (auto simp: kbind_Inl_iff split: prod.splits if_splits)
  show False using assms(2)[OF pos_ok_gettoken[OF pos_ok_peek[OF pk]]] f o1 o2 p(2) peek_gettoken[OF pk] by simp
qed

lemma fuel_pipe:
  assumes "\<And>p. pos_ok s p \<Longrightarrow> 4 * length (snd p) + 2 \<le> n \<Longrightarrow> parseexec n p \<noteq> Inl no_fuel"
    "\<And>p. pos_ok s p \<Longrightarrow> 4 * length (snd p) + 3 \<le> n \<Longrightarrow> parsepipe n p \<noteq> Inl no_fuel"
    and p: "pos_ok s p" "4 * length (snd p) + 3 \<le> Suc n"
  shows "parsepipe (Suc n) p \<noteq> Inl no_fuel"
proof
  assume "parsepipe (Suc n) p = Inl no_fuel"
  then obtain c p1 where r: "parseexec n p = Inr (c, p1)"
    and k: "(let (b, p2) = peek p1 ''|'' in
       if b then kbind (parsepipe n (tok_rest (gettoken p2))) (\<lambda>(d, p3). Inr (Pipe c d, p3)) else Inr (c, p2)) = Inl no_fuel"
    using assms(1)[OF p(1)] p(2) by (auto simp: kbind_Inl_iff)
  have o1: "pos_ok s p1" "length (snd p1) \<le> length (snd p)" using parsed_all(3)[OF p(1), of n] r by auto
  obtain p3 where pk: "peek p1 ''|'' = (True, p3)" and f: "parsepipe n (tok_rest (gettoken p3)) = Inl no_fuel"
    using k by (auto simp: kbind_Inl_iff split: prod.splits if_splits)
  show False using assms(2)[OF pos_ok_gettoken[OF pos_ok_peek[OF pk]]] f o1 p(2) peek_gettoken[OF pk] by simp
qed

lemma fuel_exec:
  assumes "\<And>p. pos_ok s p \<Longrightarrow> 4 * length (snd p) + 1 \<le> n \<Longrightarrow> parseblock n p \<noteq> Inl no_fuel"
    and p: "pos_ok s p" "4 * length (snd p) + 2 \<le> Suc n"
  shows "parseexec (Suc n) p \<noteq> Inl no_fuel"
proof -
  obtain b p1 where pk: "peek p ''('' = (b, p1)" by (cases "peek p ''(''")
  show ?thesis using assms(1)[OF pos_ok_peek[OF pk p(1)]] peek_le[OF pk] p(2) pk
    by (auto simp: kbind_Inl_iff parseredirs_total parseargs_total)
qed

lemma fuel_block:
  assumes "\<And>p. pos_ok s p \<Longrightarrow> 4 * length (snd p) + 4 \<le> n \<Longrightarrow> parseline n p \<noteq> Inl no_fuel"
    and p: "pos_ok s p" "4 * length (snd p) + 1 \<le> Suc n"
  shows "parseblock (Suc n) p \<noteq> Inl no_fuel"
proof -
  obtain b p1 where pk: "peek p ''('' = (b, p1)" by (cases "peek p ''(''")
  have "parseline n (tok_rest (gettoken p1)) \<noteq> Inl no_fuel" if b
    using assms(1)[OF pos_ok_gettoken[OF pos_ok_peek[OF pk p(1)]]] peek_gettoken[of p "''(''" p1] pk that p(2) by simp
  then show ?thesis using pk by (auto simp: kbind_Inl_iff parseredirs_total split: prod.splits)
qed

lemma fuel_enough: "pos_ok s p \<Longrightarrow> 4 * length (snd p) + 4 \<le> n \<Longrightarrow> parseline n p \<noteq> Inl no_fuel"
proof -
  have "\<forall>p. pos_ok s p \<longrightarrow> (4 * length (snd p) + 4 \<le> n \<longrightarrow> parseline n p \<noteq> Inl no_fuel) \<and>
    (4 * length (snd p) + 3 \<le> n \<longrightarrow> parsepipe n p \<noteq> Inl no_fuel) \<and>
    (4 * length (snd p) + 2 \<le> n \<longrightarrow> parseexec n p \<noteq> Inl no_fuel) \<and>
    (4 * length (snd p) + 1 \<le> n \<longrightarrow> parseblock n p \<noteq> Inl no_fuel)"
  proof (induction n)
    case (Suc n)
    have IH: "4 * length (snd p) + 4 \<le> n \<Longrightarrow> parseline n p \<noteq> Inl no_fuel" "4 * length (snd p) + 3 \<le> n \<Longrightarrow> parsepipe n p \<noteq> Inl no_fuel"
      "4 * length (snd p) + 2 \<le> n \<Longrightarrow> parseexec n p \<noteq> Inl no_fuel" "4 * length (snd p) + 1 \<le> n \<Longrightarrow> parseblock n p \<noteq> Inl no_fuel"
      if "pos_ok s p" for p using Suc that by blast+
    show ?case
    proof (intro allI impI conjI)
      fix p assume p: "pos_ok s p"
      show "parseline (Suc n) p \<noteq> Inl no_fuel" if "4 * length (snd p) + 4 \<le> Suc n"
        using fuel_line[OF IH(2,1) p that] .
      show "parsepipe (Suc n) p \<noteq> Inl no_fuel" if "4 * length (snd p) + 3 \<le> Suc n"
        using fuel_pipe[OF IH(3,2) p that] .
      show "parseexec (Suc n) p \<noteq> Inl no_fuel" if "4 * length (snd p) + 2 \<le> Suc n"
        using fuel_exec[OF IH(4) p that] .
      show "parseblock (Suc n) p \<noteq> Inl no_fuel" if "4 * length (snd p) + 1 \<le> Suc n"
        using fuel_block[OF IH(1) p that] .
    qed
  qed simp
  then show "pos_ok s p \<Longrightarrow> 4 * length (snd p) + 4 \<le> n \<Longrightarrow> parseline n p \<noteq> Inl no_fuel" by blast
qed

lemma parseline_more_fuel: "parse_fuel s \<le> n \<Longrightarrow> parseline n (0, s) = parseline (parse_fuel s) (0, s)"
proof (induction n rule: dec_induct)
  case (step n)
  then show ?case using fuel_enough[of s "(0, s)" n] parse_stable[of n "(0, s)"]
    by (simp add: pos_ok_def parse_fuel_def del: parseline.simps)
qed simp

section \<open>The words in the buffer\<close>

lemma nulterminate_length [simp]: "length (nulterminate c buf) = length buf"
proof (induction c buf rule: nulterminate.induct)
  case (1 ws buf)
  show ?case by (induction ws arbitrary: buf) auto
qed auto

text \<open>Only the ends of words change.\<close>

lemma nulterminate_nth:
  assumes "i < length buf"
  shows "nulterminate c buf ! i = (if i \<in> snd ` set_cmd c then CHR 0x00 else buf ! i)"
  using assms
proof (induction c buf rule: nulterminate.induct)
  case (1 ws buf)
  then show ?case by (induction ws arbitrary: buf) auto
next
  case (2 c f m d buf)
  then show ?case by (cases "snd f = i") simp_all
qed (simp_all add: image_Un)

lemma takeWhile_drop_eq:
  assumes "q \<le> e" "e < length b" "b ! e = x" "\<forall>i. q \<le> i \<and> i < e \<longrightarrow> b ! i \<noteq> x"
  shows "takeWhile (\<lambda>c. c \<noteq> x) (drop q b) = map ((!) b) [q..<e]"
proof (rule takeWhile_eq_take_P_nth[of "e - q", THEN trans])
  show "take (e - q) (drop q b) = map ((!) b) [q..<e]"
    using assms(1,2) by (intro nth_equalityI) auto
qed (use assms in auto)

lemma word_at_span:
  assumes s: "\<forall>w \<in> W. span_ok s w" "\<forall>c \<in> set s. c \<noteq> CHR 0x00" and w: "w \<in> W"
    and b: "length b = length s + 1" "\<forall>i < length b. b ! i = (if i \<in> snd ` W then CHR 0x00 else (s @ [CHR 0x00]) ! i)"
  shows "word_at b w = map ((!) s) [fst w..<snd w]"
proof -
  have ok: "span_ok s w" using s w by blast
  have nw: "i \<notin> snd ` W" if "i < length s" "is_word (s ! i)" for i
    using s(1) that by (auto simp: span_ok_def)
  have in_w: "b ! i = s ! i" if "fst w \<le> i" "i < snd w" for i
  proof -
    have "i < length s" "is_word (s ! i)" using ok that by (auto simp: span_ok_def)
    then show ?thesis using b nw by (simp add: nth_append)
  qed
  have "b ! snd w = CHR 0x00" using b w ok by (auto simp: span_ok_def)
  moreover have "b ! i \<noteq> CHR 0x00" if "fst w \<le> i" "i < snd w" for i
    using in_w[OF that] s(2) ok that by (auto simp: span_ok_def)
  ultimately have "word_at b w = map ((!) b) [fst w..<snd w]"
    unfolding word_at_def using ok b(1) by (intro takeWhile_drop_eq) (auto simp: span_ok_def)
  then show ?thesis using in_w by simp
qed

definition text_of :: "string \<Rightarrow> span \<Rightarrow> string" where
  "text_of s w = map ((!) s) [fst w..<snd w]"

lemma parsecmd_result:
  assumes "parsecmd s = Inr r"
  obtains c where "r = (c, nulterminate c (s @ [CHR 0x00]))" "spans_ok s c"
proof -
  have "pos_ok s (0, s)" by (simp add: pos_ok_def)
  then have "parsed s (0, s) (parseline (parse_fuel s) (0, s))" by (rule parsed_all)
  then show thesis using assms that by (auto simp: parsecmd_def kbind_eq_Inr split: if_splits)
qed

text \<open>
  The words of a parsed command: after \<^verbatim>\<open>nulterminate\<close> has written its NULs into the one buffer that holds
  all of them, each word, read as a C string from its start, is exactly the text the scanner
  delimited in the typed line, never cut by the NUL of another word and never running into the next.
\<close>

theorem shell_words_intact:
  assumes "\<forall>c \<in> set s. c \<noteq> CHR 0x00" "parsecmd s = Inr r"
  shows "cmd_strings r = map_cmd (text_of s) (fst r) \<and> spans_ok s (fst r)"
proof -
  obtain c where r: "r = (c, nulterminate c (s @ [CHR 0x00]))" "spans_ok s c" using assms(2) by (rule parsecmd_result)
  have "word_at (snd r) w = text_of s w" if "w \<in> set_cmd c" for w
    unfolding text_of_def by (rule word_at_span[of "set_cmd c"]) (use r assms(1) that in \<open>auto simp: spans_ok_def nulterminate_nth\<close>)
  then have "map_cmd (word_at (snd r)) c = map_cmd (text_of s) c" by (intro cmd.map_cong0) auto
  then show ?thesis using r by (simp add: cmd_strings_def)
qed

definition demo_line :: string where
  "demo_line = ''ls a<in|(grep x>>out;wc)&'' @ [CHR 0x0A]"

theorem shell_words_intact_witness:
  "\<exists>r. parsecmd demo_line = Inr r \<and> cmd_strings r = map_cmd (text_of demo_line) (fst r) \<and>
     cmd_strings r = Back (Pipe (Redir (Exec [''ls'', ''a'']) ''in'' O_RDONLY 0)
       (List (Redir (Exec [''grep'', ''x'']) ''out'' O_WRCREATE 1) (Exec [''wc''])))"
proof -
  have n: "\<forall>c \<in> set demo_line. c \<noteq> CHR 0x00" by (simp add: demo_line_def)
  obtain r where r: "parsecmd demo_line = Inr r" "cmd_strings r = Back (Pipe (Redir (Exec [''ls'', ''a'']) ''in'' O_RDONLY 0)
       (List (Redir (Exec [''grep'', ''x'']) ''out'' O_WRCREATE 1) (Exec [''wc''])))"
  proof -
    have "case parsecmd demo_line of Inl e \<Rightarrow> False | Inr r \<Rightarrow> cmd_strings r = Back (Pipe (Redir (Exec [''ls'', ''a'']) ''in'' O_RDONLY 0)
       (List (Redir (Exec [''grep'', ''x'']) ''out'' O_WRCREATE 1) (Exec [''wc''])))" by code_simp
    then show thesis using that by (cases "parsecmd demo_line") auto
  qed
  show ?thesis using shell_words_intact[OF n r(1)] r by blast
qed

text \<open>
  C34. The parser ends on every line: with at least \<open>4 * length s + 4\<close> nested calls allowed it never runs
  out of them, and allowing more does not change the result.
\<close>

theorem shell_parser_terminates:
  assumes "parse_fuel s \<le> n"
  shows "parseline n (0, s) \<noteq> Inl no_fuel \<and> parseline n (0, s) = parseline (parse_fuel s) (0, s)"
  using fuel_enough[of s "(0, s)" n] parseline_more_fuel[OF assms] assms by (simp add: pos_ok_def parse_fuel_def)

theorem shell_parser_terminates_witness:
  "parseline 200 (0, demo_line) \<noteq> Inl no_fuel \<and> parse_fuel demo_line = 108"
proof -
  have f: "parse_fuel demo_line = 108" by code_simp
  then have "parse_fuel demo_line \<le> 200" by simp
  from shell_parser_terminates[OF this] f show ?thesis by blast
qed

end
