(* ===== verification/ShellRound.thy ===== *)
theory ShellRound
  imports ShellParse
begin

text \<open>
  Commands written out in the command language, with parentheses where the grammar needs them, and
  the proof that the parser of \<^verbatim>\<open>sh.c\<close> reads each of them back.
\<close>

section \<open>Writing a command\<close>

definition word_ok :: "string \<Rightarrow> bool" where
  "word_ok w \<longleftrightarrow> w \<noteq> [] \<and> (\<forall>c \<in> set w. is_word c \<and> c \<noteq> CHR 0x00)"

definition redir_ok :: "string \<times> nat \<times> nat \<Rightarrow> bool" where
  "redir_ok r \<longleftrightarrow> word_ok (fst r) \<and> snd r \<in> {(O_RDONLY, 0), (O_WRCREATE, 1)}"

fun cmd_ok :: "string cmd \<Rightarrow> bool" where
  "cmd_ok (Exec ws) \<longleftrightarrow> length ws < MAXARGS \<and> (\<forall>w \<in> set ws. word_ok w)"
| "cmd_ok (Redir c f m d) \<longleftrightarrow> cmd_ok c \<and> redir_ok (f, m, d)"
| "cmd_ok (Pipe l r) \<longleftrightarrow> cmd_ok l \<and> cmd_ok r"
| "cmd_ok (List l r) \<longleftrightarrow> cmd_ok l \<and> cmd_ok r"
| "cmd_ok (Back c) \<longleftrightarrow> cmd_ok c"

definition paren :: "bool \<Rightarrow> string \<Rightarrow> string" where
  "paren b s = (if b then CHR ''('' # s @ '')'' else s)"

definition show_redir :: "string \<times> nat \<times> nat \<Rightarrow> string" where
  "show_redir r = (if snd (snd r) = 0 then CHR ''<'' else CHR ''>'') # fst r"

text \<open>The first argument is the loosest level at which the text can stand: line, background, pipeline, simple command.\<close>

fun show_cmd :: "nat \<Rightarrow> string cmd \<Rightarrow> string" where
  "show_cmd n (Exec ws) = concat (map (\<lambda>w. w @ '' '') ws)"
| "show_cmd n (Redir c f m d) = show_cmd 3 c @ show_redir (f, m, d)"
| "show_cmd n (Pipe l r) = paren (n > 2) (show_cmd 3 l @ CHR ''|'' # show_cmd 2 r)"
| "show_cmd n (List l r) = paren (n > 0) (show_cmd 1 l @ CHR '';'' # show_cmd 0 r)"
| "show_cmd n (Back c) = paren (n > 1) (show_cmd 1 c @ ''&'')"

section \<open>Scanning what was written\<close>

definition nws :: "string \<Rightarrow> bool" where
  "nws xs \<longleftrightarrow> (xs = [] \<or> \<not> whitespace (hd xs))"

definition follow :: "string \<Rightarrow> string \<Rightarrow> bool" where
  "follow toks xs \<longleftrightarrow> (xs = [] \<or> hd xs \<in> set toks)"

lemma word_char: "is_word c \<Longrightarrow> \<not> whitespace c \<and> \<not> is_symbol c"
  by (simp add: is_word_def)

lemma symbol_not_ws: "is_symbol c \<Longrightarrow> \<not> whitespace c"
  by (auto simp: is_symbol_def whitespace_def)

lemma skip_nws: "nws xs \<Longrightarrow> skip whitespace (k, xs) = (k, xs)"
  by (cases xs) (auto simp: nws_def)

lemma peek_nws: "nws (snd p) \<Longrightarrow> peek p toks = (snd p \<noteq> [] \<and> hd (snd p) \<in> set toks, p)"
  by (cases p) (auto simp: peek_def skip_nws split: list.splits)

lemma gettoken_sym:
  assumes "is_symbol c" "c \<noteq> CHR ''>''" "nws ys"
  shows "gettoken (k, c # ys) = (c, k, k + 1, (k + 1, ys))"
  using assms symbol_not_ws[OF assms(1)] skip_nws[OF assms(3)] by (simp add: gettoken_def nws_def)

lemma gettoken_greater:
  assumes "ys \<noteq> []" "hd ys \<noteq> CHR ''>''" "nws ys"
  shows "gettoken (k, CHR ''>'' # ys) = (CHR ''>'', k, k + 1, (k + 1, ys))"
  using assms skip_nws[OF assms(3)] by (cases ys) (auto simp: gettoken_def whitespace_def)

lemma gettoken_word:
  assumes "w \<noteq> []" "\<forall>c \<in> set w. is_word c" "xs = [] \<or> \<not> is_word (hd xs)"
  shows "gettoken (k, w @ xs) = (CHR ''a'', k, k + length w, skip whitespace (k + length w, xs))"
proof -
  obtain c v where w: "w = c # v" using assms(1) by (cases w) auto
  then have c: "is_word c" using assms(2) by simp
  have "takeWhile is_word xs = []" "dropWhile is_word xs = xs" using assms(3) by (cases xs; simp)+
  then have "skip is_word (k, w @ xs) = (k + length w, xs)" using assms(2) by (simp add: skip_eq)
  then show ?thesis using word_char[OF c] w by (auto simp: gettoken_def is_symbol_def)
qed

lemma follow_nws: "follow toks xs \<Longrightarrow> set toks \<subseteq> set ''<|>&;()'' \<Longrightarrow> nws xs"
  by (auto simp: follow_def nws_def whitespace_def)

lemma nws_word: "word_ok w \<Longrightarrow> nws (w @ xs)"
  by (cases w) (auto simp: word_ok_def nws_def is_word_def)

lemma nws_symbol [simp]: "is_symbol c \<Longrightarrow> nws (c # xs)"
  by (simp add: nws_def symbol_not_ws)

lemma nws_words: "\<forall>w \<in> set ws. word_ok w \<Longrightarrow> nws xs \<Longrightarrow> nws (concat (map (\<lambda>w. w @ '' '') ws) @ xs)"
  by (cases ws) (auto intro: nws_word)

lemma is_symbol_simps [simp]: "is_symbol CHR ''<''" "is_symbol CHR ''>''" "is_symbol CHR ''|''" "is_symbol CHR ''&''"
  "is_symbol CHR '';''" "is_symbol CHR ''(''" "is_symbol CHR '')''"
  by (simp_all add: is_symbol_def)

lemma nws_show: "cmd_ok c \<Longrightarrow> nws xs \<Longrightarrow> nws (show_cmd n c @ xs)"
  by (induction n c arbitrary: xs rule: show_cmd.induct) (auto simp: nws_words show_redir_def paren_def)

definition reads :: "string \<Rightarrow> string cmd \<Rightarrow> string \<Rightarrow> (pcmd \<times> pos) kres \<Rightarrow> bool" where
  "reads s c rest r \<longleftrightarrow> (\<exists>t p1. r = Inr (t, p1) \<and> snd p1 = rest \<and> map_cmd (text_of s) t = c)"

lemma text_of_word:
  assumes "pos_ok s (k, w @ xs)"
  shows "text_of s (k, k + length w) = w"
proof -
  have d: "drop k s = w @ xs" and k: "k \<le> length s" using assms by (auto simp: pos_ok_def)
  have "length s = k + length (w @ xs)" using d k by (metis append_take_drop_id length_append length_take min.absorb2)
  moreover have "s ! (k + i) = w ! i" if "i < length w" for i
    using that d k by (metis nth_append nth_drop)
  ultimately show ?thesis unfolding text_of_def by (intro nth_equalityI) auto
qed

text \<open>Redirections, as written one after the other.\<close>

definition show_redirs :: "(string \<times> nat \<times> nat) list \<Rightarrow> string" where
  "show_redirs rs = concat (map show_redir rs)"

abbreviation add_redirs :: "string cmd \<Rightarrow> (string \<times> nat \<times> nat) list \<Rightarrow> string cmd" where
  "add_redirs c rs \<equiv> foldl (\<lambda>c (f, m, d). Redir c f m d) c rs"

lemma nws_redirs: "nws xs \<Longrightarrow> nws (show_redirs rs @ xs)"
  by (cases rs) (simp_all add: show_redirs_def show_redir_def)

lemma redirs_head: "follow toks xs \<Longrightarrow> set toks \<subseteq> set ''|&;)'' \<Longrightarrow> show_redirs rs @ xs = [] \<or> \<not> is_word (hd (show_redirs rs @ xs))"
  by (cases rs) (auto simp: show_redirs_def show_redir_def follow_def is_word_def)

lemma reads_redirs:
  assumes "follow ''|&;)'' rest" "\<forall>r \<in> set rs. redir_ok r" "pos_ok s p" "snd p = show_redirs rs @ rest"
  shows "reads s (add_redirs (map_cmd (text_of s) c) rs) rest (parseredirs c p)"
  using assms
proof (induction rs arbitrary: c p)
  case Nil
  then have "nws (snd p)" using follow_nws[OF assms(1)] by (simp add: show_redirs_def)
  then have "peek p ''<>'' = (False, p)" using Nil by (auto simp: peek_nws show_redirs_def follow_def)
  then show ?case using Nil by (simp add: parseredirs.simps[of c p] reads_def show_redirs_def)
next
  case (Cons r rs)
  obtain f m d where r: "r = (f, m, d)" by (cases r)
  have ok: "word_ok f" "(m, d) \<in> {(O_RDONLY, 0), (O_WRCREATE, 1)}" using Cons(3) r by (auto simp: redir_ok_def)
  let ?c = "if d = 0 then CHR ''<'' else CHR ''>''"
  let ?xs = "show_redirs rs @ rest"
  obtain k where p: "p = (k, ?c # f @ ?xs)" using Cons(5) r by (cases p) (simp add: show_redirs_def show_redir_def)
  have n: "nws rest" using follow_nws[OF assms(1)] by simp
  have hf: "f \<noteq> []" "\<forall>c \<in> set f. is_word c" using ok(1) by (auto simp: word_ok_def)
  then have "is_word (hd f)" by simp
  then have hg: "hd (f @ ?xs) \<noteq> CHR ''>''" using hf(1) word_char[of "hd f"] by auto
  have pk: "peek p ''<>'' = (True, p)" using p by (subst peek_nws) auto
  have g1: "gettoken p = (?c, k, k + 1, (k + 1, f @ ?xs))"
    unfolding p using gettoken_sym[of ?c "f @ ?xs" k] gettoken_greater[of "f @ ?xs" k] nws_word[OF ok(1)] hf(1) hg by auto
  have xh: "?xs = [] \<or> \<not> is_word (hd ?xs)" using redirs_head[OF assms(1)] by simp
  have g2: "gettoken (k + 1, f @ ?xs) = (CHR ''a'', k + 1, k + 1 + length f, (k + 1 + length f, ?xs))"
    using gettoken_word[OF hf(1,2) xh] skip_nws[OF nws_redirs[OF n]] by simp
  have po: "pos_ok s (k + 1, f @ ?xs)" using pos_ok_cons Cons(4) p by simp
  have po2: "pos_ok s (k + 1 + length f, ?xs)" using gettoken_cases[OF po g2] by simp
  have tx: "text_of s (k + 1, k + 1 + length f) = f" using text_of_word[OF po] .
  have "parseredirs c p = parseredirs (Redir c (k + 1, k + 1 + length f) m d) (k + 1 + length f, ?xs)"
    using pk g1 g2 ok(2) by (subst parseredirs.simps) (auto simp: Let_def)
  moreover have "reads s (add_redirs (map_cmd (text_of s) (Redir c (k + 1, k + 1 + length f) m d)) rs) rest
     (parseredirs (Redir c (k + 1, k + 1 + length f) m d) (k + 1 + length f, ?xs))"
    by (rule Cons.IH) (use assms(1) Cons(3) po2 in auto)
  ultimately show ?case using r tx by simp
qed

abbreviation show_words :: "string list \<Rightarrow> string" where
  "show_words ws \<equiv> concat (map (\<lambda>w. w @ '' '') ws)"

lemma args_end:
  assumes "follow ''|&;)'' (snd p)"
  shows "\<exists>p1. parseargs argc c p = Inr (c, p1) \<and> snd p1 = snd p"
proof -
  have n: "nws (snd p)" using follow_nws[OF assms] by simp
  show ?thesis
  proof (cases "snd p")
    case Nil
    then obtain k where "p = (k, [])" by (cases p) auto
    then show ?thesis by (simp add: parseargs.simps[of argc] peek_def gettoken_def)
  next
    case (Cons x xs)
    then have "peek p ''|)&;'' = (True, p)" using assms peek_nws[OF n, of "''|)&;''"] by (auto simp: follow_def)
    then have "parseargs argc c p = Inr (c, p)" by (simp add: parseargs.simps[of argc])
    then show ?thesis by blast
  qed
qed

lemma reads_args:
  assumes "follow ''|&;)'' rest" "\<forall>r \<in> set rs. redir_ok r" "pos_ok s p" "snd p = show_words ws @ show_redirs rs @ rest"
    "\<forall>w \<in> set ws. word_ok w" "argc + length ws < MAXARGS" "ws = [] \<longrightarrow> rs = []" "map_cmd (text_of s) (Exec us) = Exec vs"
  shows "reads s (add_redirs (Exec (vs @ ws)) rs) rest (parseargs argc (Exec us) p)"
  using assms
proof (induction ws arbitrary: us vs argc p)
  case Nil
  then show ?case using args_end[of p argc "Exec us"] by (auto simp: reads_def show_redirs_def)
next
  case (Cons w ws)
  let ?ys = "show_words ws @ show_redirs rs @ rest"
  obtain k where p: "p = (k, w @ CHR '' '' # ?ys)" using Cons(5) by (cases p) simp
  have w: "word_ok w" and ws: "\<forall>w \<in> set ws. word_ok w" using Cons(6) by auto
  have wc: "w \<noteq> []" "\<forall>c \<in> set w. is_word c" using w by (auto simp: word_ok_def)
  have "is_word (hd w)" using wc by simp
  then have h: "hd (w @ CHR '' '' # ?ys) \<notin> set ''|)&;''" using wc(1) word_char[of "hd w"] by (auto simp: is_symbol_def)
  have n: "nws rest" using follow_nws[OF assms(1)] by simp
  have ny: "nws ?ys" by (rule nws_words[OF ws nws_redirs[OF n]])
  have pk: "peek p ''|)&;'' = (False, p)" using h nws_word[OF w] p by (subst peek_nws) auto
  have sk: "skip whitespace (k + length w, CHR '' '' # ?ys) = (k + length w + 1, ?ys)"
    using skip_nws[OF ny] by (simp add: whitespace_def)
  have g: "gettoken p = (CHR ''a'', k, k + length w, (k + length w + 1, ?ys))"
    unfolding p using gettoken_word[OF wc, of "CHR '' '' # ?ys" k] sk by (simp add: is_word_def whitespace_def)
  have tx: "text_of s (k, k + length w) = w" using text_of_word Cons(4) p by blast
  have po: "pos_ok s (k + length w + 1, ?ys)" using gettoken_cases[OF Cons(4) g] by simp
  let ?c = "Exec (us @ [(k, k + length w)])"
  have e: "parseargs argc (Exec us) p = kbind (parseredirs ?c (k + length w + 1, ?ys)) (\<lambda>(c1, p3). parseargs (argc + 1) c1 p3)"
    using pk g Cons(7) by (subst parseargs.simps) simp
  have m: "map_cmd (text_of s) ?c = Exec (vs @ [w])" using Cons(9) tx by simp
  show ?case
  proof (cases ws)
    case Nil
    have "reads s (add_redirs (map_cmd (text_of s) ?c) rs) rest (parseredirs ?c (k + length w + 1, ?ys))"
      by (rule reads_redirs) (use Nil assms(1,2) po in auto)
    then obtain t p1 where r: "parseredirs ?c (k + length w + 1, ?ys) = Inr (t, p1)" "snd p1 = rest"
      "map_cmd (text_of s) t = add_redirs (Exec (vs @ [w])) rs" using m by (auto simp: reads_def)
    then show ?thesis using args_end[of p1 "argc + 1" t] assms(1) e Nil by (auto simp: reads_def)
  next
    case (Cons w2 ws2)
    have "is_word (hd ?ys)" "?ys \<noteq> []" using ws Cons by (cases w2; auto simp: word_ok_def)+
    then have "peek (k + length w + 1, ?ys) ''<>'' = (False, (k + length w + 1, ?ys))"
      using ny word_char[of "hd ?ys"] by (subst peek_nws) (auto simp: is_symbol_def)
    then have "parseredirs ?c (k + length w + 1, ?ys) = Inr (?c, (k + length w + 1, ?ys))" by (simp add: parseredirs.simps[of ?c])
    moreover have "reads s (add_redirs (Exec ((vs @ [w]) @ ws)) rs) rest (parseargs (argc + 1) ?c (k + length w + 1, ?ys))"
      by (rule Cons.IH) (use assms(1,2) po ws Cons.prems Cons m in auto)
    ultimately show ?thesis using e by simp
  qed
qed

section \<open>The levels of the grammar\<close>

text \<open>A pipeline with its ampersands, as \<^verbatim>\<open>parseline\<close> reads it before the semicolon.\<close>

definition parseamp :: "nat \<Rightarrow> pos \<Rightarrow> (pcmd \<times> pos) kres" where
  "parseamp n p = kbind (parsepipe n p) (\<lambda>(c, p1). Inr (parsebacks c p1))"

definition exec_reads :: "string \<Rightarrow> string cmd \<Rightarrow> bool" where
  "exec_reads s c \<longleftrightarrow> (\<forall>rs p rest n. follow ''|&;)'' rest \<longrightarrow> (\<forall>r \<in> set rs. redir_ok r) \<longrightarrow> pos_ok s p \<longrightarrow>
     snd p = show_cmd 3 c @ show_redirs rs @ rest \<longrightarrow> 4 * length (snd p) + 2 \<le> n \<longrightarrow> reads s (add_redirs c rs) rest (parseexec n p))"

definition pipe_reads :: "string \<Rightarrow> string cmd \<Rightarrow> bool" where
  "pipe_reads s c \<longleftrightarrow> (\<forall>p rest n. follow ''&;)'' rest \<longrightarrow> pos_ok s p \<longrightarrow>
     snd p = show_cmd 2 c @ rest \<longrightarrow> 4 * length (snd p) + 3 \<le> n \<longrightarrow> reads s c rest (parsepipe n p))"

definition amp_reads :: "string \<Rightarrow> string cmd \<Rightarrow> bool" where
  "amp_reads s c \<longleftrightarrow> (\<forall>k p rest n. follow '';)'' rest \<longrightarrow> pos_ok s p \<longrightarrow>
     snd p = show_cmd 1 c @ replicate k (CHR ''&'') @ rest \<longrightarrow> 4 * length (snd p) + 3 \<le> n \<longrightarrow> reads s ((Back ^^ k) c) rest (parseamp n p))"

definition line_reads :: "string \<Rightarrow> string cmd \<Rightarrow> bool" where
  "line_reads s c \<longleftrightarrow> (\<forall>p rest n. follow '')'' rest \<longrightarrow> pos_ok s p \<longrightarrow>
     snd p = show_cmd 0 c @ rest \<longrightarrow> 4 * length (snd p) + 4 \<le> n \<longrightarrow> reads s c rest (parseline n p))"

lemma exec_readsD:
  "exec_reads s c \<Longrightarrow> follow ''|&;)'' rest \<Longrightarrow> \<forall>r \<in> set rs. redir_ok r \<Longrightarrow> pos_ok s p \<Longrightarrow>
     snd p = show_cmd 3 c @ show_redirs rs @ rest \<Longrightarrow> 4 * length (snd p) + 2 \<le> n \<Longrightarrow> reads s (add_redirs c rs) rest (parseexec n p)"
  unfolding exec_reads_def by blast

lemma pipe_readsD:
  "pipe_reads s c \<Longrightarrow> follow ''&;)'' rest \<Longrightarrow> pos_ok s p \<Longrightarrow> snd p = show_cmd 2 c @ rest \<Longrightarrow> 4 * length (snd p) + 3 \<le> n \<Longrightarrow>
     reads s c rest (parsepipe n p)"
  unfolding pipe_reads_def by blast

lemma amp_readsD:
  "amp_reads s c \<Longrightarrow> follow '';)'' rest \<Longrightarrow> pos_ok s p \<Longrightarrow> snd p = show_cmd 1 c @ replicate k (CHR ''&'') @ rest \<Longrightarrow>
     4 * length (snd p) + 3 \<le> n \<Longrightarrow> reads s ((Back ^^ k) c) rest (parseamp n p)"
  unfolding amp_reads_def by blast

lemma line_readsD:
  "line_reads s c \<Longrightarrow> follow '')'' rest \<Longrightarrow> pos_ok s p \<Longrightarrow> snd p = show_cmd 0 c @ rest \<Longrightarrow> 4 * length (snd p) + 4 \<le> n \<Longrightarrow>
     reads s c rest (parseline n p)"
  unfolding line_reads_def by blast

lemma follow_mono: "follow A xs \<Longrightarrow> set A \<subseteq> set B \<Longrightarrow> follow B xs"
  by (auto simp: follow_def)

lemma kbind_reads:
  assumes "reads s c xs r" "parsed s p r"
    and "\<And>t p1. r = Inr (t, p1) \<Longrightarrow> pos_ok s p1 \<Longrightarrow> snd p1 = xs \<Longrightarrow> map_cmd (text_of s) t = c \<Longrightarrow> reads s d ys (f t p1)"
  shows "reads s d ys (kbind r (\<lambda>(t, p1). f t p1))"
proof -
  obtain t p1 where r: "r = Inr (t, p1)" "snd p1 = xs" "map_cmd (text_of s) t = c" using assms(1) by (auto simp: reads_def)
  moreover have "pos_ok s p1" using assms(2) r by simp
  ultimately show ?thesis using assms(3) by simp
qed

lemma exec_reads_Exec:
  assumes c: "cmd_ok (Exec ws)"
  shows "exec_reads s (Exec ws)"
  unfolding exec_reads_def
proof (intro allI impI)
  fix rs p rest n
  assume a: "follow ''|&;)'' rest" "\<forall>r \<in> set rs. redir_ok r" "pos_ok s p" "snd p = show_cmd 3 (Exec ws) @ show_redirs rs @ rest"
    "4 * length (snd p) + 2 \<le> n"
  obtain m where n: "n = Suc m" using a(5) by (cases n) auto
  have nr: "nws rest" using follow_nws[OF a(1)] by simp
  have ny: "nws (snd p)" unfolding a(4) by (rule nws_show[OF c nws_redirs[OF nr]])
  have hd: "snd p = [] \<or> hd (snd p) \<noteq> CHR ''(''"
  proof (cases ws)
    case Nil
    then show ?thesis using a(1,4) by (cases rs) (auto simp: show_redirs_def show_redir_def follow_def)
  next
    case (Cons w us)
    then have "is_word (hd (snd p))" using c a(4) by (cases w) (auto simp: word_ok_def)
    then show ?thesis using word_char[of "hd (snd p)"] by auto
  qed
  have e: "parseexec n p = kbind (parseredirs (Exec []) p) (\<lambda>(t, p1). parseargs 0 t p1)"
    using hd ny by (auto simp: n peek_nws)
  show "reads s (add_redirs (Exec ws) rs) rest (parseexec n p)"
  proof (cases ws)
    case Nil
    have "reads s (add_redirs (map_cmd (text_of s) (Exec [])) rs) rest (parseredirs (Exec []) p)"
      by (rule reads_redirs[OF a(1-3)]) (use a(4) Nil in simp)
    then obtain t p1 where r: "parseredirs (Exec []) p = Inr (t, p1)" "snd p1 = rest" "map_cmd (text_of s) t = add_redirs (Exec []) rs"
      by (auto simp: reads_def)
    then show ?thesis using args_end[of p1 0 t] a(1) e Nil by (auto simp: reads_def)
  next
    case (Cons w us)
    have "is_word (hd (snd p))" "snd p \<noteq> []" using c Cons a(4) by (cases w; auto simp: word_ok_def)+
    then have "peek p ''<>'' = (False, p)" using ny word_char[of "hd (snd p)"] by (subst peek_nws) (auto simp: is_symbol_def)
    then have "parseredirs (Exec []) p = Inr (Exec [], p)" by (simp add: parseredirs.simps[of "Exec []"])
    moreover have "reads s (add_redirs (Exec ([] @ ws)) rs) rest (parseargs 0 (Exec []) p)"
      by (rule reads_args[OF a(1-3)]) (use a(4) c Cons in auto)
    ultimately show ?thesis using e by simp
  qed
qed

lemma exec_reads_Redir:
  assumes "exec_reads s c" "redir_ok (f, m, d)"
  shows "exec_reads s (Redir c f m d)"
  unfolding exec_reads_def
proof (intro allI impI)
  fix rs p rest n
  assume a: "follow ''|&;)'' rest" "\<forall>r \<in> set rs. redir_ok r" "pos_ok s p" "snd p = show_cmd 3 (Redir c f m d) @ show_redirs rs @ rest"
    "4 * length (snd p) + 2 \<le> n"
  have "reads s (add_redirs c ((f, m, d) # rs)) rest (parseexec n p)"
    by (rule exec_readsD[OF assms(1)]) (use a assms(2) in \<open>auto simp: show_redirs_def\<close>)
  then show "reads s (add_redirs (Redir c f m d) rs) rest (parseexec n p)" by simp
qed

text \<open>A command in parentheses.\<close>

lemma exec_reads_block:
  assumes l: "line_reads s c" and c: "cmd_ok c" and sh: "show_cmd 3 c = CHR ''('' # show_cmd 0 c @ '')''"
  shows "exec_reads s c"
  unfolding exec_reads_def
proof (intro allI impI)
  fix rs p rest n
  assume a: "follow ''|&;)'' rest" "\<forall>r \<in> set rs. redir_ok r" "pos_ok s p" "snd p = show_cmd 3 c @ show_redirs rs @ rest"
    "4 * length (snd p) + 2 \<le> n"
  obtain m where n: "n = Suc (Suc m)" using a(5) by (cases n; cases "n - 1") auto
  let ?ys = "CHR '')'' # show_redirs rs @ rest"
  obtain k where p: "p = (k, CHR ''('' # show_cmd 0 c @ ?ys)" using a(4) sh by (cases p) simp
  have nr: "nws (show_redirs rs @ rest)" using nws_redirs[OF follow_nws[OF a(1)]] by simp
  have ns: "nws (show_cmd 0 c @ ?ys)" by (rule nws_show[OF c]) simp
  have pk: "peek p ''('' = (True, p)" using p by (subst peek_nws) auto
  have g: "tok_rest (gettoken p) = (k + 1, show_cmd 0 c @ ?ys)"
    using gettoken_sym[of "CHR ''(''" "show_cmd 0 c @ ?ys" k] ns p by (simp add: tok_rest_def)
  have po: "pos_ok s (k + 1, show_cmd 0 c @ ?ys)" using pos_ok_cons a(3) p by simp
  have "reads s c ?ys (parseline m (k + 1, show_cmd 0 c @ ?ys))"
    by (rule line_readsD[OF l]) (use po a(5) in \<open>auto simp: follow_def n p\<close>)
  then have "reads s (add_redirs c rs) rest (kbind (parseline m (k + 1, show_cmd 0 c @ ?ys)) (\<lambda>(t, p2).
          let (b2, p3) = peek p2 '')'' in if \<not> b2 then Inl (Panic ''syntax - missing )'') else parseredirs t (tok_rest (gettoken p3))))"
  proof (rule kbind_reads[OF _ parsed_all(1)[OF po]])
    fix t p2
    assume r: "pos_ok s p2" "snd p2 = ?ys" "map_cmd (text_of s) t = c"
    obtain j where p2: "p2 = (j, ?ys)" using r(2) by (cases p2) simp
    have "tok_rest (gettoken p2) = (j + 1, show_redirs rs @ rest)"
      using gettoken_sym[of "CHR '')''" "show_redirs rs @ rest" j] nr p2 by (simp add: tok_rest_def)
    moreover have "pos_ok s (j + 1, show_redirs rs @ rest)" using r(1) p2 pos_ok_cons by simp
    moreover have "peek p2 '')'' = (True, p2)" using p2 by (subst peek_nws) auto
    ultimately show "reads s (add_redirs c rs) rest (let (b2, p3) = peek p2 '')'' in
        if \<not> b2 then Inl (Panic ''syntax - missing )'') else parseredirs t (tok_rest (gettoken p3)))"
      using reads_redirs[OF a(1,2), of s "(j + 1, show_redirs rs @ rest)" t] r(3) by simp
  qed
  then show "reads s (add_redirs c rs) rest (parseexec n p)" using pk g n by simp
qed

lemma pipe_reads_exec:
  assumes e: "exec_reads s c" and sh: "show_cmd 2 c = show_cmd 3 c"
  shows "pipe_reads s c"
  unfolding pipe_reads_def
proof (intro allI impI)
  fix p rest n
  assume a: "follow ''&;)'' rest" "pos_ok s p" "snd p = show_cmd 2 c @ rest" "4 * length (snd p) + 3 \<le> n"
  obtain m where n: "n = Suc m" using a(4) by (cases n) auto
  have "reads s (add_redirs c []) rest (parseexec m p)"
    by (rule exec_readsD[OF e]) (use a sh n in \<open>auto simp: show_redirs_def intro: follow_mono\<close>)
  then have "reads s (add_redirs c []) rest (kbind (parseexec m p) (\<lambda>(t, p1). let (b, p2) = peek p1 ''|'' in
       if b then kbind (parsepipe m (tok_rest (gettoken p2))) (\<lambda>(d, p3). Inr (Pipe t d, p3)) else Inr (t, p2)))"
  proof (rule kbind_reads[OF _ parsed_all(3)[OF a(2)]])
    fix t and p1 :: pos
    assume r: "snd p1 = rest" "map_cmd (text_of s) t = add_redirs c []"
    then have "peek p1 ''|'' = (False, p1)" using a(1) follow_nws[OF a(1)] by (subst peek_nws) (auto simp: follow_def)
    then show "reads s (add_redirs c []) rest (let (b, p2) = peek p1 ''|'' in
       if b then kbind (parsepipe m (tok_rest (gettoken p2))) (\<lambda>(d, p3). Inr (Pipe t d, p3)) else Inr (t, p2))"
      using r by (auto simp: reads_def)
  qed
  then show "reads s c rest (parsepipe n p)" using n by simp
qed

lemma pipe_reads_Pipe:
  assumes l: "exec_reads s l" and r: "pipe_reads s r" and ok: "cmd_ok r"
  shows "pipe_reads s (Pipe l r)"
  unfolding pipe_reads_def
proof (intro allI impI)
  fix p rest n
  assume a: "follow ''&;)'' rest" "pos_ok s p" "snd p = show_cmd 2 (Pipe l r) @ rest" "4 * length (snd p) + 3 \<le> n"
  obtain m where n: "n = Suc m" using a(4) by (cases n) auto
  let ?ys = "show_cmd 2 r @ rest"
  have "reads s (add_redirs l []) (CHR ''|'' # ?ys) (parseexec m p)"
    by (rule exec_readsD[OF l]) (use a n in \<open>auto simp: show_redirs_def paren_def follow_def\<close>)
  then have "reads s (Pipe l r) rest (kbind (parseexec m p) (\<lambda>(t, p1). let (b, p2) = peek p1 ''|'' in
       if b then kbind (parsepipe m (tok_rest (gettoken p2))) (\<lambda>(d, p3). Inr (Pipe t d, p3)) else Inr (t, p2)))"
  proof (rule kbind_reads[OF _ parsed_all(3)[OF a(2)]])
    fix t and p1 :: pos
    assume q: "pos_ok s p1" "snd p1 = CHR ''|'' # ?ys" "map_cmd (text_of s) t = add_redirs l []"
    obtain k where p1: "p1 = (k, CHR ''|'' # ?ys)" using q(2) by (cases p1) simp
    have pk: "peek p1 ''|'' = (True, p1)" using p1 by (subst peek_nws) auto
    have "nws ?ys" using nws_show[OF ok follow_nws[OF a(1)]] by simp
    then have g: "tok_rest (gettoken p1) = (k + 1, ?ys)" using gettoken_sym[of "CHR ''|''" ?ys k] p1 by (simp add: tok_rest_def)
    have po: "pos_ok s (k + 1, ?ys)" using q(1) p1 pos_ok_cons by simp
    have "reads s r rest (parsepipe m (k + 1, ?ys))"
      by (rule pipe_readsD[OF r a(1) po]) (use a n in \<open>auto simp: paren_def\<close>)
    then have "reads s (Pipe l r) rest (kbind (parsepipe m (k + 1, ?ys)) (\<lambda>(d, p3). Inr (Pipe t d, p3)))"
      by (rule kbind_reads[OF _ parsed_all(2)[OF po]]) (use q(3) in \<open>auto simp: reads_def\<close>)
    then show "reads s (Pipe l r) rest (let (b, p2) = peek p1 ''|'' in
       if b then kbind (parsepipe m (tok_rest (gettoken p2))) (\<lambda>(d, p3). Inr (Pipe t d, p3)) else Inr (t, p2))"
      using pk g by simp
  qed
  then show "reads s (Pipe l r) rest (parsepipe n p)" using n by simp
qed

lemma reads_backs:
  assumes f: "follow '';)'' rest"
  shows "pos_ok s p \<Longrightarrow> snd p = replicate k (CHR ''&'') @ rest \<Longrightarrow>
    reads s ((Back ^^ k) (map_cmd (text_of s) t)) rest (Inr (parsebacks t p))"
proof (induction k arbitrary: t p)
  case 0
  then have "peek p ''&'' = (False, p)" using f follow_nws[OF f] by (subst peek_nws) (auto simp: follow_def)
  then show ?case using 0 by (simp add: parsebacks.simps[of t p] reads_def)
next
  case (Suc k)
  let ?ys = "replicate k (CHR ''&'') @ rest"
  obtain j where p: "p = (j, CHR ''&'' # ?ys)" using Suc(3) by (cases p) simp
  have pk: "peek p ''&'' = (True, p)" using p by (subst peek_nws) auto
  have "nws ?ys" using follow_nws[OF f] by (cases k) auto
  then have g: "tok_rest (gettoken p) = (j + 1, ?ys)" using gettoken_sym[of "CHR ''&''" ?ys j] p by (simp add: tok_rest_def)
  have "pos_ok s (j + 1, ?ys)" using Suc(2) p pos_ok_cons by simp
  from Suc.IH[OF this, of "Back t"] show ?case
    using pk g by (simp add: parsebacks.simps[of t p] funpow_swap1)
qed

lemma parsed_amp: "pos_ok s p \<Longrightarrow> parsed s p (parseamp n p)"
  unfolding parseamp_def
proof (rule parsed_bind[OF parsed_all(2)], assumption)
  fix c p1
  assume "pos_ok s p1" "length (snd p1) \<le> length (snd p)" "spans_ok s c"
  then show "parsed s p (Inr (parsebacks c p1))"
    using parsebacks_ok[of s p1 c] by (cases "parsebacks c p1") auto
qed

lemma parseline_amp:
  "parseline (Suc n) p = kbind (parseamp n p) (\<lambda>(c, p2). let (b, p3) = peek p2 '';'' in
     if b then kbind (parseline n (tok_rest (gettoken p3))) (\<lambda>(d, p4). Inr (List c d, p4)) else Inr (c, p3))"
  unfolding parseamp_def parseline.simps by (cases "parsepipe n p") (auto split: prod.splits)

lemma amp_reads_pipe:
  assumes e: "pipe_reads s c" and sh: "show_cmd 1 c = show_cmd 2 c"
  shows "amp_reads s c"
  unfolding amp_reads_def
proof (intro allI impI)
  fix k p rest n
  assume a: "follow '';)'' rest" "pos_ok s p" "snd p = show_cmd 1 c @ replicate k (CHR ''&'') @ rest" "4 * length (snd p) + 3 \<le> n"
  have "reads s c (replicate k (CHR ''&'') @ rest) (parsepipe n p)"
    by (rule pipe_readsD[OF e]) (use a sh in \<open>cases k, auto simp: follow_def\<close>)
  then show "reads s ((Back ^^ k) c) rest (parseamp n p)"
    unfolding parseamp_def by (rule kbind_reads[OF _ parsed_all(2)[OF a(2)]]) (use reads_backs[OF a(1)] in blast)
qed

lemma amp_reads_Back:
  assumes "amp_reads s c"
  shows "amp_reads s (Back c)"
  unfolding amp_reads_def
proof (intro allI impI)
  fix k p rest n
  assume a: "follow '';)'' rest" "pos_ok s p" "snd p = show_cmd 1 (Back c) @ replicate k (CHR ''&'') @ rest" "4 * length (snd p) + 3 \<le> n"
  have "reads s ((Back ^^ Suc k) c) rest (parseamp n p)"
    by (rule amp_readsD[OF assms a(1,2) _ a(4)]) (use a(3) in \<open>simp add: paren_def\<close>)
  then show "reads s ((Back ^^ k) (Back c)) rest (parseamp n p)" by (simp add: funpow_swap1)
qed

lemma line_reads_amp:
  assumes e: "amp_reads s c" and sh: "show_cmd 0 c = show_cmd 1 c"
  shows "line_reads s c"
  unfolding line_reads_def
proof (intro allI impI)
  fix p rest n
  assume a: "follow '')'' rest" "pos_ok s p" "snd p = show_cmd 0 c @ rest" "4 * length (snd p) + 4 \<le> n"
  obtain m where n: "n = Suc m" using a(4) by (cases n) auto
  have "reads s ((Back ^^ 0) c) rest (parseamp m p)"
    by (rule amp_readsD[OF e]) (use a sh n in \<open>auto intro: follow_mono\<close>)
  then show "reads s c rest (parseline n p)"
    unfolding n parseline_amp
  proof (rule kbind_reads[OF _ parsed_amp[OF a(2)]])
    fix t and p1 :: pos
    assume r: "snd p1 = rest" "map_cmd (text_of s) t = (Back ^^ 0) c"
    then have "peek p1 '';'' = (False, p1)" using a(1) follow_nws[OF a(1)] by (subst peek_nws) (auto simp: follow_def)
    then show "reads s c rest (let (b, p3) = peek p1 '';'' in
       if b then kbind (parseline m (tok_rest (gettoken p3))) (\<lambda>(d, p4). Inr (List t d, p4)) else Inr (t, p3))"
      using r by (auto simp: reads_def)
  qed
qed

lemma line_reads_List:
  assumes l: "amp_reads s l" and r: "line_reads s r" and ok: "cmd_ok r"
  shows "line_reads s (List l r)"
  unfolding line_reads_def
proof (intro allI impI)
  fix p rest n
  assume a: "follow '')'' rest" "pos_ok s p" "snd p = show_cmd 0 (List l r) @ rest" "4 * length (snd p) + 4 \<le> n"
  obtain m where n: "n = Suc m" using a(4) by (cases n) auto
  let ?ys = "show_cmd 0 r @ rest"
  have "reads s ((Back ^^ 0) l) (CHR '';'' # ?ys) (parseamp m p)"
    by (rule amp_readsD[OF l]) (use a n in \<open>auto simp: paren_def follow_def\<close>)
  then show "reads s (List l r) rest (parseline n p)"
    unfolding n parseline_amp
  proof (rule kbind_reads[OF _ parsed_amp[OF a(2)]])
    fix t and p1 :: pos
    assume q: "pos_ok s p1" "snd p1 = CHR '';'' # ?ys" "map_cmd (text_of s) t = (Back ^^ 0) l"
    obtain k where p1: "p1 = (k, CHR '';'' # ?ys)" using q(2) by (cases p1) simp
    have pk: "peek p1 '';'' = (True, p1)" using p1 by (subst peek_nws) auto
    have "nws ?ys" using nws_show[OF ok follow_nws[OF a(1)]] by simp
    then have g: "tok_rest (gettoken p1) = (k + 1, ?ys)" using gettoken_sym[of "CHR '';''" ?ys k] p1 by (simp add: tok_rest_def)
    have po: "pos_ok s (k + 1, ?ys)" using q(1) p1 pos_ok_cons by simp
    have "reads s r rest (parseline m (k + 1, ?ys))"
      by (rule line_readsD[OF r a(1) po]) (use a n in \<open>auto simp: paren_def\<close>)
    then have "reads s (List l r) rest (kbind (parseline m (k + 1, ?ys)) (\<lambda>(d, p3). Inr (List t d, p3)))"
      by (rule kbind_reads[OF _ parsed_all(1)[OF po]]) (use q(3) in \<open>auto simp: reads_def\<close>)
    then show "reads s (List l r) rest (let (b, p2) = peek p1 '';'' in
       if b then kbind (parseline m (tok_rest (gettoken p2))) (\<lambda>(d, p3). Inr (List t d, p3)) else Inr (t, p2))"
      using pk g by simp
  qed
qed

lemma all_read: "cmd_ok c \<Longrightarrow> exec_reads s c \<and> pipe_reads s c \<and> amp_reads s c \<and> line_reads s c"
proof (induction c)
  case (Exec ws)
  then have e: "exec_reads s (Exec ws)" by (rule exec_reads_Exec)
  then show ?case using pipe_reads_exec[OF e] amp_reads_pipe[of s "Exec ws"] line_reads_amp[of s "Exec ws"] by simp
next
  case (Redir c f m d)
  then have e: "exec_reads s (Redir c f m d)" by (intro exec_reads_Redir) auto
  then show ?case using pipe_reads_exec[OF e] amp_reads_pipe[of s "Redir c f m d"] line_reads_amp[of s "Redir c f m d"] by simp
next
  case (Pipe l r)
  then have p: "pipe_reads s (Pipe l r)" by (intro pipe_reads_Pipe) auto
  then have a: "amp_reads s (Pipe l r)" by (rule amp_reads_pipe) (simp add: paren_def)
  then have l: "line_reads s (Pipe l r)" by (rule line_reads_amp) (simp add: paren_def)
  then have "exec_reads s (Pipe l r)" using Pipe(3) by (rule exec_reads_block) (simp add: paren_def)
  then show ?case using p a l by blast
next
  case (List l r)
  then have l: "line_reads s (List l r)" by (intro line_reads_List) auto
  then have e: "exec_reads s (List l r)" using List(3) by (rule exec_reads_block) (simp add: paren_def)
  then have p: "pipe_reads s (List l r)" by (rule pipe_reads_exec) (simp add: paren_def)
  then have "amp_reads s (List l r)" by (rule amp_reads_pipe) (simp add: paren_def)
  then show ?case using p e l by blast
next
  case (Back c)
  then have a: "amp_reads s (Back c)" by (intro amp_reads_Back) auto
  then have l: "line_reads s (Back c)" by (rule line_reads_amp) (simp add: paren_def)
  then have e: "exec_reads s (Back c)" using Back(2) by (rule exec_reads_block) (simp add: paren_def)
  then have "pipe_reads s (Back c)" by (rule pipe_reads_exec) (simp add: paren_def)
  then show ?case using a l e by blast
qed

lemma show_cmd_chars: "cmd_ok c \<Longrightarrow> x \<in> set (show_cmd n c) \<Longrightarrow> x \<noteq> CHR 0x00"
  by (induction n c rule: show_cmd.induct)
    (auto simp: paren_def show_redir_def redir_ok_def word_ok_def split: if_splits)

lemma parsecmd_show:
  assumes "cmd_ok c"
  shows "\<exists>r. parsecmd (show_cmd 0 c) = Inr r \<and> cmd_strings r = c"
proof -
  let ?s = "show_cmd 0 c"
  have po: "pos_ok ?s (0, ?s)" by (simp add: pos_ok_def)
  have "line_reads ?s c" using all_read[OF assms] by blast
  then have "reads ?s c [] (parseline (parse_fuel ?s) (0, ?s))"
    by (rule line_readsD) (use po in \<open>auto simp: follow_def parse_fuel_def\<close>)
  then obtain t k where t: "parseline (parse_fuel ?s) (0, ?s) = Inr (t, (k, []))" "map_cmd (text_of ?s) t = c"
    by (auto simp: reads_def)
  have ok: "spans_ok ?s t" using parsed_all(1)[OF po, of "parse_fuel ?s"] t(1) by simp
  have r: "parsecmd ?s = Inr (t, nulterminate t (?s @ [CHR 0x00]))" using t(1) by (simp add: parsecmd_def peek_def)
  have "word_at (nulterminate t (?s @ [CHR 0x00])) w = text_of ?s w" if "w \<in> set_cmd t" for w
    unfolding text_of_def
    by (rule word_at_span[of "set_cmd t"]) (use ok that show_cmd_chars[OF assms] in \<open>auto simp: spans_ok_def nulterminate_nth\<close>)
  then have "map_cmd (word_at (nulterminate t (?s @ [CHR 0x00]))) t = c"
    using t(2) by (metis (no_types, lifting) cmd.map_cong0)
  then show ?thesis using r by (simp add: cmd_strings_def)
qed

text \<open>
  C9. Reading back what was written: every command built from words, redirections, pipelines, lists,
  background commands and their arbitrary nesting (at most nine words each) has a text in the
  command language, and \<^verbatim>\<open>parsecmd\<close> turns that text into the same command, each word being the C string that
  \<^verbatim>\<open>runcmd\<close> will find in the buffer.
\<close>

theorem shell_parse_print:
  assumes "cmd_ok c"
  shows "\<exists>r. parsecmd (show_cmd 0 c) = Inr r \<and> cmd_strings r = c"
  using assms by (rule parsecmd_show)

definition demo_cmd :: "string cmd" where
  "demo_cmd = List (Back (Exec [''sleep'', ''9''])) (Redir (Pipe (Redir (Exec [''cat'']) ''in'' O_RDONLY 0) (List (Exec [''wc'']) (Exec [])))
     ''out'' O_WRCREATE 1)"

theorem shell_parse_print_witness:
  "show_cmd 0 demo_cmd = ''sleep 9 &;(cat <in|(wc ;))>out'' \<and>
   (\<exists>r. parsecmd (show_cmd 0 demo_cmd) = Inr r \<and> cmd_strings r = demo_cmd)"
proof -
  have "cmd_ok demo_cmd" by code_simp
  moreover have "show_cmd 0 demo_cmd = ''sleep 9 &;(cat <in|(wc ;))>out''" by code_simp
  ultimately show ?thesis using shell_parse_print[of demo_cmd] by blast
qed

end
