(* ===== verification/ShellRun.thy ===== *)
theory ShellRun
  imports ShellRound Proc
begin

text \<open>
  Running commands (\<^verbatim>\<open>sh.c\<close>: \<^verbatim>\<open>runcmd\<close>, \<^verbatim>\<open>fork1\<close>, \<^verbatim>\<open>getcmd\<close>, \<^verbatim>\<open>main\<close>; \<^verbatim>\<open>ulib.c\<close>: \<^verbatim>\<open>gets\<close>). A program is the tree of the system
  calls it makes, with a branch for each result. The tree is run on descriptor tables, and the
  programs that a command starts are compared with what its structure asks for.
\<close>

section \<open>Programs\<close>

datatype prog =
  Exit
| ExecCall string "string list" prog
| Printf2 string prog
| Close nat prog
| Open string nat "nat option \<Rightarrow> prog"
| Dup nat prog
| PipeCall "(nat \<times> nat) option \<Rightarrow> prog"
| Fork prog "bool \<Rightarrow> prog"
| Wait prog
| Chdir string "bool \<Rightarrow> prog"

text \<open>
  \<^verbatim>\<open>exec\<close> only comes back when it fails. \<open>Fork\<close> holds the program of the child and the
  program of the parent, which learns whether the call succeeded.
\<close>

definition nl :: string where "nl = [CHR 0x0A]"

definition panic :: "string \<Rightarrow> prog" where
  "panic m = Printf2 (m @ nl) Exit"

definition fork1 :: "prog \<Rightarrow> prog \<Rightarrow> prog" where
  "fork1 child cont = Fork child (\<lambda>ok. if ok then cont else panic ''fork'')"

primrec runcmd :: "string cmd \<Rightarrow> prog" where
  "runcmd (Exec ws) =
     (case ws of [] \<Rightarrow> Exit | w # us \<Rightarrow> ExecCall w ws (Printf2 (''exec '' @ w @ '' failed'' @ nl) Exit))"
| "runcmd (Redir c f m d) =
     Close d (Open f m (\<lambda>fd. if fd = None then Printf2 (''open '' @ f @ '' failed'' @ nl) Exit else runcmd c))"
| "runcmd (List l r) = fork1 (runcmd l) (Wait (runcmd r))"
| "runcmd (Pipe l r) =
     PipeCall (\<lambda>p. case p of
         None \<Rightarrow> panic ''pipe''
       | Some (p0, p1) \<Rightarrow>
           fork1 (Close 1 (Dup p1 (Close p0 (Close p1 (runcmd l)))))
             (fork1 (Close 0 (Dup p0 (Close p0 (Close p1 (runcmd r)))))
               (Close p0 (Close p1 (Wait (Wait Exit))))))"
| "runcmd (Back c) = fork1 (runcmd c) Exit"

section \<open>The command loop\<close>

text \<open>\<^verbatim>\<open>gets\<close> with the input that is left: the line, at most \<open>m - 1\<close> characters, with its newline.\<close>

fun gets :: "nat \<Rightarrow> string \<Rightarrow> string \<times> string" where
  "gets m [] = ([], [])"
| "gets m (c # cs) =
     (if m \<le> 1 then ([], c # cs)
      else if c = CHR 0x0A \<or> c = CHR 0x0D then ([c], cs)
      else (let (l, rest) = gets (m - 1) cs in (c # l, rest)))"

definition BUFSZ :: nat where "BUFSZ = 100"

text \<open>The line as a C string and the rest of the input; no line at the end of the input.\<close>

definition getcmd :: "string \<Rightarrow> (string \<times> string) option" where
  "getcmd inp =
     (let (l, rest) = gets BUFSZ inp; s = takeWhile (\<lambda>c. c \<noteq> CHR 0x00) l in
      if s = [] then None else Some (s, rest))"

text \<open>What the child does with the line: parse it, then run it.\<close>

definition run_line :: "string \<Rightarrow> prog" where
  "run_line s =
     (case parseline (parse_fuel s) (0, s) of
        Inl (Panic m) \<Rightarrow> panic m
      | Inl e \<Rightarrow> Exit
      | Inr (c, p) \<Rightarrow>
          let rest = snd (snd (peek p [])) in
          if rest \<noteq> [] then Printf2 (''leftovers: '' @ rest @ nl) (panic ''syntax'')
          else runcmd (cmd_strings (c, nulterminate c (s @ [CHR 0x00]))))"

lemma gets_rest: "gets m inp = (l, rest) \<Longrightarrow> l @ rest = inp \<and> length l \<le> m - 1"
  by (induction m inp arbitrary: l rest rule: gets.induct) (auto split: if_splits prod.splits)

lemma getcmd_rest: "getcmd inp = Some (s, rest) \<Longrightarrow> length rest < length inp"
  using gets_rest[of BUFSZ inp] by (auto simp: getcmd_def Let_def split: prod.splits if_splits)

function sh_loop :: "string \<Rightarrow> prog" where
  "sh_loop inp =
     Printf2 ''$ '' (case getcmd inp of
       None \<Rightarrow> Exit
     | Some (s, rest) \<Rightarrow>
         if take 3 s = ''cd '' then
           let d = drop 3 (butlast s) in
           Chdir d (\<lambda>ok. if ok then sh_loop rest else Printf2 (''cannot cd '' @ d @ nl) (sh_loop rest))
         else fork1 (run_line s) (Wait (sh_loop rest)))"
  by pat_completeness auto
termination by (relation "measure length") (auto intro: getcmd_rest)

declare sh_loop.simps [simp del]

text \<open>The loop that makes sure three descriptors are open; the first one past them ends it.\<close>

definition SH_RDWR :: nat where "SH_RDWR = 2"

primrec ensure_fds :: "nat \<Rightarrow> prog \<Rightarrow> prog" where
  "ensure_fds 0 k = Exit"
| "ensure_fds (Suc n) k =
     Open ''console'' SH_RDWR (\<lambda>fd. case fd of
         None \<Rightarrow> k
       | Some d \<Rightarrow> if d \<ge> 3 then Close d k else ensure_fds n k)"

definition sh_main :: "string \<Rightarrow> prog" where
  "sh_main inp = ensure_fds 4 (sh_loop inp)"

section \<open>Running a program\<close>

text \<open>
  The descriptors of a process, and the programs it and its children execute when every call
  succeeds that has the room to. A pipe is known by its number, the next free one being passed on.
\<close>

datatype obj = Inherited nat | FileOf string nat | PipeRead nat | PipeWrite nat

type_synonym fds = "nat \<rightharpoonup> obj"

definition low_fd :: "fds \<Rightarrow> nat option" where
  "low_fd t = find (\<lambda>i. t i = None) [0..<NOFILE]"

definition fd_add :: "obj \<Rightarrow> fds \<Rightarrow> (nat \<times> fds) option" where
  "fd_add x t = map_option (\<lambda>i. (i, t(i \<mapsto> x))) (low_fd t)"

primrec run :: "prog \<Rightarrow> fds \<Rightarrow> nat \<Rightarrow> (string list \<times> fds) list \<times> nat" where
  "run Exit t n = ([], n)"
| "run (ExecCall w ws k) t n = ([(ws, t)], n)"
| "run (Printf2 s k) t n = run k t n"
| "run (Close d k) t n = run k (t(d := None)) n"
| "run (Open f m k) t n = (case fd_add (FileOf f m) t of None \<Rightarrow> run (k None) t n | Some (i, t1) \<Rightarrow> run (k (Some i)) t1 n)"
| "run (Dup d k) t n = (case t d of None \<Rightarrow> run k t n | Some x \<Rightarrow> (case fd_add x t of None \<Rightarrow> run k t n | Some (i, t1) \<Rightarrow> run k t1 n))"
| "run (PipeCall k) t n =
     (case fd_add (PipeRead n) t of
        None \<Rightarrow> run (k None) t n
      | Some (i, t1) \<Rightarrow> (case fd_add (PipeWrite n) t1 of None \<Rightarrow> run (k None) t n | Some (j, t2) \<Rightarrow> run (k (Some (i, j))) t2 (n + 1)))"
| "run (Fork c k) t n = (let (xs, n1) = run c t n; (ys, n2) = run (k True) t n1 in (xs @ ys, n2))"
| "run (Wait k) t n = run k t n"
| "run (Chdir d k) t n = run (k True) t n"

definition std :: "obj \<Rightarrow> obj \<Rightarrow> obj \<Rightarrow> fds" where
  "std i ou e = [0 \<mapsto> i, 1 \<mapsto> ou, 2 \<mapsto> e]"

text \<open>
  What a command asks for: each simple command with its standard input and output. A pipeline
  connects the output of its left side to the input of its right side by a pipe of its own.
\<close>

primrec starts :: "string cmd \<Rightarrow> obj \<Rightarrow> obj \<Rightarrow> nat \<Rightarrow> (string list \<times> obj \<times> obj) list \<times> nat" where
  "starts (Exec ws) i ou n = (if ws = [] then [] else [(ws, i, ou)], n)"
| "starts (Redir c f m d) i ou n = (if d = 0 then starts c (FileOf f m) ou n else starts c i (FileOf f m) n)"
| "starts (Pipe l r) i ou n =
     (let (xs, n1) = starts l i (PipeWrite n) (n + 1); (ys, n2) = starts r (PipeRead n) ou n1 in (xs @ ys, n2))"
| "starts (List l r) i ou n = (let (xs, n1) = starts l i ou n; (ys, n2) = starts r i ou n1 in (xs @ ys, n2))"
| "starts (Back c) i ou n = starts c i ou n"

lemma nofile_upt: "[0..<NOFILE] = [0, 1, 2, 3, 4, 5, 6, 7, 8, 9, 10, 11, 12, 13, 14, 15]"
  by (simp add: NOFILE_def upt_rec)

lemma low_fd_std:
  "low_fd (std i ou e) = Some 3" "low_fd ((std i ou e)(3 \<mapsto> x)) = Some 4"
  "low_fd ((std i ou e)(0 := None)) = Some 0" "low_fd ((std i ou e)(1 := None)) = Some 1"
  "low_fd ((std i ou e)(3 \<mapsto> x, 4 \<mapsto> y, 0 := None)) = Some 0" "low_fd ((std i ou e)(3 \<mapsto> x, 4 \<mapsto> y, 1 := None)) = Some 1"
  by (simp_all add: low_fd_def nofile_upt std_def)

lemma std_upd:
  "(std i ou e)(0 \<mapsto> x) = std x ou e" "(std i ou e)(1 \<mapsto> x) = std i x e"
  "(std i ou e)(3 := None) = std i ou e" "(std i ou e)(4 := None) = std i ou e"
  by (auto simp: std_def)

lemmas std_simps = low_fd_std low_fd_std[unfolded One_nat_def] std_upd std_upd[unfolded One_nat_def]

lemma runcmd_starts:
  assumes "cmd_ok c"
  shows "run (runcmd c) (std i ou e) n = (map (\<lambda>(ws, i, ou). (ws, std i ou e)) (fst (starts c i ou n)), snd (starts c i ou n))"
  using assms
proof (induction c arbitrary: i ou n)
  case (Exec ws)
  then show ?case by (cases ws) auto
next
  case (Redir c f m d)
  then have "d = 0 \<or> d = 1" by (auto simp: redir_ok_def)
  then show ?case using Redir by (auto simp: fd_add_def std_simps)
next
  case (Pipe l r)
  then show ?case by (simp add: fd_add_def std_simps fork1_def split: prod.splits)
qed (auto simp: fork1_def split: prod.splits)

lemma run_line_parsed: "parsecmd s = Inr r \<Longrightarrow> run_line s = runcmd (cmd_strings r)"
  by (auto simp: parsecmd_def run_line_def kbind_eq_Inr split: if_splits)



lemma ensure_fds_none:
  "run (sh_main inp) Map.empty n = run (sh_loop inp) (std (FileOf ''console'' SH_RDWR) (FileOf ''console'' SH_RDWR) (FileOf ''console'' SH_RDWR)) n"
proof -
  let ?f = "FileOf ''console'' SH_RDWR"
  have a: "low_fd Map.empty = Some 0" "low_fd [0 \<mapsto> ?f] = Some 1" "low_fd [0 \<mapsto> ?f, 1 \<mapsto> ?f] = Some 2"
    by (simp_all add: low_fd_def nofile_upt)
  have s: "[0 \<mapsto> ?f, 1 \<mapsto> ?f, 2 \<mapsto> ?f] = std ?f ?f ?f" by (simp add: std_def)
  have u: "(std x y z)(Suc (Suc (Suc 0)) := None) = std x y z" for x y z using std_upd(3)[of x y z] by (simp add: numeral_eq_Suc)
  show ?thesis using a s u by (simp add: sh_main_def numeral_eq_Suc fd_add_def std_simps)
qed

end
