(* ===== verification/FsBlocks.thy ===== *)
theory FsBlocks
  imports Fs LogTrans
begin

text \<open>
  The blocks of the file system inside a transaction: reading, changing and releasing them one by
  one, with others held meanwhile, and the allocation of blocks in the bitmap (\<^verbatim>\<open>balloc\<close>, \<^verbatim>\<open>bfree\<close> and \<^verbatim>\<open>bzero\<close> of \<^verbatim>\<open>fs.c\<close>).
\<close>

section \<open>Steps of a transaction\<close>

text \<open>The contents of the blocks as the process in its transaction sees them.\<close>

definition fsview :: "'a klog_scheme \<Rightarrow> u32 \<Rightarrow> block" where
  "fsview s = view (bc s) (disk s)"

definition dirty :: "'a klog_scheme \<Rightarrow> u32 set" where
  "dirty s = dirty_blocks (bc s)"

text \<open>Where the log is, and what has been written to the disk.\<close>

definition log_area :: "'a klog_scheme \<Rightarrow> (u32 \<times> block) list \<times> int \<times> int" where
  "log_area s = (diskw s, lstart (lg s), lsize (lg s))"

text \<open>A process in its transaction with the buffers \<open>H\<close> locked.\<close>

definition tx_held :: "nat \<Rightarrow> nat \<Rightarrow> nat set \<Rightarrow> 'a klog_scheme \<Rightarrow> bool" where
  "tx_held c i H s \<longleftrightarrow> bio_inv c i H s \<and> ldev (lg s) = 1 \<and> MAXOPBLOCKS + 1 < lsize (lg s) \<and> length (lhblock (lg s)) = LOGSIZE \<and>
     lhn (lg s) = int (length (entries (lg s))) \<and> lhn (lg s) \<le> MAXOPBLOCKS \<and> distinct (entries (lg s)) \<and>
     dirty s = set (entries (lg s)) \<and> lock_free LogLock (core s) \<and> \<not> committing (lg s) \<and> outstanding (lg s) = 1 \<and>
     (\<forall>b \<in> H. is_dirty (bufat s b) \<or> bdata (bufat s b) = disk s (blockno (bufat s b)))"

lemma tx_held_empty: "tx_held c i {} s \<longleftrightarrow> tx_inv c i s"
  by (auto simp: tx_held_def tx_inv_def tx_data_def dirty_def)

text \<open>\<open>t\<close> is \<open>s\<close> after the writes \<open>ws\<close>, and the buffers \<open>K\<close> are as they were.\<close>

definition fs_step :: "nat set \<Rightarrow> (u32 \<times> block) list \<Rightarrow> 'a klog_scheme \<Rightarrow> 'a klog_scheme \<Rightarrow> bool" where
  "fs_step K ws s t \<longleftrightarrow> core t = core s \<and> disk t = disk s \<and> diskw t = diskw s \<and> disksize t = disksize s \<and>
     lstart (lg t) = lstart (lg s) \<and> lsize (lg t) = lsize (lg s) \<and> fsview t = apply_writes ws (fsview s) \<and>
     dirty t = dirty s \<union> fst ` set ws \<and> klog.more t = klog.more s \<and> (\<forall>b \<in> K. bc t b = bc s b)"

lemma fs_step_refl [simp]: "fs_step K [] s s"
  by (simp add: fs_step_def)

lemma fs_step_trans: "fs_step K ws s t \<Longrightarrow> fs_step K vs t u \<Longrightarrow> fs_step K (ws @ vs) s u"
  by (auto simp: fs_step_def)

lemma fs_step_mono: "fs_step K ws s t \<Longrightarrow> K' \<subseteq> K \<Longrightarrow> fs_step K' ws s t"
  by (auto simp: fs_step_def)

lemma fs_stepD:
  assumes "fs_step K ws s t"
  shows "fsview t = apply_writes ws (fsview s)" "dirty t = dirty s \<union> fst ` set ws" "klog.more t = klog.more s" "disksize t = disksize s"
    "core t = core s" "disk t = disk s" "log_area t = log_area s"
  using assms by (simp_all add: fs_step_def log_area_def)

lemma finite_dirty: "tx_held c i H s \<Longrightarrow> finite (dirty s)"
  by (simp add: tx_held_def)

lemma card_dirty: "tx_held c i H s \<Longrightarrow> card (dirty s) \<le> 10"
  using distinct_card[of "entries (lg s)"] by (simp add: tx_held_def MAXOPBLOCKS_def)

lemma klog_more_frame: "bio_frame s t \<Longrightarrow> klog.more t = klog.more s"
  by (cases s; cases t) (simp add: bio_frame_def)

lemma same_buf:
  assumes "bc t a = bc s a"
  shows "is_dirty (bufat t a) = is_dirty (bufat s a)" "bdata (bufat t a) = bdata (bufat s a)" "blockno (bufat t a) = blockno (bufat s a)"
proof -
  have "is_dirty (bc t a) = is_dirty (bc s a)" "bdata (bc t a) = bdata (bc s a)" "blockno (bc t a) = blockno (bc s a)"
    by (simp_all only: assms)
  then show "is_dirty (bufat t a) = is_dirty (bufat s a)" "bdata (bufat t a) = bdata (bufat s a)" "blockno (bufat t a) = blockno (bufat s a)"
    by simp_all
qed

lemma fs_bread:
  assumes s: "tx_held c i H s" and E: "drv E = iderw" and n: "n < of_int (disksize s)" "\<forall>b \<in> H. \<not> holds (bc s) b n" "card H < 20"
  obtains b t where "bread E 1 n s = Inr (b, t)" "b \<notin> H" "tx_held c i (insert b H) t" "holds (bc t) b n" "bdata (bufat t b) = fsview s n"
    "fs_step (- {b}) [] s t"
proof -
  have T: "bio_inv c i H s" using s by (simp add: tx_held_def)
  note D = bio_invD[OF T]
  have "bdev (bufat s b) = 1" if "b \<in> H" for b using D(3) D(8)[OF that] that by (auto simp: contents_ok_def)
  then have nh: "\<forall>b \<in> H. blockno (bufat s b) \<noteq> n" using n(2) D(8) by (auto simp: holds_def)
  have "card (dirty_blocks (bc s)) + card H < NBUF" using card_dirty[OF s] n(3) by (simp add: dirty_def NBUF_def)
  then obtain b t where b: "bread E 1 n s = Inr (b, t)" "bread_result c i H n s b t"
    using bread_room[OF T E n(1) nh] by blast
  note R = b(2)[unfolded bread_result_def]
  have bf: "bio_frame s t" using R by blast
  have fr: "lg t = lg s" "klog.more t = klog.more s" "core t = core s" "disksize t = disksize s"
    using klog_frame[OF bf] klog_more_frame[OF bf] bf by (simp_all add: bio_frame_def)
  have v: "fsview t = fsview s" "dirty t = dirty s" unfolding fsview_def dirty_def using R by blast+
  have o: "\<forall>a. a \<noteq> b \<longrightarrow> bc t a = bc s a" using R by blast
  have "is_dirty (bufat t a) \<or> bdata (bufat t a) = disk t (blockno (bufat t a))" if "a \<in> insert b H" for a
  proof (cases "a = b")
    case True
    then show ?thesis using R by (auto simp: holds_def)
  next
    case False
    then have "bc t a = bc s a" "a \<in> H" using o that by auto
    then show ?thesis using s same_buf[of t a s] R by (simp add: tx_held_def)
  qed
  then have "tx_held c i (insert b H) t" using s R fr v by (simp add: tx_held_def)
  moreover have "fs_step (- {b}) [] s t" using R fr v o by (simp add: fs_step_def)
  ultimately show thesis using that b(1) R by (simp add: fsview_def)
qed

lemma fs_brelse:
  assumes s: "tx_held c i H s" and b: "b \<in> H"
  obtains t where "brelse b s = Inr t" "tx_held c i (H - {b}) t" "fs_step {..<NBUF} [] s t"
proof -
  have T: "bio_inv c i H s" "is_dirty (bufat s b) \<or> bdata (bufat s b) = disk s (blockno (bufat s b))"
    using s b by (simp_all add: tx_held_def)
  obtain t where t: "brelse b s = Inr t" "bio_inv c i (H - {b}) t" "bio_frame s t" "disk t = disk s" "diskw t = diskw s"
    "\<forall>a < NBUF. bc t a = bc s a"
    by (rule brelse_ok[OF T(1) b T(2)])
  note S = same_contents[of "bc t" "bc s", OF t(6)[rule_format]]
  have fr: "lg t = lg s" "klog.more t = klog.more s" "core t = core s" "disksize t = disksize s"
    using klog_frame[OF t(3)] klog_more_frame[OF t(3)] t(3) by (simp_all add: bio_frame_def)
  have v: "fsview t = fsview s" "dirty t = dirty s" using S t(4) by (simp_all add: fsview_def dirty_def)
  have "is_dirty (bufat t a) \<or> bdata (bufat t a) = disk t (blockno (bufat t a))" if "a \<in> H - {b}" for a
  proof -
    have "bc t a = bc s a" using t(6) that bio_invD(8)[OF T(1)] by auto
    then show ?thesis using s same_buf[of t a s] t(4) that by (simp add: tx_held_def)
  qed
  then have "tx_held c i (H - {b}) t" using s t fr v by (simp add: tx_held_def)
  moreover have "fs_step {..<NBUF} [] s t" using t fr v by (simp add: fs_step_def)
  ultimately show thesis using that t(1) by blast
qed

lemma fs_log_write:
  assumes s: "tx_held c i H s" and b: "b \<in> H" "holds (bc s) b n" and room: "card (insert n (dirty s)) \<le> 10"
  obtains t where "log_write b (buf_upd b (\<lambda>x. x\<lparr>bdata := f (bdata x)\<rparr>) s) = Inr t" "tx_held c i H t" "holds (bc t) b n"
    "bdata (bufat t b) = f (bdata (bufat s b))" "fs_step (- {b}) [(n, f (bdata (bufat s b)))] s t"
proof -
  have T: "bio_inv c i H s" using s by (simp add: tx_held_def)
  note D = bio_invD[OF T]
  define m where "m = buf_upd b (\<lambda>x. x\<lparr>bdata := f (bdata (bufat s b))\<rparr>) s"
  have m: "buf_upd b (\<lambda>x. x\<lparr>bdata := f (bdata x)\<rparr>) s = m" by (simp add: m_def buf_upd_def bufat_def)
  note M = buf_modify[OF T b m_def]
  have fm: "lg m = lg s" "core m = core s" "disksize m = disksize s" "klog.more m = klog.more s"
    using M(2) klog_frame[OF M(2)] klog_more_frame[OF M(2)] by (simp_all add: bio_frame_def)
  have lim: "lhn (lg m) < int LOGSIZE" "lhn (lg m) < lsize (lg m) - 1" "1 \<le> outstanding (lg m)" "lock_free LogLock (core m)"
    using s by (auto simp: fm tx_held_def LOGSIZE_def MAXOPBLOCKS_def)
  obtain t where u: "log_write b m = Inr t" "bio_inv c i H t" "core t = core m" "disk t = disk m" "diskw t = diskw m"
    "disksize t = disksize m" "lg t = log_add n (lg m)" "is_dirty (bufat t b)"
    "view (bc t) (disk t) = view (bc m) (disk m)" "dirty_blocks (bc t) = insert n (dirty_blocks (bc m))"
    "klog.more t = klog.more m" "bufat t b = (bufat m b)\<lparr>bflags := bflags (bufat m b) OR B_DIRTY\<rparr>" "\<forall>a. a \<noteq> b \<longrightarrow> bc t a = bc m a"
    by (rule log_write_ok[OF M(1) b(1) M(5) lim(4,1-3)])
  have "0 \<le> lhn (lg s)" "lhn (lg s) < int (length (lhblock (lg s)))" using s by (simp_all add: tx_held_def LOGSIZE_def MAXOPBLOCKS_def)
  note N = log_add_entries[OF this, of n]
  have dt: "dirty t = insert n (dirty s)" using u(10) M(10) by (simp add: dirty_def)
  have d: "distinct (entries (lg t))" "dirty t = set (entries (lg t))"
    using N(1) s dt by (auto simp: u(7) fm tx_held_def)
  then have "int (length (entries (lg t))) \<le> MAXOPBLOCKS" using room dt distinct_card[OF d(1)] by (simp add: MAXOPBLOCKS_def)
  moreover have "is_dirty (bufat t a) \<or> bdata (bufat t a) = disk t (blockno (bufat t a))" if "a \<in> H" for a
  proof (cases "a = b")
    case False
    then have "bc t a = bc s a" using u(13) M(7) by simp
    then show ?thesis using s same_buf[of t a s] u(4) M(3) that by (simp add: tx_held_def)
  qed (use u(8) in simp)
  ultimately have "tx_held c i H t" using s u fm N(2) d by (simp add: tx_held_def)
  moreover have "fsview t = (fsview s)(n := f (bdata (bufat s b)))" using u(9) M(9) by (simp add: fsview_def)
  then have "fs_step (- {b}) [(n, f (bdata (bufat s b)))] s t"
    using u(3-7,11,13) M(3,4,7) dt fm by (auto simp: fs_step_def)
  moreover have "bdata (bufat t b) = f (bdata (bufat s b))" using u(12) M(6) by simp
  moreover have "holds (bc t) b n" using u(12) M(5) by (simp add: holds_def)
  ultimately show thesis using that u(1) m by simp
qed

lemma fs_change:
  assumes s: "tx_held c i H s" and E: "drv E = iderw" and n: "n < of_int (disksize s)" "\<forall>b \<in> H. \<not> holds (bc s) b n" "card H < 20"
    and room: "card (insert n (dirty s)) \<le> 10"
  obtains b s1 s2 t where "bread E 1 n s = Inr (b, s1)" "bdata (bufat s1 b) = fsview s n" "klog.more s1 = klog.more s"
    "log_write b (buf_upd b (\<lambda>x. x\<lparr>bdata := f (bdata x)\<rparr>) s1) = Inr s2" "brelse b s2 = Inr t"
    "tx_held c i H t" "fs_step H [(n, f (fsview s n))] s t"
proof -
  obtain b s1 where 1: "bread E 1 n s = Inr (b, s1)" "b \<notin> H" "tx_held c i (insert b H) s1" "holds (bc s1) b n" "bdata (bufat s1 b) = fsview s n"
    "fs_step (- {b}) [] s s1" by (rule fs_bread[OF s E n])
  have r: "card (insert n (dirty s1)) \<le> 10" using room fs_stepD(2)[OF 1(6)] by simp
  obtain s2 where 2: "log_write b (buf_upd b (\<lambda>x. x\<lparr>bdata := f (bdata x)\<rparr>) s1) = Inr s2" "tx_held c i (insert b H) s2"
    "fs_step (- {b}) [(n, f (bdata (bufat s1 b)))] s1 s2" by (rule fs_log_write[OF 1(3) insertI1 1(4) r])
  obtain t where 3: "brelse b s2 = Inr t" "tx_held c i (insert b H - {b}) t" "fs_step {..<NBUF} [] s2 t" by (rule fs_brelse[OF 2(2) insertI1])
  have H: "H \<subseteq> - {b}" "H \<subseteq> {..<NBUF}" using 1(2) s by (auto simp: tx_held_def bio_inv_def)
  have "fs_step H ([] @ [(n, f (fsview s n))] @ []) s t"
    using fs_step_trans[OF fs_step_mono[OF 1(6) H(1)] fs_step_trans[OF fs_step_mono[OF 2(3) H(1)] fs_step_mono[OF 3(3) H(2)]]] 1(5) by simp
  then show thesis using that 1 2 3 fs_stepD(3)[OF 1(6)] by simp
qed

lemma fs_visit:
  assumes s: "tx_held c i H s" and E: "drv E = iderw" and n: "n < of_int (disksize s)" "\<forall>b \<in> H. \<not> holds (bc s) b n" "card H < 20"
  obtains b s1 t where "bread E 1 n s = Inr (b, s1)" "bdata (bufat s1 b) = fsview s n" "klog.more s1 = klog.more s" "brelse b s1 = Inr t"
    "tx_held c i H t" "fs_step H [] s t"
proof -
  obtain b s1 where 1: "bread E 1 n s = Inr (b, s1)" "b \<notin> H" "tx_held c i (insert b H) s1" "holds (bc s1) b n" "bdata (bufat s1 b) = fsview s n"
    "fs_step (- {b}) [] s s1" by (rule fs_bread[OF s E n])
  obtain t where 3: "brelse b s1 = Inr t" "tx_held c i (insert b H - {b}) t" "fs_step {..<NBUF} [] s1 t" by (rule fs_brelse[OF 1(3) insertI1])
  have H: "H \<subseteq> - {b}" "H \<subseteq> {..<NBUF}" using 1(2) s by (auto simp: tx_held_def bio_inv_def)
  have "fs_step H ([] @ []) s t" by (rule fs_step_trans[OF fs_step_mono[OF 1(6) H(1)] fs_step_mono[OF 3(3) H(2)]])
  then show thesis using that 1 3 fs_stepD(3)[OF 1(6)] by simp
qed

lemma kfs_frame:
  assumes "klog.more t = klog.more s"
  shows "icache t = icache s" "sb t = sb s" "kfs.more t = kfs.more s"
  using assms by (cases s; cases t; simp)+

section \<open>The bitmap\<close>

definition zero_block :: block where "zero_block = replicate BSIZE 0"

lemma bzero_ok:
  assumes "tx_held c i H s" "drv E = iderw" "n < of_int (disksize s)" "\<forall>b \<in> H. \<not> holds (bc s) b n" "card H < 20"
    "card (insert n (dirty s)) \<le> 10"
  obtains t where "bzero E 1 n s = Inr t" "tx_held c i H t" "fs_step H [(n, zero_block)] s t"
proof -
  obtain b s1 s2 t where "bread E 1 n s = Inr (b, s1)" "log_write b (buf_upd b (\<lambda>x. x\<lparr>bdata := zero_block\<rparr>) s1) = Inr s2" "brelse b s2 = Inr t"
    "tx_held c i H t" "fs_step H [(n, zero_block)] s t"
    by (rule fs_change[OF assms, of "\<lambda>_. zero_block"])
  then show thesis by (intro that) (simp_all add: bzero_def zero_block_def)
qed

definition bm_block :: "'a kfs_scheme \<Rightarrow> nat \<Rightarrow> u32" where
  "bm_block s k = BBLOCK (of_nat k) (sb s)"

definition bm_used :: "'a kfs_scheme \<Rightarrow> nat \<Rightarrow> bool" where
  "bm_used s k = bit_at (fsview s (bm_block s k)) (k mod BPB)"

lemma bm_block_group:
  assumes "b = g * BPB" "b \<le> j" "j < b + BPB" "j < 2 ^ 32"
  shows "bm_block s j = bm_block s b" "j mod BPB = j - b"
proof -
  have "j div BPB = g" "b div BPB = g" using assms(1-3) by (auto simp: BPB_def BSIZE_def)
  moreover have "unat (of_nat j :: u32) = j" "unat (of_nat b :: u32) = b" using assms(2,4) by (simp_all add: unat_of_nat take_bit_nat_eq_self)
  ultimately show "bm_block s j = bm_block s b" by (simp add: bm_block_def BBLOCK_def)
  show "j mod BPB = j - b" using \<open>j div BPB = g\<close> assms(1) by (metis minus_mult_div_eq_mod mult.commute)
qed

lemma find_first:
  assumes "k < m" "P k" "\<forall>j < k. \<not> P j"
  shows "find P [0..<m] = Some k"
  using assms by (auto simp: find_Some_iff intro!: exI[of _ k])

lemma fs_step_holds: "fs_step H ws s t \<Longrightarrow> b \<in> H \<Longrightarrow> holds (bc t) b n = holds (bc s) b n"
  by (simp add: fs_step_def holds_def del: bc_simps)

definition not_held :: "nat set \<Rightarrow> 'a kbio_scheme \<Rightarrow> u32 \<Rightarrow> bool" where
  "not_held H s n \<longleftrightarrow> (\<forall>b \<in> H. \<not> holds (bc s) b n)"

lemma not_held_step: "fs_step H ws s t \<Longrightarrow> not_held H t n = not_held H s n"
  by (simp add: not_held_def fs_step_holds)

text \<open>The first free block from \<open>b\<close> on is \<open>k\<close>.\<close>

definition first_free :: "'a kfs_scheme \<Rightarrow> nat \<Rightarrow> nat \<Rightarrow> bool" where
  "first_free s b k \<longleftrightarrow> b \<le> k \<and> k < unat (sbsize (sb s)) \<and> \<not> bm_used s k \<and> (\<forall>j. b \<le> j \<and> j < k \<longrightarrow> bm_used s j)"

lemma bm_used_step: "fs_step K [] s t \<Longrightarrow> bm_used t = bm_used s" "fs_step K [] s t \<Longrightarrow> bm_block t = bm_block s"
  using kfs_frame(2)[of t s] by (auto simp: fs_step_def bm_used_def bm_block_def fun_eq_iff)

definition alloc_writes :: "'a kfs_scheme \<Rightarrow> nat \<Rightarrow> (u32 \<times> block) list" where
  "alloc_writes s k = [(bm_block s k, put_bit (fsview s (bm_block s k)) (k mod BPB) True), (of_nat k, zero_block)]"

lemma size_word: "k < unat (x :: u32) \<Longrightarrow> k < 2 ^ 32"
  using unsigned_less[of x, where ?'a = nat] by simp

lemma balloc_loop_ok:
  assumes "tx_held c i H s" "drv E = iderw" "card H < 20" "b = g * BPB" "first_free s b k" "k < b + n * BPB"
    and "\<forall>j < unat (sbsize (sb s)). bm_block s j < of_int (disksize s) \<and> not_held H s (bm_block s j)"
    and "of_nat k < (of_int (disksize s) :: u32)" "not_held H s (of_nat k)" "card (dirty s \<union> {bm_block s k, of_nat k}) \<le> 10"
  shows "\<exists>t. balloc_loop E 1 n b s = Inr (of_nat k, t) \<and> tx_held c i H t \<and> fs_step H (alloc_writes s k) s t"
  using assms
proof (induction n arbitrary: b g s)
  case (Suc n)
  let ?z = "unat (sbsize (sb s))"
  have kz: "b \<le> k" "k < ?z" "\<not> bm_used s k" "\<And>j. b \<le> j \<Longrightarrow> j < k \<Longrightarrow> bm_used s j" using Suc.prems(5) by (auto simp: first_free_def)
  have bz: "b < ?z" using kz by simp
  have bn: "bm_block s b < of_int (disksize s)" "\<forall>x \<in> H. \<not> holds (bc s) x (bm_block s b)" using Suc.prems(7) bz by (auto simp: not_held_def)
  have G: "bm_block s j = bm_block s b" "j mod BPB = j - b" if "b \<le> j" "j < b + BPB" "j < ?z" for j
    using bm_block_group[OF Suc.prems(4) that(1,2) size_word[OF that(3)]] by simp_all
  let ?d = "fsview s (bm_block s b)"
  have used: "bm_used s (b + x) = bit_at ?d x" if "x < BPB" "b + x < ?z" for x
    using G[of "b + x"] that by (simp add: bm_used_def)
  show ?case
  proof (cases "k < b + BPB")
    case True
    let ?x = "k - b"
    have x: "?x < min BPB (?z - b)" "\<not> bit_at ?d ?x" using True kz(1-3) used[of ?x] by auto
    have "bit_at ?d y" if "y < ?x" for y using used[of y] kz(4)[of "b + y"] that kz(2) True by simp
    then have fnd: "find (\<lambda>bi. \<not> bit_at ?d bi) [0..<min BPB (?z - b)] = Some ?x" using x by (intro find_first) auto
    have r: "card (insert (bm_block s b) (dirty s)) \<le> 10"
      by (rule order_trans[OF card_mono Suc.prems(10)]) (use finite_dirty[OF Suc.prems(1)] G(1)[OF kz(1) True kz(2)] in auto)
    obtain bp s1 s2 s3 where st: "bread E 1 (bm_block s b) s = Inr (bp, s1)" "bdata (bufat s1 bp) = ?d" "klog.more s1 = klog.more s"
      "log_write bp (buf_upd bp (\<lambda>x. x\<lparr>bdata := put_bit (bdata x) ?x True\<rparr>) s1) = Inr s2" "brelse bp s2 = Inr s3"
      "tx_held c i H s3" "fs_step H [(bm_block s b, put_bit ?d ?x True)] s s3"
      by (rule fs_change[OF Suc.prems(1,2) bn Suc.prems(3) r, of "\<lambda>d. put_bit d ?x True"])
    note F = fs_stepD[OF st(7)]
    have r3: "card (insert (of_nat k) (dirty s3)) \<le> 10" using Suc.prems(10) G(1)[OF kz(1) True kz(2)] by (simp add: F(2) Un_insert_right insert_commute)
    obtain t where t: "bzero E 1 (of_nat k) s3 = Inr t" "tx_held c i H t" "fs_step H [(of_nat k, zero_block)] s3 t"
      by (rule bzero_ok[OF st(6) Suc.prems(2) _ _ Suc.prems(3) r3])
        (use Suc.prems(8,9) F(4) not_held_step[OF st(7), of "of_nat k"] in \<open>auto simp: not_held_def\<close>)
    have "fs_step H (alloc_writes s k) s t"
      using fs_step_trans[OF st(7) t(3)] G[OF kz(1) True kz(2)] by (simp add: alloc_writes_def)
    moreover have "b + ?x = k" using kz(1) by simp
    ultimately show ?thesis using st t fnd kfs_frame(2)[OF st(3)] by (simp add: bm_block_def[symmetric])
  next
    case False
    have "\<forall>y < min BPB (?z - b). bit_at ?d y"
    proof (intro allI impI)
      fix y assume "y < min BPB (?z - b)"
      then have "y < BPB" "b + y < ?z" "b + y < k" using False by auto
      then show "bit_at ?d y" using used[of y] kz(4)[of "b + y"] by simp
    qed
    then have fnd: "find (\<lambda>bi. \<not> bit_at ?d bi) [0..<min BPB (?z - b)] = None" by (auto simp: find_None_iff)
    obtain bp s1 s3 where st: "bread E 1 (bm_block s b) s = Inr (bp, s1)" "bdata (bufat s1 bp) = ?d" "klog.more s1 = klog.more s"
      "brelse bp s1 = Inr s3" "tx_held c i H s3" "fs_step H [] s s3"
      by (rule fs_visit[OF Suc.prems(1,2) bn Suc.prems(3)])
    note F = fs_stepD[OF st(6)] and B = bm_used_step[OF st(6)] and K = kfs_frame(2)[OF fs_stepD(3)[OF st(6)]]
    have v: "fsview s3 = fsview s" "dirty s3 = dirty s" using F by simp_all
    have aw: "alloc_writes s3 k = alloc_writes s k" using B v by (simp add: alloc_writes_def)
    have "\<exists>t. balloc_loop E 1 n (b + BPB) s3 = Inr (of_nat k, t) \<and> tx_held c i H t \<and> fs_step H (alloc_writes s3 k) s3 t"
      by (rule Suc.IH[OF st(5) Suc.prems(2,3), of _ "g + 1"])
        (use Suc.prems False v B K F(4) not_held_step[OF st(6)] in \<open>auto simp: first_free_def\<close>)
    then obtain t where t: "balloc_loop E 1 n (b + BPB) s3 = Inr (of_nat k, t)" "tx_held c i H t" "fs_step H (alloc_writes s k) s3 t"
      using aw by auto
    show ?thesis using st t fnd kfs_frame(2)[OF st(3)] fs_step_trans[OF st(6) t(3)] by (simp add: bm_block_def[symmetric])
  qed
qed (simp add: first_free_def)

lemma put_bit_length [simp]: "length (put_bit d x v) = length d"
  by (simp add: put_bit_def)

lemma bit_at_put_bit:
  assumes "x div 8 < length d"
  shows "bit_at (put_bit d x v) y = (if y = x then v else bit_at d y)"
proof (cases "y div 8 = x div 8")
  case True
  have "y mod 8 < LENGTH(8)" "x mod 8 < LENGTH(8)" by simp_all
  moreover have "y = x \<longleftrightarrow> y mod 8 = x mod 8" using True by (metis div_mult_mod_eq)
  ultimately show ?thesis using assms True by (auto simp: bit_at_def put_bit_def bit_simps)
next
  case False
  then show ?thesis by (auto simp: bit_at_def put_bit_def)
qed

text \<open>What the file system keeps of its bitmap. The bitmap lies outside the blocks it says are free.\<close>

definition bitmap_ok :: "'a kfs_scheme \<Rightarrow> bool" where
  "bitmap_ok s \<longleftrightarrow> (\<forall>n. length (fsview s n) = BSIZE) \<and> int (unat (sbsize (sb s))) \<le> disksize s \<and> disksize s < 2 ^ 32 \<and>
     (\<forall>j < unat (sbsize (sb s)). bm_block s j < of_int (disksize s)) \<and>
     (\<forall>k < unat (sbsize (sb s)). \<not> bm_used s k \<longrightarrow> k \<noteq> 0 \<and> (\<forall>j < unat (sbsize (sb s)). bm_block s j \<noteq> of_nat k))"

lemma bitmap_okD:
  assumes "bitmap_ok s"
  shows "length (fsview s n) = BSIZE" "j < unat (sbsize (sb s)) \<Longrightarrow> bm_block s j < of_int (disksize s)"
    "k < unat (sbsize (sb s)) \<Longrightarrow> of_nat k < (of_int (disksize s) :: u32)"
    "k < unat (sbsize (sb s)) \<Longrightarrow> \<not> bm_used s k \<Longrightarrow> k \<noteq> 0" "k < unat (sbsize (sb s)) \<Longrightarrow> \<not> bm_used s k \<Longrightarrow> j < unat (sbsize (sb s)) \<Longrightarrow> bm_block s j \<noteq> of_nat k"
proof -
  show "of_nat k < (of_int (disksize s) :: u32)" if "k < unat (sbsize (sb s))"
  proof -
    have a: "int (unat (sbsize (sb s))) \<le> disksize s" "disksize s < 2 ^ 32" using assms unfolding bitmap_ok_def by blast+
    have "int k < disksize s" using a(1) that by linarith
    from of_int_less[OF _ this a(2)] show ?thesis by simp
  qed
qed (use assms in \<open>auto simp: bitmap_ok_def\<close>)

lemma bm_block_eq:
  assumes "j < unat (sbsize (sb s))" "k < unat (sbsize (sb s))" "bm_block s j = bm_block s k"
  shows "j div BPB = k div BPB"
proof -
  have l: "j < 2 ^ 32" "k < 2 ^ 32" using size_word assms by blast+
  have u: "unat (of_nat x :: u32) = x" if "x < 2 ^ 32" for x using that by (simp add: unat_of_nat take_bit_nat_eq_self)
  have "(of_nat (j div BPB) :: u32) = of_nat (k div BPB)" using assms(3) l by (simp add: bm_block_def BBLOCK_def u)
  moreover have "j div BPB < 2 ^ 32" "k div BPB < 2 ^ 32" using l div_le_dividend le_less_trans by blast+
  ultimately show ?thesis using u by metis
qed

lemma used_after_alloc:
  assumes ok: "bitmap_ok s" and k: "k < unat (sbsize (sb s))" "\<not> bm_used s k"
    and t: "fsview t = apply_writes (alloc_writes s k) (fsview s)" "sb t = sb s" and j: "j < unat (sbsize (sb s))"
  shows "bm_used t j \<longleftrightarrow> bm_used s j \<or> j = k"
proof -
  note B = bitmap_okD[OF ok]
  have b: "bm_block t j = bm_block s j" using t(2) by (simp add: bm_block_def)
  have f: "fsview t (bm_block s j) = (if bm_block s j = bm_block s k then put_bit (fsview s (bm_block s k)) (k mod BPB) True else fsview s (bm_block s j))"
    using B(5)[OF k j] by (auto simp: t(1) alloc_writes_def)
  show ?thesis
  proof (cases "bm_block s j = bm_block s k")
    case True
    have "k mod BPB div 8 < BSIZE" by (simp add: BPB_def BSIZE_def div_less_iff_less_mult)
    then have "bit_at (put_bit (fsview s (bm_block s k)) (k mod BPB) True) (j mod BPB) \<longleftrightarrow> j mod BPB = k mod BPB \<or> bm_used s j"
      using True B(1) by (simp add: bit_at_put_bit bm_used_def)
    moreover have "j mod BPB = k mod BPB \<longleftrightarrow> j = k" using bm_block_eq[OF j k(1) True] by (metis div_mult_mod_eq)
    ultimately show ?thesis using f True b by (auto simp: bm_used_def)
  next
    case False
    then show ?thesis using f b by (auto simp: bm_used_def)
  qed
qed

lemma balloc_ok:
  assumes "tx_held c i H s" "drv E = iderw" "card H < 20" "bitmap_ok s" "first_free s 0 k"
    and "\<forall>j < unat (sbsize (sb s)). not_held H s (bm_block s j)" "not_held H s (of_nat k)" "card (dirty s \<union> {bm_block s k, of_nat k}) \<le> 10"
  obtains t where "balloc E 1 s = Inr (of_nat k, t)" "tx_held c i H t" "fs_step H (alloc_writes s k) s t"
    "\<forall>j < unat (sbsize (sb s)). bm_used t j \<longleftrightarrow> bm_used s j \<or> j = k" "bm_block s k \<noteq> of_nat k"
proof -
  note B = bitmap_okD[OF assms(4)]
  have k: "k < unat (sbsize (sb s))" "\<not> bm_used s k" using assms(5) by (auto simp: first_free_def)
  let ?n = "(unat (sbsize (sb s)) + BPB - 1) div BPB"
  have bp: "0 < BPB" by (simp add: BPB_def BSIZE_def)
  have "unat (sbsize (sb s)) \<le> ?n * BPB" using div_mult_mod_eq[of "unat (sbsize (sb s)) + BPB - 1" BPB] mod_less_divisor[OF bp, of "unat (sbsize (sb s)) + BPB - 1"] by linarith
  then have kn: "k < 0 + ?n * BPB" using k(1) by simp
  obtain t where t: "balloc_loop E 1 ?n 0 s = Inr (of_nat k, t)" "tx_held c i H t" "fs_step H (alloc_writes s k) s t"
    using balloc_loop_ok[OF assms(1-3) _ assms(5) kn _ B(3)[OF k(1)] assms(7,8), of 0] assms(6) B(2) by auto
  note F = fs_stepD[OF t(3)] and K = kfs_frame(2)[OF fs_stepD(3)[OF t(3)]]
  show thesis using that t used_after_alloc[OF assms(4) k F(1) K] B(5)[OF k k(1)] by (simp add: balloc_def)
qed

text \<open>
  C6. Block allocation. Inside a transaction, with any other blocks locked, \<^verbatim>\<open>balloc\<close> returns the first block
  that the bitmap says is free; it marks that block used, fills it with zeros, and changes no other
  bit of the bitmap and no other block.
\<close>

theorem balloc_first_free:
  assumes "tx_held c i H s" "drv E = iderw" "card H < 20" "bitmap_ok s" "first_free s 0 k"
    and "\<forall>j < unat (sbsize (sb s)). not_held H s (bm_block s j)" "not_held H s (of_nat k)" "card (dirty s \<union> {bm_block s k, of_nat k}) \<le> 10"
  shows "\<exists>t. balloc E 1 s = Inr (of_nat k, t) \<and> tx_held c i H t \<and> fsview t (of_nat k) = zero_block \<and>
     (\<forall>j < unat (sbsize (sb s)). bm_used t j \<longleftrightarrow> bm_used s j \<or> j = k) \<and>
     (\<forall>n. n \<noteq> of_nat k \<longrightarrow> n \<noteq> bm_block s k \<longrightarrow> fsview t n = fsview s n) \<and> klog.more t = klog.more s \<and> disk t = disk s"
proof -
  obtain t where t: "balloc E 1 s = Inr (of_nat k, t)" "tx_held c i H t" "fs_step H (alloc_writes s k) s t"
    "\<forall>j < unat (sbsize (sb s)). bm_used t j \<longleftrightarrow> bm_used s j \<or> j = k" "bm_block s k \<noteq> of_nat k"
    using assms by (rule balloc_ok)
  then show ?thesis using fs_stepD[OF t(3)] by (auto simp: alloc_writes_def)
qed

end
