(* ===== verification/FsFile.thy ===== *)
theory FsFile
  imports FsBlocks
begin

text \<open>
  The contents of files (\<^verbatim>\<open>bmap\<close>, \<^verbatim>\<open>readi\<close>, \<^verbatim>\<open>writei\<close> and \<^verbatim>\<open>iupdate\<close> of \<^verbatim>\<open>fs.c\<close>): the blocks of a file are found through its direct
  addresses and its indirect block, are allocated when needed, and hold what was written last.
\<close>

section \<open>The blocks of a file\<close>

text \<open>
  The addresses a file has room for: slot \<open>x \<le> NDIRECT\<close> is in the inode, the one with number
  \<open>NDIRECT\<close> being the indirect block, the later ones are in the indirect block.
\<close>

definition fslot :: "'a kfs_scheme \<Rightarrow> nat \<Rightarrow> nat \<Rightarrow> u32" where
  "fslot s i x =
     (let ad = iaddrs (icache s ! i) in
      if x \<le> NDIRECT then ad ! x
      else if ad ! NDIRECT = 0 then 0
      else get32 (fsview s (ad ! NDIRECT)) (4 * (x - NDIRECT - 1)))"

definition slot_of :: "nat \<Rightarrow> nat" where
  "slot_of bn = (if bn < NDIRECT then bn else bn + 1)"

definition bmb :: "'a kfs_scheme \<Rightarrow> u32" where
  "bmb s = bm_block s 0"

definition data_used :: "'a kfs_scheme \<Rightarrow> u32 \<Rightarrow> bool" where
  "data_used s a \<longleftrightarrow> unat a < unat (sbsize (sb s)) \<and> bm_used s (unat a) \<and> a \<noteq> bmb s"

definition file_ok :: "'a kfs_scheme \<Rightarrow> nat \<Rightarrow> bool" where
  "file_ok s i \<longleftrightarrow> i < length (icache s) \<and> idev (icache s ! i) = 1 \<and> length (iaddrs (icache s ! i)) = NDIRECT + 1 \<and>
     (\<forall>x \<le> MAXFILE. fslot s i x \<noteq> 0 \<longrightarrow> data_used s (fslot s i x)) \<and>
     (\<forall>x \<le> MAXFILE. \<forall>y \<le> MAXFILE. fslot s i x \<noteq> 0 \<longrightarrow> fslot s i x = fslot s i y \<longrightarrow> x = y)"

text \<open>The file system in a transaction; the whole bitmap is in one block, as it is on a disk of up to 4096 blocks.\<close>

definition fs_inv :: "nat \<Rightarrow> nat \<Rightarrow> nat set \<Rightarrow> 'a kfs_scheme \<Rightarrow> bool" where
  "fs_inv c p H s \<longleftrightarrow> tx_held c p H s \<and> bitmap_ok s \<and> unat (sbsize (sb s)) \<le> BPB"

definition nfree :: "'a kfs_scheme \<Rightarrow> nat" where
  "nfree s = card {k. k < unat (sbsize (sb s)) \<and> \<not> bm_used s k}"

text \<open>
  For a set \<open>R\<close> of slots: how many of them have no block yet, and how many blocks the log will hold
  when all of them have been written.
\<close>

definition lack :: "'a kfs_scheme \<Rightarrow> nat \<Rightarrow> nat set \<Rightarrow> nat" where
  "lack s i R = card {x \<in> R. fslot s i x = 0}"

definition touched_blocks :: "'a kfs_scheme \<Rightarrow> nat \<Rightarrow> nat set \<Rightarrow> u32 set" where
  "touched_blocks s i R = insert (bmb s) (dirty s \<union> fslot s i ` {x \<in> R. fslot s i x \<noteq> 0})"

definition cost :: "'a kfs_scheme \<Rightarrow> nat \<Rightarrow> nat set \<Rightarrow> nat" where
  "cost s i R = card (touched_blocks s i R) + lack s i R"

definition file_blocks :: "'a kfs_scheme \<Rightarrow> nat \<Rightarrow> u32 set" where
  "file_blocks s i = {a. a \<noteq> 0 \<and> (\<exists>y \<le> MAXFILE. a = fslot s i y)}"

text \<open>\<open>t\<close> is \<open>s\<close> with blocks added to file \<open>i\<close> in the slots \<open>X\<close>.\<close>

definition ext :: "nat \<Rightarrow> nat set \<Rightarrow> 'a kfs_scheme \<Rightarrow> 'a kfs_scheme \<Rightarrow> bool" where
  "ext i X s t \<longleftrightarrow> sb t = sb s \<and> disksize t = disksize s \<and> disk t = disk s \<and> log_area t = log_area s \<and> core t = core s \<and> kfs.more t = kfs.more s \<and>
     icache t = (icache s)[i := (icache s ! i)\<lparr>iaddrs := iaddrs (icache t ! i)\<rparr>] \<and>
     (\<forall>k < unat (sbsize (sb s)). bm_used s k \<longrightarrow> bm_used t k) \<and>
     (\<forall>y \<le> MAXFILE. fslot s i y \<noteq> 0 \<or> y \<notin> X \<longrightarrow> fslot t i y = fslot s i y) \<and>
     (\<forall>y \<le> MAXFILE. fslot s i y = 0 \<longrightarrow> fslot t i y \<noteq> 0 \<longrightarrow> unat (fslot t i y) < unat (sbsize (sb s)) \<and> \<not> bm_used s (unat (fslot t i y))) \<and>
     (\<forall>n. data_used s n \<longrightarrow> n \<noteq> fslot s i NDIRECT \<longrightarrow> fsview t n = fsview s n) \<and>
     dirty t \<subseteq> insert (bmb s) (dirty s \<union> file_blocks t i) \<and>
     (\<forall>R. X \<subseteq> R \<longrightarrow> R \<subseteq> {..MAXFILE} \<longrightarrow> lack s i R \<le> nfree s \<longrightarrow> lack t i R \<le> nfree t) \<and>
     (\<forall>R. X \<subseteq> R \<longrightarrow> R \<subseteq> {..MAXFILE} \<longrightarrow> cost t i R \<le> cost s i R)"

lemma maxfile: "NDIRECT \<le> MAXFILE" "NDIRECT = 12" "MAXFILE = 140" "NINDIRECT = 128"
  by (simp_all add: MAXFILE_def NDIRECT_def NINDIRECT_def BSIZE_def)

lemma ext_refl: "i < length (icache s) \<Longrightarrow> ext i X s s"
  by (auto simp: ext_def)

lemma file_blocks_mono: "\<forall>y \<le> MAXFILE. fslot s i y \<noteq> 0 \<longrightarrow> fslot t i y = fslot s i y \<Longrightarrow> file_blocks s i \<subseteq> file_blocks t i"
  by (force simp: file_blocks_def)

lemma dirty_trans:
  assumes "dirty t \<subseteq> insert (bmb s) (dirty s \<union> file_blocks t i)" "dirty u \<subseteq> insert (bmb t) (dirty t \<union> file_blocks u i)" "sb t = sb s"
    "\<forall>y \<le> MAXFILE. fslot t i y \<noteq> 0 \<longrightarrow> fslot u i y = fslot t i y"
  shows "dirty u \<subseteq> insert (bmb s) (dirty s \<union> file_blocks u i)"
proof -
  have "bmb t = bmb s" using assms(3) by (simp add: bmb_def bm_block_def)
  then show ?thesis using assms(1,2) file_blocks_mono[OF assms(4)] by auto
qed

lemma ext_mono: "ext i X s t \<Longrightarrow> X \<subseteq> Y \<Longrightarrow> ext i Y s t"
  unfolding ext_def by (meson subsetD subset_trans)

lemma data_used_ext: "ext i X s t \<Longrightarrow> data_used s n \<Longrightarrow> data_used t n"
  by (auto simp: ext_def data_used_def bmb_def bm_block_def)

lemma icache_iaddrs_trans:
  assumes "ct = cs[i := (cs ! i)\<lparr>iaddrs := iaddrs (ct ! i)\<rparr>]" "cu = ct[i := (ct ! i)\<lparr>iaddrs := iaddrs (cu ! i)\<rparr>]"
  shows "cu = cs[i := (cs ! i)\<lparr>iaddrs := iaddrs (cu ! i)\<rparr>]"
proof (cases "i < length cs")
  case True
  have "ct ! i = (cs ! i)\<lparr>iaddrs := iaddrs (ct ! i)\<rparr>" using True by (subst assms(1)) simp
  then have "(ct ! i)\<lparr>iaddrs := iaddrs (cu ! i)\<rparr> = (cs ! i)\<lparr>iaddrs := iaddrs (cu ! i)\<rparr>"
    by (metis inode.surjective inode.update_convs(10))
  then show ?thesis using assms by (metis list_update_overwrite)
next
  case False
  then show ?thesis using assms by (metis list_update_beyond not_less)
qed

lemma ext_trans:
  assumes 1: "ext i X s t" and 2: "ext i Y t u"
  shows "ext i (X \<union> Y) s u"
proof -
  have v: "fsview u n = fsview s n" if "data_used s n" "n \<noteq> fslot s i NDIRECT" for n
  proof -
    have "n \<noteq> fslot t i NDIRECT"
    proof (cases "fslot s i NDIRECT = 0 \<and> fslot t i NDIRECT \<noteq> 0")
      case True
      then have "\<not> bm_used s (unat (fslot t i NDIRECT))" using 1 maxfile(1) by (simp add: ext_def)
      then show ?thesis using that(1) by (auto simp: data_used_def)
    next
      case False
      then show ?thesis using 1 that(2) maxfile(1) by (auto simp: ext_def)
    qed
    then show ?thesis using 1 2 that data_used_ext[OF 1 that(1)] by (simp add: ext_def)
  qed
  have f: "unat (fslot u i y) < unat (sbsize (sb s)) \<and> \<not> bm_used s (unat (fslot u i y))"
    if "y \<le> MAXFILE" "fslot s i y = 0" "fslot u i y \<noteq> 0" for y
    using 1 2 that by (cases "fslot t i y = 0") (auto simp: ext_def)
  have e: "icache u = (icache s)[i := (icache s ! i)\<lparr>iaddrs := iaddrs (icache u ! i)\<rparr>]"
    by (rule icache_iaddrs_trans[of "icache t"]) (use 1 2 in \<open>auto simp: ext_def\<close>)
  have y: "fslot u i y = fslot s i y" if "y \<le> MAXFILE" "fslot s i y \<noteq> 0 \<or> y \<notin> X \<union> Y" for y
    using 1 2 that by (auto simp: ext_def)
  have "cost u i R \<le> cost s i R" if "X \<union> Y \<subseteq> R" "R \<subseteq> {..MAXFILE}" for R
    using 1 2 that order_trans[of "cost u i R" "cost t i R" "cost s i R"] by (simp add: ext_def)
  moreover have "dirty u \<subseteq> insert (bmb s) (dirty s \<union> file_blocks u i)"
    by (rule dirty_trans[of t]) (use 1 2 in \<open>simp_all add: ext_def\<close>)
  ultimately show ?thesis using 1 2 v f e y unfolding ext_def by simp
qed

lemma inode_upd_simps [simp]:
  "fsview (inode_upd i f s) = fsview s" "dirty (inode_upd i f s) = dirty s" "sb (inode_upd i f s) = sb s" "disk (inode_upd i f s) = disk s"
  "disksize (inode_upd i f s) = disksize s" "core (inode_upd i f s) = core s" "kfs.more (inode_upd i f s) = kfs.more s"
  "bm_used (inode_upd i f s) = bm_used s" "bmb (inode_upd i f s) = bmb s" "nfree (inode_upd i f s) = nfree s"
  "data_used (inode_upd i f s) = data_used s" "log_area (inode_upd i f s) = log_area s" "icache (inode_upd i f s) = (icache s)[i := f (icache s ! i)]" "lg (inode_upd i f s) = lg s"
  "bufat (inode_upd i f s) = bufat s" "bc (inode_upd i f s) = bc s" "diskw (inode_upd i f s) = diskw s" "bm_block (inode_upd i f s) = bm_block s"
proof -
  have b: "bufat (inode_upd i f s) = bufat s" by (simp add: inode_upd_def bufat_def fun_eq_iff)
  then show "bufat (inode_upd i f s) = bufat s" "bc (inode_upd i f s) = bc s" by (simp_all add: bc_def fun_eq_iff)
  then show v: "fsview (inode_upd i f s) = fsview s" "dirty (inode_upd i f s) = dirty s"
    by (simp_all add: fsview_def dirty_def) (simp add: inode_upd_def)
  show s: "sb (inode_upd i f s) = sb s" "disk (inode_upd i f s) = disk s"
    "disksize (inode_upd i f s) = disksize s" "core (inode_upd i f s) = core s" "kfs.more (inode_upd i f s) = kfs.more s"
    "icache (inode_upd i f s) = (icache s)[i := f (icache s ! i)]" "lg (inode_upd i f s) = lg s" "diskw (inode_upd i f s) = diskw s"
    by (simp_all add: inode_upd_def core_def)
  show bb: "bm_block (inode_upd i f s) = bm_block s" using s by (simp add: bm_block_def fun_eq_iff)
  then show u: "bm_used (inode_upd i f s) = bm_used s" "bmb (inode_upd i f s) = bmb s" using v by (simp_all add: bm_used_def bmb_def fun_eq_iff)
  show "nfree (inode_upd i f s) = nfree s" "data_used (inode_upd i f s) = data_used s" "log_area (inode_upd i f s) = log_area s" using u s by (simp_all add: log_area_def nfree_def data_used_def fun_eq_iff)
qed

lemma fs_inv_inode [simp]: "fs_inv c p H (inode_upd i f s) \<longleftrightarrow> fs_inv c p H s"
proof -
  have "bio_inv c p H (inode_upd i f s) \<longleftrightarrow> bio_inv c p H s"
  proof
    show "bio_inv c p H s \<Longrightarrow> bio_inv c p H (inode_upd i f s)"
      by (erule bio_inv_same) (simp_all add: inode_upd_def core_def)
    show "bio_inv c p H (inode_upd i f s) \<Longrightarrow> bio_inv c p H s"
      by (erule bio_inv_same) (simp_all add: inode_upd_def core_def)
  qed
  then show ?thesis by (simp add: fs_inv_def tx_held_def bitmap_ok_def)
qed

lemma bmb_all:
  assumes "unat (sbsize (sb s)) \<le> BPB" "j < unat (sbsize (sb s))"
  shows "bm_block s j = bmb s"
  using bm_block_group(1)[of 0 0 j s] size_word[OF assms(2)] assms by (simp add: bmb_def)

lemma nfree_alloc:
  assumes "sb t = sb s" "k < unat (sbsize (sb s))" "\<not> bm_used s k" "\<forall>j < unat (sbsize (sb s)). bm_used t j \<longleftrightarrow> bm_used s j \<or> j = k"
  shows "nfree s = nfree t + 1"
proof -
  let ?A = "{k. k < unat (sbsize (sb s)) \<and> \<not> bm_used s k}" and ?B = "{k. k < unat (sbsize (sb t)) \<and> \<not> bm_used t k}"
  have "?A = insert k ?B" using assms by auto
  moreover have "k \<notin> ?B" "finite ?B" using assms by auto
  ultimately show ?thesis by (simp add: nfree_def)
qed

lemma first_free_ex:
  assumes "0 < nfree s"
  obtains k where "first_free s 0 k"
proof -
  have "\<exists>k. k < unat (sbsize (sb s)) \<and> \<not> bm_used s k" using assms by (auto simp: nfree_def card_gt_0_iff)
  then obtain k where "k < unat (sbsize (sb s)) \<and> \<not> bm_used s k" "\<forall>j < k. \<not> (j < unat (sbsize (sb s)) \<and> \<not> bm_used s j)"
    using exists_least_iff[of "\<lambda>k. k < unat (sbsize (sb s)) \<and> \<not> bm_used s k"] by blast
  then have "first_free s 0 k" by (auto simp: first_free_def)
  then show thesis using that by blast
qed

lemma balloc_fs:
  assumes s: "fs_inv c p H s" and E: "drv E = iderw" and H: "card H < 20" "\<And>n. \<not> not_held H s n \<Longrightarrow> data_used s n"
    and room: "0 < nfree s" "card (insert (bmb s) (dirty s)) \<le> 9"
  obtains a t d where "balloc E 1 s = Inr (a, t)" "fs_inv c p H t" "a \<noteq> 0" "unat a < unat (sbsize (sb s))" "\<not> bm_used s (unat a)" "a \<noteq> bmb s"
    "fs_step H [(bmb s, d), (a, zero_block)] s t" "\<forall>j < unat (sbsize (sb s)). bm_used t j \<longleftrightarrow> bm_used s j \<or> j = unat a" "nfree s = nfree t + 1"
proof -
  have I: "tx_held c p H s" "bitmap_ok s" "unat (sbsize (sb s)) \<le> BPB" using s by (simp_all add: fs_inv_def)
  note B = bitmap_okD[OF I(2)] and M = bmb_all[OF I(3)]
  obtain k where ff: "first_free s 0 k" using first_free_ex[OF room(1)] .
  then have k: "k < unat (sbsize (sb s))" "\<not> bm_used s k" by (auto simp: first_free_def)
  have u: "unat (of_nat k :: u32) = k" using size_word[OF k(1)] by (simp add: unat_of_nat take_bit_nat_eq_self)
  have nh: "\<forall>j < unat (sbsize (sb s)). not_held H s (bm_block s j)" "not_held H s (of_nat k)"
    using H(2)[of "bmb s"] H(2)[of "of_nat k"] M k(2) u by (auto simp: data_used_def)
  have "card (dirty s \<union> {bm_block s k, of_nat k}) \<le> card (insert (bmb s) (dirty s)) + 1"
    using M[OF k(1)] by (simp add: insert_commute card_insert_le_m1 card_insert_if finite_dirty[OF I(1)])
  then have "card (dirty s \<union> {bm_block s k, of_nat k}) \<le> 10" using room(2) by simp
  then obtain t where t: "balloc E 1 s = Inr (of_nat k, t)" "tx_held c p H t" "fs_step H (alloc_writes s k) s t"
    "\<forall>j < unat (sbsize (sb s)). bm_used t j \<longleftrightarrow> bm_used s j \<or> j = k" "bm_block s k \<noteq> of_nat k"
    using balloc_ok[OF I(1) E H(1) I(2) ff nh] by blast
  note F = fs_stepD[OF t(3)] and K = kfs_frame(2)[OF fs_stepD(3)[OF t(3)]]
  have bb: "bm_block t = bm_block s" using K by (simp add: bm_block_def fun_eq_iff)
  have "length (fsview t n) = BSIZE" for n using F(1) B(1) by (simp add: alloc_writes_def zero_block_def)
  then have "bitmap_ok t" using I(2) K F(4) t(4) bb unfolding bitmap_ok_def by auto
  then have "fs_inv c p H t" using t(2) I(3) K by (simp add: fs_inv_def)
  moreover have "(of_nat k :: u32) \<noteq> 0" using B(4)[OF k] u by (metis unat_0)
  ultimately show thesis using that[OF t(1)] t(3,4,5) nfree_alloc[OF K k t(4)] k u M[OF k(1)] by (simp add: alloc_writes_def)
qed

definition slots_for :: "nat \<Rightarrow> nat set" where
  "slots_for x = (if x \<le> NDIRECT then {x} else {x, NDIRECT})"

text \<open>A fresh block \<open>a\<close> has been put into the free slot \<open>x\<close>.\<close>

definition slot_set :: "nat \<Rightarrow> nat \<Rightarrow> u32 \<Rightarrow> 'a kfs_scheme \<Rightarrow> 'a kfs_scheme \<Rightarrow> bool" where
  "slot_set i x a s t \<longleftrightarrow> sb t = sb s \<and> disksize t = disksize s \<and> disk t = disk s \<and> log_area t = log_area s \<and> core t = core s \<and> kfs.more t = kfs.more s \<and>
     icache t = (icache s)[i := (icache s ! i)\<lparr>iaddrs := iaddrs (icache t ! i)\<rparr>] \<and> length (iaddrs (icache t ! i)) = length (iaddrs (icache s ! i)) \<and>
     (\<forall>j < unat (sbsize (sb s)). bm_used t j \<longleftrightarrow> bm_used s j \<or> j = unat a) \<and> nfree s = nfree t + 1 \<and>
     (\<forall>y \<le> MAXFILE. fslot t i y = (if y = x then a else fslot s i y)) \<and> fslot s i x = 0 \<and> a \<noteq> 0 \<and> a \<noteq> bmb s \<and>
     unat a < unat (sbsize (sb s)) \<and> \<not> bm_used s (unat a) \<and> (NDIRECT < x \<longrightarrow> fslot s i NDIRECT \<noteq> 0) \<and>
     (\<forall>n. n \<noteq> bmb s \<longrightarrow> n \<noteq> a \<longrightarrow> (NDIRECT < x \<longrightarrow> n \<noteq> fslot s i NDIRECT) \<longrightarrow> fsview t n = fsview s n) \<and>
     dirty t = dirty s \<union> {bmb s, a} \<union> (if NDIRECT < x then {fslot s i NDIRECT} else {})"

lemma slot_set_cost:
  assumes "slot_set i x a s t" "x \<le> MAXFILE" "slots_for x \<subseteq> R" "R \<subseteq> {..MAXFILE}" "finite (dirty s)"
  shows "lack s i R = lack t i R + 1" "cost t i R \<le> cost s i R"
proof -
  have fR: "finite R" using assms(4) finite_subset by blast
  have xR: "x \<in> R" "NDIRECT < x \<Longrightarrow> NDIRECT \<in> R" using assms(3) by (auto simp: slots_for_def split: if_splits)
  have sl: "\<And>y. y \<in> R \<Longrightarrow> fslot t i y = (if y = x then a else fslot s i y)" and a: "fslot s i x = 0" "a \<noteq> 0" and bm: "bmb t = bmb s"
    using assms(1,4) by (auto simp: slot_set_def bmb_def bm_block_def)
  have "{y \<in> R. fslot s i y = 0} = insert x {y \<in> R. fslot t i y = 0}" using sl a xR(1) by (auto split: if_splits)
  moreover have "x \<notin> {y \<in> R. fslot t i y = 0}" "finite {y \<in> R. fslot t i y = 0}" using sl a xR fR by auto
  ultimately show l: "lack s i R = lack t i R + 1" by (simp add: lack_def)
  have "dirty t \<subseteq> insert a (touched_blocks s i R)"
    using assms(1) xR(2) by (auto simp: slot_set_def touched_blocks_def)
  then have sub: "touched_blocks t i R \<subseteq> insert a (touched_blocks s i R)"
    using sl bm by (auto simp: touched_blocks_def)
  have fin: "finite (touched_blocks s i R)" using fR assms(5) by (simp add: touched_blocks_def)
  have "card (touched_blocks t i R) \<le> card (insert a (touched_blocks s i R))" using sub fin by (intro card_mono) auto
  also have "\<dots> \<le> card (touched_blocks s i R) + 1" using fin by (simp add: card_insert_if)
  finally show "cost t i R \<le> cost s i R" using l by (simp add: cost_def)
qed

lemma slot_set_ext:
  assumes ss: "slot_set i x a s t" and x: "x \<le> MAXFILE" and fd: "finite (dirty s)"
  shows "ext i (slots_for x) s t"
proof -
  have v: "fsview t n = fsview s n" if "data_used s n" "n \<noteq> fslot s i NDIRECT" for n
    using ss that by (auto simp: slot_set_def data_used_def)
  have c: "lack t i R \<le> nfree t" if "slots_for x \<subseteq> R" "R \<subseteq> {..MAXFILE}" "lack s i R \<le> nfree s" for R
    using slot_set_cost(1)[OF ss x that(1,2) fd] that(3) ss by (simp add: slot_set_def)
  have d: "x \<in> slots_for x" by (simp add: slots_for_def)
  have g: "fslot t i x = a" "a \<noteq> 0" "NDIRECT < x \<Longrightarrow> fslot t i NDIRECT = fslot s i NDIRECT \<and> fslot s i NDIRECT \<noteq> 0"
    using ss x maxfile(1) by (simp_all add: slot_set_def)
  have "a \<in> file_blocks t i" using g(1,2) x unfolding file_blocks_def by auto
  moreover have "fslot s i NDIRECT \<in> file_blocks t i" if "NDIRECT < x"
    using g(3)[OF that] maxfile(1) unfolding file_blocks_def by (intro CollectI conjI exI[of _ NDIRECT]) simp_all
  ultimately have e: "dirty t \<subseteq> insert (bmb s) (dirty s \<union> file_blocks t i)" using ss by (auto simp: slot_set_def)
  show ?thesis using ss v c d e slot_set_cost(2)[OF ss x _ _ fd] unfolding ext_def slot_set_def by auto
qed

lemma slot_set_file:
  assumes ss: "slot_set i x a s t" and x: "x \<le> MAXFILE" and f: "file_ok s i"
  shows "file_ok t i" "data_used t a"
proof -
  have bm: "bmb t = bmb s" using ss by (simp add: slot_set_def bmb_def bm_block_def)
  show u: "data_used t a" using ss by (simp add: data_used_def slot_set_def bm)
  have m: "data_used s n \<Longrightarrow> data_used t n" for n using ss by (auto simp: data_used_def slot_set_def bm)
  have na: "fslot s i y \<noteq> a" if "y \<le> MAXFILE" for y
    using f ss that by (cases "fslot s i y = 0") (auto simp: file_ok_def slot_set_def data_used_def)
  have sl: "fslot t i y = (if y = x then a else fslot s i y)" if "y \<le> MAXFILE" for y using ss that by (simp add: slot_set_def)
  have i: "i < length (icache t)" "idev (icache t ! i) = 1" "length (iaddrs (icache t ! i)) = NDIRECT + 1"
  proof -
    have e: "icache t = (icache s)[i := (icache s ! i)\<lparr>iaddrs := iaddrs (icache t ! i)\<rparr>]" using ss by (simp add: slot_set_def)
    have k: "i < length (icache s)" "idev (icache s ! i) = 1" using f by (simp_all add: file_ok_def)
    have "icache t ! i = (icache s ! i)\<lparr>iaddrs := iaddrs (icache t ! i)\<rparr>" using k(1) by (subst e) simp
    then have "idev (icache t ! i) = idev ((icache s ! i)\<lparr>iaddrs := iaddrs (icache t ! i)\<rparr>)" by simp
    then show "idev (icache t ! i) = 1" using k(2) by simp
    show "i < length (icache t)" using k(1) by (subst e) simp
    show "length (iaddrs (icache t ! i)) = NDIRECT + 1" using ss f by (simp add: slot_set_def file_ok_def)
  qed
  have "data_used t (fslot t i y)" if "y \<le> MAXFILE" "fslot t i y \<noteq> 0" for y
    using sl[OF that(1)] that u m f by (auto simp: file_ok_def split: if_splits)
  moreover have "y = z" if "y \<le> MAXFILE" "z \<le> MAXFILE" "fslot t i y \<noteq> 0" "fslot t i y = fslot t i z" for y z
    using that sl[OF that(1)] sl[OF that(2)] na[OF that(1)] na[OF that(2)] f by (auto simp: file_ok_def split: if_splits)
  ultimately show "file_ok t i" using i by (simp add: file_ok_def)
qed

lemma get32_zero: "k + 3 < BSIZE \<Longrightarrow> get32 zero_block k = 0"
  by (simp add: get32_def zero_block_def)

lemma file_okD:
  assumes "file_ok s i"
  shows "i < length (icache s)" "idev (icache s ! i) = 1" "length (iaddrs (icache s ! i)) = NDIRECT + 1"
    "x \<le> MAXFILE \<Longrightarrow> fslot s i x \<noteq> 0 \<Longrightarrow> data_used s (fslot s i x)"
    "x \<le> MAXFILE \<Longrightarrow> y \<le> MAXFILE \<Longrightarrow> fslot s i x \<noteq> 0 \<Longrightarrow> fslot s i x = fslot s i y \<Longrightarrow> x = y"
  using assms by (auto simp: file_ok_def)

lemma fslot_direct: "x \<le> NDIRECT \<Longrightarrow> fslot s i x = iaddrs (icache s ! i) ! x"
  by (simp add: fslot_def)

lemma fslot_indirect: "NDIRECT < x \<Longrightarrow> fslot s i x = (if fslot s i NDIRECT = 0 then 0 else get32 (fsview s (fslot s i NDIRECT)) (4 * (x - NDIRECT - 1)))"
  by (simp add: fslot_def Let_def)

text \<open>A block for a slot in the inode.\<close>

lemma inode_slot_alloc:
  assumes s: "fs_inv c p {} s" "drv E = iderw" "file_ok s i" and x: "x \<le> NDIRECT" "fslot s i x = 0"
    and room: "0 < nfree s" "card (insert (bmb s) (dirty s)) \<le> 9"
  obtains a t where "kbind (balloc E (idev (icache s ! i)) s) (\<lambda>(addr, s1). Inr (addr, inode_upd i (\<lambda>ip. ip\<lparr>iaddrs := (iaddrs ip)[x := addr]\<rparr>) s1)) = Inr (a, t)"
    "slot_set i x a s t" "fs_inv c p {} t" "fsview t a = zero_block"
proof -
  note F = file_okD[OF s(3)]
  obtain a s1 d where b: "balloc E 1 s = Inr (a, s1)" "fs_inv c p {} s1" "a \<noteq> 0" "unat a < unat (sbsize (sb s))" "\<not> bm_used s (unat a)" "a \<noteq> bmb s"
    "fs_step {} [(bmb s, d), (a, zero_block)] s s1" "\<forall>j < unat (sbsize (sb s)). bm_used s1 j \<longleftrightarrow> bm_used s j \<or> j = unat a" "nfree s = nfree s1 + 1"
    by (rule balloc_fs[OF s(1,2) _ _ room]) (auto simp: not_held_def)
  note G = fs_stepD[OF b(7)] and K = kfs_frame[OF fs_stepD(3)[OF b(7)]]
  define t where "t = inode_upd i (\<lambda>ip. ip\<lparr>iaddrs := (iaddrs ip)[x := a]\<rparr>) s1"
  have v: "fsview t n = fsview s n" if "n \<noteq> bmb s" "n \<noteq> a" for n using that G(1) by (simp add: t_def)
  have z: "fsview t a = zero_block" using G(1) by (simp add: t_def)
  have it: "icache t ! i = (icache s ! i)\<lparr>iaddrs := (iaddrs (icache s ! i))[x := a]\<rparr>" using F(1) K by (simp add: t_def)
  have d: "fslot t i y = (if y = x then a else fslot s i y)" if "y \<le> NDIRECT" for y
    using that F(3) x(1) by (auto simp: fslot_direct it)
  have "fslot t i y = (if y = x then a else fslot s i y)" if y: "y \<le> MAXFILE" for y
  proof (cases "y \<le> NDIRECT")
    case False
    then have n: "NDIRECT < y" "y \<noteq> x" using x(1) by auto
    show ?thesis
    proof (cases "x = NDIRECT")
      case True
      have "4 * (y - NDIRECT - 1) + 3 < BSIZE" using y n by (simp add: maxfile BSIZE_def)
      then show ?thesis using n True d[of NDIRECT] x(2) b(3) z by (simp add: fslot_indirect[OF n(1)] get32_zero)
    next
      case False
      then have e: "fslot t i NDIRECT = fslot s i NDIRECT" using d[of NDIRECT] by auto
      have "fsview t (fslot s i NDIRECT) = fsview s (fslot s i NDIRECT)" if "fslot s i NDIRECT \<noteq> 0"
        using F(4)[OF maxfile(1) that] b(5) by (intro v) (auto simp: data_used_def)
      then show ?thesis using n e by (simp add: fslot_indirect[OF n(1)])
    qed
  qed (use d in simp)
  moreover have "icache t = (icache s)[i := (icache s ! i)\<lparr>iaddrs := iaddrs (icache t ! i)\<rparr>]" unfolding it by (simp add: t_def K)
  ultimately have "slot_set i x a s t" unfolding slot_set_def
    using b K G v x F(1) by (simp add: t_def)
  moreover have "fs_inv c p {} t" using b(2) by (simp add: t_def)
  ultimately show thesis using that[of a t] b(1) F(2) z by (simp add: t_def)
qed

text \<open>Writing to blocks other than the bitmap.\<close>

lemma bitmap_write:
  assumes s: "fs_inv c p H s" and t: "tx_held c p K t" "sb t = sb s" "disksize t = disksize s" "fsview t (bmb s) = fsview s (bmb s)" "\<And>n. length (fsview t n) = BSIZE"
  shows "fs_inv c p K t" "k < unat (sbsize (sb s)) \<Longrightarrow> bm_used t k = bm_used s k" "nfree t = nfree s" "bmb t = bmb s" "data_used t = data_used s"
proof -
  have z: "unat (sbsize (sb s)) \<le> BPB" "bitmap_ok s" using s by (simp_all add: fs_inv_def)
  have bb: "bm_block t = bm_block s" using t(2) by (simp add: bm_block_def fun_eq_iff)
  then show bm: "bmb t = bmb s" by (simp add: bmb_def)
  have u: "bm_used t k = bm_used s k" if "k < unat (sbsize (sb s))" for k
    using bmb_all[OF z(1) that] t(4) bb by (simp add: bm_used_def)
  then show "k < unat (sbsize (sb s)) \<Longrightarrow> bm_used t k = bm_used s k" .
  have "{k. k < unat (sbsize (sb t)) \<and> \<not> bm_used t k} = {k. k < unat (sbsize (sb s)) \<and> \<not> bm_used s k}" using u t(2) by auto
  then show "nfree t = nfree s" by (simp add: nfree_def)
  show "data_used t = data_used s" using u t(2) bm by (auto simp: data_used_def fun_eq_iff)
  have "bitmap_ok t" using z(2) u t bb unfolding bitmap_ok_def by simp
  then show "fs_inv c p K t" using t z by (simp add: fs_inv_def)
qed

lemma fs_inv_len: "fs_inv c p H s \<Longrightarrow> length (fsview s n) = BSIZE"
  by (simp add: fs_inv_def bitmap_okD)

lemma fs_inv_visit:
  assumes "fs_inv c p H s" "tx_held c p K t" "fs_step J [] s t"
  shows "fs_inv c p K t" "data_used t = data_used s" "bmb t = bmb s" "nfree t = nfree s" "icache t = icache s" "fslot t i = fslot s i" "dirty t = dirty s"
proof -
  note G = fs_stepD[OF assms(3)] and F = kfs_frame[OF fs_stepD(3)[OF assms(3)]]
  have v: "fsview t = fsview s" using G(1) by simp
  note B = bitmap_write[OF assms(1,2) F(2) G(4)]
  show "fs_inv c p K t" "data_used t = data_used s" "bmb t = bmb s" "nfree t = nfree s" using B v fs_inv_len[OF assms(1)] by simp_all
  show "icache t = icache s" "dirty t = dirty s" using F G by simp_all
  show "fslot t i = fslot s i" using F v by (simp add: fslot_def Let_def fun_eq_iff)
qed

lemma less_size:
  assumes "fs_inv c p H s" "data_used s n"
  shows "n < of_int (disksize s)"
proof -
  have "of_nat (unat n) < (of_int (disksize s) :: u32)"
    using assms bitmap_okD(3)[of s "unat n"] by (simp add: fs_inv_def data_used_def)
  then show ?thesis by simp
qed

definition bmap_entry :: "('a kfs_scheme) fsenv \<Rightarrow> nat \<Rightarrow> u32 \<Rightarrow> nat \<Rightarrow> 'a kfs_scheme \<Rightarrow> (u32 \<times> 'a kfs_scheme) kres" where
  "bmap_entry E i addr k s1 =
     kbind (bread E (idev (icache s1 ! i)) addr s1) (\<lambda>(bp, s2).
     let a = get32 (bdata (bufat s2 bp)) (4 * k) in
     kbind (if a = 0 then
              kbind (balloc E (idev (icache s2 ! i)) s2) (\<lambda>(a, s3).
              kbind (log_write bp (buf_upd bp (\<lambda>x. x\<lparr>bdata := put32 (bdata x) (4 * k) a\<rparr>) s3)) (\<lambda>s4. Inr (a, s4)))
            else Inr (a, s2)) (\<lambda>(a, s5).
     kbind (brelse bp s5) (\<lambda>s6. Inr (a, s6))))"

lemma entry_slot:
  assumes "fslot s i NDIRECT \<noteq> 0"
  shows "fslot s i (NDIRECT + 1 + k) = get32 (fsview s (fslot s i NDIRECT)) (4 * k)"
  using assms by (simp add: fslot_indirect)

lemma entry_mapped:
  assumes s: "fs_inv c p {} s" "drv E = iderw" "file_ok s i" and k: "fslot s i NDIRECT \<noteq> 0" "fslot s i (NDIRECT + 1 + k) \<noteq> 0"
  obtains t where "bmap_entry E i (fslot s i NDIRECT) k s = Inr (fslot s i (NDIRECT + 1 + k), t)" "tx_held c p {} t" "fs_step {} [] s t"
proof -
  note F = file_okD[OF s(3)]
  have n: "fslot s i NDIRECT < of_int (disksize s)" using less_size[OF s(1) F(4)[OF maxfile(1) k(1)]] .
  have T: "tx_held c p {} s" using s(1) by (simp add: fs_inv_def)
  obtain b s1 t where v: "bread E 1 (fslot s i NDIRECT) s = Inr (b, s1)" "bdata (bufat s1 b) = fsview s (fslot s i NDIRECT)"
    "klog.more s1 = klog.more s" "brelse b s1 = Inr t" "tx_held c p {} t" "fs_step {} [] s t"
    by (rule fs_visit[OF T s(2) n]) auto
  then show thesis using that[of t] F(2) k(2) entry_slot[OF k(1), of k] by (simp add: bmap_entry_def)
qed

lemma entry_alloc:
  assumes s: "fs_inv c p {} s" "drv E = iderw" "file_ok s i" and k: "k < NINDIRECT" "fslot s i NDIRECT \<noteq> 0" "fslot s i (NDIRECT + 1 + k) = 0"
    and room: "0 < nfree s" "card (insert (fslot s i NDIRECT) (insert (bmb s) (dirty s))) \<le> 9"
  obtains a t where "bmap_entry E i (fslot s i NDIRECT) k s = Inr (a, t)" "slot_set i (NDIRECT + 1 + k) a s t" "fs_inv c p {} t" "fsview t a = zero_block"
proof -
  let ?n = "fslot s i NDIRECT"
  note F = file_okD[OF s(3)]
  have T: "tx_held c p {} s" using s(1) by (simp add: fs_inv_def)
  note fin = finite_dirty[OF T]
  have du: "data_used s ?n" by (rule F(4)[OF maxfile(1) k(2)])
  have n: "?n < of_int (disksize s)" by (rule less_size[OF s(1) du])
  obtain bp s2 where b: "bread E 1 ?n s = Inr (bp, s2)" "tx_held c p {bp} s2" "holds (bc s2) bp ?n" "bdata (bufat s2 bp) = fsview s ?n"
    "fs_step (- {bp}) [] s s2" by (rule fs_bread[OF T s(2) n]) auto
  note V = fs_inv_visit[OF s(1) b(2,5)] and v2 = fs_stepD[OF b(5)]
  have h: "data_used s2 m" if "\<not> not_held {bp} s2 m" for m
    using that b(3) du V(2) by (auto simp: not_held_def holds_def)
  have c9: "card (insert (bmb s2) (dirty s2)) \<le> 9"
    using room(2) fin card_insert_le[of "insert (bmb s) (dirty s)" ?n] V(3,7) by simp
  obtain a s3 d where a: "balloc E 1 s2 = Inr (a, s3)" "fs_inv c p {bp} s3" "a \<noteq> 0" "unat a < unat (sbsize (sb s2))" "\<not> bm_used s2 (unat a)" "a \<noteq> bmb s2"
    "fs_step {bp} [(bmb s2, d), (a, zero_block)] s2 s3" "\<forall>j < unat (sbsize (sb s2)). bm_used s3 j \<longleftrightarrow> bm_used s2 j \<or> j = unat a" "nfree s2 = nfree s3 + 1"
    by (rule balloc_fs[OF V(1) s(2) _ h _ c9]) (use room(1) V(4) in auto)
  note v3 = fs_stepD[OF a(7)]
  have bc3: "bc s3 bp = bc s2 bp" using a(7) by (simp add: fs_step_def)
  have h3: "holds (bc s3) bp ?n" using b(3) bc3 by (simp add: holds_def del: bc_simps)
  have d3: "bdata (bufat s3 bp) = fsview s ?n" using same_buf(2)[OF bc3] b(4) by simp
  have "card (insert ?n (dirty s3)) = card (insert a (insert ?n (insert (bmb s) (dirty s))))"
    using v3(2) V(3,7) by (simp add: insert_commute)
  also have "\<dots> \<le> card (insert ?n (insert (bmb s) (dirty s))) + 1" using fin by (simp add: card_insert_if)
  finally have r: "card (insert ?n (dirty s3)) \<le> 10" using room(2) by simp
  have T3: "tx_held c p {bp} s3" using a(2) by (simp add: fs_inv_def)
  obtain s4 where w: "log_write bp (buf_upd bp (\<lambda>x. x\<lparr>bdata := put32 (bdata x) (4 * k) a\<rparr>) s3) = Inr s4" "tx_held c p {bp} s4"
    "fs_step (- {bp}) [(?n, put32 (bdata (bufat s3 bp)) (4 * k) a)] s3 s4"
    by (rule fs_log_write[OF T3 singletonI h3 r])
  obtain t where t: "brelse bp s4 = Inr t" "tx_held c p ({bp} - {bp}) t" "fs_step {..<NBUF} [] s4 t" by (rule fs_brelse[OF w(2) singletonI])
  note v4 = fs_stepD[OF w(3)] and v5 = fs_stepD[OF t(3)]
  have more: "klog.more t = klog.more s" using v2(3) v3(3) v4(3) v5(3) by simp
  note K = kfs_frame[OF more]
  let ?d = "put32 (fsview s ?n) (4 * k) a"
  have fv: "fsview t = (fsview s3)(?n := ?d)" using v4(1) v5(1) d3 by simp
  have nb: "?n \<noteq> bmb s" "?n \<noteq> a" using du a(5) V(2,3) v2 kfs_frame[OF v2(3)] bm_used_step(1)[OF b(5)] by (auto simp: data_used_def)
  have "length (fsview t m) = BSIZE" for m using fv fs_inv_len[OF a(2)] fs_inv_len[OF s(1)] by simp
  moreover have "sb t = sb s3" "bmb s3 = bmb s" "disksize t = disksize s3"
    using K(2) V(3) v2 v3 v4 v5 kfs_frame(2)[OF v3(3)] kfs_frame(2)[OF v2(3)] by (simp_all add: bmb_def bm_block_def)
  ultimately have B: "fs_inv c p {} t" "\<And>j. j < unat (sbsize (sb s3)) \<Longrightarrow> bm_used t j = bm_used s3 j" "nfree t = nfree s3"
    using bitmap_write[OF a(2), of "{}" t] t(2) fv nb(1) by auto
  have fs3: "fsview s3 = (fsview s)(bmb s := d, a := zero_block)" using v3(1) v2(1) V(3) by simp
  have sl: "fslot t i y = (if y = NDIRECT + 1 + k then a else fslot s i y)" if y: "y \<le> MAXFILE" for y
  proof (cases "y \<le> NDIRECT")
    case True
    then show ?thesis using K(1) by (simp add: fslot_direct)
  next
    case False
    have e: "fslot t i NDIRECT = ?n" using K(1) by (simp add: fslot_direct)
    obtain j where j: "y = NDIRECT + 1 + j" "j < NINDIRECT" using False y by (intro that[of "y - NDIRECT - 1"]) (simp_all add: maxfile)
    have "4 * k + 3 < BSIZE" "length (fsview s ?n) = BSIZE" using k(1) fs_inv_len[OF s(1)] by (simp_all add: maxfile BSIZE_def)
    then have "get32 ?d (4 * j) = (if j = k then a else get32 (fsview s ?n) (4 * j))"
      using get32_put32_other[of "4 * j" "4 * k" "fsview s ?n" a] by (cases "j < k") auto
    then show ?thesis using entry_slot[of t i j] entry_slot[OF k(2), of j] e k(2) fv j(1) by simp
  qed
  have "slot_set i (NDIRECT + 1 + k) a s t"
    unfolding slot_set_def using sl K a b v2 v3 v4 v5 V B fv fs3 k nb bm_used_step(1)[OF b(5)] kfs_frame[OF v2(3)] kfs_frame[OF v3(3)] F(1)
    by (auto simp: insert_commute)
  moreover have "fsview t a = zero_block" using fv fs3 nb by simp
  moreover have "get32 (bdata (bufat s2 bp)) (4 * k) = 0" using entry_slot[OF k(2), of k] k(3) b(4) by simp
  moreover have "idev (icache s ! i) = 1" "idev (icache s2 ! i) = 1" using F(2) V(5) by simp_all
  ultimately show thesis using that[of a t] b(1) a(1) w(1) t(1) B(1) by (simp add: bmap_entry_def)
qed

section \<open>Finding a block\<close>

lemma bmap_direct: "bn < NDIRECT \<Longrightarrow> bmap E i bn s =
     (if fslot s i bn = 0 then
        kbind (balloc E (idev (icache s ! i)) s) (\<lambda>(addr, s1). Inr (addr, inode_upd i (\<lambda>ip. ip\<lparr>iaddrs := (iaddrs ip)[bn := addr]\<rparr>) s1))
      else Inr (fslot s i bn, s))"
  by (simp add: bmap_def fslot_direct)

lemma bmap_indirect:
  assumes "NDIRECT \<le> bn" "bn < MAXFILE"
  shows "bmap E i bn s =
     kbind (if fslot s i NDIRECT = 0 then
              kbind (balloc E (idev (icache s ! i)) s) (\<lambda>(addr, s1). Inr (addr, inode_upd i (\<lambda>ip. ip\<lparr>iaddrs := (iaddrs ip)[NDIRECT := addr]\<rparr>) s1))
            else Inr (fslot s i NDIRECT, s)) (\<lambda>(addr, s1). bmap_entry E i addr (bn - NDIRECT) s1)"
proof -
  have "\<not> bn < NDIRECT" "bn - NDIRECT < NINDIRECT" using assms by (simp_all add: MAXFILE_def)
  then show ?thesis unfolding bmap_def bmap_entry_def Let_def fslot_direct[OF order_refl] by (simp only: if_True if_False)
qed

lemma slot_of_indirect: "NDIRECT \<le> bn \<Longrightarrow> slot_of bn = NDIRECT + 1 + (bn - NDIRECT)"
  by (simp add: slot_of_def)

lemma slot_of_le: "bn < MAXFILE \<Longrightarrow> slot_of bn \<le> MAXFILE \<and> slot_of bn \<noteq> NDIRECT"
  by (simp add: slot_of_def)

lemma slot_of_inj: "slot_of a = slot_of b \<longleftrightarrow> a = b"
  by (auto simp: slot_of_def split: if_splits)

text \<open>A block that the file has is found without any change.\<close>

lemma bmap_mapped:
  assumes s: "fs_inv c p {} s" "drv E = iderw" "file_ok s i" and bn: "bn < MAXFILE" "fslot s i (slot_of bn) \<noteq> 0"
  obtains t where "bmap E i bn s = Inr (fslot s i (slot_of bn), t)" "tx_held c p {} t" "fs_step {} [] s t"
proof (cases "bn < NDIRECT")
  case True
  then show thesis using that[of s] bn s(1) by (simp add: bmap_direct slot_of_def fs_inv_def)
next
  case False
  then have e: "slot_of bn = NDIRECT + 1 + (bn - NDIRECT)" by (simp add: slot_of_indirect)
  then have i: "fslot s i NDIRECT \<noteq> 0" using bn(2) by (auto simp: fslot_indirect)
  obtain t where "bmap_entry E i (fslot s i NDIRECT) (bn - NDIRECT) s = Inr (fslot s i (slot_of bn), t)" "tx_held c p {} t" "fs_step {} [] s t"
    using entry_mapped[OF s i] bn(2) unfolding e by blast
  then show thesis using that False bn i by (simp add: bmap_indirect)
qed

lemma room_left_cost:
  assumes "cost s i R \<le> 10" "lack s i R \<le> nfree s" "x \<in> R" "fslot s i x = 0" "R \<subseteq> {..MAXFILE}" "finite (dirty s)"
  shows "0 < nfree s" "card (insert (bmb s) (dirty s)) \<le> 9"
    "n \<in> R \<Longrightarrow> fslot s i n \<noteq> 0 \<Longrightarrow> card (insert (fslot s i n) (insert (bmb s) (dirty s))) \<le> 9"
proof -
  have fR: "finite R" using assms(5) finite_subset by blast
  then have "0 < lack s i R" using assms(3,4) by (auto simp: lack_def card_gt_0_iff)
  then have nf: "0 < nfree s" and t: "card (touched_blocks s i R) \<le> 9" using assms(1,2) by (auto simp: cost_def)
  show "0 < nfree s" by (rule nf)
  have fin: "finite (touched_blocks s i R)" using fR assms(6) by (simp add: touched_blocks_def)
  show "card (insert (bmb s) (dirty s)) \<le> 9"
    by (rule order_trans[OF card_mono[OF fin] t]) (auto simp: touched_blocks_def)
  show "card (insert (fslot s i n) (insert (bmb s) (dirty s))) \<le> 9" if "n \<in> R" "fslot s i n \<noteq> 0"
    by (rule order_trans[OF card_mono[OF fin] t]) (use that in \<open>auto simp: touched_blocks_def\<close>)
qed

lemma slots_for_le: "x \<le> MAXFILE \<Longrightarrow> slots_for x \<subseteq> {..MAXFILE}"
  using maxfile(1) by (simp add: slots_for_def)

lemma extD:
  assumes "ext i X s t"
  shows "X \<subseteq> R \<Longrightarrow> R \<subseteq> {..MAXFILE} \<Longrightarrow> lack s i R \<le> nfree s \<Longrightarrow> lack t i R \<le> nfree t"
    "X \<subseteq> R \<Longrightarrow> R \<subseteq> {..MAXFILE} \<Longrightarrow> cost t i R \<le> cost s i R"
    "y \<le> MAXFILE \<Longrightarrow> fslot s i y \<noteq> 0 \<or> y \<notin> X \<Longrightarrow> fslot t i y = fslot s i y"
    "data_used s n \<Longrightarrow> n \<noteq> fslot s i NDIRECT \<Longrightarrow> fsview t n = fsview s n" "sb t = sb s" "disksize t = disksize s"
  using assms by (auto simp: ext_def)

lemma bmap_new:
  assumes s: "fs_inv c p {} s" "drv E = iderw" "file_ok s i" and bn: "bn < MAXFILE" "fslot s i (slot_of bn) = 0"
    and R: "R = slots_for (slot_of bn)" "lack s i R \<le> nfree s" "cost s i R \<le> 10"
  obtains a t where "bmap E i bn s = Inr (a, t)" "fs_inv c p {} t" "file_ok t i" "ext i R s t" "a = fslot t i (slot_of bn)" "a \<noteq> 0" "fsview t a = zero_block"
proof -
  have fin: "finite (dirty s)" using s(1) finite_dirty by (auto simp: fs_inv_def)
  note x = slot_of_le[OF bn(1)]
  have Rl: "R \<subseteq> {..MAXFILE}" using slots_for_le x R(1) by simp
  have xR: "slot_of bn \<in> R" by (simp add: R(1) slots_for_def)
  note C = room_left_cost[OF R(3,2) xR bn(2) Rl fin]
  show thesis
  proof (cases "bn < NDIRECT")
    case True
    then have e: "slot_of bn = bn" "bn \<le> NDIRECT" by (simp_all add: slot_of_def)
    obtain a t where t: "kbind (balloc E (idev (icache s ! i)) s) (\<lambda>(addr, s1). Inr (addr, inode_upd i (\<lambda>ip. ip\<lparr>iaddrs := (iaddrs ip)[bn := addr]\<rparr>) s1)) = Inr (a, t)"
      "slot_set i bn a s t" "fs_inv c p {} t" "fsview t a = zero_block"
      by (rule inode_slot_alloc[OF s e(2) bn(2)[unfolded e(1)] C(1,2)])
    have xl: "bn \<le> MAXFILE" using x e(1) by simp
    have sl: "a = fslot t i (slot_of bn)" "a \<noteq> 0" using t(2) xl e(1) by (simp_all add: slot_set_def)
    have bm: "bmap E i bn s = Inr (a, t)" unfolding bmap_direct[OF True] using bn(2) e(1) t(1) by simp
    have ex: "ext i R s t" using slot_set_ext[OF t(2) xl fin] e(1) R(1) by simp
    show thesis by (rule that[OF bm t(3) slot_set_file(1)[OF t(2) xl s(3)] ex sl t(4)])
  next
    case False
    let ?k = "bn - NDIRECT"
    have e: "slot_of bn = NDIRECT + 1 + ?k" "?k < NINDIRECT" using False bn(1) by (simp_all add: slot_of_indirect maxfile)
    have R': "NDIRECT \<in> R" "slots_for NDIRECT \<subseteq> R" by (auto simp: R(1) e(1) slots_for_def)
    obtain a1 s1 where 1: "(if fslot s i NDIRECT = 0 then
              kbind (balloc E (idev (icache s ! i)) s) (\<lambda>(addr, s1). Inr (addr, inode_upd i (\<lambda>ip. ip\<lparr>iaddrs := (iaddrs ip)[NDIRECT := addr]\<rparr>) s1))
            else Inr (fslot s i NDIRECT, s)) = Inr (a1, s1)" "fs_inv c p {} s1" "file_ok s1 i" "ext i R s s1" "a1 = fslot s1 i NDIRECT" "a1 \<noteq> 0"
      "fslot s1 i (slot_of bn) = 0"
    proof (cases "fslot s i NDIRECT = 0")
      case True
      obtain a t where t: "kbind (balloc E (idev (icache s ! i)) s) (\<lambda>(addr, s1). Inr (addr, inode_upd i (\<lambda>ip. ip\<lparr>iaddrs := (iaddrs ip)[NDIRECT := addr]\<rparr>) s1)) = Inr (a, t)"
        "slot_set i NDIRECT a s t" "fs_inv c p {} t" "fsview t a = zero_block"
        by (rule inode_slot_alloc[OF s order_refl True C(1,2)])
      have "ext i R s t" by (rule ext_mono[OF slot_set_ext[OF t(2) maxfile(1) fin] R'(2)])
      moreover have "a = fslot t i NDIRECT" "a \<noteq> 0" "fslot t i (slot_of bn) = 0" using t(2) x maxfile(1) bn(2) by (simp_all add: slot_set_def)
      ultimately show thesis using t(1) True by (intro that[OF _ t(3) slot_set_file(1)[OF t(2) maxfile(1) s(3)]]) simp_all
    next
      case F: False
      then show thesis by (intro that[OF _ s(1,3) ext_refl[OF file_okD(1)[OF s(3)]] refl F bn(2)]) simp
    qed
    have fin1: "finite (dirty s1)" using 1(2) finite_dirty by (auto simp: fs_inv_def)
    have "cost s1 i R \<le> 10" "lack s1 i R \<le> nfree s1" using extD(1,2)[OF 1(4) order_refl Rl] R(2,3) by simp_all
    note C1 = room_left_cost[OF this xR 1(7) Rl fin1]
    have ne: "fslot s1 i NDIRECT \<noteq> 0" "fslot s1 i (NDIRECT + 1 + ?k) = 0" using 1(5-7) e(1) by simp_all
    obtain a t where t: "bmap_entry E i (fslot s1 i NDIRECT) ?k s1 = Inr (a, t)" "slot_set i (NDIRECT + 1 + ?k) a s1 t" "fs_inv c p {} t" "fsview t a = zero_block"
      by (rule entry_alloc[OF 1(2) s(2) 1(3) e(2) ne C1(1) C1(3)[OF R'(1) ne(1)]])
    have xl: "NDIRECT + 1 + ?k \<le> MAXFILE" using x e(1) by simp
    have ex: "ext i R s t" using ext_trans[OF 1(4) slot_set_ext[OF t(2) xl fin1]] by (simp add: R(1) e(1))
    have sl: "a = fslot t i (slot_of bn)" "a \<noteq> 0" using t(2) xl e(1) by (simp_all add: slot_set_def)
    have "NDIRECT \<le> bn" using False by simp
    from bmap_indirect[OF this bn(1), of E i s] have bm: "bmap E i bn s = Inr (a, t)" unfolding 1(1) using t(1) 1(5) by simp
    show thesis by (rule that[OF bm t(3) slot_set_file(1)[OF t(2) xl 1(3)] ex sl t(4)])
  qed
qed

end
