(* ===== verification/FsData.thy ===== *)
theory FsData
  imports FsFile
begin

text \<open>
  Reading and writing the bytes of files (\<^verbatim>\<open>readi\<close>, \<^verbatim>\<open>writei\<close> and \<^verbatim>\<open>iupdate\<close> of \<^verbatim>\<open>fs.c\<close>) inside a transaction.
\<close>

section \<open>The bytes of a file\<close>

text \<open>Where the file has no block its bytes are zero, which is what a block allocated there later holds.\<close>

definition fbyte :: "'a kfs_scheme \<Rightarrow> nat \<Rightarrow> nat \<Rightarrow> u8" where
  "fbyte s i x =
     (let a = fslot s i (slot_of (x div BSIZE)) in if a = 0 then 0 else fsview s a ! (x mod BSIZE))"

definition FILEMAX :: nat where "FILEMAX = MAXFILE * BSIZE"

lemma div_max: "x < FILEMAX \<Longrightarrow> x div BSIZE < MAXFILE"
  by (simp add: FILEMAX_def less_mult_imp_div_less)

lemma fbyte_ext:
  assumes e: "ext i X s t" and f: "file_ok s i" and x: "x < FILEMAX"
    and z: "\<And>y. y \<le> MAXFILE \<Longrightarrow> y \<noteq> NDIRECT \<Longrightarrow> fslot s i y = 0 \<Longrightarrow> fslot t i y \<noteq> 0 \<Longrightarrow> fsview t (fslot t i y) = zero_block"
  shows "fbyte t i x = fbyte s i x"
proof -
  let ?y = "slot_of (x div BSIZE)"
  note y = slot_of_le[OF div_max[OF x]]
  show ?thesis
  proof (cases "fslot s i ?y = 0")
    case True
    then show ?thesis using z[of ?y] y by (simp add: fbyte_def zero_block_def Let_def BSIZE_def)
  next
    case False
    have "fslot s i ?y \<noteq> fslot s i NDIRECT" using file_okD(5)[OF f, of ?y NDIRECT] y False maxfile(1) by auto
    then show ?thesis using extD(3)[OF e, of ?y] extD(4)[OF e file_okD(4)[OF f, of ?y]] y False by (simp add: fbyte_def)
  qed
qed

text \<open>\<open>t\<close> is \<open>s\<close> after changes to file \<open>i\<close> that stay within the slots \<open>R\<close>.\<close>

definition fupd :: "nat \<Rightarrow> nat set \<Rightarrow> 'a kfs_scheme \<Rightarrow> 'a kfs_scheme \<Rightarrow> bool" where
  "fupd i R s t \<longleftrightarrow> sb t = sb s \<and> disksize t = disksize s \<and> disk t = disk s \<and> log_area t = log_area s \<and> core t = core s \<and> kfs.more t = kfs.more s \<and>
     icache t = (icache s)[i := (icache s ! i)\<lparr>iaddrs := iaddrs (icache t ! i)\<rparr>] \<and>
     (\<forall>k < unat (sbsize (sb s)). bm_used s k \<longrightarrow> bm_used t k) \<and>
     (\<forall>y \<le> MAXFILE. fslot s i y \<noteq> 0 \<longrightarrow> fslot t i y = fslot s i y) \<and>
     (\<forall>y \<le> MAXFILE. fslot s i y = 0 \<longrightarrow> fslot t i y \<noteq> 0 \<longrightarrow> unat (fslot t i y) < unat (sbsize (sb s)) \<and> \<not> bm_used s (unat (fslot t i y))) \<and>
     (\<forall>n. data_used s n \<longrightarrow> n \<notin> fslot s i ` {..MAXFILE} \<longrightarrow> fsview t n = fsview s n) \<and>
     dirty t \<subseteq> insert (bmb s) (dirty s \<union> file_blocks t i) \<and>
     (lack s i R \<le> nfree s \<longrightarrow> lack t i R \<le> nfree t) \<and> cost t i R \<le> cost s i R"

lemma fupd_ext:
  assumes "ext i X s t" "X \<subseteq> R" "R \<subseteq> {..MAXFILE}"
  shows "fupd i R s t"
proof -
  have "NDIRECT \<in> {..MAXFILE}" using maxfile(1) by simp
  then have "n \<notin> fslot s i ` {..MAXFILE} \<Longrightarrow> n \<noteq> fslot s i NDIRECT" for n by blast
  then show ?thesis using assms extD(1,2)[OF assms] unfolding ext_def fupd_def by simp
qed

lemma fupd_outside:
  assumes "fupd i R s t" "data_used s n" "n \<notin> fslot s i ` {..MAXFILE}"
  shows "data_used t n" "n \<notin> fslot t i ` {..MAXFILE}"
proof -
  show "data_used t n" using assms(1,2) by (auto simp: fupd_def data_used_def bmb_def bm_block_def)
  show "n \<notin> fslot t i ` {..MAXFILE}"
  proof
    assume "n \<in> fslot t i ` {..MAXFILE}"
    then obtain y where y: "y \<le> MAXFILE" "n = fslot t i y" by auto
    then have "fslot s i y = 0" "fslot t i y \<noteq> 0" using assms(1,3) by (auto simp: fupd_def)
    then have "\<not> bm_used s (unat n)" using assms(1) y by (simp add: fupd_def)
    then show False using assms(2) by (simp add: data_used_def)
  qed
qed

lemma fupd_trans:
  assumes 1: "fupd i R s t" and 2: "fupd i R t u"
  shows "fupd i R s u"
proof -
  have v: "fsview u n = fsview s n" if "data_used s n" "n \<notin> fslot s i ` {..MAXFILE}" for n
    using 1 2 fupd_outside[OF 1 that] that by (simp add: fupd_def)
  have f: "unat (fslot u i y) < unat (sbsize (sb s)) \<and> \<not> bm_used s (unat (fslot u i y))"
    if "y \<le> MAXFILE" "fslot s i y = 0" "fslot u i y \<noteq> 0" for y
    using 1 2 that by (cases "fslot t i y = 0") (auto simp: fupd_def)
  have e: "icache u = (icache s)[i := (icache s ! i)\<lparr>iaddrs := iaddrs (icache u ! i)\<rparr>]"
    by (rule icache_iaddrs_trans[of "icache t"]) (use 1 2 in \<open>auto simp: fupd_def\<close>)
  have "dirty u \<subseteq> insert (bmb s) (dirty s \<union> file_blocks u i)"
    by (rule dirty_trans[of t]) (use 1 2 in \<open>simp_all add: fupd_def\<close>)
  then show ?thesis using 1 2 v f e unfolding fupd_def by simp
qed

lemma fupd_visit:
  assumes "fs_inv c p {} s" "tx_held c p {} t" "fs_step {} [] s t" "i < length (icache s)"
  shows "fs_inv c p {} t" "file_ok t i = file_ok s i" "fupd i R s t" "fbyte t i = fbyte s i" "fslot t i = fslot s i" "icache t = icache s" "fsview t = fsview s"
proof -
  note V = fs_inv_visit[OF assms(1-3)] and G = fs_stepD[OF assms(3)]
  have K: "sb t = sb s" "kfs.more t = kfs.more s" using kfs_frame[OF G(3)] by simp_all
  show fs: "fsview t = fsview s" and sl: "fslot t i = fslot s i" and ic: "icache t = icache s" and "fs_inv c p {} t" using G(1) V by simp_all
  show "file_ok t i = file_ok s i" by (simp add: file_ok_def sl ic V(2))
  show "fbyte t i = fbyte s i" by (rule HOL.ext) (simp add: fbyte_def sl fs Let_def)
  have "lack t i R = lack s i R" "cost t i R = cost s i R" by (simp_all add: cost_def lack_def touched_blocks_def sl V)
  moreover have "bm_used t = bm_used s" using bm_used_step(1)[OF assms(3)] .
  ultimately show "fupd i R s t" using K G V sl fs ic assms(4) by (auto simp: fupd_def)
qed

lemma bmap_any:
  assumes s: "fs_inv c p {} s" "drv E = iderw" "file_ok s i" and bn: "bn < MAXFILE"
    and R: "slots_for (slot_of bn) \<subseteq> R" "R \<subseteq> {..MAXFILE}" "lack s i (slots_for (slot_of bn)) \<le> nfree s" "cost s i (slots_for (slot_of bn)) \<le> 10"
  obtains a t where "bmap E i bn s = Inr (a, t)" "fs_inv c p {} t" "file_ok t i" "fupd i R s t" "a = fslot t i (slot_of bn)" "a \<noteq> 0"
    "\<forall>x < FILEMAX. fbyte t i x = fbyte s i x"
proof (cases "fslot s i (slot_of bn) = 0")
  case False
  obtain t where t: "bmap E i bn s = Inr (fslot s i (slot_of bn), t)" "tx_held c p {} t" "fs_step {} [] s t"
    by (rule bmap_mapped[OF s bn False])
  note V = fupd_visit[OF s(1) t(2,3) file_okD(1)[OF s(3)]]
  show thesis using s(3) False V by (intro that[OF t(1) V(1) _ V(3)]) simp_all
next
  case True
  obtain a t where t: "bmap E i bn s = Inr (a, t)" "fs_inv c p {} t" "file_ok t i" "ext i (slots_for (slot_of bn)) s t" "a = fslot t i (slot_of bn)" "a \<noteq> 0"
    "fsview t a = zero_block" by (rule bmap_new[OF s bn True refl R(3,4)])
  have z: "fsview t (fslot t i y) = zero_block" if "y \<le> MAXFILE" "y \<noteq> NDIRECT" "fslot s i y = 0" "fslot t i y \<noteq> 0" for y
  proof -
    have "y \<in> slots_for (slot_of bn)" using extD(3)[OF t(4), of y] that by auto
    then have "y = slot_of bn" using that(2) by (auto simp: slots_for_def split: if_splits)
    then show ?thesis using t(5,7) by simp
  qed
  show thesis using fbyte_ext[OF t(4) s(3) _ z] by (intro that[OF t(1-3) fupd_ext[OF t(4) R(1,2)] t(5,6)]) blast
qed

text \<open>Writing a block the file already has.\<close>

lemma fslot_write:
  assumes f: "file_ok s i" and y: "y \<le> MAXFILE" "y \<noteq> NDIRECT" "fslot s i y \<noteq> 0"
    and t: "fsview t = (fsview s)(fslot s i y := d)" "icache t = icache s"
  shows "fslot t i = fslot s i"
proof -
  have "fslot s i y \<noteq> fslot s i NDIRECT" using file_okD(5)[OF f y(1) _ y(3), of NDIRECT] y(2) maxfile(1) by auto
  then show ?thesis by (simp add: fun_eq_iff fslot_def t Let_def)
qed

lemma fbyte_write:
  assumes f: "file_ok s i" and bn: "bn < MAXFILE" "a = fslot s i (slot_of bn)" "a \<noteq> 0"
    and t: "fsview t = (fsview s)(a := d)" "fslot t i = fslot s i" and x: "x < FILEMAX"
  shows "fbyte t i x = (if x div BSIZE = bn then d ! (x mod BSIZE) else fbyte s i x)"
proof -
  let ?y = "slot_of (x div BSIZE)"
  have "bn = x div BSIZE" if "fslot s i ?y = a"
  proof -
    have "slot_of bn = ?y"
      by (rule file_okD(5)[OF f conjunct1[OF slot_of_le[OF bn(1)]] conjunct1[OF slot_of_le[OF div_max[OF x]]]]) (use bn(2,3) that in simp_all)
    then show ?thesis by (simp add: slot_of_inj)
  qed
  then show ?thesis using bn(2,3) by (cases "x div BSIZE = bn") (auto simp: fbyte_def t Let_def)
qed

lemma data_write:
  assumes s: "fs_inv c p {} s" "drv E = iderw" "file_ok s i" and bn: "bn < MAXFILE" "a = fslot s i (slot_of bn)" "a \<noteq> 0"
    and R: "slot_of bn \<in> R" "R \<subseteq> {..MAXFILE}" "cost s i R \<le> 10" and f: "length (f (fsview s a)) = BSIZE"
  obtains b s1 s2 t where "bread E 1 a s = Inr (b, s1)" "icache s1 = icache s"
    "log_write b (buf_upd b (\<lambda>x. x\<lparr>bdata := f (bdata x)\<rparr>) s1) = Inr s2" "brelse b s2 = Inr t"
    "fs_inv c p {} t" "file_ok t i" "fupd i R s t" "fslot t i = fslot s i"
    "\<forall>x < FILEMAX. fbyte t i x = (if x div BSIZE = bn then f (fsview s a) ! (x mod BSIZE) else fbyte s i x)"
proof -
  note y = slot_of_le[OF bn(1)]
  have T: "tx_held c p {} s" using s(1) by (simp add: fs_inv_def)
  have da: "data_used s a" using file_okD(4)[OF s(3)] y bn by simp
  have fin: "finite (touched_blocks s i R)" using card_dirty[OF T] finite_subset[OF R(2)] by (simp add: touched_blocks_def)
  have sub: "insert a (dirty s) \<subseteq> touched_blocks s i R" using R(1) bn(2,3) by (auto simp: touched_blocks_def)
  have room: "card (insert a (dirty s)) \<le> 10" using card_mono[OF fin sub] R(3) by (simp add: cost_def)
  obtain b s1 s2 t where t: "bread E 1 a s = Inr (b, s1)" "klog.more s1 = klog.more s"
    "log_write b (buf_upd b (\<lambda>x. x\<lparr>bdata := f (bdata x)\<rparr>) s1) = Inr s2" "brelse b s2 = Inr t"
    "tx_held c p {} t" "fs_step {} [(a, f (fsview s a))] s t"
    by (rule fs_change[OF T s(2) less_size[OF s(1) da] _ _ room, of f]) simp_all
  note G = fs_stepD[OF t(6)] and K = kfs_frame[OF fs_stepD(3)[OF t(6)]]
  have v: "fsview t = (fsview s)(a := f (fsview s a))" using G(1) by (simp add: fun_eq_iff)
  have B: "fsview t (bmb s) = fsview s (bmb s)" "\<And>n. length (fsview t n) = BSIZE" using v da f fs_inv_len[OF s(1)] by (auto simp: data_used_def)
  note W = bitmap_write[OF s(1) t(5) K(2) G(4) B]
  have sl: "fslot t i = fslot s i" by (rule fslot_write[OF s(3) conjunct1[OF y] conjunct2[OF y] _ _ K(1)]) (use v bn in simp_all)
  have tb: "touched_blocks t i R = touched_blocks s i R" using sub G(2) by (auto simp: touched_blocks_def sl W)
  have "a \<in> file_blocks t i" using bn y by (auto simp: file_blocks_def sl)
  then have u: "fupd i R s t" using K G W sl v bn y file_okD(1)[OF s(3)] by (auto simp: fupd_def lack_def cost_def tb)
  have "file_ok t i" using s(3) by (simp add: file_ok_def sl K W)
  then show thesis by (rule that[OF t(1) kfs_frame(1)[OF t(2)] t(3,4) W(1) _ u sl]) (simp add: fbyte_write[OF s(3) bn v sl])
qed

section \<open>Writing\<close>

definition range_slots :: "nat \<Rightarrow> nat \<Rightarrow> nat set" where
  "range_slots off n = (\<Union>x \<in> {off..<off + n}. slots_for (slot_of (x div BSIZE)))"

definition written :: "nat \<Rightarrow> nat \<Rightarrow> block \<Rightarrow> 'a kfs_scheme \<Rightarrow> 'a kfs_scheme \<Rightarrow> bool" where
  "written i off w s t \<longleftrightarrow> (\<forall>x < FILEMAX. fbyte t i x = (if off \<le> x \<and> x < off + length w then w ! (x - off) else fbyte s i x)) \<and>
     (\<forall>x \<in> {off..<off + length w}. fslot t i (slot_of (x div BSIZE)) \<noteq> 0)"

lemma range_slots_le:
  assumes "off + n \<le> FILEMAX"
  shows "range_slots off n \<subseteq> {..MAXFILE}"
  unfolding range_slots_def by (intro UN_least slots_for_le conjunct1[OF slot_of_le[OF div_max]]) (use assms in auto)

lemma slots_for_self: "x \<in> slots_for x"
  by (simp add: slots_for_def)

lemma written_trans:
  assumes "written i off (take m w) s t" "written i (off + m) (drop m w) t u" "fupd i R t u" "m \<le> length w" "off + length w \<le> FILEMAX"
  shows "written i off w s u"
proof -
  have "fbyte u i x = (if off \<le> x \<and> x < off + length w then w ! (x - off) else fbyte s i x)" if "x < FILEMAX" for x
    using assms(1,2,4) that by (cases "x < off + m") (auto simp: written_def)
  moreover have "fslot u i (slot_of (x div BSIZE)) \<noteq> 0" if "x \<in> {off..<off + length w}" for x
  proof (cases "x < off + m")
    case True
    then have "fslot t i (slot_of (x div BSIZE)) \<noteq> 0" using assms(1,4) that by (simp add: written_def)
    then show ?thesis using assms(3) slot_of_le[OF div_max[of x]] assms(5) that by (simp add: fupd_def)
  next
    case False
    then show ?thesis using assms(2,4) that by (simp add: written_def)
  qed
  ultimately show ?thesis by (simp add: written_def)
qed

lemma in_chunk:
  assumes "off mod BSIZE + n \<le> BSIZE"
  shows "off \<le> x \<and> x < off + n \<longleftrightarrow> x div BSIZE = off div BSIZE \<and> off mod BSIZE \<le> x mod BSIZE \<and> x mod BSIZE < off mod BSIZE + n"
    and "x div BSIZE = off div BSIZE \<Longrightarrow> x - off = x mod BSIZE - off mod BSIZE"
proof -
  have e: "off = BSIZE * (off div BSIZE) + off mod BSIZE" "x = BSIZE * (x div BSIZE) + x mod BSIZE" by simp_all
  show d: "x div BSIZE = off div BSIZE \<Longrightarrow> x - off = x mod BSIZE - off mod BSIZE" using e by (metis diff_add_inverse diff_diff_left)
  have "x div BSIZE = off div BSIZE" if "off \<le> x" "x < off + n"
    using that e(1) assms by (intro div_nat_eqI) (linarith, unfold mult_Suc_right, linarith)
  moreover have "x div BSIZE = off div BSIZE \<Longrightarrow> off \<le> x \<and> x < off + n \<longleftrightarrow> off mod BSIZE \<le> x mod BSIZE \<and> x mod BSIZE < off mod BSIZE + n"
    using e by (metis add.assoc nat_add_left_cancel_le nat_add_left_cancel_less)
  ultimately show "off \<le> x \<and> x < off + n \<longleftrightarrow> x div BSIZE = off div BSIZE \<and> off mod BSIZE \<le> x mod BSIZE \<and> x mod BSIZE < off mod BSIZE + n" by blast
qed

lemma chunk_nth:
  assumes "length d = BSIZE" "o1 + length w \<le> BSIZE" "j < BSIZE"
  shows "(take o1 d @ w @ drop (o1 + length w) d) ! j = (if o1 \<le> j \<and> j < o1 + length w then w ! (j - o1) else d ! j)"
  using assms by (auto simp: nth_append)

lemma write_chunk:
  assumes s: "fs_inv c p {} s" "drv E = iderw" "file_ok s i" and w: "w \<noteq> []" "off mod BSIZE + length w \<le> BSIZE" "off + length w \<le> FILEMAX"
    and R: "slots_for (slot_of (off div BSIZE)) \<subseteq> R" "R \<subseteq> {..MAXFILE}" "lack s i R \<le> nfree s" "cost s i R \<le> 10"
  obtains a s1 b s2 s3 t where "bmap E i (off div BSIZE) s = Inr (a, s1)" "bread E (idev (icache s1 ! i)) a s1 = Inr (b, s2)"
    "log_write b (buf_upd b (\<lambda>x. x\<lparr>bdata := take (off mod BSIZE) (bdata x) @ w @ drop (off mod BSIZE + length w) (bdata x)\<rparr>) s2) = Inr s3"
    "brelse b s3 = Inr t" "fs_inv c p {} t" "file_ok t i" "fupd i R s t" "written i off w s t"
proof -
  let ?bn = "off div BSIZE" and ?o = "off mod BSIZE"
  have bn: "?bn < MAXFILE" using w(1,3) by (intro div_max) (cases w; simp)
  note fR = finite_subset[OF R(2) finite_atMost]
  have "lack s i (slots_for (slot_of ?bn)) \<le> lack s i R" unfolding lack_def using R(1) fR by (intro card_mono) auto
  then have l: "lack s i (slots_for (slot_of ?bn)) \<le> nfree s" using R(3) by simp
  have fd: "finite (dirty s)" using s(1) card_dirty by (auto simp: fs_inv_def)
  have "cost s i (slots_for (slot_of ?bn)) \<le> cost s i R"
    unfolding cost_def lack_def touched_blocks_def using R(1) fR fd by (intro add_mono card_mono) auto
  then have co: "cost s i (slots_for (slot_of ?bn)) \<le> 10" using R(4) by simp
  obtain a s1 where b: "bmap E i ?bn s = Inr (a, s1)" "fs_inv c p {} s1" "file_ok s1 i" "fupd i R s s1" "a = fslot s1 i (slot_of ?bn)" "a \<noteq> 0"
    "\<forall>x < FILEMAX. fbyte s1 i x = fbyte s i x" by (rule bmap_any[OF s bn R(1,2) l co])
  have c1: "cost s1 i R \<le> 10" using b(4) R(4) by (simp add: fupd_def)
  have yR: "slot_of ?bn \<in> R" using R(1) slots_for_self by auto
  define f where "f d = take ?o d @ w @ drop (?o + length w) d" for d :: block
  have fl: "length (fsview s1 a) = BSIZE" using fs_inv_len[OF b(2)] .
  have "length (f (fsview s1 a)) = BSIZE" using fl w(2) by (simp add: f_def)
  then obtain bp s2 s3 t where t: "bread E 1 a s1 = Inr (bp, s2)" "icache s2 = icache s1"
    "log_write bp (buf_upd bp (\<lambda>x. x\<lparr>bdata := f (bdata x)\<rparr>) s2) = Inr s3" "brelse bp s3 = Inr t"
    "fs_inv c p {} t" "file_ok t i" "fupd i R s1 t" "fslot t i = fslot s1 i"
    "\<forall>x < FILEMAX. fbyte t i x = (if x div BSIZE = ?bn then f (fsview s1 a) ! (x mod BSIZE) else fbyte s1 i x)"
    by (rule data_write[OF b(2) s(2) b(3) bn b(5,6) yR R(2) c1])
  note C = in_chunk[OF w(2)]
  have "fbyte t i x = (if off \<le> x \<and> x < off + length w then w ! (x - off) else fbyte s i x)" if "x < FILEMAX" for x
  proof (cases "x div BSIZE = ?bn")
    case True
    have "x mod BSIZE < BSIZE" by (simp add: BSIZE_def)
    then have "f (fsview s1 a) ! (x mod BSIZE) = (if ?o \<le> x mod BSIZE \<and> x mod BSIZE < ?o + length w then w ! (x - off) else fsview s1 a ! (x mod BSIZE))"
      using chunk_nth[OF fl w(2), of "x mod BSIZE"] C(2)[OF True] by (simp add: f_def)
    moreover have "fsview s1 a ! (x mod BSIZE) = fbyte s1 i x" using b(5,6) True by (simp add: fbyte_def Let_def)
    ultimately show ?thesis using t(9) b(7) that C(1)[of x] True by simp
  next
    case False
    then show ?thesis using t(9) b(7) that C(1)[of x] by auto
  qed
  moreover have "fslot t i (slot_of (x div BSIZE)) \<noteq> 0" if "x \<in> {off..<off + length w}" for x
    using that C(1)[of x] b(5,6) t(8) by simp
  ultimately have wr: "written i off w s t" by (simp add: written_def)
  show thesis
    by (rule that[OF b(1) _ _ t(4,5,6) fupd_trans[OF b(4) t(7)] wr]) (use t(1,3) file_okD(2)[OF b(3)] in \<open>simp_all add: f_def\<close>)
qed

lemma writei_loop_ok:
  assumes "fs_inv c p {} s" "drv E = iderw" "file_ok s i" "off + length src \<le> FILEMAX" "range_slots off (length src) \<subseteq> R" "R \<subseteq> {..MAXFILE}"
    "lack s i R \<le> nfree s" "cost s i R \<le> 10"
  shows "\<exists>t. writei_loop E i off src s = Inr t \<and> fs_inv c p {} t \<and> file_ok t i \<and> fupd i R s t \<and> written i off src s t"
  using assms
proof (induction "length src" arbitrary: off src s rule: less_induct)
  case less
  note P = less.prems
  show ?case
  proof (cases "src = []")
    case True
    moreover have "fupd i R s s" using file_okD(1)[OF P(3)] by (auto simp: fupd_def)
    moreover have "written i off src s s" using True by (auto simp: written_def)
    moreover have "writei_loop E i off src s = Inr s" using True by (subst writei_loop.simps) simp
    ultimately show ?thesis using P by blast
  next
    case False
    let ?m = "min (length src) (BSIZE - off mod BSIZE)"
    have o1: "off mod BSIZE < BSIZE" by (simp add: BSIZE_def)
    have m: "0 < ?m" "length (take ?m src) = ?m" "take ?m src \<noteq> []" using False o1 by auto
    have "slots_for (slot_of (off div BSIZE)) \<subseteq> range_slots off (length src)"
      unfolding range_slots_def using False by (intro UN_upper) simp
    with P(5) have sl: "slots_for (slot_of (off div BSIZE)) \<subseteq> R" by blast
    obtain a s1 b s2 s3 u where u: "bmap E i (off div BSIZE) s = Inr (a, s1)" "bread E (idev (icache s1 ! i)) a s1 = Inr (b, s2)"
      "log_write b (buf_upd b (\<lambda>x. x\<lparr>bdata := take (off mod BSIZE) (bdata x) @ take ?m src @ drop (off mod BSIZE + length (take ?m src)) (bdata x)\<rparr>) s2) = Inr s3"
      "brelse b s3 = Inr u" "fs_inv c p {} u" "file_ok u i" "fupd i R s u" "written i off (take ?m src) s u"
      by (rule write_chunk[OF P(1-3) m(3) _ _ sl P(6-8)]) (use P(4) o1 in auto)
    have "range_slots (off + ?m) (length (drop ?m src)) \<subseteq> range_slots off (length src)" unfolding range_slots_def by (intro UN_mono) auto
    then have "\<exists>t. writei_loop E i (off + ?m) (drop ?m src) u = Inr t \<and> fs_inv c p {} t \<and> file_ok t i \<and> fupd i R u t \<and> written i (off + ?m) (drop ?m src) u t"
      using P u(7) m(1) False by (intro less.hyps[OF _ u(5) P(2) u(6)]) (auto simp: fupd_def)
    then obtain t where t: "writei_loop E i (off + ?m) (drop ?m src) u = Inr t" "fs_inv c p {} t" "file_ok t i" "fupd i R u t" "written i (off + ?m) (drop ?m src) u t"
      by blast
    have "writei_loop E i off src s = Inr t"
      using u(1-4) t(1) False m(2) by (subst writei_loop.simps) (simp add: Let_def)
    then show ?thesis using t fupd_trans[OF u(7) t(4)] written_trans[OF u(8) t(5,4) _ P(4)] by auto
  qed
qed

end
