(* ===== verification/FsWrite.thy ===== *)
theory FsWrite
  imports FsData
begin

text \<open>
  Inodes in their blocks, reading a file, and that \<^verbatim>\<open>readi\<close> of \<^verbatim>\<open>fs.c\<close> returns what \<^verbatim>\<open>writei\<close> wrote.
\<close>

section \<open>Inodes in blocks\<close>

lemma get_put_other:
  "j + 2 \<le> i \<or> i + 2 \<le> j \<Longrightarrow> get16 (put16 d i v) j = get16 d j"
  "j + 2 \<le> i \<or> i + 4 \<le> j \<Longrightarrow> get16 (put32 d i w) j = get16 d j"
  "j + 4 \<le> i \<or> i + 2 \<le> j \<Longrightarrow> get32 (put16 d i v) j = get32 d j"
  by (auto simp: get16_def put16_def get32_def put32_def)

lemma put_addrs:
  fixes f :: "nat \<Rightarrow> u32"
  shows "length (fold (\<lambda>j d. put32 d (ad + 4 * j) (f j)) [0..<n] d) = length d"
    "k < ad \<or> ad + 4 * n \<le> k \<Longrightarrow> fold (\<lambda>j d. put32 d (ad + 4 * j) (f j)) [0..<n] d ! k = d ! k"
    "ad + 4 * n \<le> length d \<Longrightarrow> j < n \<Longrightarrow> get32 (fold (\<lambda>j d. put32 d (ad + 4 * j) (f j)) [0..<n] d) (ad + 4 * j) = f j"
proof -
  show l: "length (fold (\<lambda>j d. put32 d (ad + 4 * j) (f j)) [0..<n] d) = length d" for n by (induction n) auto
  show "k < ad \<or> ad + 4 * n \<le> k \<Longrightarrow> fold (\<lambda>j d. put32 d (ad + 4 * j) (f j)) [0..<n] d ! k = d ! k"
    by (induction n) (auto simp: put32_def)
  show "ad + 4 * n \<le> length d \<Longrightarrow> j < n \<Longrightarrow> get32 (fold (\<lambda>j d. put32 d (ad + 4 * j) (f j)) [0..<n] d) (ad + 4 * j) = f j"
  proof (induction n)
    case (Suc n)
    then show ?case by (cases "j = n") (auto simp: get32_put32_other l)
  qed simp
qed

definition dinode_head :: "block \<Rightarrow> nat \<Rightarrow> dinode \<Rightarrow> block" where
  "dinode_head d ad x =
     put32 (put16 (put16 (put16 (put16 d ad (dtype x)) (ad + 2) (dmajor x)) (ad + 4) (dminor x)) (ad + 6) (dnlink x)) (ad + 8) (dsize x)"

lemma put_dinode_head:
  "put_dinode d k x = fold (\<lambda>j d. put32 d (k * DINODE_SIZE + 12 + 4 * j) (daddrs x ! j)) [0..<NDIRECT + 1] (dinode_head d (k * DINODE_SIZE) x)"
  by (simp only: put_dinode_def dinode_head_def Let_def)

lemma put_dinode_length [simp]: "length (put_dinode d k x) = length d"
  unfolding put_dinode_head put_addrs(1) by (simp add: dinode_head_def)

lemma put_dinode_nth:
  assumes "j < k * DINODE_SIZE \<or> (k + 1) * DINODE_SIZE \<le> j"
  shows "put_dinode d k x ! j = d ! j"
proof -
  let ?ad = "k * DINODE_SIZE"
  have j: "j < ?ad + 12 \<or> ?ad + 12 + 4 * (NDIRECT + 1) \<le> j" using assms by (auto simp: NDIRECT_def DINODE_SIZE_def)
  have "dinode_head d ?ad x ! j = d ! j" using assms by (auto simp: dinode_head_def put16_def put32_def DINODE_SIZE_def)
  then show ?thesis unfolding put_dinode_head put_addrs(2)[OF j] .
qed

lemma get_put_dinode:
  assumes k: "k < IPB" and d: "length d = BSIZE" and x: "length (daddrs x) = NDIRECT + 1"
  shows "get_dinode (put_dinode d k x) k = x"
proof -
  let ?ad = "k * DINODE_SIZE" and ?h = "dinode_head d (k * DINODE_SIZE) x"
  have ad: "?ad + 64 \<le> length d" using k d by (simp add: IPB_def DINODE_SIZE_def BSIZE_def)
  have l: "length ?h = length d" by (simp add: dinode_head_def)
  have a: "get32 (put_dinode d k x) (?ad + 12 + 4 * j) = daddrs x ! j" if "j < NDIRECT + 1" for j
    unfolding put_dinode_head by (rule put_addrs(3)) (use that ad l in \<open>auto simp: NDIRECT_def\<close>)
  then have addrs: "map (\<lambda>j. get32 (put_dinode d k x) (?ad + 12 + 4 * j)) [0..<NDIRECT + 1] = daddrs x"
    using x by (intro nth_equalityI) (simp_all del: upt_Suc)
  have h: "put_dinode d k x ! j = ?h ! j" if "j < ?ad + 12" for j
    unfolding put_dinode_head by (rule put_addrs(2)) (use that in simp)
  have "get16 (put_dinode d k x) ?ad = dtype x" "get16 (put_dinode d k x) (?ad + 2) = dmajor x" "get16 (put_dinode d k x) (?ad + 4) = dminor x"
    "get16 (put_dinode d k x) (?ad + 6) = dnlink x" "get32 (put_dinode d k x) (?ad + 8) = dsize x"
  proof -
    have "get16 (put_dinode d k x) j = get16 ?h j" if "j < ?ad + 11" for j using that by (simp add: get16_def h)
    moreover have "get32 (put_dinode d k x) j = get32 ?h j" if "j < ?ad + 9" for j using that by (simp add: get32_def h)
    ultimately show "get16 (put_dinode d k x) ?ad = dtype x" "get16 (put_dinode d k x) (?ad + 2) = dmajor x" "get16 (put_dinode d k x) (?ad + 4) = dminor x"
      "get16 (put_dinode d k x) (?ad + 6) = dnlink x" "get32 (put_dinode d k x) (?ad + 8) = dsize x"
      using ad by (simp_all add: dinode_head_def get_put_other)
  qed
  then show ?thesis using addrs by (simp only: get_dinode_def Let_def) simp
qed

lemma get_dinode_other:
  assumes "k' \<noteq> k"
  shows "get_dinode (put_dinode d k x) k' = get_dinode d k'"
proof -
  have n: "put_dinode d k x ! j = d ! j" if "k' * DINODE_SIZE \<le> j" "j < k' * DINODE_SIZE + 64" for j
    by (rule put_dinode_nth) (use that assms in \<open>auto simp: DINODE_SIZE_def\<close>)
  have "get32 (put_dinode d k x) (k' * DINODE_SIZE + 12 + 4 * j) = get32 d (k' * DINODE_SIZE + 12 + 4 * j)" if "j < NDIRECT + 1" for j
    using that by (simp add: get32_def n NDIRECT_def)
  then have "map (\<lambda>j. get32 (put_dinode d k x) (k' * DINODE_SIZE + 12 + 4 * j)) [0..<NDIRECT + 1] = map (\<lambda>j. get32 d (k' * DINODE_SIZE + 12 + 4 * j)) [0..<NDIRECT + 1]"
    by (simp del: upt_Suc)
  then show ?thesis by (simp only: get_dinode_def Let_def) (simp add: get16_def get32_def n)
qed

definition dinode_of :: "inode \<Rightarrow> dinode" where
  "dinode_of ip = \<lparr>dtype = of_int (itype ip), dmajor = of_int (imajor ip), dminor = of_int (iminor ip),
     dnlink = of_int (inlink ip), dsize = isize ip, daddrs = iaddrs ip\<rparr>"

abbreviation inode_block :: "'a kfs_scheme \<Rightarrow> nat \<Rightarrow> u32" where
  "inode_block s i \<equiv> IBLOCK (inum (icache s ! i)) (sb s)"

abbreviation inode_pos :: "'a kfs_scheme \<Rightarrow> nat \<Rightarrow> nat" where
  "inode_pos s i \<equiv> unat (inum (icache s ! i)) mod IPB"

lemma iupdate_ok:
  assumes s: "fs_inv c p {} s" "drv E = iderw" "file_ok s i" and ib: "data_used s (inode_block s i)" "inode_block s i \<notin> fslot s i ` {..MAXFILE}"
    and room: "card (insert (inode_block s i) (dirty s)) \<le> 10"
  obtains t where "iupdate E i s = Inr t" "fs_inv c p {} t" "file_ok t i" "klog.more t = klog.more s" "disk t = disk s" "core t = core s"
    "disksize t = disksize s" "log_area t = log_area s" "dirty t = insert (inode_block s i) (dirty s)" "fslot t i = fslot s i" "\<forall>x < FILEMAX. fbyte t i x = fbyte s i x"
    "fsview t = (fsview s)(inode_block s i := put_dinode (fsview s (inode_block s i)) (inode_pos s i) (dinode_of (icache s ! i)))"
proof -
  let ?ib = "inode_block s i" and ?f = "\<lambda>d. put_dinode d (inode_pos s i) (dinode_of (icache s ! i))"
  have T: "tx_held c p {} s" using s(1) by (simp add: fs_inv_def)
  obtain b s1 s2 t where t: "bread E 1 ?ib s = Inr (b, s1)" "klog.more s1 = klog.more s"
    "log_write b (buf_upd b (\<lambda>x. x\<lparr>bdata := ?f (bdata x)\<rparr>) s1) = Inr s2" "brelse b s2 = Inr t"
    "tx_held c p {} t" "fs_step {} [(?ib, ?f (fsview s ?ib))] s t"
    by (rule fs_change[OF T s(2) less_size[OF s(1) ib(1)] _ _ room, of ?f]) simp_all
  note G = fs_stepD[OF t(6)] and K = kfs_frame[OF fs_stepD(3)[OF t(6)]]
  have v: "fsview t = (fsview s)(?ib := ?f (fsview s ?ib))" using G(1) by (simp add: fun_eq_iff)
  have B: "fsview t (bmb s) = fsview s (bmb s)" "\<And>n. length (fsview t n) = BSIZE" using v ib(1) fs_inv_len[OF s(1)] by (auto simp: data_used_def)
  note W = bitmap_write[OF s(1) t(5) K(2) G(4) B]
  have ne: "fslot s i y \<noteq> ?ib" if "y \<le> MAXFILE" for y
    using imageI[of y "{..MAXFILE}" "fslot s i"] ib(2) that by (metis atMost_iff)
  have "iaddrs (icache s ! i) ! NDIRECT \<noteq> ?ib" using ne[OF maxfile(1)] by (simp add: fslot_direct)
  then have sl: "fslot t i = fslot s i" by (simp add: fun_eq_iff fslot_def v K Let_def)
  have fb: "\<forall>x < FILEMAX. fbyte t i x = fbyte s i x" using ne slot_of_le div_max by (simp add: fbyte_def sl v Let_def)
  have it: "iupdate E i s = Inr t"
    using t(1,3,4) file_okD(2)[OF s(3)] kfs_frame(1)[OF t(2)] by (simp add: iupdate_def dinode_of_def Let_def)
  have "file_ok t i" using s(3) by (simp add: file_ok_def sl K W)
  moreover have "dirty t = insert ?ib (dirty s)" using G(2) by simp
  ultimately show thesis by (intro that[OF it W(1) _ G(3,6,5,4,7) _ sl fb v])
qed

section \<open>Reading\<close>

lemma readi_loop_ok:
  assumes "fs_inv c p {} s" "drv E = iderw" "file_ok s i" "off + n \<le> FILEMAX" "\<forall>x \<in> {off..<off + n}. fslot s i (slot_of (x div BSIZE)) \<noteq> 0"
  shows "\<exists>t. readi_loop E i off n s = Inr (map (fbyte s i) [off..<off + n], t) \<and> tx_held c p {} t \<and> fs_step {} [] s t"
  using assms
proof (induction n arbitrary: off s rule: less_induct)
  case (less n)
  note P = less.prems
  have T: "tx_held c p {} s" using P(1) by (simp add: fs_inv_def)
  show ?case
  proof (cases "n = 0")
    case True
    then show ?thesis using T fs_step_refl by (subst readi_loop.simps) auto
  next
    case False
    let ?m = "min n (BSIZE - off mod BSIZE)" and ?bn = "off div BSIZE" and ?o = "off mod BSIZE"
    have o1: "?o < BSIZE" "?o + ?m \<le> BSIZE" "0 < ?m" using False by (auto simp: BSIZE_def)
    have bn: "?bn < MAXFILE" using P(4) False by (intro div_max) simp
    have mp: "fslot s i (slot_of ?bn) \<noteq> 0" using P(5) False by simp
    let ?a = "fslot s i (slot_of ?bn)"
    obtain s1 where 1: "bmap E i ?bn s = Inr (?a, s1)" "tx_held c p {} s1" "fs_step {} [] s s1" by (rule bmap_mapped[OF P(1-3) bn mp])
    note V1 = fupd_visit[OF P(1) 1(2,3) file_okD(1)[OF P(3)]]
    have f1: "file_ok s1 i" using V1(2) P(3) by simp
    have da: "data_used s1 ?a" using file_okD(4)[OF f1, of "slot_of ?bn"] slot_of_le[OF bn] mp V1(5) by simp
    obtain b s2 s3 where 2: "bread E 1 ?a s1 = Inr (b, s2)" "bdata (bufat s2 b) = fsview s1 ?a" "brelse b s2 = Inr s3"
      "tx_held c p {} s3" "fs_step {} [] s1 s3"
      by (rule fs_visit[OF 1(2) P(2) less_size[OF V1(1) da]]) simp_all
    note V2 = fupd_visit[OF V1(1) 2(4,5) file_okD(1)[OF f1]]
    have e3: "fslot s3 i = fslot s i" "fbyte s3 i = fbyte s i" using V1 V2 by simp_all
    have "\<exists>t. readi_loop E i (off + ?m) (n - ?m) s3 = Inr (map (fbyte s3 i) [off + ?m..<off + ?m + (n - ?m)], t) \<and> tx_held c p {} t \<and> fs_step {} [] s3 t"
      using P(4,5) f1 V2(2) o1(3) False e3(1) by (intro less.IH[OF _ V2(1) P(2)]) auto
    then obtain t where t: "readi_loop E i (off + ?m) (n - ?m) s3 = Inr (map (fbyte s i) [off + ?m..<off + n], t)" "tx_held c p {} t" "fs_step {} [] s3 t"
      using e3(2) by auto
    have "take ?m (drop ?o (fsview s1 ?a)) = map (fbyte s i) [off..<off + ?m]"
    proof (rule nth_equalityI)
      fix j assume "j < length (take ?m (drop ?o (fsview s1 ?a)))"
      then have j: "j < ?m" by simp
      have x: "(off + j) div BSIZE = ?bn \<and> ?o + j = (off + j) mod BSIZE"
        using in_chunk(1)[OF o1(2), of "off + j"] in_chunk(2)[OF o1(2), of "off + j"] j by auto
      show "take ?m (drop ?o (fsview s1 ?a)) ! j = map (fbyte s i) [off..<off + ?m] ! j"
        using j o1(2) mp x V1(7) fs_inv_len[OF V1(1)] by (simp add: fbyte_def Let_def)
    qed (use o1(2) fs_inv_len[OF V1(1)] in simp)
    moreover have "[off..<off + n] = [off..<off + ?m] @ [off + ?m..<off + n]"
      by (metis le_add1 le_add2 upt_add_eq_append add_le_cancel_left min.cobounded1 le_Suc_ex)
    ultimately have "readi_loop E i off n s = Inr (map (fbyte s i) [off..<off + n], t)"
      using 1(1) 2(1-3) t(1) False file_okD(2)[OF f1] by (subst readi_loop.simps) (simp add: Let_def)
    then show ?thesis using t(2) fs_step_trans[OF 1(3) fs_step_trans[OF 2(5) t(3)]] by auto
  qed
qed

section \<open>Reading what was written\<close>

lemma set_size:
  fixes z :: u32
  assumes "fs_inv c p {} s" "file_ok s i"
  defines "t \<equiv> inode_upd i (\<lambda>ip. ip\<lparr>isize := z\<rparr>) s"
  shows "fs_inv c p {} t" "file_ok t i" "fslot t i = fslot s i" "fbyte t i = fbyte s i" "fsview t = fsview s" "dirty t = dirty s"
    "icache t ! i = (icache s ! i)\<lparr>isize := z\<rparr>" "sb t = sb s"
proof -
  note F = file_okD[OF assms(2)]
  show "fs_inv c p {} t" "fsview t = fsview s" "dirty t = dirty s" "icache t ! i = (icache s ! i)\<lparr>isize := z\<rparr>" "sb t = sb s"
    using assms(1) F(1) by (simp_all add: t_def)
  show sl: "fslot t i = fslot s i" using F(1) by (simp add: t_def fslot_def fun_eq_iff Let_def)
  show "file_ok t i" using assms(2) F(1) by (simp add: file_ok_def sl) (simp add: t_def)
  show "fbyte t i = fbyte s i" by (rule HOL.ext) (simp add: fbyte_def sl Let_def, simp add: t_def)
qed

lemma file_words:
  fixes off :: u32
  assumes "unat off + n \<le> FILEMAX"
  shows "unat (off + of_nat n) = unat off + n" "unat (of_nat n :: u32) = n" "sint (of_nat n :: u32) = int n" "of_nat FILEMAX \<ge> off + of_nat n"
    "\<not> off + of_nat n < off"
proof -
  have m: "FILEMAX = 71680" by (simp add: FILEMAX_def maxfile BSIZE_def)
  show n: "unat (of_nat n :: u32) = n" using assms m by (simp add: unat_of_nat take_bit_nat_eq_self)
  then show a: "unat (off + of_nat n) = unat off + n" using assms m by (subst unat_add_lem[THEN iffD1]) simp_all
  show "sint (of_nat n :: u32) = int n" using assms m by (simp add: signed_of_nat signed_take_bit_int_eq_self)
  show "of_nat FILEMAX \<ge> off + of_nat n" "\<not> off + of_nat n < off" using a assms by (simp_all add: m word_le_nat_alt word_less_nat_alt)
qed

text \<open>The state after a write: only the file, its inode and the bitmap have changed.\<close>

definition wrote_file :: "nat \<Rightarrow> u32 \<Rightarrow> block \<Rightarrow> 'a kfs_scheme \<Rightarrow> 'a kfs_scheme \<Rightarrow> bool" where
  "wrote_file i off src s t \<longleftrightarrow> written i (unat off) src s t \<and> sb t = sb s \<and> disk t = disk s \<and> disksize t = disksize s \<and> log_area t = log_area s \<and> core t = core s \<and> kfs.more t = kfs.more s \<and>
     icache t = (icache s)[i := (icache s ! i)\<lparr>isize := max (isize (icache s ! i)) (off + of_nat (length src)), iaddrs := iaddrs (icache t ! i)\<rparr>] \<and>
     (\<forall>n. data_used s n \<longrightarrow> n \<notin> fslot s i ` {..MAXFILE} \<longrightarrow> n \<noteq> inode_block s i \<longrightarrow> fsview t n = fsview s n) \<and>
     dirty t \<subseteq> {bmb s, inode_block s i} \<union> dirty s \<union> file_blocks t i \<and>
     (\<forall>a \<in> file_blocks t i. a \<in> file_blocks s i \<or> unat a < unat (sbsize (sb s)) \<and> \<not> bm_used s (unat a)) \<and>
     (\<forall>k. k \<noteq> inode_pos s i \<longrightarrow> get_dinode (fsview t (inode_block s i)) k = get_dinode (fsview s (inode_block s i)) k) \<and>
     (isize (icache s ! i) < isize (icache t ! i) \<longrightarrow> get_dinode (fsview t (inode_block s i)) (inode_pos s i) = dinode_of (icache t ! i))"

lemma new_file_blocks:
  assumes "fupd i R s t" "a \<in> file_blocks t i"
  shows "a \<in> file_blocks s i \<or> unat a < unat (sbsize (sb s)) \<and> \<not> bm_used s (unat a)"
proof -
  obtain y where y: "y \<le> MAXFILE" "a = fslot t i y" "a \<noteq> 0" using assms(2) by (auto simp: file_blocks_def)
  show ?thesis
  proof (cases "fslot s i y = 0")
    case True
    then show ?thesis using assms(1) y by (simp add: fupd_def)
  next
    case False
    then have "a = fslot s i y" using assms(1) y by (simp add: fupd_def)
    then show ?thesis using y by (auto simp: file_blocks_def)
  qed
qed

lemma wrote_file_data:
  assumes u: "fupd i R s t" "written i (unat off) src s t" and ib: "data_used s (inode_block s i)" "inode_block s i \<notin> fslot s i ` {..MAXFILE}"
    and z: "isize (icache t ! i) = isize (icache s ! i)" "off + of_nat (length src) \<le> isize (icache s ! i)"
  shows "wrote_file i off src s t"
proof -
  have "icache t = (icache s)[i := (icache s ! i)\<lparr>iaddrs := iaddrs (icache t ! i)\<rparr>]" using u(1) by (simp add: fupd_def)
  moreover have "(icache s ! i)\<lparr>isize := isize (icache s ! i), iaddrs := iaddrs (icache t ! i)\<rparr> = (icache s ! i)\<lparr>iaddrs := iaddrs (icache t ! i)\<rparr>"
    by (cases "icache s ! i") simp
  moreover have "dirty t \<subseteq> {bmb s, inode_block s i} \<union> dirty s \<union> file_blocks t i" using u(1) by (auto simp: fupd_def)
  ultimately show ?thesis using u ib z new_file_blocks[OF u(1)] by (simp add: wrote_file_def fupd_def max_absorb1)
qed

lemma wrote_file_size:
  assumes u: "fupd i R s s1" "written i (unat off) src s s1" and ib: "data_used s (inode_block s i)" "inode_block s i \<notin> fslot s i ` {..MAXFILE}"
    and f: "file_ok s i" "fs_inv c p {} s1" and z: "isize (icache s ! i) < off + of_nat (length src)"
    and ic: "icache t = (icache s1)[i := (icache s1 ! i)\<lparr>isize := off + of_nat (length src)\<rparr>]" "sb t = sb s1" "disk t = disk s1" "core t = core s1" "kfs.more t = kfs.more s1"
      "fslot t i = fslot s1 i" "\<forall>x < FILEMAX. fbyte t i x = fbyte s1 i x" "unat off + length src \<le> FILEMAX"
      "disksize t = disksize s1" "log_area t = log_area s1" "dirty t = insert (inode_block s i) (dirty s1)"
    and v: "fsview t = (fsview s1)(inode_block s i := put_dinode (fsview s1 (inode_block s i)) (inode_pos s i) (dinode_of (icache t ! i)))"
    and l: "length (iaddrs (icache t ! i)) = NDIRECT + 1"
  shows "wrote_file i off src s t"
proof -
  have c1: "icache s1 = (icache s)[i := (icache s ! i)\<lparr>iaddrs := iaddrs (icache s1 ! i)\<rparr>]" using u(1) by (simp add: fupd_def)
  have i: "i < length (icache s)" "i < length (icache s1)" using file_okD(1)[OF f(1)] arg_cong[OF c1, of length] by simp_all
  have a1: "icache s1 ! i = (icache s ! i)\<lparr>iaddrs := iaddrs (icache s1 ! i)\<rparr>" using i by (subst c1) simp
  have "(icache s1 ! i)\<lparr>isize := off + of_nat (length src)\<rparr> = (icache s ! i)\<lparr>isize := off + of_nat (length src), iaddrs := iaddrs (icache t ! i)\<rparr>"
    using i(2) ic(1) by (subst a1) simp
  moreover have "(icache s1)[i := y] = (icache s)[i := y]" for y using c1 by (metis list_update_overwrite)
  ultimately have e: "icache t = (icache s)[i := (icache s ! i)\<lparr>isize := off + of_nat (length src), iaddrs := iaddrs (icache t ! i)\<rparr>]"
    using ic(1) by simp
  have w: "written i (unat off) src s t" using u(2) ic(6-8) by (simp add: written_def)
  have b1: "fsview s1 (inode_block s i) = fsview s (inode_block s i)" using u(1) ib by (simp add: fupd_def)
  have p: "inode_pos s i < IPB" by (simp add: IPB_def BSIZE_def DINODE_SIZE_def)
  have "get_dinode (fsview t (inode_block s i)) (inode_pos s i) = dinode_of (icache t ! i)"
    unfolding v using get_put_dinode[OF p fs_inv_len[OF f(2)]] l by (simp add: dinode_of_def)
  moreover have fb: "file_blocks t i = file_blocks s1 i" using ic(6) by (simp add: file_blocks_def)
  then have "dirty t \<subseteq> {bmb s, inode_block s i} \<union> dirty s \<union> file_blocks t i" using u(1) ic(11) by (auto simp: fupd_def)
  ultimately show ?thesis using e w ic(2-5,9,10) u(1) z b1 new_file_blocks[OF u(1)]
    by (simp add: wrote_file_def v fupd_def get_dinode_other max_absorb2 fb)
qed

text \<open>When a write can be made in the transaction: blocks are free for what the file lacks and the log has room.\<close>

definition can_write :: "nat \<Rightarrow> u32 \<Rightarrow> nat \<Rightarrow> 'a kfs_scheme \<Rightarrow> bool" where
  "can_write i off n s \<longleftrightarrow> file_ok s i \<and> itype (icache s ! i) \<noteq> T_DEV \<and> off \<le> isize (icache s ! i) \<and> unat off + n \<le> FILEMAX \<and>
     data_used s (inode_block s i) \<and> inode_block s i \<notin> fslot s i ` {..MAXFILE} \<and>
     lack s i (range_slots (unat off) n) \<le> nfree s \<and> cost s i (range_slots (unat off) n) \<le> 9"

lemma writei_ok:
  assumes s: "fs_inv c p {} s" "drv E = iderw" and cw: "can_write i off (length src) s"
  obtains t where "writei E i src off s = Inr (int (length src), t)" "fs_inv c p {} t" "file_ok t i" "wrote_file i off src s t"
proof -
  let ?n = "of_nat (length src) :: u32" and ?R = "range_slots (unat off) (length src)"
  have f: "file_ok s i" and ty: "itype (icache s ! i) \<noteq> T_DEV" "off \<le> isize (icache s ! i)" and le: "unat off + length src \<le> FILEMAX"
    and ib: "data_used s (inode_block s i)" "inode_block s i \<notin> fslot s i ` {..MAXFILE}" and R: "lack s i ?R \<le> nfree s" "cost s i ?R \<le> 9"
    using cw by (simp_all add: can_write_def)
  note W = file_words[OF le] and Rm = range_slots_le[OF le]
  have c10: "cost s i ?R \<le> 10" using R(2) by simp
  obtain s1 where 1: "writei_loop E i (unat off) src s = Inr s1" "fs_inv c p {} s1" "file_ok s1 i" "fupd i ?R s s1" "written i (unat off) src s s1"
    using writei_loop_ok[OF s f le order_refl Rm R(1) c10] by blast
  have i1: "icache s1 = (icache s)[i := (icache s ! i)\<lparr>iaddrs := iaddrs (icache s1 ! i)\<rparr>]" and sb1: "sb s1 = sb s" using 1(4) by (simp_all add: fupd_def)
  have n1: "isize (icache s1 ! i) = isize (icache s ! i)" "inum (icache s1 ! i) = inum (icache s ! i)"
    using file_okD(1)[OF f] by (subst i1, simp)+
  have wi: "writei E i src off s = kbind (if 0 < ?n \<and> isize (icache s ! i) < off + ?n
      then iupdate E i (inode_upd i (\<lambda>ip. ip\<lparr>isize := off + ?n\<rparr>) s1) else Inr s1) (\<lambda>s2. Inr (int (length src), s2))"
  proof -
    have g: "\<not> isize (icache s ! i) < off" "\<not> of_nat (MAXFILE * BSIZE) < off + ?n" using ty(2) W(4) unfolding FILEMAX_def by (simp_all only: not_less)
    show ?thesis unfolding writei_def Let_def using ty(1) by (simp only: g W(3,5) 1(1) n1(1) if_False simp_thms kbind_Inr)
  qed
  show thesis
  proof (cases "isize (icache s ! i) < off + ?n")
    case False
    then have "writei E i src off s = Inr (int (length src), s1)" unfolding wi by (simp only: simp_thms if_False kbind_Inr)
    then show thesis by (rule that[OF _ 1(2,3) wrote_file_data[OF 1(4,5) ib n1(1)]]) (use False in \<open>simp only: not_less\<close>)
  next
    case True
    define u where "u = inode_upd i (\<lambda>ip. ip\<lparr>isize := off + ?n\<rparr>) s1"
    note U = set_size[OF 1(2,3), of "off + ?n", folded u_def]
    have bu: "inode_block u i = inode_block s i" "inode_pos u i = inode_pos s i" using U(7,8) n1(2) sb1 by simp_all
    note O = fupd_outside[OF 1(4) ib]
    have "card (dirty s1) \<le> cost s1 i ?R" unfolding cost_def touched_blocks_def
      using finite_subset[OF Rm] card_dirty 1(2) by (intro trans_le_add1 card_mono) (auto simp: fs_inv_def)
    then have room: "card (insert (inode_block s i) (dirty s1)) \<le> 10"
      using card_insert_le_m1[of 10 "dirty s1"] 1(4) R(2) by (simp add: fupd_def)
    obtain t where t: "iupdate E i u = Inr t" "fs_inv c p {} t" "file_ok t i" "klog.more t = klog.more u" "disk t = disk u" "core t = core u"
      "disksize t = disksize u" "log_area t = log_area u" "dirty t = insert (inode_block u i) (dirty u)" "fslot t i = fslot u i" "\<forall>x < FILEMAX. fbyte t i x = fbyte u i x"
      "fsview t = (fsview u)(inode_block u i := put_dinode (fsview u (inode_block u i)) (inode_pos u i) (dinode_of (icache u ! i)))"
      by (rule iupdate_ok[OF U(1) s(2) U(2)]) (use O room U bu u_def in simp_all)
    note K = kfs_frame[OF t(4)]
    have "wrote_file i off src s t"
      by (rule wrote_file_size[OF 1(4,5) ib f 1(2) True])
        (use K t U bu le file_okD(3)[OF t(3)] in \<open>simp_all add: u_def\<close>)
    moreover have "0 < ?n" using True ty(2) by (cases "?n = 0") (auto simp: word_gt_0)
    ultimately show thesis using wi True t(1-3) by (intro that[of t]) (simp_all add: u_def)
  qed
qed

lemma readi_ok:
  assumes s: "fs_inv c p {} s" "drv E = iderw" "file_ok s i" and ty: "itype (icache s ! i) \<noteq> T_DEV" "off + of_nat n \<le> isize (icache s ! i)"
    and le: "unat off + n \<le> FILEMAX" "\<forall>x \<in> {unat off..<unat off + n}. fslot s i (slot_of (x div BSIZE)) \<noteq> 0"
  obtains t where "readi E i off (of_nat n) s = Inr (Some (map (fbyte s i) [unat off..<unat off + n]), t)" "fs_inv c p {} t" "fsview t = fsview s"
proof -
  obtain t where t: "readi_loop E i (unat off) n s = Inr (map (fbyte s i) [unat off..<unat off + n], t)" "tx_held c p {} t" "fs_step {} [] s t"
    using readi_loop_ok[OF s le] by blast
  note W = file_words[OF le(1)] and V = fupd_visit[OF s(1) t(2,3) file_okD(1)[OF s(3)]]
  have "off \<le> off + of_nat n" using W(5) by (simp only: not_less)
  then have "\<not> isize (icache s ! i) < off" "\<not> isize (icache s ! i) < off + of_nat n" using ty(2) by (simp_all only: not_less)
  then have "readi E i off (of_nat n) s = Inr (Some (map (fbyte s i) [unat off..<unat off + n]), t)"
    unfolding readi_def Let_def using ty(1) t(1) W(2,5) by (simp only: if_False simp_thms kbind_Inr prod.case)
  then show thesis by (rule that[OF _ V(1,7)])
qed

text \<open>
  C2. Reading back. A write to a file that may need new blocks, direct ones or through the indirect block,
  succeeds when as many blocks are free and the log has room for them; a read of the same bytes then
  returns what was written. All other bytes of the file, the other inodes in its block and all other
  blocks in use are unchanged, the size grows to the end of the write at most, and a longer file has
  its new inode in its block.
\<close>

theorem writei_then_readi:
  assumes "fs_inv c p {} s" "drv E = iderw" "can_write i off (length src) s"
  shows "\<exists>t u. writei E i src off s = Inr (int (length src), t) \<and> fs_inv c p {} t \<and> file_ok t i \<and> wrote_file i off src s t \<and>
     readi E i off (of_nat (length src)) t = Inr (Some src, u) \<and> fs_inv c p {} u \<and> fsview u = fsview t"
proof -
  obtain t where t: "writei E i src off s = Inr (int (length src), t)" "fs_inv c p {} t" "file_ok t i" "wrote_file i off src s t"
    by (rule writei_ok[OF assms])
  have le: "unat off + length src \<le> FILEMAX" and ty: "itype (icache s ! i) \<noteq> T_DEV" and i: "i < length (icache s)"
    using assms(3) file_okD(1) by (auto simp: can_write_def)
  have ic: "icache t = (icache s)[i := (icache s ! i)\<lparr>isize := max (isize (icache s ! i)) (off + of_nat (length src)), iaddrs := iaddrs (icache t ! i)\<rparr>]"
    and wr: "written i (unat off) src s t" using t(4) by (simp_all add: wrote_file_def)
  have "itype (icache t ! i) = itype (icache s ! i)" "off + of_nat (length src) \<le> isize (icache t ! i)" using i by (subst ic, simp)+
  moreover have "\<forall>x \<in> {unat off..<unat off + length src}. fslot t i (slot_of (x div BSIZE)) \<noteq> 0" using wr by (simp add: written_def)
  moreover have "map (fbyte t i) [unat off..<unat off + length src] = src" using wr le by (intro nth_equalityI) (simp_all add: written_def)
  ultimately obtain u where "readi E i off (of_nat (length src)) t = Inr (Some src, u)" "fs_inv c p {} u" "fsview u = fsview t"
    using readi_ok[OF t(2) assms(2) t(3) _ _ le] ty by metis
  then show ?thesis using t by blast
qed

text \<open>
  The blocks a write may touch lie outside the log: the bitmap, the block of the inode, the blocks of
  the file and the free blocks.
\<close>

definition outside_log :: "nat \<Rightarrow> 'a kfs_scheme \<Rightarrow> bool" where
  "outside_log i s \<longleftrightarrow> \<not> in_log (lg s) (bmb s) \<and> \<not> in_log (lg s) (inode_block s i) \<and> (\<forall>a \<in> file_blocks s i. \<not> in_log (lg s) a) \<and>
     (\<forall>a. unat a < unat (sbsize (sb s)) \<longrightarrow> \<not> bm_used s (unat a) \<longrightarrow> \<not> in_log (lg s) a)"

lemma same_fs:
  assumes v: "fsview t = fsview s" "dirty t = dirty s" "icache t = icache s" "sb t = sb s"
  shows "bm_used t = bm_used s" "bmb t = bmb s" "data_used t = data_used s" "fslot t = fslot s" "file_ok t = file_ok s" "file_blocks t = file_blocks s"
    "can_write i off n t = can_write i off n s" "fbyte t = fbyte s"
proof -
  have bb: "bm_block t = bm_block s" by (simp add: fun_eq_iff bm_block_def v)
  show u: "bm_used t = bm_used s" and b: "bmb t = bmb s" by (simp_all add: fun_eq_iff bm_used_def bmb_def bb v)
  show d: "data_used t = data_used s" by (simp add: fun_eq_iff data_used_def u b v)
  show f: "fslot t = fslot s" by (simp add: fun_eq_iff fslot_def v Let_def)
  show o: "file_ok t = file_ok s" by (simp add: fun_eq_iff file_ok_def f d v)
  show "file_blocks t = file_blocks s" by (simp add: fun_eq_iff file_blocks_def f)
  show "fbyte t = fbyte s" by (simp add: fun_eq_iff fbyte_def f v Let_def)
  show "can_write i off n t = can_write i off n s" by (simp add: can_write_def o d f v lack_def nfree_def cost_def touched_blocks_def u b)
qed

lemma touched_blocks_ok:
  assumes wr: "wrote_file i off src s t" and s: "bitmap_ok s" "can_write i off n s" "outside_log i s" "dirty s = {}"
    and t: "fs_inv c p {} t" "file_ok t i" and x: "x \<in> dirty t"
  shows "x < of_int (disksize s) \<and> \<not> in_log (lg s) x"
proof -
  have d: "x = bmb s \<or> x = inode_block s i \<or> x \<in> file_blocks t i" using wr x s(4) unfolding wrote_file_def by blast
  have ib: "data_used s (inode_block s i)" using s(2) by (simp add: can_write_def)
  have "bmb s < of_int (disksize s)" using bitmap_okD(2)[OF s(1), of 0] ib by (auto simp: bmb_def data_used_def)
  moreover have "inode_block s i < of_int (disksize s)" using bitmap_okD(3)[OF s(1), of "unat (inode_block s i)"] ib by (simp add: data_used_def)
  moreover have "x < of_int (disksize s)" if "x \<in> file_blocks t i"
    using less_size[OF t(1) file_okD(4)[OF t(2)]] that wr by (auto simp: file_blocks_def wrote_file_def)
  moreover have "\<not> in_log (lg s) x" using d s(3) wr unfolding outside_log_def wrote_file_def by blast
  ultimately show ?thesis using d by blast
qed

text \<open>
  C1. File writes are atomic. \<^verbatim>\<open>begin_op\<close>, \<^verbatim>\<open>writei\<close> and \<^verbatim>\<open>end_op\<close> in this order leave the disk as it was until the commit and
  then bring every block outside the log to its contents after the write. A crash at any moment of the commit, followed by
  recovery, gives either the old disk or the disk with the whole write: data, bitmap, indirect block and inode.
\<close>

theorem file_write_atomic:
  assumes "log_idle c p s" "drv E = iderw" "bitmap_ok s" "unat (sbsize (sb s)) \<le> BPB" "can_write i off (length src) s" "outside_log i s"
  shows "\<exists>s1 s2 t. begin_op E s = Inr s1 \<and> writei E i src off s1 = Inr (int (length src), s2) \<and> end_op E s2 = Inr t \<and>
     wrote_file i off src s s2 \<and> disk s2 = disk s \<and> log_idle c p t \<and> (\<forall>x. \<not> in_log (lg s) x \<longrightarrow> disk t x = fsview s2 x) \<and>
     all_or_nothing E (lg s) (disksize s) (drop (length (diskw s)) (diskw t)) (disk s) (disk t)"
proof -
  have I: "tx_data c p s" "bio_inv c p {} s" "lock_free LogLock (core s)" "\<not> committing (lg s)" "outstanding (lg s) = 0" "lhn (lg s) = 0"
    "log_clear (lg s) (disksize s) (disk s)" "dirty s = {}"
    using assms(1) by (auto simp: log_idle_def tx_data_def dirty_def)
  have "lhn (lg s) + (outstanding (lg s) + 1) * MAXOPBLOCKS \<le> int LOGSIZE" using I(5,6) by (simp add: MAXOPBLOCKS_def LOGSIZE_def)
  from begin_op_ok[OF bio_invD(1)[OF I(2)] I(3,4) this] obtain s1 where
    s1: "begin_op E s = Inr s1" "log_only (\<lambda>l. l\<lparr>outstanding := outstanding l + 1\<rparr>) s s1" by blast
  note B = log_onlyD[OF s1(2)] and K = kfs_frame[OF log_onlyD(9)[OF s1(2)]]
  have v: "fsview s1 = fsview s" "dirty s1 = dirty s" "log_area s1 = log_area s" using B by (simp_all add: fsview_def dirty_def log_area_def)
  note S = same_fs[OF v(1,2) K(1,2)]
  have "tx_inv c p s1" using I B(1,5) tx_data_only[OF s1(2) I(1)] by (simp add: tx_inv_def)
  moreover have "bm_block s1 = bm_block s" by (simp add: fun_eq_iff bm_block_def K)
  then have "bitmap_ok s1" using assms(3) by (simp add: bitmap_ok_def v S K B(4))
  ultimately have f1: "fs_inv c p {} s1" using assms(4) by (simp add: fs_inv_def tx_held_empty K)
  obtain s2 where s2: "writei E i src off s1 = Inr (int (length src), s2)" "fs_inv c p {} s2" "file_ok s2 i" "wrote_file i off src s1 s2"
    using writei_ok[OF f1 assms(2), of i off src] assms(5) S(7) by blast
  have wr: "wrote_file i off src s s2" using s2(4) B(1,2,4) by (simp add: wrote_file_def written_def v S K)
  have P: "disk s2 = disk s" "disksize s2 = disksize s" "diskw s2 = diskw s" "lstart (lg s2) = lstart (lg s)" "lsize (lg s2) = lsize (lg s)" "sb s2 = sb s"
    using wr by (simp_all add: wrote_file_def log_area_def)
  note geo = same_area[OF P(4,5)]
  have "x < of_int (disksize s2) \<and> \<not> in_log (lg s2) x" if "x \<in> dirty s2" for x
    unfolding P(2) geo by (rule touched_blocks_ok[OF wr assms(3,5,6) I(8) s2(2,3) that])
  moreover have "log_clear (lg s2) (disksize s2) (disk s2)" using I(7) by (simp add: P geo)
  ultimately obtain t where t: "end_op E s2 = Inr t" "log_idle c p t" "\<forall>x. \<not> in_log (lg s2) x \<longrightarrow> disk t x = fsview s2 x"
    "all_or_nothing E (lg s2) (disksize s2) (drop (length (diskw s2)) (diskw t)) (disk s2) (disk t)"
    using end_op_commits[of c p s2 E] assms(2) s2(2) by (auto simp: fs_inv_def tx_held_empty fsview_def dirty_def)
  show ?thesis using s1(1) s2(1) t wr by (intro exI[of _ s1] exI[of _ s2] exI[of _ t]) (simp add: P(2-5) geo, simp add: P(1))
qed

section \<open>Examples\<close>

text \<open>A small file system with an empty file: blocks 0 to 63 are in use, the bitmap is block 58.\<close>

definition demo_fsdisk :: "u32 \<Rightarrow> block" where
  "demo_fsdisk n = (if n = 58 then replicate 8 (- 1) @ replicate 504 0 else zero_block)"

definition demo_inode :: inode where
  "demo_inode = \<lparr>idev = 1, inum = 1, iref = 1, ivalid = True, itype = T_FILE, imajor = 0, iminor = 0, inlink = 1, isize = 0, iaddrs = replicate (NDIRECT + 1) 0\<rparr>"

definition demo_sb :: superblock where
  "demo_sb = \<lparr>sbsize = 1000, nblocks = 941, ninodes = 200, nlog = 30, logstart = 2, inodestart = 33, bmapstart = 58\<rparr>"

definition demo_kfs :: "int \<Rightarrow> kfs" where
  "demo_kfs k = binit (demo_kbio demo_fsdisk \<lparr>lg = demo_lg\<lparr>outstanding := k\<rparr>, icache = [demo_inode], sb = demo_sb\<rparr>)"

lemma demo_kfs_ok:
  "bio_inv 0 1 {} (demo_kfs k)" "dirty (demo_kfs k) = {}" "disk (demo_kfs k) = demo_fsdisk" "disksize (demo_kfs k) = 1000" "fsview (demo_kfs k) = demo_fsdisk"
  "lg (demo_kfs k) = demo_lg\<lparr>outstanding := k\<rparr>" "icache (demo_kfs k) = [demo_inode]" "sb (demo_kfs k) = demo_sb" "lock_free l (core (demo_kfs k))"
proof -
  let ?x = "\<lparr>lg = demo_lg\<lparr>outstanding := k\<rparr>, icache = [demo_inode], sb = demo_sb\<rparr>"
  note I = binit_inv[OF demo_kbio_ok(1-5,10), of demo_fsdisk ?x]
  show a: "bio_inv 0 1 {} (demo_kfs k)" and b: "dirty (demo_kfs k) = {}" unfolding demo_kfs_def dirty_def by (fact I)+
  show c: "disk (demo_kfs k) = demo_fsdisk" "disksize (demo_kfs k) = 1000" using I(3) by (simp_all add: boot_frame_def demo_kfs_def demo_kbio_ok)
  show "fsview (demo_kfs k) = demo_fsdisk" using view_clean[OF bio_invD(3)[OF a]] b c by (simp add: fsview_def dirty_def)
  have "kbio.more (demo_kfs k) = ?x" using I(3) by (simp add: boot_frame_def demo_kfs_def demo_kbio_ok)
  then show "lg (demo_kfs k) = demo_lg\<lparr>outstanding := k\<rparr>" "icache (demo_kfs k) = [demo_inode]" "sb (demo_kfs k) = demo_sb" by (cases "demo_kfs k"; simp)+
  show "lock_free l (core (demo_kfs k))"
    using I(3) demo_kbio_ok(4)[of demo_fsdisk ?x] by (auto simp: boot_frame_def demo_kfs_def lock_free_def)
qed

lemma demo_bitmap:
  "j < 1000 \<Longrightarrow> bm_block (demo_kfs k) j = 58" "bmb (demo_kfs k) = 58" "j < 1000 \<Longrightarrow> bm_used (demo_kfs k) j \<longleftrightarrow> j < 64" "bitmap_ok (demo_kfs k)"
proof -
  have b: "bm_block (demo_kfs k) j = 58" if "j < 1000" for j
    using that by (simp add: bm_block_def BBLOCK_def demo_kfs_ok demo_sb_def BPB_def BSIZE_def unat_of_nat take_bit_nat_eq_self)
  then show "j < 1000 \<Longrightarrow> bm_block (demo_kfs k) j = 58" "bmb (demo_kfs k) = 58" by (simp_all add: bmb_def)
  have u: "bm_used (demo_kfs k) j \<longleftrightarrow> j < 64" if "j < 1000" for j
  proof -
    have "j div 8 < 512" "j mod BPB = j" using that by (simp_all add: BPB_def BSIZE_def)
    then show ?thesis using b[OF that] by (auto simp: bm_used_def bit_at_def demo_kfs_ok demo_fsdisk_def nth_append)
  qed
  then show "j < 1000 \<Longrightarrow> bm_used (demo_kfs k) j \<longleftrightarrow> j < 64" .
  have "(of_nat k :: u32) \<noteq> 58" if "k < 1000" "64 \<le> k" for k
  proof
    assume "(of_nat k :: u32) = 58"
    then have "unat (of_nat k :: u32) = 58" by simp
    then show False using that by (simp add: unat_of_nat take_bit_nat_eq_self)
  qed
  then have "\<forall>k' < 1000. \<not> bm_used (demo_kfs k) k' \<longrightarrow> k' \<noteq> 0 \<and> (\<forall>j < 1000. bm_block (demo_kfs k) j \<noteq> of_nat k')" using u b by (auto simp: not_less)
  then show "bitmap_ok (demo_kfs k)"
    using b by (auto simp: bitmap_ok_def demo_kfs_ok demo_fsdisk_def zero_block_def BSIZE_def demo_sb_def)
qed

lemma demo_slots: "x \<le> MAXFILE \<Longrightarrow> fslot (demo_kfs k) 0 x = 0" "file_ok (demo_kfs k) 0" "file_blocks (demo_kfs k) 0 = {}" "inode_block (demo_kfs k) 0 = 33"
proof -
  have a: "iaddrs demo_inode ! j = 0" if "j \<le> NDIRECT" for j using that by (simp add: demo_inode_def nth_Cons')
  show z: "fslot (demo_kfs k) 0 x = 0" if "x \<le> MAXFILE" for x by (simp add: fslot_def demo_kfs_ok a Let_def)
  then show "file_ok (demo_kfs k) 0" by (simp add: file_ok_def) (simp add: demo_kfs_ok demo_inode_def)
  show "file_blocks (demo_kfs k) 0 = {}" using z by (auto simp: file_blocks_def)
  show "inode_block (demo_kfs k) 0 = 33" by (simp add: demo_kfs_ok demo_inode_def demo_sb_def IBLOCK_def IPB_def BSIZE_def DINODE_SIZE_def)
qed

lemma demo_can_write:
  assumes "0 < n" "n \<le> BSIZE"
  shows "can_write 0 0 n (demo_kfs k)"
proof -
  have "slots_for (slot_of (x div BSIZE)) = {0}" if "x < n" for x
    using that assms(2) by (simp add: slot_of_def slots_for_def maxfile(2))
  then have r: "range_slots 0 n = {0}" using assms(1) by (auto simp: range_slots_def)
  have e: "{x \<in> {0}. fslot (demo_kfs k) 0 x = 0} = {0}" "{x \<in> {0}. fslot (demo_kfs k) 0 x \<noteq> 0} = {}" using demo_slots(1)[of 0 k] by (auto intro: gr0I)
  have l: "lack (demo_kfs k) 0 {0} = 1" unfolding lack_def e by simp
  have "64 \<in> {j. j < unat (sbsize (sb (demo_kfs k))) \<and> \<not> bm_used (demo_kfs k) j}" by (simp add: demo_bitmap(3)) (simp add: demo_kfs_ok demo_sb_def)
  then have "0 < nfree (demo_kfs k)" unfolding nfree_def by (intro card_gt_0_iff[THEN iffD2]) auto
  moreover have "cost (demo_kfs k) 0 {0} \<le> 9" unfolding cost_def touched_blocks_def e l demo_kfs_ok(2) by simp
  moreover have "data_used (demo_kfs k) 33" by (simp add: data_used_def demo_bitmap) (simp add: demo_kfs_ok demo_sb_def)
  moreover have "(33 :: u32) \<notin> fslot (demo_kfs k) 0 ` {..MAXFILE}" using demo_slots(1) by auto
  moreover have "n \<le> FILEMAX" using assms(2) by (simp add: FILEMAX_def maxfile BSIZE_def)
  moreover have "itype (icache (demo_kfs k) ! 0) \<noteq> T_DEV" by (simp add: demo_kfs_ok demo_inode_def T_FILE_def T_DEV_def)
  ultimately show ?thesis using r l demo_slots(2) by (simp only: can_write_def demo_slots(4)) simp
qed

lemma demo_outside_log: "outside_log 0 (demo_kfs k)"
proof -
  have i: "unat x < 33" if h: "in_log (demo_lg\<lparr>outstanding := k\<rparr>) x" for x
  proof -
    obtain j where j: "j < 31" "x = of_nat (2 + j)" using h by (auto simp: in_log_def demo_lg_def)
    then show ?thesis unfolding j(2) unat_of_nat by (simp add: take_bit_nat_eq_self)
  qed
  show ?thesis unfolding outside_log_def demo_slots(3,4) demo_bitmap(2) demo_kfs_ok(6)
    using i[of 58] i[of 33] demo_bitmap(3)[of _ k] by (auto simp: demo_kfs_ok(8) demo_sb_def dest!: i)
qed

lemma demo_fs_inv: "fs_inv 0 1 {} (demo_kfs 1)" "log_idle 0 1 (demo_kfs 0)"
proof -
  have e: "entries (demo_lg\<lparr>outstanding := k\<rparr>) = []" "head_blk (demo_lg\<lparr>outstanding := k\<rparr>) = 2" "get32 (demo_fsdisk 2) 0 = 0" for k
    by (simp_all add: entries_def demo_lg_def head_blk_def demo_fsdisk_def get32_zero BSIZE_def)
  have d: "tx_data 0 1 (demo_kfs k)" for k
    using demo_kfs_ok(1,2)[of k] unfolding tx_data_def demo_kfs_ok(6) e by (simp add: demo_lg_def MAXOPBLOCKS_def dirty_def)
  show "log_idle 0 1 (demo_kfs 0)"
    using d[of 0] demo_kfs_ok(9)[of LogLock 0] unfolding log_idle_def demo_kfs_ok(3,4,6) log_clear_def e by (simp add: demo_lg_def demo_fsdisk_def zero_block_def)
  have "tx_inv 0 1 (demo_kfs 1)" using d[of 1] demo_kfs_ok(9)[of LogLock 1] by (simp add: tx_inv_def demo_kfs_ok(6)) (simp add: demo_lg_def)
  then show "fs_inv 0 1 {} (demo_kfs 1)" using demo_bitmap(4) by (simp add: fs_inv_def tx_held_empty) (simp add: demo_kfs_ok demo_sb_def BPB_def BSIZE_def)
qed

lemma demo_drv: "drv (demo_fsenv :: kfs fsenv) = iderw"
  by (simp add: demo_fsenv_def)

theorem writei_then_readi_witness:
  "\<exists>t u. writei demo_fsenv 0 [1, 2, 3] 0 (demo_kfs 1) = Inr (3, t) \<and> readi demo_fsenv 0 0 3 t = Inr (Some [1, 2, 3], u)"
proof -
  have "can_write 0 0 (length [1, 2, 3 :: u8]) (demo_kfs 1)" by (rule demo_can_write) (simp_all add: BSIZE_def)
  from writei_then_readi[OF demo_fs_inv(1) demo_drv this] show ?thesis by auto
qed

theorem file_write_atomic_witness:
  "\<exists>s1 s2 t. begin_op demo_fsenv (demo_kfs 0) = Inr s1 \<and> writei demo_fsenv 0 [1, 2, 3] 0 s1 = Inr (3, s2) \<and> end_op demo_fsenv s2 = Inr t \<and>
     disk t 58 = fsview s2 58"
proof -
  have "can_write 0 0 (length [1, 2, 3 :: u8]) (demo_kfs 0)" by (rule demo_can_write) (simp_all add: BSIZE_def)
  moreover have "unat (sbsize (sb (demo_kfs 0))) \<le> BPB" by (simp add: demo_kfs_ok demo_sb_def BPB_def BSIZE_def)
  moreover have "\<not> in_log (lg (demo_kfs 0)) 58" using demo_outside_log[of 0] by (simp add: outside_log_def demo_bitmap(2))
  ultimately show ?thesis
    using file_write_atomic[OF demo_fs_inv(2) demo_drv demo_bitmap(4), of 0 0 "[1, 2, 3]"] demo_outside_log[of 0] by auto
qed

theorem balloc_first_free_witness:
  "\<exists>t. balloc demo_fsenv 1 (demo_kfs 1) = Inr (64, t) \<and> fsview t 64 = zero_block"
proof -
  have "first_free (demo_kfs 1) 0 64" by (simp add: first_free_def demo_bitmap(3)) (simp add: demo_kfs_ok demo_sb_def)
  moreover have "tx_held 0 1 {} (demo_kfs 1)" using demo_fs_inv(1) by (simp add: fs_inv_def)
  moreover have "card (dirty (demo_kfs 1) \<union> {bm_block (demo_kfs 1) 64, of_nat 64}) \<le> 10" by (simp add: demo_kfs_ok(2) card_insert_if)
  ultimately show ?thesis
    using balloc_first_free[of 0 1 "{}" "demo_kfs 1" demo_fsenv 64] demo_drv demo_bitmap(4) by (auto simp: not_held_def)
qed

end
