(* ===== verification/ConsoleDev.thy ===== *)
theory ConsoleDev
  imports FsWrite Pipe ConsoleEdit
begin

text \<open>
  The console as a device file (\<^verbatim>\<open>consoleread\<close>, \<^verbatim>\<open>consolewrite\<close>, \<^verbatim>\<open>consoleinit\<close> and \<^verbatim>\<open>panic\<close> of \<^verbatim>\<open>console.c\<close>). The inner loop of \<^verbatim>\<open>consoleread\<close> that
  waits for input may go to sleep as often as its fuel says.
\<close>

section \<open>Definitions\<close>

definition CONSOLE :: int where "CONSOLE = 1"

primrec consoleread_wait ::
  "('a kconsole_scheme \<Rightarrow> ('a kconsole_scheme) kres) \<Rightarrow> nat \<Rightarrow> 'a kconsole_scheme \<Rightarrow> (bool \<times> 'a kconsole_scheme) kres" where
  "consoleread_wait sw 0 s =
     (if ir (con s) = iw (con s) then
        kbind (cur_killed s) (\<lambda>(k, s1). if k then Inr (False, s1) else Inl (Sleeps InputChan))
      else Inr (True, s))"
| "consoleread_wait sw (Suc f) s =
     (if ir (con s) = iw (con s) then
        kbind (cur_killed s) (\<lambda>(k, s1). if k then Inr (False, s1)
          else kbind (sleep sw InputChan (Some ConsLock) s1) (consoleread_wait sw f))
      else Inr (True, s))"

text \<open>The outer loop; \<open>started\<close> says that a byte has been delivered already. Control-D is 4.\<close>

primrec consoleread_loop ::
  "('a kconsole_scheme \<Rightarrow> ('a kconsole_scheme) kres) \<Rightarrow> nat \<Rightarrow> nat \<Rightarrow> bool \<Rightarrow> 'a kconsole_scheme \<Rightarrow> (u8 list option \<times> 'a kconsole_scheme) kres" where
  "consoleread_loop sw fuel 0 started s = Inr (Some [], s)"
| "consoleread_loop sw fuel (Suc n) started s =
     kbind (consoleread_wait sw fuel s) (\<lambda>(ready, s1).
     if \<not> ready then Inr (None, s1)
     else
       let c = buf_get (ir (con s1)) (con s1);
           s2 = s1\<lparr>con := (con s1)\<lparr>ir := ir (con s1) + 1\<rparr>\<rparr> in
       if c = 4 then Inr (Some [], if started then s2\<lparr>con := (con s2)\<lparr>ir := ir (con s2) - 1\<rparr>\<rparr> else s2)
       else if c = 10 then Inr (Some [c], s2)
       else kbind (consoleread_loop sw fuel n True s2) (\<lambda>(r, s3). Inr (map_option ((#) c) r, s3)))"

definition consoleread :: "('a kfs_scheme) fsenv \<Rightarrow> nat \<Rightarrow> u32 \<Rightarrow> 'a kfs_scheme \<Rightarrow> (u8 list option \<times> 'a kfs_scheme) kres" where
  "consoleread E i n s =
     kbind (iunlock (Some i) s) (\<lambda>s1.
     kbind (acquire ConsLock s1) (\<lambda>s2.
     kbind (consoleread_loop (fsw E) (tries E) (nat (sint n)) False s2) (\<lambda>(r, s3).
     kbind (release ConsLock s3) (\<lambda>s4.
     kbind (ilock E (Some i) s4) (\<lambda>s5. Inr (r, s5))))))"

definition consolewrite :: "('a kfs_scheme) fsenv \<Rightarrow> nat \<Rightarrow> u8 list \<Rightarrow> 'a kfs_scheme \<Rightarrow> (int \<times> 'a kfs_scheme) kres" where
  "consolewrite E i bs s =
     kbind (iunlock (Some i) s) (\<lambda>s1.
     kbind (acquire ConsLock s1) (\<lambda>s2.
     kbind (consputcs (map uint bs) (con s2)) (\<lambda>k.
     kbind (release ConsLock (s2\<lparr>con := k\<rparr>)) (\<lambda>s4.
     kbind (ilock E (Some i) s4) (\<lambda>s5. Inr (int (length bs), s5))))))"

text \<open>
  \<^verbatim>\<open>consoleinit\<close> makes the console device number 1 of the table of devices, which is part of the environment.
  \<open>enable\<close> is \<^verbatim>\<open>ioapicenable\<close> of the keyboard interrupt.
\<close>

definition console_env :: "('a kfs_scheme) fsenv \<Rightarrow> ('a kfs_scheme) fsenv" where
  "console_env E = E\<lparr>devread := (devread E)(CONSOLE := Some (consoleread E)), devwrite := (devwrite E)(CONSOLE := Some (consolewrite E))\<rparr>"

definition consoleinit :: "('a kfs_scheme \<Rightarrow> 'a kfs_scheme) \<Rightarrow> ('a kfs_scheme) fsenv \<Rightarrow> 'a kfs_scheme \<Rightarrow> ('a kfs_scheme) fsenv \<times> 'a kfs_scheme" where
  "consoleinit enable E s = (console_env E, enable ((initlock ConsLock ''console'' s)\<lparr>cons_locking := True\<rparr>))"

text \<open>
  \<^verbatim>\<open>panic\<close> prints its message without a lock and freezes the machine: the result is the state in which
  the CPU then loops for ever.
\<close>

primrec panic_pcs :: "u32 list \<Rightarrow> 'a kcons_scheme \<Rightarrow> ('a kcons_scheme) kres" where
  "panic_pcs [] s = Inr s"
| "panic_pcs (a # as) s = kbind (cprintf '' %p'' [AInt a] s) (panic_pcs as)"

definition panic :: "string \<Rightarrow> 'a kconsole_scheme \<Rightarrow> ('a kconsole_scheme) kres" where
  "panic msg s =
     (let s0 = (cli s)\<lparr>cons_locking := False\<rparr> in
      kbind (cprintf ''lapicid %d: panic: '' [AInt (of_nat (lapicid s0))] s0) (\<lambda>s1.
      kbind (cprintf msg [] s1) (\<lambda>s2.
      kbind (cprintf [CHR 0x0A] [] s2) (\<lambda>s3.
      kbind (panic_pcs (getcallerpcs (mem s3) (frame s3)) s3) (\<lambda>s4.
      Inr (s4\<lparr>con := (con s4)\<lparr>panicked := True\<rparr>\<rparr>))))))"

lemma panic_freezes: "panic msg s = Inr t \<Longrightarrow> consputc ch (con t) = Inl (Panic ''frozen'')"
  by (auto simp: panic_def Let_def kbind_eq_Inr consputc_def)

section \<open>Unread input\<close>

definition unread :: "console \<Rightarrow> u8 list" where
  "unread k = map (\<lambda>j. buf_get (ir k + of_nat j) k) [0..<unat (iw k - ir k)]"

lemma unread_Cons:
  assumes "unread k = c # cs"
  shows "ir k \<noteq> iw k" "buf_get (ir k) k = c" "unread (k\<lparr>ir := ir k + 1\<rparr>) = cs"
proof -
  have n: "unat (iw k - ir k) = Suc (length cs)" using arg_cong[OF assms, of length] by (simp add: unread_def)
  show ne: "ir k \<noteq> iw k" using n by auto
  have u: "unat (iw k - (ir k + 1)) = length cs"
    using n by (simp add: diff_diff_add[symmetric] unat_minus_one ne[symmetric])
  have "[0..<Suc (length cs)] = 0 # map Suc [0..<length cs]" by (simp add: map_Suc_upt upt_conv_Cons del: upt_Suc)
  then have p: "unread k = buf_get (ir k) k # map (\<lambda>j. buf_get (ir k + 1 + of_nat j) k) [0..<length cs]"
    unfolding unread_def n by (simp add: add.assoc comp_def)
  show "buf_get (ir k) k = c" using p assms by simp
  have "buf_get x (k\<lparr>ir := y\<rparr>) = buf_get x k" for x y by (simp add: buf_get_def)
  then show "unread (k\<lparr>ir := ir k + 1\<rparr>) = cs" using p assms u by (simp add: unread_def)
qed

lemma wait_ready: "ir (con s) \<noteq> iw (con s) \<Longrightarrow> consoleread_wait sw fuel s = Inr (True, s)"
  by (cases fuel) simp_all

text \<open>\<open>t\<close> is \<open>s\<close> after the first \<open>n\<close> unread bytes have been taken.\<close>

definition taken :: "nat \<Rightarrow> 'a kconsole_scheme \<Rightarrow> 'a kconsole_scheme" where
  "taken n s = s\<lparr>con := (con s)\<lparr>ir := ir (con s) + of_nat n\<rparr>\<rparr>"

lemma taken_Suc: "taken n (s\<lparr>con := (con s)\<lparr>ir := ir (con s) + 1\<rparr>\<rparr>) = taken (Suc n) s"
  by (simp add: taken_def algebra_simps)

lemma taken_0 [simp]: "taken 0 s = s"
  by (simp add: taken_def)

lemma consoleread_prefix:
  assumes "unread (con s) = L @ rest" "4 \<notin> set L" "10 \<notin> set L" "length L \<le> n"
  shows "consoleread_loop sw fuel n st s =
     kbind (consoleread_loop sw fuel (n - length L) (st \<or> L \<noteq> []) (taken (length L) s)) (\<lambda>(r, t). Inr (map_option ((@) L) r, t))
     \<and> unread (con (taken (length L) s)) = rest"
  using assms
proof (induction L arbitrary: n st s)
  case Nil
  then show ?case by (cases "consoleread_loop sw fuel n st s") (auto simp: kbind_def option.map_ident)
next
  case (Cons c L)
  obtain m where n: "n = Suc m" "length L \<le> m" using Cons.prems(4) by (cases n) auto
  note U = unread_Cons[of "con s" c "L @ rest", simplified, OF Cons.prems(1)[simplified]]
  let ?s = "s\<lparr>con := (con s)\<lparr>ir := ir (con s) + 1\<rparr>\<rparr>"
  have u: "unread (con ?s) = L @ rest" using U(3) by simp
  note IH = Cons.IH[of ?s m True, OF u _ _ n(2)]
  show ?case using Cons.prems(2,3) IH n wait_ready[OF U(1)] U(2)
    by (cases "consoleread_loop sw fuel (m - length L) True (taken (Suc (length L)) s)")
      (auto simp: taken_Suc Let_def option.map_comp comp_def kbind_def)
qed

lemma consoleread_line:
  assumes "unread (con s) = L @ 10 # rest" "4 \<notin> set L" "10 \<notin> set L" "length L < n"
  shows "consoleread_loop sw fuel n st s = Inr (Some (L @ [10]), taken (length L + 1) s)" "unread (con (taken (length L + 1) s)) = rest"
proof -
  let ?t = "taken (length L) s"
  have p: "consoleread_loop sw fuel n st s =
      kbind (consoleread_loop sw fuel (n - length L) (st \<or> L \<noteq> []) ?t) (\<lambda>(r, t). Inr (map_option ((@) L) r, t))" "unread (con ?t) = 10 # rest"
    using consoleread_prefix[OF assms(1-3), of n] assms(4) by simp_all
  note U = unread_Cons[OF p(2)]
  have t1: "?t\<lparr>con := (con ?t)\<lparr>ir := ir (con ?t) + 1\<rparr>\<rparr> = taken (length L + 1) s" by (simp add: taken_def algebra_simps)
  obtain m where "n - length L = Suc m" using assms(4) by (metis Suc_diff_Suc)
  then show "consoleread_loop sw fuel n st s = Inr (Some (L @ [10]), taken (length L + 1) s)"
    using p(1) wait_ready[OF U(1)] U(2) t1 by (simp add: Let_def)
  show "unread (con (taken (length L + 1) s)) = rest" using U(3) t1[symmetric] by simp
qed

lemma consoleread_full:
  assumes "unread (con s) = L @ rest" "4 \<notin> set L" "10 \<notin> set L" "length L = n"
  shows "consoleread_loop sw fuel n st s = Inr (Some L, taken n s)" "unread (con (taken n s)) = rest"
  using consoleread_prefix[OF assms(1-3), of n] assms(4) by auto

lemma consoleread_eof:
  assumes "unread (con s) = L @ 4 # rest" "4 \<notin> set L" "10 \<notin> set L" "length L < n"
  shows "consoleread_loop sw fuel n False s = Inr (Some L, taken (if L = [] then 1 else length L) s)"
    "unread (con (taken (if L = [] then 1 else length L) s)) = (if L = [] then rest else 4 # rest)"
proof -
  let ?t = "taken (length L) s"
  have p: "consoleread_loop sw fuel n False s =
      kbind (consoleread_loop sw fuel (n - length L) (False \<or> L \<noteq> []) ?t) (\<lambda>(r, t). Inr (map_option ((@) L) r, t))" "unread (con ?t) = 4 # rest"
    using consoleread_prefix[OF assms(1-3), of n] assms(4) by simp_all
  note U = unread_Cons[OF p(2)]
  obtain m where "n - length L = Suc m" using assms(4) by (metis Suc_diff_Suc)
  then show "consoleread_loop sw fuel n False s = Inr (Some L, taken (if L = [] then 1 else length L) s)"
    using p(1) wait_ready[OF U(1)] U(2) by (auto simp: Let_def taken_def)
  show "unread (con (taken (if L = [] then 1 else length L) s)) = (if L = [] then rest else 4 # rest)"
    using U(3) p(2) by (auto simp: taken_def)
qed

section \<open>The locks around reading\<close>

lemma holdingsleep_owner:
  assumes "sl_ready c p l s" "slocked (slocks s l)" "slpid (slocks s l) = pid (ptable s ! p)"
  shows "\<exists>t. holdingsleep l s = Inr (True, t) \<and> core t = core s \<and> ptable t = ptable s \<and> slocks t = slocks s \<and> ksleep.more t = ksleep.more s"
proof -
  note A = sl_acquire[OF assms(1)]
  let ?a = "touched c (acquired (SleepLk l) c s)"
  have "core ?a = take_lock (SleepLk l) c (core s)" using A by simp
  note R = sl_release[OF assms(1) this]
  show ?thesis
    by (rule exI[of _ "released (SleepLk l) c ?a"]) (use assms(2,3) A R in \<open>simp add: holdingsleep_def cur_pid_ok[of c _ p]\<close>)
qed

text \<open>A process on its CPU with the inode of the console locked.\<close>

definition at_console :: "nat \<Rightarrow> nat \<Rightarrow> nat \<Rightarrow> 'a kfs_scheme \<Rightarrow> bool" where
  "at_console c p i s \<longleftrightarrow> cpu_ok c (core s) \<and> cur c (core s) = Some p \<and> lock_free (SleepLk (InodeSl i)) (core s) \<and> lock_free PtableLock (core s) \<and>
     lock_free ConsLock (core s) \<and> slocked (slocks s (InodeSl i)) \<and> slpid (slocks s (InodeSl i)) = pid (ptable s ! p) \<and> p < length (ptable s) \<and>
     1 \<le> iref (icache s ! i) \<and> ivalid (icache s ! i)"

lemma more_con: "ksleep.more t = ksleep.more s \<Longrightarrow> con t = con s" "ksleep.more t = ksleep.more s \<Longrightarrow> icache t = icache s"
  by (cases s; cases t; simp)+

lemma iunlock_console:
  assumes "at_console c p i s"
  obtains t where "iunlock (Some i) s = Inr t" "core t = core s" "con t = con s" "icache t = icache s" "map pid (ptable t) = map pid (ptable s)"
    "\<not> slocked (slocks t (InodeSl i))"
proof -
  have r: "sl_ready c p (InodeSl i) s" using assms by (simp add: at_console_def sl_ready_def)
  obtain u where u: "holdingsleep (InodeSl i) s = Inr (True, u)" "core u = core s" "ptable u = ptable s" "slocks u = slocks s" "ksleep.more u = ksleep.more s"
    using holdingsleep_owner[OF r] assms by (auto simp: at_console_def)
  have ru: "sl_ready c p (InodeSl i) u" using r u(2) by (simp add: sl_ready_def)
  obtain t where t: "releasesleep (InodeSl i) u = Inr t" "core t = core u" "ksleep.more t = ksleep.more u"
    "slocks t = (slocks u)(InodeSl i := (slocks u (InodeSl i))\<lparr>slocked := False, slpid := 0\<rparr>)"
    "ptable t = map (\<lambda>p. if pstate p = SLEEPING \<and> pchan p = SleepChan (InodeSl i) then p\<lparr>pstate := RUNNABLE\<rparr> else p) (ptable u)"
    using releasesleep_owner[OF ru] assms u by (auto simp: at_console_def)
  have "iunlock (Some i) s = Inr t" using u(1) t(1) more_con(2)[OF u(5)] assms by (simp add: iunlock_def at_console_def)
  then show thesis by (rule that) (use t u more_con[OF t(3)] more_con[OF u(5)] in \<open>simp_all add: comp_def\<close>)
qed

lemma ilock_console:
  assumes "sl_ready c p (InodeSl i) s" "\<not> slocked (slocks s (InodeSl i))" "1 \<le> iref (icache s ! i)" "ivalid (icache s ! i)"
  obtains t where "ilock E (Some i) s = Inr t" "core t = core s" "con t = con s" "icache t = icache s" "ptable t = ptable s"
    "slocked (slocks t (InodeSl i))" "slpid (slocks t (InodeSl i)) = pid (ptable s ! p)"
proof -
  obtain t where t: "acquiresleep (fsw E) (tries E) (InodeSl i) s = Inr t" "core t = core s" "ptable t = ptable s" "ksleep.more t = ksleep.more s"
    "slocks t = (slocks s)(InodeSl i := (slocks s (InodeSl i))\<lparr>slocked := True, slpid := pid (ptable s ! p)\<rparr>)"
    using acquiresleep_free[OF assms(1,2), of "fsw E" "tries E"] by blast
  have "ilock E (Some i) s = Inr t" using t(1) more_con(2)[OF t(4)] assms(3,4) by (simp add: ilock_def)
  then show thesis by (rule that) (use t more_con[OF t(4)] in simp_all)
qed

lemma consoleread_locks:
  assumes a: "at_console c p i s" and l: "\<And>s'. con s' = con s \<Longrightarrow> consoleread_loop (fsw E) (tries E) (nat (sint n)) False s' = Inr (r, taken k s')"
  obtains t where "consoleread E i n s = Inr (r, t)" "core t = core s" "con t = con (taken k s)" "icache t = icache s" "at_console c p i t"
proof -
  note A = a[unfolded at_console_def]
  obtain s1 where 1: "iunlock (Some i) s = Inr s1" "core s1 = core s" "con s1 = con s" "icache s1 = icache s" "map pid (ptable s1) = map pid (ptable s)"
    "\<not> slocked (slocks s1 (InodeSl i))" by (rule iunlock_console[OF a])
  have ok: "cpu_ok c (core s1)" "lock_free ConsLock (core s1)" using A 1(2) by simp_all
  let ?s2 = "acquired ConsLock c s1" and ?s4 = "released ConsLock c (taken k (acquired ConsLock c s1))"
  have a2: "acquire ConsLock s1 = Inr ?s2" "core ?s2 = take_lock ConsLock c (core s1)" using ok by (simp_all add: acquire_ok[of c])
  have c2: "con ?s2 = con s" "core (taken k ?s2) = take_lock ConsLock c (core s1)" using 1(3) a2(2) by (simp_all add: acquired_def taken_def core_def)
  have a4: "release ConsLock (taken k ?s2) = Inr ?s4" "core ?s4 = core s1" using ok c2(2) by (auto intro!: release_ok)
  have c4: "con ?s4 = con (taken k s)" "icache ?s4 = icache s" "ptable ?s4 = ptable s1" "slocks ?s4 = slocks s1"
    using 1(3,4) by (simp_all add: acquired_def released_def taken_def)
  have lp: "length (ptable s1) = length (ptable s)" using arg_cong[OF 1(5), of length] by simp
  have "pid (ptable s1 ! p) = map pid (ptable s1) ! p" using A lp by simp
  also have "\<dots> = pid (ptable s ! p)" using A 1(5) by simp
  finally have pd: "pid (ptable s1 ! p) = pid (ptable s ! p)" .
  have r4: "sl_ready c p (InodeSl i) ?s4" using A 1(2) a4(2) by (simp add: sl_ready_def)
  obtain t where t: "ilock E (Some i) ?s4 = Inr t" "core t = core ?s4" "con t = con ?s4" "icache t = icache ?s4" "ptable t = ptable ?s4"
    "slocked (slocks t (InodeSl i))" "slpid (slocks t (InodeSl i)) = pid (ptable ?s4 ! p)"
    by (rule ilock_console[OF r4]) (use c4 1(6) A in auto)
  have "consoleread E i n s = Inr (r, t)" using 1(1) a2(1) l[OF c2(1)] a4(1) t(1) by (simp add: consoleread_def)
  then show thesis by (rule that) (use t c4 a4 1(2) A lp in \<open>auto simp: at_console_def\<close>)
qed

section \<open>The enter key\<close>

lemma consputc_newline:
  assumes "\<not> panicked k" "0 \<le> crtpos k" "crtpos k < 1920"
  shows "\<exists>t. consputc 10 k = Inr t \<and> same_but_screen t k"
proof -
  have "0 < 80 - crtpos k mod 80 \<and> 80 - crtpos k mod 80 \<le> 80" by simp
  then have p: "0 \<le> crtpos k + (80 - crtpos k mod 80)" "crtpos k + (80 - crtpos k mod 80) \<le> 2000" using assms(2,3) by linarith+
  have sb: "same_but_screen (k\<lparr>uart_out := u, crtpos := q, crt := m\<rparr>) k" for u q m
    using same_but_screenI[where s = k and u = u and m = m and p = q] by (cases k) simp
  show ?thesis using assms(1) p
    by (auto simp: consputc_def BACKSPACE_def cgaputc_def getpos_def uartputc_def Let_def conserasechar_def setpos_def not_less not_le intro: sb)
qed

definition same_input :: "console \<Rightarrow> console \<Rightarrow> bool" where
  "same_input t k \<longleftrightarrow> ibuf t = ibuf k \<and> iw t = iw k \<and> ie t = ie k \<and> ir t = ir k"

lemma reset_before_enter:
  assumes "edits k L R" "iw k \<le> ie k" "unat (ie k) < 128"
  shows "\<exists>t. (if ie k - iw k > 0 then kbind (resetcmds k) (\<lambda>s1. Inr (s1\<lparr>ishift := 0\<rparr>)) else Inr k) = Inr t \<and>
     same_input t k \<and> ishift t = 0 \<and> \<not> panicked t \<and> 0 \<le> crtpos t \<and> crtpos t < 1920"
proof -
  note P = edits_pos[OF assms(1)]
  have e: "length (ibuf k) = 128" "\<not> panicked k" using assms(1) by (simp_all add: edits_def shown_def)
  show ?thesis
  proof (cases "ie k - iw k > 0")
    case True
    have lt: "iw k < ie k" using True assms(2) by (metis diff_self less_irrefl order_le_less)
    have "uint (ishift k) = int (length R)" using assms(1) unfolding edits_def uint_nat by simp
    then have "0 \<le> crtpos k + uint (ishift k)" "crtpos k + uint (ishift k) < 1920" using P(1,2) by linarith+
    then show ?thesis using True lt e assms(3)
      by (simp add: resetcmds_def storecmd_def raw_line_def Let_def INPUT_BUF_def movpostoend_def setpos_def getpos_def same_input_def)
  next
    case False
    then have "ie k - iw k = 0" by (simp add: word_gt_0)
    then have "L @ R = []" using edits_llen[OF assms(1)] by (simp add: llen_def)
    then show ?thesis using False P(1-3) e by (simp add: same_input_def)
  qed
qed

lemma enter_key:
  assumes "edits k L R" "ir k = iw k" "iw k \<le> ie k" "unat (ie k) < 128"
  shows "\<exists>t. conskey 13 k = Inr (LineReady, t) \<and> unread t = L @ R @ [10]"
proof -
  have e: "length (ibuf k) = 128" "line k = L @ R" using assms(1) by (simp_all add: edits_def)
  have ln: "length (L @ R) < 128" using edits_llen[OF assms(1)] assms(3,4) unat_sub[OF assms(3)] by (simp add: llen_def)
  have rm: "unat (ie k - ir k) < INPUT_BUF" using assms(2-4) unat_sub[OF assms(3)] by (simp add: INPUT_BUF_def)
  obtain s1 where s1: "(if ie k - iw k > 0 then kbind (resetcmds k) (\<lambda>s1. Inr (s1\<lparr>ishift := 0\<rparr>)) else Inr k) = Inr s1"
    "same_input s1 k" "ishift s1 = 0" "\<not> panicked s1" "0 \<le> crtpos s1" "crtpos s1 < 1920"
    using reset_before_enter[OF assms(1,3,4)] by blast
  have f: "ibuf s1 = ibuf k" "iw s1 = iw k" "ie s1 = ie k" "ir s1 = iw k" using s1(2) assms(2) by (simp_all add: same_input_def)
  have ls: "line s1 = L @ R" using line_cong[of s1 k] f e(2) by simp
  let ?b = "iset (ie s1) 10 s1"
  obtain t2 where t2: "consputc 10 ?b = Inr t2" "same_but_screen t2 ?b" using consputc_newline[of ?b] s1(4-6) by auto
  note D = same_but_screenD[OF t2(2)]
  have "inputputc 10 s1 = Inr (t2\<lparr>ie := ie t2 + 1\<rparr>)" using s1(3) t2(1) by (simp add: inputputc_def)
  then have k: "conskey 13 k = Inr (LineReady, t2\<lparr>ie := ie t2 + 1, iw := ie t2 + 1\<rparr>)"
    using s1(1) rm by (simp add: conskey_def Ctrl_values ARROW_UP_def ARROW_DOWN_def default_key_def)
  have "unread (t2\<lparr>ie := ie t2 + 1, iw := ie t2 + 1\<rparr>) = line (?b\<lparr>ie := ie s1 + 1\<rparr>)"
    using D f by (simp add: unread_def line_def buf_get_def)
  also have "\<dots> = L @ R @ [10]" using append_line(2)[of s1 "L @ R" 10] e(1) f(1) ls ln by simp
  finally show ?thesis using k by blast
qed

lemma consoleintr_line:
  assumes a: "at_console c p i s" and k: "conskey key (con s) = Inr (LineReady, k)"
  obtains t where "consoleintr dump [key] s = Inr t" "con t = k" "icache t = icache s" "at_console c p i t"
proof -
  note A = a[unfolded at_console_def]
  let ?a = "acquired ConsLock c s"
  have a2: "acquire ConsLock s = Inr ?a" "core ?a = take_lock ConsLock c (core s)" using A by (simp_all add: acquire_ok[of c])
  have c: "con ?a = con s" "icache ?a = icache s" "ptable ?a = ptable s" by (simp_all add: acquired_def)
  let ?b = "?a\<lparr>con := k\<rparr>"
  have cb: "core ?b = take_lock ConsLock c (core s)" using a2(2) by (simp add: core_def)
  have "proc_ready c ?b" using A cb by (simp add: proc_ready_def)
  from wakeup_slocks[OF this, of InputChan] obtain u where u: "wakeup InputChan ?b = Inr u" "core u = core ?b" "slocks u = slocks ?b" "ksleep.more u = ksleep.more ?b"
    "ptable u = map (\<lambda>p. if pstate p = SLEEPING \<and> pchan p = InputChan then p\<lparr>pstate := RUNNABLE\<rparr> else p) (ptable ?b)" by blast
  have r: "release ConsLock u = Inr (released ConsLock c u)" "core (released ConsLock c u) = core s" using A u(2) cb by (auto intro!: release_ok)
  have "consoleintr dump [key] s = Inr (released ConsLock c u)"
    using a2(1) c(1) k u(1) r(1) by (simp add: consoleintr_def Let_def)
  moreover have f: "con (released ConsLock c u) = k" "icache (released ConsLock c u) = icache s"
    using more_con[OF u(4)] c(2) by (simp_all add: released_def)
  have pd: "pid (ptable u ! p) = pid (ptable s ! p)" "length (ptable u) = length (ptable s)" using A u(5) c(3) by simp_all
  have "slocks u = slocks s" using u(3) by simp
  then have "at_console c p i (released ConsLock c u)"
    using A r(2) f(2) pd by (simp add: at_console_def)
  ultimately show thesis using f by (intro that)
qed

section \<open>Properties\<close>


text \<open>The line \<open>ab\<close> is being edited by the process that has the console open as inode 0.\<close>

definition demo_tty :: kfs where
  "demo_tty = (let s = demo_kfs 0 in
     s\<lparr>con := demo_con, icache := [demo_inode\<lparr>itype := T_DEV, imajor := CONSOLE\<rparr>],
       slocks := (slocks s)(InodeSl 0 := \<lparr>slocked = True, slname = ''inode'', slpid = pid (ptable s ! 1)\<rparr>)\<rparr>)"

lemma demo_tty_ok: "at_console 0 1 0 demo_tty" "con demo_tty = demo_con" "itype (icache demo_tty ! 0) = T_DEV" "imajor (icache demo_tty ! 0) = CONSOLE"
proof -
  have c: "core demo_tty = core (demo_kfs 0)" by (simp add: demo_tty_def core_def Let_def)
  have "bio_idle 0 1 (demo_kfs 0)" using bio_invD(1)[OF demo_kfs_ok(1)] .
  then show "at_console 0 1 0 demo_tty" using demo_kfs_ok(9)[of _ 0]
    unfolding at_console_def c bio_idle_def by (simp add: demo_tty_def Let_def demo_inode_def)
qed (simp_all add: demo_tty_def Let_def)


end
