(* ===== verification/Keyboard.thy ===== *)
theory Keyboard
  imports ConsoleDev
begin

unbundle bit_operations_syntax

text \<open>
  The keyboard (\<^verbatim>\<open>kbd.c\<close>, \<^verbatim>\<open>kbd.h\<close>) and the receiving side of the serial port (\<^verbatim>\<open>uart.c\<close>): from scan codes to the
  characters that the interrupt handler of the console gets. What the controllers deliver is an argument.
\<close>

section \<open>Tables\<close>

definition SHIFT :: u32 where "SHIFT = 1"

definition CTL :: u32 where "CTL = 2"

definition ALT :: u32 where "ALT = 4"

definition CAPSLOCK :: u32 where "CAPSLOCK = 8"

definition NUMLOCK :: u32 where "NUMLOCK = 16"

definition SCROLLLOCK :: u32 where "SCROLLLOCK = 32"

definition E0ESC :: u32 where "E0ESC = 64"

definition shiftcode :: "u32 \<Rightarrow> u32" where
  "shiftcode d =
     (if d = 0x1D \<or> d = 0x9D then CTL else if d = 0x2A \<or> d = 0x36 then SHIFT else if d = 0x38 \<or> d = 0xB8 then ALT else 0)"

definition togglecode :: "u32 \<Rightarrow> u32" where
  "togglecode d = (if d = 0x3A then CAPSLOCK else if d = 0x45 then NUMLOCK else if d = 0x46 then SCROLLLOCK else 0)"

text \<open>The keys with codes above \<open>0x7f\<close>, the same in all three maps up to the keypad's enter and divide keys.\<close>

definition special_key :: "u32 \<Rightarrow> int" where
  "special_key d =
     (if d = 0xC8 then 0xE2 else if d = 0xD0 then 0xE3 else if d = 0xC9 then 0xE6 else if d = 0xD1 then 0xE7
      else if d = 0xCB then 0xE4 else if d = 0xCD then 0xE5 else if d = 0x97 then 0xE0 else if d = 0xCF then 0xE1
      else if d = 0xD2 then 0xE8 else if d = 0xD3 then 0xE9 else 0)"

definition normal_rows :: "int list" where
  "normal_rows =
     [0, 0x1B] @ map of_char ''1234567890-='' @ [8, 9] @
     map of_char ''qwertyuiop[]'' @ [10, 0] @ map of_char ''asdfghjkl;'' @
     [39, 96, 0, 92] @ map of_char ''zxcvbnm,./'' @ [0] @ map of_char ''*'' @ [0, 32] @ replicate 13 0 @
     map of_char ''789-456+1230.''"

definition normalmap :: "u32 \<Rightarrow> int" where
  "normalmap d = (if unat d < length normal_rows then normal_rows ! unat d
     else if d = 0x9C then 10 else if d = 0xB5 then 47 else special_key d)"

definition shift_rows :: "int list" where
  "shift_rows =
     [0, 27] @ map of_char ''!@#$%^&*()_+'' @ [8, 9] @
     map of_char ''QWERTYUIOP{}'' @ [10, 0] @ map of_char ''ASDFGHJKL:'' @
     [34, 126, 0, 124] @ map of_char ''ZXCVBNM<>?'' @ [0] @ map of_char ''*'' @ [0, 32] @ replicate 13 0 @
     map of_char ''789-456+1230.''"

definition shiftmap :: "u32 \<Rightarrow> int" where
  "shiftmap d = (if unat d < length shift_rows then shift_rows ! unat d
     else if d = 0x9C then 10 else if d = 0xB5 then 47 else special_key d)"

definition ctl_rows :: "int list" where
  "ctl_rows =
     replicate 16 0 @ map Ctrl ''QWERTYUIOP'' @ [0, 0, 13, 0] @ map Ctrl ''ASDFGHJKL'' @ [0, 0, 0, 0, 92 - 64] @
     map Ctrl ''ZXCVBNM'' @ [0, 0, 256 + (47 - 64)]"

definition ctlmap :: "u32 \<Rightarrow> int" where
  "ctlmap d = (if unat d < length ctl_rows then ctl_rows ! unat d
     else if d = 0x9C then 13 else if d = 0xB5 then 256 + (47 - 64) else special_key d)"

section \<open>Reading a key\<close>

definition kbd_char :: "u32 \<Rightarrow> u32 \<Rightarrow> int" where
  "kbd_char sh d =
     (let m = sh AND (CTL OR SHIFT);
          c = (if m = 0 then normalmap d else if m = 1 then shiftmap d else ctlmap d)
      in if sh AND CAPSLOCK \<noteq> 0 then
           if 97 \<le> c \<and> c \<le> 122 then c - 32 else if 65 \<le> c \<and> c \<le> 90 then c + 32 else c
         else c)"

text \<open>\<open>st\<close> is the status port, \<open>d\<close> the data port; the result is the character and the new state of the modifiers.\<close>

definition kbdgetc :: "u32 \<Rightarrow> u32 \<Rightarrow> u32 \<Rightarrow> int \<times> u32" where
  "kbdgetc st d sh =
     (if st AND 1 = 0 then (- 1, sh)
      else if d = 0xE0 then (0, sh OR E0ESC)
      else if d AND 0x80 \<noteq> 0 then
        let d1 = (if sh AND E0ESC \<noteq> 0 then d else d AND 0x7F) in (0, sh AND NOT (shiftcode d1 OR E0ESC))
      else
        let d1 = (if sh AND E0ESC \<noteq> 0 then d OR 0x80 else d);
            sh1 = (if sh AND E0ESC \<noteq> 0 then sh AND NOT E0ESC else sh);
            sh2 = (sh1 OR shiftcode d1) XOR togglecode d1
        in (kbd_char sh2 d1, sh2))"

text \<open>The scan codes that are waiting when the interrupt handler runs, one character for each.\<close>

primrec kbd_chars :: "u32 list \<Rightarrow> u32 \<Rightarrow> int list \<times> u32" where
  "kbd_chars [] sh = ([], sh)"
| "kbd_chars (d # ds) sh = (let (c, sh1) = kbdgetc 1 d sh; (cs, sh2) = kbd_chars ds sh1 in (c # cs, sh2))"

definition kbdintr ::
  "('a kconsole_scheme \<Rightarrow> ('a kconsole_scheme) kres) \<Rightarrow> u32 list \<Rightarrow> u32 \<times> 'a kconsole_scheme \<Rightarrow> (u32 \<times> 'a kconsole_scheme) kres" where
  "kbdintr dump ds z =
     (case kbd_chars ds (fst z) of (cs, sh) \<Rightarrow> kbind (consoleintr dump cs (snd z)) (\<lambda>s. Inr (sh, s)))"

definition uartgetc :: "bool \<Rightarrow> u8 \<Rightarrow> u8 \<Rightarrow> int" where
  "uartgetc uart st d = (if \<not> uart \<or> st AND 1 = 0 then - 1 else uint d)"

definition uartintr ::
  "('a kconsole_scheme \<Rightarrow> ('a kconsole_scheme) kres) \<Rightarrow> bool \<Rightarrow> u8 list \<Rightarrow> 'a kconsole_scheme \<Rightarrow> ('a kconsole_scheme) kres" where
  "uartintr dump uart ds s = consoleintr dump (if uart then map (uartgetc uart 1) ds else []) s"

section \<open>Properties\<close>

lemma lt128: "(x :: u32) < 128 \<longleftrightarrow> take_bit 7 x = x"
proof -
  have "take_bit 7 x = x \<longleftrightarrow> take_bit 7 (unat x) = unat x" by (simp only: word_unat_eq_iff unsigned_take_bit_eq)
  then show ?thesis by (simp add: take_bit_nat_eq_self_iff word_less_nat_alt)
qed

lemma codes_lt128: "take_bit 7 (shiftcode d) = shiftcode d" "take_bit 7 (togglecode d) = togglecode d" "take_bit 7 E0ESC = E0ESC"
  by (simp_all add: shiftcode_def togglecode_def SHIFT_def CTL_def ALT_def CAPSLOCK_def NUMLOCK_def SCROLLLOCK_def E0ESC_def)

lemma rows_range: "list_all (\<lambda>x. 0 \<le> x \<and> x \<le> 255) normal_rows" "list_all (\<lambda>x. 0 \<le> x \<and> x \<le> 255) shift_rows" "list_all (\<lambda>x. 0 \<le> x \<and> x \<le> 255) ctl_rows"
  by code_simp+

lemma special_range: "special_key d \<in> {0..255}"
  by (simp add: special_key_def)

lemma map_range: "normalmap d \<in> {0..255}" "shiftmap d \<in> {0..255}" "ctlmap d \<in> {0..255}"
proof -
  have r: "xs ! k \<in> {0..255}" if "list_all (\<lambda>x. 0 \<le> x \<and> x \<le> 255) xs" "k < length xs" for xs :: "int list" and k
    using that by (simp add: list_all_length)
  show "normalmap d \<in> {0..255}" "shiftmap d \<in> {0..255}" "ctlmap d \<in> {0..255}"
    using r[OF rows_range(1), of "unat d"] r[OF rows_range(2), of "unat d"] r[OF rows_range(3), of "unat d"] special_range[of d]
    unfolding normalmap_def shiftmap_def ctlmap_def by simp_all
qed

lemma kbd_char_range: "- 1 \<le> kbd_char sh d" "kbd_char sh d \<le> 255"
proof -
  define c where "c = (if sh AND (CTL OR SHIFT) = 0 then normalmap d else if sh AND (CTL OR SHIFT) = 1 then shiftmap d else ctlmap d)"
  have "c \<in> {0..255}" using map_range by (simp add: c_def)
  moreover have "kbd_char sh d = (if sh AND CAPSLOCK \<noteq> 0 then if 97 \<le> c \<and> c \<le> 122 then c - 32 else if 65 \<le> c \<and> c \<le> 90 then c + 32 else c else c)"
    unfolding kbd_char_def Let_def c_def ..
  ultimately show "- 1 \<le> kbd_char sh d" "kbd_char sh d \<le> 255" by (auto split: if_splits)
qed



end
