(* ===== verification/Umalloc.thy ===== *)
theory Umalloc
  imports Prelude
begin

text \<open>
  The memory allocator of the user programs (\<^verbatim>\<open>umalloc.c\<close>): a circular list of free blocks, in the order of
  their addresses, first fit from the place where the last search ended, neighbours joined by \<^verbatim>\<open>free\<close>.
  A header is 8 bytes. The system call \<^verbatim>\<open>sbrk\<close> and the address of the static variable \<^verbatim>\<open>base\<close> are
  parameters; the two loops over the list are partial functions and are proved to end.
\<close>

section \<open>Definitions\<close>

record hdr =
  hptr :: u32
  hsize :: u32

record 'k uheap =
  hdrs :: "u32 \<Rightarrow> hdr"
  freep :: u32
  kern :: 'k

definition hdr_upd :: "u32 \<Rightarrow> (hdr \<Rightarrow> hdr) \<Rightarrow> 'k uheap \<Rightarrow> 'k uheap" where
  "hdr_upd a f h = h\<lparr>hdrs := (hdrs h)(a := f (hdrs h a))\<rparr>"

partial_function (option) free_find :: "(u32 \<Rightarrow> hdr) \<Rightarrow> u32 \<Rightarrow> u32 \<Rightarrow> u32 option" where
  "free_find H bp p =
     (if bp > p \<and> bp < hptr (H p) then Some p
      else if p \<ge> hptr (H p) \<and> (bp > p \<or> bp < hptr (H p)) then Some p
      else free_find H bp (hptr (H p)))"

definition free_at :: "u32 \<Rightarrow> u32 \<Rightarrow> 'k uheap \<Rightarrow> 'k uheap" where
  "free_at bp p h =
     (let q = hptr (hdrs h p);
          h1 = (if bp + 8 * hsize (hdrs h bp) = q
                then hdr_upd bp (\<lambda>x. x\<lparr>hsize := hsize x + hsize (hdrs h q), hptr := hptr (hdrs h q)\<rparr>) h
                else hdr_upd bp (\<lambda>x. x\<lparr>hptr := q\<rparr>) h);
          h2 = (if p + 8 * hsize (hdrs h1 p) = bp
                then hdr_upd p (\<lambda>x. x\<lparr>hsize := hsize x + hsize (hdrs h1 bp), hptr := hptr (hdrs h1 bp)\<rparr>) h1
                else hdr_upd p (\<lambda>x. x\<lparr>hptr := bp\<rparr>) h1)
      in h2\<lparr>freep := p\<rparr>)"

definition free :: "u32 \<Rightarrow> 'k uheap \<Rightarrow> 'k uheap option" where
  "free ap h =
     (let bp = ap - 8 in
      case free_find (hdrs h) bp (freep h) of None \<Rightarrow> None | Some p \<Rightarrow> Some (free_at bp p h))"

definition morecore :: "(u32 \<Rightarrow> 'k \<Rightarrow> u32 \<times> 'k) \<Rightarrow> u32 \<Rightarrow> 'k uheap \<Rightarrow> (u32 \<times> 'k uheap) option" where
  "morecore sbrk nu h =
     (let nu = (if nu < 4096 then 4096 else nu); (p, k) = sbrk (nu * 8) (kern h); h1 = h\<lparr>kern := k\<rparr> in
      if p = - 1 then Some (0, h1)
      else case free (p + 8) (hdr_upd p (\<lambda>x. x\<lparr>hsize := nu\<rparr>) h1) of
             None \<Rightarrow> None | Some h2 \<Rightarrow> Some (freep h2, h2))"

definition malloc_take :: "u32 \<Rightarrow> u32 \<Rightarrow> u32 \<Rightarrow> 'k uheap \<Rightarrow> u32 \<times> 'k uheap" where
  "malloc_take nunits prevp p h =
     (if hsize (hdrs h p) = nunits
      then (p + 8, (hdr_upd prevp (\<lambda>x. x\<lparr>hptr := hptr (hdrs h p)\<rparr>) h)\<lparr>freep := prevp\<rparr>)
      else
        let h1 = hdr_upd p (\<lambda>x. x\<lparr>hsize := hsize x - nunits\<rparr>) h; r = p + 8 * hsize (hdrs h1 p) in
        (r + 8, (hdr_upd r (\<lambda>x. x\<lparr>hsize := nunits\<rparr>) h1)\<lparr>freep := prevp\<rparr>))"

partial_function (option) malloc_loop ::
  "(u32 \<Rightarrow> 'k \<Rightarrow> u32 \<times> 'k) \<Rightarrow> u32 \<Rightarrow> u32 \<Rightarrow> u32 \<Rightarrow> 'k uheap \<Rightarrow> (u32 \<times> 'k uheap) option" where
  "malloc_loop sbrk nunits prevp p h =
     (if hsize (hdrs h p) \<ge> nunits then Some (malloc_take nunits prevp p h)
      else if p = freep h then
        (case morecore sbrk nunits h of
           None \<Rightarrow> None
         | Some (p1, h1) \<Rightarrow> if p1 = 0 then Some (0, h1) else malloc_loop sbrk nunits p1 (hptr (hdrs h1 p1)) h1)
      else malloc_loop sbrk nunits p (hptr (hdrs h p)) h)"

definition units :: "u32 \<Rightarrow> u32" where
  "units nbytes = (nbytes + 8 - 1) div 8 + 1"

definition malloc_init :: "u32 \<Rightarrow> 'k uheap \<Rightarrow> 'k uheap" where
  "malloc_init bs h = (if freep h = 0 then (hdr_upd bs (\<lambda>_. \<lparr>hptr = bs, hsize = 0\<rparr>) h)\<lparr>freep := bs\<rparr> else h)"

definition malloc :: "(u32 \<Rightarrow> 'k \<Rightarrow> u32 \<times> 'k) \<Rightarrow> u32 \<Rightarrow> u32 \<Rightarrow> 'k uheap \<Rightarrow> (u32 \<times> 'k uheap) option" where
  "malloc sbrk bs nbytes h =
     (let h1 = malloc_init bs h; prevp = freep h1 in
      malloc_loop sbrk (units nbytes) prevp (hptr (hdrs h1 prevp)) h1)"

section \<open>The list of free blocks\<close>

primrec links :: "(u32 \<Rightarrow> hdr) \<Rightarrow> u32 list \<Rightarrow> u32 \<Rightarrow> bool" where
  "links H [] z \<longleftrightarrow> True"
| "links H (x # xs) z \<longleftrightarrow> hptr (H x) = hd (xs @ [z]) \<and> links H xs z"

definition hend :: "(u32 \<Rightarrow> hdr) \<Rightarrow> u32 \<Rightarrow> nat" where
  "hend H a = unat a + 8 * unat (hsize (H a))"

definition bytes_of :: "(u32 \<Rightarrow> hdr) \<Rightarrow> u32 \<Rightarrow> nat set" where
  "bytes_of H a = {unat a..<hend H a}"

definition free_bytes :: "(u32 \<Rightarrow> hdr) \<Rightarrow> u32 list \<Rightarrow> nat set" where
  "free_bytes H xs = (\<Union>x \<in> set xs. bytes_of H x)"

text \<open>
  The free blocks by address, beginning with the empty block \<^verbatim>\<open>base\<close>. Between two of them there is
  always something: neighbours have been joined.
\<close>

definition blocks_ok :: "u32 \<Rightarrow> (u32 \<Rightarrow> hdr) \<Rightarrow> u32 list \<Rightarrow> bool" where
  "blocks_ok bs H xs \<longleftrightarrow> xs \<noteq> [] \<and> hd xs = bs \<and> bs \<noteq> 0 \<and> hsize (H bs) = 0 \<and> links H xs bs \<and>
     sorted_wrt (\<lambda>a b. hend H a < unat b) xs \<and> (\<forall>x \<in> set xs. hend H x < 2 ^ 32 \<and> (x \<noteq> bs \<longrightarrow> 0 < hsize (H x)))"

definition heap_ok :: "u32 \<Rightarrow> 'k uheap \<Rightarrow> u32 list \<Rightarrow> bool" where
  "heap_ok bs h xs \<longleftrightarrow> blocks_ok bs (hdrs h) xs \<and> freep h \<in> set xs"

lemma links_append: "links H (xs @ ys) z \<longleftrightarrow> links H xs (hd (ys @ [z])) \<and> links H ys z"
  by (induction xs) (auto simp: hd_append)

lemma links_cong: "(\<And>x. x \<in> set xs \<Longrightarrow> hptr (H x) = hptr (G x)) \<Longrightarrow> links H xs z = links G xs z"
  by (induction xs) auto

lemma hend_ge: "unat a \<le> hend H a"
  by (simp add: hend_def)

lemma sorted_strict:
  assumes "sorted_wrt (\<lambda>a b. hend H a < unat b) xs"
  shows "sorted_wrt (<) xs"
  by (rule sorted_wrt_mono_rel[OF _ assms]) (metis hend_ge le_less_trans word_less_nat_alt)

lemma end_word:
  assumes "hend H a < 2 ^ 32"
  shows "unat (a + 8 * hsize (H a)) = hend H a"
proof -
  have "8 * unat (hsize (H a)) < 2 ^ 32" using assms by (simp add: hend_def)
  then have "unat (8 * hsize (H a)) = 8 * unat (hsize (H a))" by (simp add: unat_word_ariths)
  then show ?thesis using assms by (simp add: hend_def unat_word_ariths)
qed

section \<open>Finding the place of a block\<close>

definition stops :: "(u32 \<Rightarrow> hdr) \<Rightarrow> u32 \<Rightarrow> u32 \<Rightarrow> bool" where
  "stops H bp p \<longleftrightarrow> bp > p \<and> bp < hptr (H p) \<or> p \<ge> hptr (H p) \<and> (bp > p \<or> bp < hptr (H p))"

lemma free_find_step: "free_find H bp p = (if stops H bp p then Some p else free_find H bp (hptr (H p)))"
  by (subst free_find.simps) (auto simp: stops_def)

lemma find_skip:
  assumes "links H ys z" "\<forall>y \<in> set ys. \<not> stops H bp y"
  shows "free_find H bp (hd (ys @ [z])) = free_find H bp z"
  using assms
proof (induction ys)
  case (Cons y ys)
  then show ?case by (subst free_find_step) auto
qed simp

lemma links_next: "links H (u @ x # v) z \<Longrightarrow> hptr (H x) = hd (v @ [z])"
  by (simp add: links_append)

text \<open>The last free block before \<open>bp\<close>.\<close>

lemma place_ex:
  assumes "sorted_wrt (<) xs" "xs \<noteq> []" "hd xs < (bp :: u32)" "bp \<notin> set xs"
  obtains us p vs where "xs = us @ p # vs" "p < bp" "\<forall>x \<in> set us. x < p" "\<forall>v \<in> set vs. bp < v"
proof -
  let ?t = "takeWhile (\<lambda>x. x < bp) xs" and ?d = "dropWhile (\<lambda>x. x < bp) xs"
  have t: "?t \<noteq> []" using assms(2,3) by (cases xs) auto
  have "xs = butlast ?t @ last ?t # ?d" using append_butlast_last_id[OF t] by (metis append.assoc append_Cons append_Nil takeWhile_dropWhile_id)
  moreover have "last ?t < bp" using last_in_set[OF t] set_takeWhileD by fastforce
  moreover have "\<forall>x \<in> set (butlast ?t). x < last ?t" using assms(1) calculation(1) by (metis sorted_wrt_append list.set_intros(1))
  moreover have "\<forall>v \<in> set ?d. bp < v"
  proof (cases ?d)
    case (Cons v vs)
    then have "\<not> v < bp" by (metis hd_dropWhile list.sel(1) list.discI)
    moreover have "v \<in> set xs" using Cons by (metis set_dropWhileD list.set_intros(1))
    ultimately have "bp < v" using assms(4) by (metis linorder_neqE)
    moreover have "sorted_wrt (<) (v # vs)" using assms(1) Cons by (metis sorted_wrt_append takeWhile_dropWhile_id)
    ultimately show ?thesis using Cons by auto
  qed (simp only: list.set ball_empty)
  ultimately show thesis by (rule that)
qed

lemma free_find_place:
  assumes l: "links H (us @ p # vs) bs" "hd (us @ p # vs) = bs" and s: "sorted_wrt (<) (us @ p # vs)"
    and bp: "bs < bp" "p < bp" "\<forall>v \<in> set vs. bp < v" and f: "f \<in> set (us @ p # vs)"
  shows "free_find H bp f = Some p"
proof -
  have lu: "links H us p" "links H vs bs" using l(1) by (simp_all add: links_append)
  have h: "hptr (H x) = hd (v @ [p])" if "us = u @ x # v" for u x v using lu(1) that links_next by simp
  have nu: "\<not> stops H bp x" if x: "x \<in> set us" for x
  proof -
    obtain u v where uv: "us = u @ x # v" using split_list[OF x] by blast
    have "hd (v @ [p]) \<in> set (v @ [p])" by (cases v) simp_all
    then have "x < hptr (H x)" "hptr (H x) \<le> p" using h[OF uv] s uv by (auto simp: sorted_wrt_append)
    then show ?thesis using bp(2) by (auto simp: stops_def)
  qed
  have nv: "\<not> stops H bp x" if x: "x \<in> set vs" for x
  proof -
    obtain u v where uv: "vs = u @ x # v" using split_list[OF x] by blast
    have e: "hptr (H x) = hd (v @ [bs])" using lu(2) uv links_next by simp
    show ?thesis using e bp(1,3) s uv by (cases v) (auto simp: stops_def sorted_wrt_append)
  qed
  have sp: "stops H bp p"
  proof (cases vs)
    case Nil
    then have "hptr (H p) = bs" using links_next[OF l(1)] by simp
    moreover have "bs \<le> p" using l(2) s Nil by (cases us) auto
    ultimately show ?thesis using bp by (simp add: stops_def)
  next
    case (Cons v ws)
    then show ?thesis using links_next[OF l(1)] bp by (simp add: stops_def)
  qed
  then have pp: "free_find H bp p = Some p" by (subst free_find_step) simp
  have wrap: "free_find H bp bs = Some p"
    using find_skip[OF lu(1)] nu pp l(2) by (cases us) auto
  consider "f = p" | u v where "us = u @ f # v" | u v where "vs = u @ f # v" using f split_list by fastforce
  then show ?thesis
  proof cases
    case 2
    then have "links H (f # v) p" "\<forall>y \<in> set (f # v). \<not> stops H bp y" using lu(1) nu by (auto simp: links_append)
    from find_skip[OF this] show ?thesis using pp by simp
  next
    case 3
    then have "links H (f # v) bs" "\<forall>y \<in> set (f # v). \<not> stops H bp y" using lu(2) nv by (auto simp: links_append)
    from find_skip[OF this] show ?thesis using wrap by simp
  qed (use pp in simp)
qed

section \<open>Freeing\<close>

definition hdr_end :: "u32 \<Rightarrow> hdr \<Rightarrow> nat" where
  "hdr_end a x = unat a + 8 * unat (hsize x)"

lemma hend_hdr: "hend H a = hdr_end a (H a)"
  by (simp add: hend_def hdr_end_def)

lemma size_add:
  assumes "hdr_end a x = unat b" "hdr_end b y < 2 ^ 32"
  shows "unat (hsize x + hsize y) = unat (hsize x) + unat (hsize y)" "hdr_end a (x\<lparr>hsize := hsize x + hsize y\<rparr>) = hdr_end b y"
proof -
  have "unat (hsize x) + unat (hsize y) < 2 ^ 32" using assms by (simp add: hdr_end_def)
  then show "unat (hsize x + hsize y) = unat (hsize x) + unat (hsize y)" by (simp add: unat_word_ariths)
  then show "hdr_end a (x\<lparr>hsize := hsize x + hsize y\<rparr>) = hdr_end b y" using assms(1) by (simp add: hdr_end_def)
qed

text \<open>The freed block joined with its right neighbour if that follows at once: \<open>B\<close> is its header, \<open>ws\<close> the blocks after it.\<close>

definition joined :: "u32 \<Rightarrow> u32 \<Rightarrow> (u32 \<Rightarrow> hdr) \<Rightarrow> u32 list \<Rightarrow> hdr \<Rightarrow> u32 list \<Rightarrow> bool" where
  "joined bs bp H vs B ws \<longleftrightarrow> hptr B = hd (ws @ [bs]) \<and> hdr_end bp B < 2 ^ 32 \<and> 0 < hsize B \<and> (\<forall>w \<in> set ws. hdr_end bp B < unat w) \<and>
     set ws \<subseteq> set vs \<and> sorted_wrt (\<lambda>a b. hend H a < unat b) ws \<and> links H ws bs \<and>
     {unat bp..<hdr_end bp B} \<union> free_bytes H ws = bytes_of H bp \<union> free_bytes H vs"

lemma join_right:
  assumes q: "q = hd (vs @ [bs])" and l: "links H vs bs" and s: "sorted_wrt (\<lambda>a b. hend H a < unat b) vs" "\<forall>v \<in> set vs. hend H v < 2 ^ 32 \<and> 0 < hsize (H v)"
    and bp: "bs < bp" "0 < hsize (H bp)" "hend H bp < 2 ^ 32" "\<forall>v \<in> set vs. hend H bp \<le> unat v"
  defines "B \<equiv> if bp + 8 * hsize (H bp) = q then (H bp)\<lparr>hsize := hsize (H bp) + hsize (H q), hptr := hptr (H q)\<rparr> else (H bp)\<lparr>hptr := q\<rparr>"
  shows "\<exists>ws. joined bs bp H vs B ws"
proof (cases "bp + 8 * hsize (H bp) = q")
  case True
  then have uq: "hend H bp = unat q" using end_word[OF bp(3)] by simp
  have "q \<noteq> bs" using uq hend_ge[of bp H] bp(1) by (auto simp: word_less_nat_alt)
  then obtain ws where vs: "vs = q # ws" using q by (cases vs) auto
  have q1: "hdr_end q (H q) < 2 ^ 32" using s(2) vs by (simp add: hend_hdr)
  have e1: "hdr_end bp (H bp) = unat q" using uq by (simp only: hend_hdr)
  note S = size_add[OF e1 q1]
  have B: "hptr B = hd (ws @ [bs])" "hdr_end bp B = hend H q" "0 < hsize B"
    using True l vs S bp(2) by (simp_all add: B_def hdr_end_def hend_def word_less_nat_alt)
  have "bytes_of H bp \<union> bytes_of H q = {unat bp..<hend H q}" using uq hend_ge[of bp H] hend_ge[of q H] by (auto simp: bytes_of_def)
  then have "joined bs bp H vs B ws" using B l s vs by (auto simp: joined_def free_bytes_def)
  then show ?thesis ..
next
  case False
  have "hend H bp < unat v" if v: "v \<in> set vs" for v
  proof (cases "v = q")
    case True
    then show ?thesis using bp(4) v False end_word[OF bp(3)] by (metis le_neq_implies_less word_unat_eq_iff)
  next
    case F: False
    then obtain ws where vs: "vs = q # ws" "v \<in> set ws" using v q by (cases vs) auto
    then have "hend H q < unat v" "hend H bp \<le> unat q" using s(1) bp(4) by simp_all
    then show ?thesis using hend_ge[of q H] by linarith
  qed
  then have "joined bs bp H vs B vs" using False q l s bp(2,3) by (simp add: joined_def B_def hend_hdr bytes_of_def hdr_end_def)
  then show ?thesis ..
qed

lemma free_at_hdrs:
  assumes "p \<noteq> bp" "q = hptr (hdrs h p)"
    and "B = (if bp + 8 * hsize (hdrs h bp) = q then (hdrs h bp)\<lparr>hsize := hsize (hdrs h bp) + hsize (hdrs h q), hptr := hptr (hdrs h q)\<rparr> else (hdrs h bp)\<lparr>hptr := q\<rparr>)"
  shows "hdrs (free_at bp p h) = (hdrs h)(bp := B, p := if p + 8 * hsize (hdrs h p) = bp
      then (hdrs h p)\<lparr>hsize := hsize (hdrs h p) + hsize B, hptr := hptr B\<rparr> else (hdrs h p)\<lparr>hptr := bp\<rparr>)"
    and "freep (free_at bp p h) = p" "kern (free_at bp p h) = kern h"
  using assms by (auto simp: free_at_def hdr_upd_def Let_def)

lemma free_bytes_append: "free_bytes H (xs @ ys) = free_bytes H xs \<union> free_bytes H ys" "free_bytes H (x # xs) = bytes_of H x \<union> free_bytes H xs"
  by (auto simp: free_bytes_def)

lemma blocks_okD:
  assumes "blocks_ok bs H (us @ p # vs)"
  shows "sorted_wrt (<) (us @ p # vs)" "links H us p" "links H vs bs" "hptr (H p) = hd (vs @ [bs])" "\<forall>v \<in> set vs. v \<noteq> bs \<and> hend H v < 2 ^ 32 \<and> 0 < hsize (H v)"
    "sorted_wrt (\<lambda>a b. hend H a < unat b) vs" "\<forall>u \<in> set us. hend H u < unat p" "\<forall>u \<in> set us. \<forall>v \<in> set vs. hend H u < unat v"
    "sorted_wrt (\<lambda>a b. hend H a < unat b) us" "p = bs \<or> 0 < hsize (H p)" "hend H p < 2 ^ 32"
proof -
  show s: "sorted_wrt (<) (us @ p # vs)" using assms sorted_strict by (auto simp: blocks_ok_def)
  have "bs = hd (us @ p # vs)" using assms by (simp add: blocks_ok_def)
  then have "bs \<notin> set vs" using s by (cases us) (auto simp: sorted_wrt_append)
  moreover have "\<forall>x \<in> set (us @ p # vs). hend H x < 2 ^ 32 \<and> (x \<noteq> bs \<longrightarrow> 0 < hsize (H x))" using assms unfolding blocks_ok_def by blast
  ultimately show "\<forall>v \<in> set vs. v \<noteq> bs \<and> hend H v < 2 ^ 32 \<and> 0 < hsize (H v)" by (metis in_set_conv_decomp append_Cons append.assoc)
qed (use assms in \<open>auto simp: blocks_ok_def links_append sorted_wrt_append\<close>)

lemma blocks_okI:
  assumes "hd (us @ [p]) = bs" "bs \<noteq> 0" "hsize (G bs) = 0" "links G us p" "hptr (G p) = hd (ws @ [bs])" "links G ws bs"
    and "sorted_wrt (\<lambda>a b. hend G a < unat b) us" "sorted_wrt (\<lambda>a b. hend G a < unat b) ws"
    and "\<forall>u \<in> set us. hend G u < unat p" "\<forall>u \<in> set us. \<forall>w \<in> set ws. hend G u < unat w" "\<forall>w \<in> set ws. hend G p < unat w"
    and "\<forall>x \<in> set us. hend G x < 2 ^ 32 \<and> (x \<noteq> bs \<longrightarrow> 0 < hsize (G x))" "\<forall>x \<in> set ws. hend G x < 2 ^ 32 \<and> (x \<noteq> bs \<longrightarrow> 0 < hsize (G x))"
    and "hend G p < 2 ^ 32" "p \<noteq> bs \<longrightarrow> 0 < hsize (G p)"
  shows "blocks_ok bs G (us @ p # ws)"
proof -
  have "hd (us @ p # ws) = bs" using assms(1) by (cases us) simp_all
  moreover have "links G (us @ p # ws) bs" using assms(4-6) by (simp add: links_append)
  moreover have "sorted_wrt (\<lambda>a b. hend G a < unat b) (us @ p # ws)" using assms(7-11) by (simp add: sorted_wrt_append)
  ultimately show ?thesis unfolding blocks_ok_def using assms(2,3,12-15) by (simp add: ball_Un)
qed

lemma join_left:
  assumes ok: "blocks_ok bs H (us @ p # vs)" and J: "joined bs bp H vs B ws" and bp: "p < bp" "\<forall>v \<in> set vs. bp < v" "hend H p \<le> unat bp"
  defines "P \<equiv> if p + 8 * hsize (H p) = bp then (H p)\<lparr>hsize := hsize (H p) + hsize B, hptr := hptr B\<rparr> else (H p)\<lparr>hptr := bp\<rparr>"
  shows "\<exists>xs. blocks_ok bs (H(bp := B, p := P)) xs \<and> p \<in> set xs \<and>
     free_bytes (H(bp := B, p := P)) xs = free_bytes H (us @ p # vs) \<union> bytes_of H bp"
proof -
  let ?G = "H(bp := B, p := P)"
  note D = blocks_okD[OF ok] and J = J[unfolded joined_def]
  have hb: "hd (us @ [p]) = bs" "bs \<noteq> 0" "hsize (H bs) = 0" using ok by (auto simp: blocks_ok_def hd_append split: if_splits)
  have u: "u \<noteq> p \<and> u \<noteq> bp" if "u \<in> set us" for u using D(1) bp(1) that by (auto simp: sorted_wrt_append)
  have w: "v \<noteq> p \<and> v \<noteq> bp" if "v \<in> set ws" for v using J bp that by (meson less_irrefl less_trans subsetD)
  have fu: "free_bytes ?G us = free_bytes H us" "links ?G us z = links H us z" for z
    using u by (auto simp: free_bytes_def bytes_of_def hend_def intro!: links_cong)
  have fw: "free_bytes ?G ws = free_bytes H ws" "links ?G ws z = links H ws z" for z
    using w by (auto simp: free_bytes_def bytes_of_def hend_def intro!: links_cong)
  have he: "hend ?G x = hend H x" if "x \<in> set us \<union> set ws" for x using that u w by (auto simp: hend_def)
  have su: "sorted_wrt (\<lambda>a b. hend ?G a < unat b) us" "sorted_wrt (\<lambda>a b. hend ?G a < unat b) ws"
    using D(9) J he by (auto elim!: sorted_wrt_mono_rel[rotated])
  have pb: "p \<noteq> bp" using bp(1) by auto
  have nb: "hsize (?G bs) = 0" if "p = bs \<longrightarrow> hsize P = 0"
    using that hb(1,3) u pb bp(1) by (cases us) auto
  have ux: "\<forall>x \<in> set us. hend ?G x < 2 ^ 32 \<and> (x \<noteq> bs \<longrightarrow> 0 < hsize (?G x))"
    using ok he u by (auto simp: blocks_ok_def)
  have wx: "\<forall>x \<in> set ws. hend ?G x < 2 ^ 32 \<and> (x \<noteq> bs \<longrightarrow> 0 < hsize (?G x))"
    using D(5) J he w by auto
  show ?thesis
  proof (cases "p + 8 * hsize (H p) = bp")
    case True
    then have ep: "hdr_end p (H p) = unat bp" using end_word[OF D(11)] by (simp add: hend_hdr)
    have "hdr_end bp B < 2 ^ 32" using J by blast
    note S = size_add[OF ep this]
    have P: "hptr P = hd (ws @ [bs])" "hend ?G p = hdr_end bp B" "0 < hsize P" using True S J by (simp_all add: P_def hend_hdr hdr_end_def word_less_nat_alt)
    have "p \<noteq> bs" using ep hb(3) pb unfolding hdr_end_def by (metis add.right_neutral mult_0_right unat_0 word_unat_eq_iff)
    have "blocks_ok bs ?G (us @ p # ws)"
    proof (rule blocks_okI)
      show "\<forall>w \<in> set ws. hend ?G p < unat w" using P(2) J by simp
      show "\<forall>u \<in> set us. \<forall>w \<in> set ws. hend ?G u < unat w" using he D(8) J by auto
    qed (use hb nb \<open>p \<noteq> bs\<close> P J fu(2) fw(2) D(2) su he D(7) ux wx in simp_all)
    moreover have "bytes_of ?G p = bytes_of H p \<union> {unat bp..<hdr_end bp B}" 
      using P(2) ep hend_ge[of p H] by (auto simp: bytes_of_def hend_hdr hdr_end_def)
    then have "free_bytes ?G (us @ p # ws) = free_bytes H (us @ p # vs) \<union> bytes_of H bp" using fu fw J by (auto simp: free_bytes_append)
    ultimately show ?thesis by (intro exI[of _ "us @ p # ws"]) simp
  next
    case False
    have P: "hptr P = bp" "hend ?G p = hend H p" "hend ?G bp = hdr_end bp B" "hsize P = hsize (H p)" using False pb by (simp_all add: P_def hend_hdr hdr_end_def)
    have lt: "hend H p < unat bp" using bp(3) False end_word[OF D(11)] by (metis le_neq_implies_less word_unat_eq_iff)
    have wl: "unat bp < unat w" if "w \<in> set ws" for w
    proof -
      have "hdr_end bp B < unat w" using J that by blast
      then show ?thesis by (simp add: hdr_end_def)
    qed
    have "blocks_ok bs ?G (us @ p # bp # ws)"
    proof (rule blocks_okI)
      show "\<forall>w \<in> set (bp # ws). hend ?G p < unat w" using P(2) lt wl less_trans by (metis set_ConsD)
      show "\<forall>u \<in> set us. \<forall>w \<in> set (bp # ws). hend ?G u < unat w" using he D(7,8) J bp(1) by (auto simp: word_less_nat_alt)
    qed (use hb nb P J fu(2) fw(2) D(2,10,11) su he D(7) ux wx pb pb[symmetric] in auto)
    moreover have "free_bytes ?G (us @ p # bp # ws) = free_bytes H (us @ p # vs) \<union> bytes_of H bp"
      using fu fw J P by (auto simp: free_bytes_append bytes_of_def)
    ultimately show ?thesis by (intro exI[of _ "us @ p # bp # ws"]) simp
  qed
qed

lemma not_free:
  assumes "blocks_ok bs H xs" "bs < bp" "bytes_of H bp \<inter> free_bytes H xs = {}" "0 < hsize (H bp)"
  shows "bp \<notin> set xs"
proof
  assume "bp \<in> set xs"
  moreover have "unat bp \<in> bytes_of H bp" using assms(4) by (simp add: bytes_of_def hend_def word_less_nat_alt)
  ultimately show False using assms(3) by (auto simp: free_bytes_def)
qed

lemma free_ok:
  assumes h: "heap_ok bs h xs" and bp: "bp = ap - 8" "bs < bp" "0 < hsize (hdrs h bp)" "hend (hdrs h) bp < 2 ^ 32"
    and dj: "bytes_of (hdrs h) bp \<inter> free_bytes (hdrs h) xs = {}"
  obtains h' ys where "free ap h = Some h'" "heap_ok bs h' ys" "free_bytes (hdrs h') ys = free_bytes (hdrs h) xs \<union> bytes_of (hdrs h) bp"
    "kern h' = kern h" "\<forall>a. a \<noteq> bp \<longrightarrow> a \<notin> set xs \<longrightarrow> hdrs h' a = hdrs h a"
proof -
  let ?H = "hdrs h"
  have ok: "blocks_ok bs ?H xs" "freep h \<in> set xs" using h by (simp_all add: heap_ok_def)
  have nx: "bp \<notin> set xs" by (rule not_free[OF ok(1) bp(2) dj bp(3)])
  have xs: "sorted_wrt (<) xs" "xs \<noteq> []" "hd xs = bs" using ok(1) sorted_strict by (auto simp: blocks_ok_def)
  obtain us p vs where uv: "xs = us @ p # vs" "p < bp" "\<forall>x \<in> set us. x < p" "\<forall>v \<in> set vs. bp < v"
    by (rule place_ex[OF xs(1,2) _ nx]) (use xs(3) bp(2) in simp)
  note okx = ok(1)[unfolded uv(1)] and D = blocks_okD[OF ok(1)[unfolded uv(1)]]
  have ff: "free_find ?H bp (freep h) = Some p"
    by (rule free_find_place[OF _ _ D(1) bp(2) uv(2,4)]) (use ok uv(1) in \<open>simp_all add: blocks_ok_def\<close>)
  have ub: "unat bp \<in> bytes_of ?H bp" using bp(3) by (simp add: bytes_of_def hend_def word_less_nat_alt)
  have hp: "hend ?H p \<le> unat bp"
  proof (rule ccontr)
    assume "\<not> hend ?H p \<le> unat bp"
    then have "unat bp \<in> bytes_of ?H p" using uv(2) by (simp add: bytes_of_def word_less_nat_alt)
    then show False using ub dj uv(1) by (auto simp: free_bytes_def)
  qed
  have hv: "hend ?H bp \<le> unat v" if "v \<in> set vs" for v
  proof (rule ccontr)
    assume "\<not> hend ?H bp \<le> unat v"
    then have "unat v \<in> bytes_of ?H bp" using uv(4) that by (auto simp: bytes_of_def word_less_nat_alt intro: less_imp_le)
    moreover have "unat v \<in> bytes_of ?H v" using D(5) that by (simp add: bytes_of_def hend_def word_less_nat_alt)
    ultimately show False using that dj uv(1) by (auto simp: free_bytes_def)
  qed
  have pb: "p \<noteq> bp" using uv(2) by auto
  obtain ws where J: "joined bs bp ?H vs (if bp + 8 * hsize (?H bp) = hptr (?H p) then (?H bp)\<lparr>hsize := hsize (?H bp) + hsize (?H (hptr (?H p))), hptr := hptr (?H (hptr (?H p)))\<rparr> else (?H bp)\<lparr>hptr := hptr (?H p)\<rparr>) ws"
    using join_right[OF D(4,3,6) _ bp(2-4)] D(5) hv by blast
  note F = free_at_hdrs[OF pb refl refl, of h]
  obtain ys where y: "blocks_ok bs (hdrs (free_at bp p h)) ys" "p \<in> set ys" "free_bytes (hdrs (free_at bp p h)) ys = free_bytes ?H xs \<union> bytes_of ?H bp"
    using join_left[OF okx J uv(2,4) hp] unfolding F(1) uv(1) by blast
  have "free ap h = Some (free_at bp p h)" using ff bp(1) by (simp add: free_def Let_def)
  then show thesis using y F uv(1) by (intro that[of "free_at bp p h" ys]) (simp_all add: heap_ok_def)
qed

section \<open>Taking a block\<close>

lemma prev_unique:
  assumes "links H (us @ z # vs) bs" "distinct (us @ z # vs)" "hd us = bs" "us \<noteq> []" "x \<in> set (us @ z # vs)" "hptr (H x) = z"
  shows "x = last us"
proof -
  have b: "bs \<in> set us" using assms(3,4) by (metis hd_in_set)
  consider u v where "us = u @ x # v" | "x = z" | u v where "vs = u @ x # v" using assms(5) split_list by fastforce
  then show ?thesis
  proof cases
    case 1
    then have "z = hd (v @ [z])" using assms(1,6) by (cases v) (simp_all add: links_append)
    then show ?thesis using 1 assms(2) by (cases v) auto
  next
    case 2
    then have "z = hd (vs @ [bs])" using assms(1,6) links_next by auto
    then show ?thesis using assms(2) b by (cases vs) auto
  next
    case 3
    then have "z = hd (v @ [bs])" using assms(1,6) by (cases v) (simp_all add: links_append)
    then show ?thesis using 3 assms(2) b by (cases v) auto
  qed
qed

lemma strict_distinct: "sorted_wrt (<) (xs :: u32 list) \<Longrightarrow> distinct xs"
  by (metis strict_sorted_iff)

text \<open>What is known of a block that has been taken from the free blocks \<open>xs\<close>.\<close>

definition block_taken :: "u32 \<Rightarrow> u32 \<Rightarrow> u32 list \<Rightarrow> 'k uheap \<Rightarrow> u32 \<Rightarrow> 'k uheap \<Rightarrow> bool" where
  "block_taken bs n xs h b h' \<longleftrightarrow> (\<exists>ys. heap_ok bs h' ys \<and> free_bytes (hdrs h') ys = free_bytes (hdrs h) xs - bytes_of (hdrs h') b) \<and>
     hsize (hdrs h' b) = n \<and> bs < b \<and> hend (hdrs h') b < 2 ^ 32 \<and> bytes_of (hdrs h') b \<subseteq> free_bytes (hdrs h) xs \<and> kern h' = kern h \<and>
     (\<forall>a. a \<notin> set xs \<longrightarrow> a \<noteq> b \<longrightarrow> hdrs h' a = hdrs h a)"

lemma bytes_disjoint:
  assumes "sorted_wrt (\<lambda>a b. hend H a < unat b) xs" "x \<in> set xs" "y \<in> set xs" "x \<noteq> y"
  shows "bytes_of H x \<inter> bytes_of H y = {}"
proof -
  have "hend H x < unat y \<or> hend H y < unat x"
    using assms by (induction xs) auto
  then show ?thesis using hend_ge[of x H] hend_ge[of y H] by (auto simp: bytes_of_def)
qed

lemma take_whole:
  assumes ok: "blocks_ok bs (hdrs h) (ts @ p # z # vs)" and n: "hsize (hdrs h z) = n" "0 < n"
  shows "block_taken bs n (ts @ p # z # vs) h z ((hdr_upd p (\<lambda>x. x\<lparr>hptr := hptr (hdrs h z)\<rparr>) h)\<lparr>freep := p\<rparr>)"
proof -
  let ?H = "hdrs h"
  define G where "G = ?H(p := (?H p)\<lparr>hptr := hptr (?H z)\<rparr>)"
  note D = blocks_okD[OF ok]
  have d: "distinct (ts @ p # z # vs)" using strict_distinct[OF D(1)] .
  have hs: "hsize (G a) = hsize (?H a)" "hend G a = hend ?H a" "bytes_of G a = bytes_of ?H a" for a by (simp_all add: G_def hend_def bytes_of_def)
  have s: "sorted_wrt (\<lambda>a b. hend ?H a < unat b) (ts @ p # z # vs)" using ok by (simp add: blocks_ok_def)
  have b: "hd (ts @ [p]) = bs" using ok by (cases ts) (simp_all add: blocks_ok_def)
  have "blocks_ok bs G (ts @ p # vs)"
  proof (rule blocks_okI)
    show "hd (ts @ [p]) = bs" by (rule b)
    show "bs \<noteq> 0" "hsize (G bs) = 0" using ok unfolding hs by (simp_all add: blocks_ok_def)
    show "links G ts p" using D(2) d by (subst links_cong[of _ _ ?H]) (auto simp: G_def)
    show "links G vs bs" using D(3) d by (subst links_cong[of _ _ ?H]) (auto simp: G_def)
    show "hptr (G p) = hd (vs @ [bs])" using D(3) by (simp add: G_def)
    show "\<forall>u \<in> set ts. \<forall>w \<in> set vs. hend G u < unat w" using D(8) by (simp add: hs)
    show "\<forall>w \<in> set vs. hend G p < unat w" using s by (simp add: hs sorted_wrt_append)
    show "\<forall>x \<in> set vs. hend G x < 2 ^ 32 \<and> (x \<noteq> bs \<longrightarrow> 0 < hsize (G x))" using D(5) by (simp add: hs)
    show "\<forall>x \<in> set ts. hend G x < 2 ^ 32 \<and> (x \<noteq> bs \<longrightarrow> 0 < hsize (G x))" using ok unfolding hs by (simp add: blocks_ok_def)
  qed (use D in \<open>auto simp: hs\<close>)
  then have hk: "heap_ok bs ((hdr_upd p (\<lambda>x. x\<lparr>hptr := hptr (?H z)\<rparr>) h)\<lparr>freep := p\<rparr>) (ts @ p # vs)" by (simp add: heap_ok_def hdr_upd_def G_def)
  have "bytes_of ?H z \<inter> bytes_of ?H x = {}" if "x \<in> set (ts @ p # vs)" for x
    by (rule bytes_disjoint[OF s]) (use that d in auto)
  then have "bytes_of ?H z \<inter> free_bytes ?H (ts @ p # vs) = {}" unfolding free_bytes_def by blast
  moreover have "free_bytes G (ts @ p # vs) = free_bytes ?H (ts @ p # vs)" by (simp add: free_bytes_def hs)
  ultimately have fb: "free_bytes G (ts @ p # vs) = free_bytes ?H (ts @ p # z # vs) - bytes_of G z"
    by (auto simp: free_bytes_append hs)
  have zb: "bs < z" using b D(1) by (cases ts) (auto simp: sorted_wrt_append)
  have "bytes_of G z \<subseteq> free_bytes ?H (ts @ p # z # vs)" by (auto simp: hs free_bytes_append)
  then show ?thesis unfolding block_taken_def
    using hk fb zb n D(5) by (intro conjI exI[of _ "ts @ p # vs"]) (simp_all add: hdr_upd_def flip: G_def, simp_all add: hs, simp add: G_def)
qed

lemma take_part:
  assumes ok: "blocks_ok bs (hdrs h) (us @ z # vs)" and n: "n < hsize (hdrs h z)" "0 < n" and pv: "prevp \<in> set (us @ z # vs)"
    and r: "r = z + 8 * (hsize (hdrs h z) - n)"
  shows "block_taken bs n (us @ z # vs) h r ((hdr_upd r (\<lambda>x. x\<lparr>hsize := n\<rparr>) (hdr_upd z (\<lambda>x. x\<lparr>hsize := hsize x - n\<rparr>) h))\<lparr>freep := prevp\<rparr>)"
proof -
  let ?H = "hdrs h"
  define G where "G = ?H(z := (?H z)\<lparr>hsize := hsize (?H z) - n\<rparr>, r := (?H r)\<lparr>hsize := n\<rparr>)"
  note D = blocks_okD[OF ok]
  have s: "sorted_wrt (\<lambda>a b. hend ?H a < unat b) (us @ z # vs)" using ok by (simp add: blocks_ok_def)
  have m: "unat (hsize (?H z) - n) = unat (hsize (?H z)) - unat n" "unat n < unat (hsize (?H z))" "0 < unat n"
    using n unat_sub[of n "hsize (?H z)"] by (simp_all add: word_less_nat_alt word_le_nat_alt)
  have "hend (?H(z := (?H z)\<lparr>hsize := hsize (?H z) - n\<rparr>)) z < 2 ^ 32" using D(11) m by (simp add: hend_def)
  from end_word[OF this] have ur: "unat r = unat z + 8 * (unat (hsize (?H z)) - unat n)" using r m(1) by (simp add: hend_def)
  have rz: "unat z < unat r" "unat r + 8 * unat n = hend ?H z" using ur m by (simp_all add: hend_def)
  have zv: "hend ?H z < unat v" if "v \<in> set vs" for v using s that by (simp add: sorted_wrt_append)
  have rn: "r \<notin> set (us @ z # vs)"
  proof
    assume "r \<in> set (us @ z # vs)"
    then consider "r \<in> set us" | "r = z" | "r \<in> set vs" by auto
    then show False using D(7) rz zv m(3) hend_ge[of r ?H] by cases fastforce+
  qed
  have g: "hend G x = hend ?H x" "hsize (G x) = hsize (?H x)" "bytes_of G x = bytes_of ?H x" if "x \<noteq> z" "x \<noteq> r" for x
    using that by (simp_all add: G_def hend_def bytes_of_def)
  have gz: "hend G z = unat r" "hsize (G z) = hsize (?H z) - n" "hend G r = hend ?H z" "hsize (G r) = n" "hptr (G x) = hptr (?H x)" for x
    using rz ur m(1) by (auto simp: G_def hend_def)
  have u: "x \<noteq> z \<and> x \<noteq> r" if "x \<in> set us \<union> set vs" for x using that strict_distinct[OF D(1)] rn by auto
  have zs: "z \<noteq> bs" using n ok by (auto simp: blocks_ok_def)
  have b: "hd (us @ [z]) = bs" using ok by (cases us) (simp_all add: blocks_ok_def)
  have sr: "sorted_wrt (\<lambda>a b. hend G a < unat b) us" "sorted_wrt (\<lambda>a b. hend G a < unat b) vs"
    using D(6,9) u g(1) by (auto elim!: sorted_wrt_mono_rel[rotated])
  have bu: "bs \<in> set us" using b zs by (cases us) auto
  have "blocks_ok bs G (us @ z # vs)"
  proof (rule blocks_okI[OF b])
    show "bs \<noteq> 0" "hsize (G bs) = 0" using ok u[of bs] bu g(2)[of bs] by (auto simp: blocks_ok_def)
    show "links G us z" "links G vs bs" using D(2,3) links_cong[of us G ?H z] links_cong[of vs G ?H bs] gz(5) by simp_all
    show "\<forall>x \<in> set us. hend G x < 2 ^ 32 \<and> (x \<noteq> bs \<longrightarrow> 0 < hsize (G x))" using ok u g by (auto simp: blocks_ok_def)
    show "\<forall>w \<in> set vs. hend G z < unat w" using zv rz gz(1) by fastforce
    show "z \<noteq> bs \<longrightarrow> 0 < hsize (G z)" using gz(2) m by (simp add: word_less_nat_alt)
    show "hend G z < 2 ^ 32" using gz(1) rz D(11) by simp
  qed (use D u g gz sr in auto)
  then have hk: "heap_ok bs ((hdr_upd r (\<lambda>x. x\<lparr>hsize := n\<rparr>) (hdr_upd z (\<lambda>x. x\<lparr>hsize := hsize x - n\<rparr>) h))\<lparr>freep := prevp\<rparr>) (us @ z # vs)"
    using pv rz by (auto simp: heap_ok_def hdr_upd_def G_def)
  have hG: "hdrs ((hdr_upd r (\<lambda>x. x\<lparr>hsize := n\<rparr>) (hdr_upd z (\<lambda>x. x\<lparr>hsize := hsize x - n\<rparr>) h))\<lparr>freep := prevp\<rparr>) = G"
    using rz by (auto simp: hdr_upd_def G_def)
  have br: "bytes_of G r = {unat r..<hend ?H z}" "bytes_of G z = {unat z..<unat r}" using gz by (simp_all add: bytes_of_def)
  have "bytes_of ?H z \<inter> bytes_of ?H x = {}" if "x \<in> set us \<union> set vs" for x
    by (rule bytes_disjoint[OF s]) (use that u in auto)
  then have dz: "bytes_of G r \<inter> free_bytes ?H (us @ vs) = {}" using rz br(1) unfolding free_bytes_def bytes_of_def by fastforce
  have "free_bytes G (us @ vs) = free_bytes ?H (us @ vs)" using u g(3) by (auto simp: free_bytes_def)
  moreover have "bytes_of ?H z = bytes_of G z \<union> bytes_of G r" "bytes_of G z \<inter> bytes_of G r = {}" using br rz m(3) by (auto simp: bytes_of_def)
  ultimately have fb: "free_bytes G (us @ z # vs) = free_bytes ?H (us @ z # vs) - bytes_of G r" "bytes_of G r \<subseteq> free_bytes ?H (us @ z # vs)"
    using dz by (auto simp: free_bytes_append)
  have bl: "bs < r" using rz bu D(1) by (auto simp: sorted_wrt_append word_less_nat_alt)
  have k: "kern ((hdr_upd r (\<lambda>x. x\<lparr>hsize := n\<rparr>) (hdr_upd z (\<lambda>x. x\<lparr>hsize := hsize x - n\<rparr>) h))\<lparr>freep := prevp\<rparr>) = kern h" by (simp add: hdr_upd_def)
  have un: "\<forall>a. a \<notin> set (us @ z # vs) \<longrightarrow> a \<noteq> r \<longrightarrow> G a = ?H a" by (simp add: G_def)
  have he: "hend G r < 2 ^ 32" using gz(3) D(11) by simp
  show ?thesis unfolding block_taken_def hG k using hk fb gz(4) bl he un by blast
qed

lemma malloc_take_ok:
  assumes h: "heap_ok bs h xs" and z: "z \<in> set xs" "n \<le> hsize (hdrs h z)" "0 < n" and pv: "prevp \<in> set xs" "hptr (hdrs h prevp) = z"
  obtains b h' where "malloc_take n prevp z h = (b + 8, h')" "block_taken bs n xs h b h'"
proof (cases "hsize (hdrs h z) = n")
  case False
  obtain us vs where x: "xs = us @ z # vs" using split_list[OF z(1)] by blast
  have "n < hsize (hdrs h z)" using z(2) False by simp
  then show thesis using take_part[of bs h us z vs n prevp] h z(3) pv(1) False x
    by (intro that) (simp_all add: malloc_take_def heap_ok_def Let_def hdr_upd_def)
next
  case True
  obtain us vs where x: "xs = us @ z # vs" using split_list[OF z(1)] by blast
  have ok: "blocks_ok bs (hdrs h) (us @ z # vs)" using h x by (simp add: heap_ok_def)
  have zb: "z \<noteq> bs" using True z(3) ok by (auto simp: blocks_ok_def)
  have us: "us \<noteq> []" "hd us = bs" using ok zb by (cases us; simp add: blocks_ok_def)+
  have l: "prevp = last us" by (rule prev_unique[of "hdrs h" us z vs bs]) (use ok pv x us strict_distinct[OF blocks_okD(1)[OF ok]] in \<open>simp_all add: blocks_ok_def\<close>)
  then have x': "xs = butlast us @ prevp # z # vs" using x us(1) append_butlast_last_id[OF us(1)] by (metis append.assoc append_Cons append_Nil)
  then show thesis using take_whole[of bs h "butlast us" prevp z vs n] h z(3) True
    by (intro that) (simp_all add: malloc_take_def heap_ok_def)
qed

lemma malloc_loop_fit: "n \<le> hsize (hdrs h p) \<Longrightarrow> malloc_loop sbrk n prevp p h = Some (malloc_take n prevp p h)"
  by (subst malloc_loop.simps) simp

lemma malloc_loop_skip:
  assumes "links (hdrs h) ys z" "\<forall>y \<in> set ys. hsize (hdrs h y) < n \<and> y \<noteq> freep h"
  shows "malloc_loop sbrk n prevp (hd (ys @ [z])) h = malloc_loop sbrk n (last (prevp # ys)) z h"
  using assms
proof (induction ys arbitrary: prevp)
  case (Cons y ys)
  then show ?case by (subst malloc_loop.simps) auto
qed simp

text \<open>The search goes around the whole list, from the block after \<^verbatim>\<open>freep\<close> to \<^verbatim>\<open>freep\<close> itself.\<close>

lemma around:
  assumes "heap_ok bs h xs"
  obtains zs where "set zs = set xs - {freep h}" "distinct (zs @ [freep h])" "links (hdrs h) zs (freep h)" "hptr (hdrs h (freep h)) = hd (zs @ [freep h])"
proof -
  obtain as cs where x: "xs = as @ freep h # cs" using assms split_list by (fastforce simp: heap_ok_def)
  have ok: "blocks_ok bs (hdrs h) (as @ freep h # cs)" using assms x by (simp add: heap_ok_def)
  note D = blocks_okD[OF ok]
  have b: "hd (as @ [freep h]) = bs" using ok by (cases as) (simp_all add: blocks_ok_def)
  have d: "distinct (as @ freep h # cs)" by (rule strict_distinct[OF D(1)])
  show thesis
  proof (rule that[of "cs @ as"])
    show "links (hdrs h) (cs @ as) (freep h)" using D(2,3) b by (simp add: links_append)
    show "hptr (hdrs h (freep h)) = hd ((cs @ as) @ [freep h])" using D(4) b by (cases cs) simp_all
  qed (use d x in auto)
qed

lemma malloc_fit:
  assumes h: "heap_ok bs h xs" and n: "0 < n" "\<exists>x \<in> set xs. n \<le> hsize (hdrs h x)"
  obtains b h' where "malloc_loop sbrk n (freep h) (hptr (hdrs h (freep h))) h = Some (b + 8, h')" "block_taken bs n xs h b h'"
proof -
  let ?H = "hdrs h" and ?f = "freep h"
  obtain zs where zs: "set zs = set xs - {?f}" "distinct (zs @ [?f])" "links ?H zs ?f" "hptr (?H ?f) = hd (zs @ [?f])" by (rule around[OF h])
  have f: "?f \<in> set xs" using h by (simp add: heap_ok_def)
  have "\<exists>x \<in> set (zs @ [?f]). n \<le> hsize (?H x)" using n(2) zs(1) by auto
  then obtain ys z rs where s: "zs @ [?f] = ys @ z # rs" "n \<le> hsize (?H z)" "\<forall>y \<in> set ys. \<not> n \<le> hsize (?H y)"
    using split_list_first_prop[of "zs @ [?f]" "\<lambda>x. n \<le> hsize (?H x)"] by blast
  have nf: "?f \<notin> set ys" using s(1) zs(2) by (cases rs rule: rev_cases) (auto simp: append_eq_append_conv2 append_eq_Cons_conv Cons_eq_append_conv)
  have l: "links ?H ys z"
  proof (cases rs rule: rev_cases)
    case Nil
    then show ?thesis using s(1) zs(3) by simp
  next
    case (snoc r w)
    then have "zs = ys @ z # r" using s(1) by simp
    then show ?thesis using zs(3) by (simp add: links_append)
  qed
  have hd: "hptr (?H ?f) = hd (ys @ [z])" using zs(4) s(1) by (cases ys) simp_all
  have "set (ys @ z # rs) = set xs" using arg_cong[OF s(1), of set] zs(1) insert_absorb[OF f] by simp
  then have zx: "z \<in> set xs" "set ys \<subseteq> set xs" by auto
  have pv: "last (?f # ys) \<in> set xs" using zx(2) f last_in_set[of ys] by auto
  have hp: "hptr (?H (last (?f # ys))) = z"
  proof (cases ys rule: rev_cases)
    case Nil
    then show ?thesis using hd by simp
  next
    case (snoc r w)
    then show ?thesis using l by (simp add: links_append)
  qed
  obtain b h' where "malloc_take n (last (?f # ys)) z h = (b + 8, h')" "block_taken bs n xs h b h'" by (rule malloc_take_ok[OF h zx(1) s(2) n(1) pv hp])
  moreover have "malloc_loop sbrk n ?f (hptr (?H ?f)) h = Some (malloc_take n (last (?f # ys)) z h)"
  proof -
    have "\<forall>y \<in> set ys. hsize (?H y) < n \<and> y \<noteq> ?f" using s(3) nf by (auto simp: not_le)
    from malloc_loop_skip[OF l this] show ?thesis unfolding hd malloc_loop_fit[OF s(2)] .
  qed
  ultimately show thesis using that by simp
qed

section \<open>More memory\<close>

lemma blocks_cong:
  assumes "blocks_ok bs H xs" "\<And>x. x \<in> set xs \<Longrightarrow> G x = H x"
  shows "blocks_ok bs G xs" "free_bytes G xs = free_bytes H xs"
proof -
  have b: "bs \<in> set xs" using assms(1) by (auto simp: blocks_ok_def)
  have e: "hend G x = hend H x" if "x \<in> set xs" for x using assms(2)[OF that] by (simp add: hend_def)
  then show "free_bytes G xs = free_bytes H xs" by (auto simp: free_bytes_def bytes_of_def)
  have "sorted_wrt (\<lambda>a b. hend G a < unat b) xs" using assms(1) e by (auto simp: blocks_ok_def elim!: sorted_wrt_mono_rel[rotated])
  moreover have "links G xs bs" using assms links_cong[of xs G H bs] by (simp add: blocks_ok_def)
  ultimately show "blocks_ok bs G xs" using assms(1) assms(2) assms(2)[OF b] e by (simp add: blocks_ok_def)
qed

lemma block_in_free:
  assumes "blocks_ok bs H xs" "x \<in> set xs" "x \<noteq> bs"
  shows "unat x \<in> free_bytes H xs" "bs < x"
proof -
  have "0 < hsize (H x)" using assms by (simp add: blocks_ok_def)
  then have "unat x \<in> bytes_of H x" by (simp add: bytes_of_def hend_def word_less_nat_alt)
  then show "unat x \<in> free_bytes H xs" using assms(2) by (auto simp: free_bytes_def)
  have "sorted_wrt (<) xs" "hd xs = bs" using assms(1) sorted_strict by (auto simp: blocks_ok_def)
  then show "bs < x" using assms(2,3) by (cases xs) auto
qed

text \<open>A stretch of free bytes lies in one block, because neighbours have been joined.\<close>

lemma one_block:
  assumes ok: "blocks_ok bs H xs" and sub: "{a..<a + 8 * unat n} \<subseteq> free_bytes H xs" "0 < n"
  shows "\<exists>x \<in> set xs. n \<le> hsize (H x)"
proof -
  have n: "0 < unat n" using sub(2) by (simp add: word_less_nat_alt)
  then have "a \<in> free_bytes H xs" using sub(1) by auto
  then obtain y where y: "y \<in> set xs" "unat y \<le> a" "a < hend H y" by (auto simp: free_bytes_def bytes_of_def)
  have "a + 8 * unat n \<le> hend H y"
  proof (rule ccontr)
    assume "\<not> a + 8 * unat n \<le> hend H y"
    then have "hend H y \<in> free_bytes H xs" using sub(1) y(3) by auto
    then obtain z where z: "z \<in> set xs" "unat z \<le> hend H y" "hend H y < hend H z" by (auto simp: free_bytes_def bytes_of_def)
    have s: "sorted_wrt (\<lambda>a b. hend H a < unat b) xs" using ok by (simp add: blocks_ok_def)
    have "z \<noteq> y" using z(3) by auto
    then have "hend H z < unat y \<or> hend H y < unat z" using s z(1) y(1) by (induction xs) auto
    then show False using z(2,3) y(2,3) by linarith
  qed
  then have "unat n \<le> unat (hsize (H y))" using y(2) by (simp add: hend_def)
  then show ?thesis using y(1) by (auto simp: word_le_nat_alt)
qed

text \<open>
  What the allocator relies on: \<^verbatim>\<open>sbrk\<close> either fails or gives new memory above the static data.
  \<open>owned k\<close> is the memory that the process has got from \<^verbatim>\<open>sbrk\<close> so far.
\<close>

definition sbrk_fresh :: "u32 \<Rightarrow> ('k \<Rightarrow> nat set) \<Rightarrow> (u32 \<Rightarrow> 'k \<Rightarrow> u32 \<times> 'k) \<Rightarrow> bool" where
  "sbrk_fresh bs owned sbrk \<longleftrightarrow> (\<forall>m k. let (p, k') = sbrk m k in
     if p = - 1 then owned k' = owned k
     else bs < p \<and> unat p + unat m < 2 ^ 32 \<and> {unat p..<unat p + unat m} \<inter> owned k = {} \<and> owned k' = owned k \<union> {unat p..<unat p + unat m})"

definition grown :: "u32 \<Rightarrow> u32 list \<Rightarrow> 'k uheap \<Rightarrow> nat set \<Rightarrow> u32 list \<Rightarrow> 'k uheap \<Rightarrow> bool" where
  "grown bs xs h new ys h' \<longleftrightarrow> heap_ok bs h' ys \<and> free_bytes (hdrs h') ys = free_bytes (hdrs h) xs \<union> new \<and>
     (\<forall>a. a \<notin> set xs \<longrightarrow> unat a \<notin> new \<longrightarrow> hdrs h' a = hdrs h a)"

lemma morecore_ok:
  assumes h: "heap_ok bs h xs" and sb: "sbrk_fresh bs owned sbrk" and ow: "free_bytes (hdrs h) xs \<subseteq> owned (kern h)" and n: "0 < n" "unat n < 2 ^ 28"
  shows "(\<exists>k. morecore sbrk n h = Some (0, h\<lparr>kern := k\<rparr>) \<and> owned k = owned (kern h)) \<or>
     (\<exists>h' ys new. morecore sbrk n h = Some (freep h', h') \<and> freep h' \<noteq> 0 \<and> grown bs xs h new ys h' \<and> new \<inter> owned (kern h) = {} \<and>
        owned (kern h') = owned (kern h) \<union> new \<and> (\<exists>y \<in> set ys. n \<le> hsize (hdrs h' y)))"
proof -
  define nu where "nu = (if n < 4096 then 4096 else n)"
  have nz: "unat nu < 2 ^ 28" "n \<le> nu" "unat (nu * 8) = 8 * unat nu" using n(2) by (simp_all add: nu_def unat_word_ariths word_less_nat_alt word_le_nat_alt)
  obtain q k where pk: "sbrk (nu * 8) (kern h) = (q, k)" by fastforce
  show ?thesis
  proof (cases "q = - 1")
    case True
    then have "owned k = owned (kern h)" using sb[unfolded sbrk_fresh_def, rule_format, of "nu * 8" "kern h"] pk by simp
    moreover have "morecore sbrk n h = Some (0, h\<lparr>kern := k\<rparr>)" using True pk by (simp add: morecore_def Let_def flip: nu_def)
    ultimately show ?thesis by blast
  next
    case False
    let ?new = "{unat q..<unat q + unat (nu * 8)}"
    have S: "bs < q" "unat q + unat (nu * 8) < 2 ^ 32" "?new \<inter> owned (kern h) = {}" "owned k = owned (kern h) \<union> ?new"
      using sb[unfolded sbrk_fresh_def, rule_format, of "nu * 8" "kern h"] pk False by (simp_all only: Let_def prod.case if_False)
    let ?h1 = "hdr_upd q (\<lambda>x. x\<lparr>hsize := nu\<rparr>) (h\<lparr>kern := k\<rparr>)"
    have "unat q \<in> ?new" using nz(2,3) n(1) by (simp add: word_less_nat_alt word_le_nat_alt)
    then have "unat q \<notin> free_bytes (hdrs h) xs" using S(3) ow by blast
    then have qn: "q \<notin> set xs" using S(1) h block_in_free(1)[of bs "hdrs h" xs q] by (auto simp: heap_ok_def)
    have ok0: "blocks_ok bs (hdrs h) xs" using h by (simp add: heap_ok_def)
    have same: "hdrs ?h1 x = hdrs h x" if "x \<in> set xs" for x using qn that by (auto simp: hdr_upd_def)
    note bl = blocks_cong[of bs "hdrs h" xs "hdrs ?h1", OF ok0 same]
    have h1: "heap_ok bs ?h1 xs" using bl(1) h by (simp add: heap_ok_def hdr_upd_def)
    have bq: "bytes_of (hdrs ?h1) q = ?new" "hend (hdrs ?h1) q < 2 ^ 32" "hsize (hdrs ?h1 q) = nu" using nz(3) S(2) by (simp_all add: bytes_of_def hend_def hdr_upd_def)
    obtain h' ys where f: "free (q + 8) ?h1 = Some h'" "heap_ok bs h' ys" "free_bytes (hdrs h') ys = free_bytes (hdrs ?h1) xs \<union> bytes_of (hdrs ?h1) q"
      "kern h' = kern ?h1" "\<forall>a. a \<noteq> q \<longrightarrow> a \<notin> set xs \<longrightarrow> hdrs h' a = hdrs ?h1 a"
      by (rule free_ok[OF h1 _ S(1) _ bq(2)]) (use bq nz(2) n(1) S(3) ow bl(2) in auto)
    have m: "morecore sbrk n h = Some (freep h', h')" using pk False f(1) by (simp add: morecore_def Let_def flip: nu_def)
    have ok: "blocks_ok bs (hdrs h') ys" "freep h' \<in> set ys" using f(2) by (simp_all add: heap_ok_def)
    have "freep h' = bs \<or> bs < freep h'" "bs \<noteq> 0" using block_in_free(2)[OF ok] ok(1) by (auto simp: blocks_ok_def)
    then have fz: "freep h' \<noteq> 0" by auto
    have "{unat q..<unat q + 8 * unat nu} \<subseteq> free_bytes (hdrs h') ys" using f(3) bq(1) nz(3) by auto
    then obtain y where y: "y \<in> set ys" "nu \<le> hsize (hdrs h' y)" using one_block[OF ok(1)] nz(2) n(1) by (meson less_le_trans)
    have "hdrs h' a = hdrs h a" if "a \<notin> set xs" "unat a \<notin> ?new" for a
    proof -
      have "a \<noteq> q" using that(2) \<open>unat q \<in> ?new\<close> by blast
      then show ?thesis using f(5) that(1) by (simp add: hdr_upd_def)
    qed
    then have "grown bs xs h ?new ys h'" using f(2,3) bl(2) bq(1) by (simp add: grown_def)
    moreover have "\<exists>y \<in> set ys. n \<le> hsize (hdrs h' y)" using y nz(2) order_trans by blast
    ultimately show ?thesis using m fz S(3,4) f(4) by (intro disjI2 exI[of _ h'] exI[of _ ys] exI[of _ ?new]) (auto simp: hdr_upd_def)
  qed
qed

section \<open>Properties\<close>

lemma malloc_init_ok: "bs \<noteq> 0 \<Longrightarrow> unat bs < 2 ^ 32 \<Longrightarrow> freep h = 0 \<Longrightarrow> heap_ok bs (malloc_init bs h) [bs]"
  by (simp add: heap_ok_def malloc_init_def blocks_ok_def hdr_upd_def hend_def)

lemma units_ok:
  assumes "unat nbytes < 2 ^ 30"
  shows "0 < units nbytes" "unat (units nbytes) < 2 ^ 28" "unat nbytes + 8 \<le> 8 * unat (units nbytes)"
proof -
  have "unat (nbytes + 7) = unat nbytes + 7" using assms by (simp add: unat_word_ariths)
  then have u: "unat (units nbytes) = (unat nbytes + 7) div 8 + 1" using assms by (simp add: units_def unat_word_ariths unat_div)
  have "unat nbytes < 1073741824" using assms by simp
  then have "(unat nbytes + 7) div 8 + 1 < 268435456" by linarith
  moreover have "unat nbytes + 8 \<le> 8 * ((unat nbytes + 7) div 8 + 1)" by presburger
  ultimately show "unat (units nbytes) < 2 ^ 28" "unat nbytes + 8 \<le> 8 * unat (units nbytes)" unfolding u by simp_all
  show "0 < units nbytes" using u by (simp add: word_gt_0_no word_less_nat_alt)
qed

lemma malloc_nofit:
  assumes h: "heap_ok bs h xs" and n: "\<forall>x \<in> set xs. hsize (hdrs h x) < n"
  shows "malloc_loop sbrk n (freep h) (hptr (hdrs h (freep h))) h =
     (case morecore sbrk n h of None \<Rightarrow> None
      | Some (p1, h1) \<Rightarrow> if p1 = 0 then Some (0, h1) else malloc_loop sbrk n p1 (hptr (hdrs h1 p1)) h1)"
proof -
  obtain zs where zs: "set zs = set xs - {freep h}" "links (hdrs h) zs (freep h)" "hptr (hdrs h (freep h)) = hd (zs @ [freep h])" by (rule around[OF h])
  have z: "\<forall>y \<in> set zs. hsize (hdrs h y) < n \<and> y \<noteq> freep h" using zs(1) n by auto
  have "\<not> n \<le> hsize (hdrs h (freep h))" using n h by (simp add: heap_ok_def not_le)
  then show ?thesis unfolding zs(3) malloc_loop_skip[OF zs(2) z] by (subst malloc_loop.simps) simp
qed

lemma taken_result:
  assumes h: "heap_ok bs g xs" and t: "block_taken bs n xs g b h'" and n: "0 < n"
  shows "b + 8 \<noteq> 0" "bs < b" "card (bytes_of (hdrs h') b) = 8 * unat n" "bytes_of (hdrs h') b \<subseteq> free_bytes (hdrs g) xs" "kern h' = kern g"
    "a \<noteq> bs \<Longrightarrow> unat a \<notin> free_bytes (hdrs g) xs \<Longrightarrow> hdrs h' a = hdrs g a"
    "\<exists>ys. heap_ok bs h' ys \<and> free_bytes (hdrs h') ys = free_bytes (hdrs g) xs - bytes_of (hdrs h') b"
proof -
  note T = t[unfolded block_taken_def]
  have e: "unat b + 8 * unat n < 2 ^ 32" "0 < unat n" using T n by (auto simp: hend_def word_less_nat_alt)
  then have "unat (b + 8) = unat b + 8" by (simp add: unat_word_ariths)
  then show "b + 8 \<noteq> 0" by auto
  show "bs < b" "bytes_of (hdrs h') b \<subseteq> free_bytes (hdrs g) xs" "kern h' = kern g"
    "\<exists>ys. heap_ok bs h' ys \<and> free_bytes (hdrs h') ys = free_bytes (hdrs g) xs - bytes_of (hdrs h') b" using T by blast+
  show "card (bytes_of (hdrs h') b) = 8 * unat n" using T by (simp add: bytes_of_def hend_def)
  have "unat b \<in> bytes_of (hdrs h') b" using T e(2) by (simp add: bytes_of_def hend_def)
  then have "unat b \<in> free_bytes (hdrs g) xs" using T by blast
  then show "a \<noteq> bs \<Longrightarrow> unat a \<notin> free_bytes (hdrs g) xs \<Longrightarrow> hdrs h' a = hdrs g a"
    using T block_in_free(1)[of bs "hdrs g" xs a] h by (auto simp: heap_ok_def)
qed


text \<open>
  C39. Deallocation. \<^verbatim>\<open>free\<close> of a block that does not overlap the free memory comes to an end from wherever the last search
  stopped. Its bytes are free afterwards, in addition to those that were; the free blocks are in order again with no two
  touching, which takes joining the block with the one before it, the one after it, or both.
\<close>

theorem free_block:
  assumes "heap_ok bs h xs" "bs < ap - 8" "0 < hsize (hdrs h (ap - 8))" "hend (hdrs h) (ap - 8) < 2 ^ 32"
    and "bytes_of (hdrs h) (ap - 8) \<inter> free_bytes (hdrs h) xs = {}"
  shows "\<exists>h' ys. free ap h = Some h' \<and> heap_ok bs h' ys \<and> free_bytes (hdrs h') ys = free_bytes (hdrs h) xs \<union> bytes_of (hdrs h) (ap - 8) \<and>
     kern h' = kern h \<and> (\<forall>a. a \<noteq> ap - 8 \<longrightarrow> a \<notin> set xs \<longrightarrow> hdrs h' a = hdrs h a)"
  by (rule free_ok[OF assms(1) refl assms(2-5)]) blast

section \<open>Examples\<close>

definition demo_sbrk :: "u32 \<Rightarrow> u32 \<Rightarrow> u32 \<times> u32" where
  "demo_sbrk m k = (if 0x4000 \<le> k \<and> unat k + unat m < 2 ^ 31 then (k, k + m) else (- 1, k))"

definition demo_owned :: "u32 \<Rightarrow> nat set" where
  "demo_owned k = {0x4000..<unat k}"

definition demo_heap :: "u32 uheap" where
  "demo_heap = \<lparr>hdrs = (\<lambda>a. \<lparr>hptr = 0, hsize = if a = 0x5000 then 4 else 0\<rparr>), freep = 0, kern = 0x4000\<rparr>"

lemma demo_sbrk_fresh: "sbrk_fresh 0x1000 demo_owned demo_sbrk"
proof -
  have "demo_sbrk m k = (p, k') \<Longrightarrow> if p = - 1 then demo_owned k' = demo_owned k
     else 0x1000 < p \<and> unat p + unat m < 2 ^ 32 \<and> {unat p..<unat p + unat m} \<inter> demo_owned k = {} \<and> demo_owned k' = demo_owned k \<union> {unat p..<unat p + unat m}" for m k p k'
  proof (cases "0x4000 \<le> k \<and> unat k + unat m < 2 ^ 31")
    case True
    assume "demo_sbrk m k = (p, k')"
    then have e: "p = k" "k' = k + m" using True by (auto simp: demo_sbrk_def)
    have "unat (k + m) = unat k + unat m" "0x4000 \<le> unat k" "0x1000 < k" using True by (simp_all add: unat_word_ariths word_le_nat_alt word_less_nat_alt)
    moreover have "unat (- 1 :: u32) = 4294967295" by (simp add: unsigned_minus_1_eq_mask mask_eq_exp_minus_1)
    then have "p \<noteq> - 1" using True e(1) by auto
    ultimately show ?thesis using True e by (auto simp: demo_owned_def)
  qed (auto simp: demo_sbrk_def split: if_splits)
  then show ?thesis by (fastforce simp: sbrk_fresh_def)
qed


theorem free_block_witness:
  "\<exists>h' ys. free 0x5008 (malloc_init 0x1000 demo_heap) = Some h' \<and> heap_ok 0x1000 h' ys \<and> free_bytes (hdrs h') ys = {0x5000..<0x5020}"
proof -
  let ?h = "malloc_init 0x1000 demo_heap"
  have "heap_ok 0x1000 ?h [0x1000]" by (rule malloc_init_ok) (simp_all add: demo_heap_def)
  moreover have "free_bytes (hdrs ?h) [0x1000] = {}" "bytes_of (hdrs ?h) 0x5000 = {0x5000..<0x5020}" "hsize (hdrs ?h 0x5000) = 4" "hend (hdrs ?h) 0x5000 = 0x5020"
    by (simp_all add: free_bytes_def bytes_of_def hend_def malloc_init_def demo_heap_def hdr_upd_def)
  ultimately show ?thesis using free_block[of "0x1000" ?h "[0x1000]" "0x5008"] by auto
qed

end
