(* ===== verification/Spec2Isabelle.thy ===== *)
theory Spec2Isabelle
  imports ConsoleEdit Exec LogTrans PipeQueue SyscallArgs Grep UserTools ShellRun Keyboard Umalloc
begin

text \<open>
  This library models and verifies the xv6 kernel of the Operating System Lab projects and some of
  its user programs, the C sources under \<^verbatim>\<open>src/xv6\<close>. The program is a small multiprocessor Unix. Locks
  protect a table of processes, which a three-level scheduler runs; each process has a page table;
  files live in a file system on a disk, behind a redo log and a cache of blocks; pipes, devices and
  files share one table of open files; system calls reach all of this from user programs.

  \<^bold>\<open>Conventions.\<close> Kernel code is a function from state to \<open>kerr + 'a\<close>: \<open>Inr\<close> the result with the new state, \<open>Inl\<close> the
  way the code does not come back, which is a panic, spinning on a lock that another CPU holds,
  sleeping on a channel, or a fault of the C program. \<open>kbind\<close> sequences such code. Errors that the C code
  reports by a result, such as -1 or a null pointer, are ordinary values. Integers that can wrap are
  words of their C width; indices and sizes that cannot are naturals. Pointers into tables are
  indices, pointers into memory are 32-bit addresses in a byte-addressed memory. Single precision
  arithmetic of the scheduler ranks is a parameter, the record \<open>fpu\<close>.

  The kernel state grows by extensible records in the order in which the components build on each
  other: \<open>kbase\<close> (CPUs, spin locks, memory), \<open>kcons\<close> (serial and screen output), \<open>kphys\<close> (free pages), \<open>pbase\<close> (processes,
  ticks, priority lock), \<open>ksleep\<close> (sleep locks), \<open>kconsole\<close> (line editor), \<open>kshm\<close> (shared pages), \<open>kbio\<close> (buffers and
  disk), \<open>klog\<close> (log), \<open>kfs\<close> (inodes), \<open>kpipe\<close>, \<open>kfile\<close> and \<open>ksys\<close>. An operation is stated for every extension of the record it
  needs, so the operations of the components compose without change.

  \<^bold>\<open>Shared theories.\<close> \<open>Prelude\<close> has the outcomes, lock names, searches in tables and the locale \<open>step_invariant\<close> for
  invariants of transition systems. \<open>Memory\<close> has memory and \<^verbatim>\<open>string.c\<close>; \<open>memmove\<close> is correct for overlapping
  regions.

  \<^bold>\<open>Locks.\<close> \<open>Spinlock\<close> (\<^verbatim>\<open>spinlock.c\<close>) models the interrupt flag, the nesting depth and the atomic exchange. Mutual
  exclusion is proved over all interleavings of CPUs; taking and giving back a lock restores the
  CPU. The relation \<open>core\<close> keeps of a state what lock users see, so that all later components can show that
  they leave the locks as they found them. \<open>Sleeplock\<close> (\<^verbatim>\<open>sleeplock.c\<close>) and \<open>PriorityLock\<close> (\<^verbatim>\<open>prioritylock.c\<close>) follow, the
  latter with its queue as an instance of a priority queue and with mutual exclusion over all
  interleavings.

  \<^bold>\<open>Processes.\<close> \<open>Proc\<close>, \<open>Sched\<close>, \<open>ProcInfo\<close> and \<open>Lifecycle\<close> are \<^verbatim>\<open>proc.c\<close>. Shown are which process each of the three levels
  chooses, the priority between the levels, fairness of round robin, what a process finds when it
  is dispatched, and that \<^verbatim>\<open>sleep\<close> loses no wakeup. The context switch \<^verbatim>\<open>swtch\<close> is a parameter, a function on
  states.

  \<^bold>\<open>Memory management.\<close> \<open>Kalloc\<close> (\<^verbatim>\<open>kalloc.c\<close>) has the free list inside the free pages, with the contract of a page
  allocator as a locale. \<open>Paging\<close>, \<open>AddressSpace\<close> and \<open>AddressCopy\<close> (\<^verbatim>\<open>vm.c\<close>) have page tables in memory; the function \<open>lookup\<close>
  is the translation of the hardware, and \<^verbatim>\<open>mappages\<close>, \<^verbatim>\<open>setupkvm\<close> and \<^verbatim>\<open>copyuvm\<close> are characterised by it. \<open>Shmem\<close> has the
  shared pages.

  \<^bold>\<open>Console.\<close> \<open>Cprintf\<close> has formatted output of the kernel and of the user library, \<open>Console\<close> the screen and the line
  editor, \<open>ConsoleEdit\<close> the proof that the ring buffer with its three counters implements a line with a
  cursor, and the history. \<open>ConsoleDev\<close> has the device, \<^verbatim>\<open>consoleread\<close> and \<^verbatim>\<open>consolewrite\<close>, and \<^verbatim>\<open>panic\<close>: what is typed up to the enter key
  is what the next read returns. \<open>Keyboard\<close> (\<^verbatim>\<open>kbd.c\<close>, \<^verbatim>\<open>uart.c\<close>) has the way from scan codes to characters.

  \<^bold>\<open>Storage.\<close> \<open>Bio\<close> (\<^verbatim>\<open>bio.c\<close>, \<^verbatim>\<open>memide.c\<close>) and \<open>BufCache\<close>: the ring of buffers stays well formed, and the cache with the disk below
  is one array of blocks, \<open>view\<close>. \<open>Log\<close> (\<^verbatim>\<open>log.c\<close>), \<open>LogSafe\<close> and \<open>LogTrans\<close>: every disk write is recorded, so a crash is a prefix of
  the record; recovery after any prefix gives the old or the new contents, and recovery can itself
  be cut off. \<open>Fs\<close> and \<open>FsDir\<close> (\<^verbatim>\<open>fs.c\<close>), \<open>Pipe\<close> (\<^verbatim>\<open>pipe.c\<close>) and \<open>File\<close> (\<^verbatim>\<open>file.c\<close>) are the layers above; \<open>PipeQueue\<close> shows that a pipe is
  a bounded queue across the wrap-around of its counters. \<open>FsBlocks\<close>, \<open>FsFile\<close>, \<open>FsData\<close> and \<open>FsWrite\<close> follow file contents through these
  layers. Inside a transaction \<open>fsview\<close> is what the process sees of the blocks; \<^verbatim>\<open>balloc\<close> takes the first free
  block, \<^verbatim>\<open>bmap\<close> finds or adds the direct and indirect blocks of a file, \<^verbatim>\<open>readi\<close> returns what \<^verbatim>\<open>writei\<close> wrote, and with
  \<^verbatim>\<open>begin_op\<close> and \<^verbatim>\<open>end_op\<close> around it a write survives a crash as a whole or not at all. The file \<open>file_ok\<close> has distinct
  blocks that are marked used; the bitmap lies in one block, which holds for disks of up to 4096
  blocks, the size of the image being 1000.

  \<^bold>\<open>System calls.\<close> \<open>Syscall\<close> (\<^verbatim>\<open>syscall.c\<close>, \<^verbatim>\<open>sysproc.c\<close>), \<open>SyscallArgs\<close>, \<open>SysFile\<close> (\<^verbatim>\<open>sysfile.c\<close>) and \<open>Exec\<close> (\<^verbatim>\<open>exec.c\<close>, \<^verbatim>\<open>trap.c\<close>). Shown is
  that the kernel follows user pointers only inside the memory of the process.

  \<^bold>\<open>User programs.\<close> \<open>Shell\<close>, \<open>ShellParse\<close>, \<open>ShellRound\<close> and \<open>ShellRun\<close> are \<^verbatim>\<open>sh.c\<close>: the parser ends on every line, keeps the words of
  the line intact in the one buffer that holds them, and reads back every command that is written
  in the command language; a typed command starts the programs its structure asks for, each with
  the right descriptors and no others. \<open>Grep\<close> is \<^verbatim>\<open>grep.c\<close> with the language of its patterns; \<open>UserTools\<close> has the
  working parts of \<^verbatim>\<open>wc.c\<close>, \<^verbatim>\<open>cat.c\<close>, \<^verbatim>\<open>strdiff.c\<close>, \<^verbatim>\<open>prio.c\<close> and \<^verbatim>\<open>ls.c\<close>. \<open>Umalloc\<close> (\<^verbatim>\<open>umalloc.c\<close>) is the memory allocator: its circular list of
  free blocks stays sorted and disjoint, blocks that are handed out overlap nothing, and freed blocks merge.

  \<^bold>\<open>Fuel.\<close> Loops that end by themselves are recursive functions with a termination proof. The loop of
  \<^verbatim>\<open>round_robin\<close> is a partial function and is proved to return. Loops that wait for another process
  (\<^verbatim>\<open>acquiresleep\<close>, \<^verbatim>\<open>begin_op\<close>, \<^verbatim>\<open>piperead\<close>, \<^verbatim>\<open>pipewrite\<close>, \<^verbatim>\<open>wait\<close>, \<^verbatim>\<open>sys_sleep\<close>) take the number of times they may go to sleep as a
  parameter; when it is used up the result says that the process still sleeps, as it may in
  reality for ever. The parser of the shell has fuel \<open>4 * n + 4\<close> for a line of length \<open>n\<close>, proved to be enough.

  \<^bold>\<open>Parameters.\<close> Code that is not C, or not in the repository, is a parameter: \<^verbatim>\<open>swtch\<close> and the return to user mode
  (\<^verbatim>\<open>swtch.S\<close>, \<^verbatim>\<open>trapasm.S\<close>), single precision arithmetic, the device entries of \<^verbatim>\<open>devsw\<close>,
  what the keyboard and serial controllers deliver, and \<^verbatim>\<open>sbrk\<close> as the user library sees it.

  \<^bold>\<open>Not modelled.\<close> The boot loader, \<^verbatim>\<open>main.c\<close> and the drivers of the interrupt controllers, and the IDE disk
  (\<^verbatim>\<open>bootmain.c\<close>, \<^verbatim>\<open>lapic.c\<close>, \<^verbatim>\<open>ioapic.c\<close>, \<^verbatim>\<open>picirq.c\<close>, \<^verbatim>\<open>ide.c\<close>, \<^verbatim>\<open>mp.c\<close>) only read and write device registers or tables of
  the firmware; the tool \<^verbatim>\<open>mkfs.c\<close> runs on the host; the test programs and the small user programs
  only call system calls.
\<close>

end
